(* ===== verification/Prelude.thy ===== *)
theory Prelude
  imports Main "HOL-Library.Word" "HOL-Library.Monad_Syntax"
begin

text \<open>
  Shared vocabulary of the development: names for the C integer types, big-endian and
  little-endian readings of byte strings, and the generic lemmas on lists, options and words
  that the component theories use.

  \<^item> \<open>uint8_t\<close>, \<open>uint16_t\<close>, \<open>uint32_t\<close> and \<open>uint64_t\<close> are words of their width, so that
    \<open>+\<close>, \<open>-\<close> and \<open>*\<close> wrap around as they do in C; \<open>size_t\<close> is the 64-bit word of the
    platforms with \<open>OPENSSL_64_BIT\<close> where a computation can overflow, and a \<^typ>\<open>nat\<close> where it
    is only the length of a list.
  \<^item> A byte buffer is a list of bytes.
  \<^item> A function that returns 0 for an error and fills output parameters otherwise returns an
    option; \<open>do\<close> blocks in the option monad follow the early returns.
\<close>

unbundle bit_operations_syntax

type_synonym u8 = "8 word"
type_synonym u16 = "16 word"
type_synonym u32 = "32 word"
type_synonym u64 = "64 word"
type_synonym bytes = "u8 list"

named_theorems cbs_defs \<open>definitions of the parsing routines\<close>
named_theorems byte_simps \<open>facts about bytes and byte strings\<close>

subsection \<open>Options\<close>

lemma bind_eq_Some_iff:
  "Option.bind x f = Some y \<longleftrightarrow> (\<exists>z. x = Some z \<and> f z = Some y)"
  by (cases x) auto

lemma bind_eq_None_iff:
  "Option.bind x f = None \<longleftrightarrow> x = None \<or> (\<exists>z. x = Some z \<and> f z = None)"
  by (cases x) auto

lemmas opt_split = if_splits option.splits prod.splits

subsection \<open>Byte strings as numbers\<close>

text \<open>The big-endian value of a byte string, the meaning of every multi-byte integer on the wire.\<close>

definition be_val :: "bytes \<Rightarrow> nat" where
  "be_val bs = fold (\<lambda>b v. v * 256 + unat b) bs 0"

text \<open>The \<open>n\<close>-byte big-endian encoding of a number, truncated to \<open>n\<close> bytes.\<close>

fun be_bytes :: "nat \<Rightarrow> nat \<Rightarrow> bytes" where
  "be_bytes 0 v = []"
| "be_bytes (Suc n) v = be_bytes n (v div 256) @ [word_of_nat v]"

lemma be_val_Nil [simp]: "be_val [] = 0"
  by (simp add: be_val_def)

lemma be_val_snoc [simp]: "be_val (bs @ [b]) = be_val bs * 256 + unat b"
  by (simp add: be_val_def)

lemma length_be_bytes [simp]: "length (be_bytes n v) = n"
  by (induction n arbitrary: v) auto

lemma unat_lt_256 [simp]: "unat (b :: u8) < 256"
  using unsigned_less [of b] by simp

lemma be_val_lt: "be_val bs < 256 ^ length bs"
proof (induction bs rule: rev_induct)
  case Nil
  then show ?case by simp
next
  case (snoc b bs)
  have "be_val bs * 256 + unat b < be_val bs * 256 + 256"
    by simp
  also have "\<dots> = (be_val bs + 1) * 256"
    by simp
  also have "\<dots> \<le> 256 ^ length bs * 256"
    using snoc by (intro mult_le_mono1) simp
  finally show ?case
    by (simp add: mult.commute)
qed

lemma be_val_be_bytes: "be_val (be_bytes n v) = v mod 256 ^ n"
proof (induction n arbitrary: v)
  case 0
  then show ?case by simp
next
  case (Suc n)
  have "v mod (256 * 256 ^ n) = 256 * (v div 256 mod 256 ^ n) + v mod 256"
    by (rule mod_mult2_eq)
  then show ?case
    using Suc by (simp add: unsigned_of_nat take_bit_eq_mod)
qed

lemma be_val_be_bytes_id: "v < 256 ^ n \<Longrightarrow> be_val (be_bytes n v) = v"
  by (simp add: be_val_be_bytes)

lemma word_of_nat_mult_256_add: "word_of_nat (n * 256 + unat b) = (b :: u8)"
proof -
  have "word_of_nat (n * 256 + unat b) = word_of_nat n * word_of_nat 256 + (b :: u8)"
    by simp
  also have "word_of_nat 256 = (0 :: u8)"
    by (simp add: word_of_nat_eq_0_iff)
  finally show ?thesis by simp
qed

lemma be_bytes_be_val: "be_bytes (length bs) (be_val bs) = bs"
proof (induction bs rule: rev_induct)
  case Nil
  then show ?case by simp
next
  case (snoc b bs)
  have "(be_val bs * 256 + unat b) div 256 = be_val bs"
    by simp
  moreover have "word_of_nat (be_val bs * 256 + unat b) = b"
    by (rule word_of_nat_mult_256_add)
  ultimately show ?case
    using snoc by simp
qed

lemma be_val_inj: "length xs = length ys \<Longrightarrow> be_val xs = be_val ys \<Longrightarrow> xs = ys"
  by (metis be_bytes_be_val)

lemma be_val_append: "be_val (xs @ ys) = be_val xs * 256 ^ length ys + be_val ys"
proof (induction ys rule: rev_induct)
  case Nil
  then show ?case by simp
next
  case (snoc y ys)
  have "be_val (xs @ ys @ [y]) = be_val ((xs @ ys) @ [y])"
    by simp
  also have "\<dots> = be_val (xs @ ys) * 256 + unat y"
    by (rule be_val_snoc)
  also have "\<dots> = (be_val xs * 256 ^ length ys + be_val ys) * 256 + unat y"
    by (simp only: snoc)
  finally show ?case
    by (simp add: algebra_simps)
qed

lemma be_val_Cons: "be_val (x # xs) = unat x * 256 ^ length xs + be_val xs"
  using be_val_append [of "[x]" xs] be_val_snoc [of "[]" x] by simp

subsection \<open>Casts between word widths\<close>

lemma unat_less: "unat w < 2 ^ LENGTH('a)" for w :: "'a::len word"
  by simp

lemma unat_word_of_nat: "n < 2 ^ LENGTH('a) \<Longrightarrow> unat (word_of_nat n :: 'a::len word) = n"
  by (simp add: unsigned_of_nat take_bit_eq_mod)

lemma unat_ucast_mod: "unat (ucast w :: 'b::len word) = unat w mod 2 ^ LENGTH('b)"
  for w :: "'a::len word"
  by (simp add: unsigned_ucast_eq take_bit_eq_mod)

lemma unat_ucast_widen:
  "LENGTH('a) \<le> LENGTH('b) \<Longrightarrow> unat (ucast w :: 'b::len word) = unat w" for w :: "'a::len word"
proof -
  assume le: "LENGTH('a) \<le> LENGTH('b)"
  have "unat w < 2 ^ LENGTH('a)" by simp
  also have "\<dots> \<le> 2 ^ LENGTH('b)"
    using le by (rule power_increasing) simp
  finally show ?thesis
    by (simp add: unat_ucast_mod)
qed

lemma unat_drop_bit: "unat (drop_bit n w) = unat w div 2 ^ n" for w :: "'a::len word"
  by (simp only: unat_drop_bit_eq) (simp only: drop_bit_eq_div)

lemma bit_word_of_nat_iff:
  "bit (word_of_nat n :: 'a::len word) i \<longleftrightarrow> i < LENGTH('a) \<and> bit n i"
  by transfer (simp add: bit_take_bit_iff bit_of_nat_iff_bit)

lemma unat_take_bit: "unat (take_bit n w) = unat w mod 2 ^ n" for w :: "'a::len word"
proof -
  have "unat (take_bit n w) = take_bit n (unat w)"
    by (rule unsigned_take_bit_eq)
  then show ?thesis
    by (simp only: take_bit_eq_mod)
qed

lemma push_bit_or_small:
  fixes v x :: "'a::len word"
  assumes "unat x < 2 ^ n" and "unat v * 2 ^ n + unat x < 2 ^ LENGTH('a)"
  shows "unat (push_bit n v OR x) = unat v * 2 ^ n + unat x"
proof -
  have "push_bit n v AND x = 0"
  proof (rule bit_word_eqI)
    fix i
    have "\<not> bit x i" if "n \<le> i"
    proof -
      have "unat x < 2 ^ i"
        using assms(1) that by (meson less_le_trans one_le_numeral power_increasing)
      then have "unat x div 2 ^ i = 0" by simp
      then have "\<not> bit (unat x) i"
        by (simp only: bit_iff_odd) simp
      then show ?thesis
        by (auto simp: bit_unsigned_iff dest: bit_imp_le_length)
    qed
    then show "bit (push_bit n v AND x) i = bit 0 i"
      by (auto simp: bit_and_iff bit_push_bit_iff)
  qed
  then have "push_bit n v OR x = push_bit n v + x"
    by (simp add: disjunctive_add_eq_or)
  also have "\<dots> = v * 2 ^ n + x"
    by (simp add: push_bit_eq_mult)
  also have "\<dots> = word_of_nat (unat v * 2 ^ n + unat x)"
    by simp
  finally have eq: "push_bit n v OR x = word_of_nat (unat v * 2 ^ n + unat x)" .
  show ?thesis
    unfolding eq using assms(2) by (rule unat_word_of_nat)
qed

subsection \<open>Words built one byte at a time\<close>

text \<open>
  The loops \<open>result = (result << 8) | data[i]\<close> build the big-endian value of the bytes they
  read, modulo the width of the accumulator.
\<close>

lemma push_bit_8_or_byte:
  fixes v :: u64 and b :: u8
  shows "push_bit 8 v OR ucast b = v * 256 + ucast b"
proof -
  have "push_bit 8 v AND ucast b = (0 :: u64)"
    by (rule bit_word_eqI) (auto simp: bit_and_iff bit_push_bit_iff bit_unsigned_iff
        dest: bit_imp_le_length)
  then have "push_bit 8 v + ucast b = push_bit 8 v OR ucast b"
    by (rule disjunctive_add_eq_or)
  then show ?thesis
    by (simp add: push_bit_eq_mult)
qed

end
