(* ===== verification/Internal.thy ===== *)
theory Internal
  imports Prelude
begin

text \<open>
  The utilities of \<open>crypto/internal.h\<close>: constant-time comparison and selection, carry and
  borrow arithmetic, byte swaps, rotations, and loads and stores of sized integers.

  The constant-time functions are written for words of any width, which covers both choices of
  \<open>crypto_word_t\<close>. The compiler barriers \<open>value_barrier_w\<close> return their argument, so they are
  identities here. The portable branch of each \<open>#if\<close> is the one modelled; where two branches
  compute the same value by different means, both are modelled and proved equal.
\<close>

subsection \<open>Constant-time comparison and selection\<close>

definition CONSTTIME_TRUE_W :: "'a::len word" where
  "CONSTTIME_TRUE_W = NOT 0"

definition CONSTTIME_FALSE_W :: "'a::len word" where
  "CONSTTIME_FALSE_W = 0"

definition value_barrier_w :: "'a::len word \<Rightarrow> 'a word" where
  "value_barrier_w a = a"

definition constant_time_msb_w :: "'a::len word \<Rightarrow> 'a word" where
  "constant_time_msb_w a = 0 - drop_bit (LENGTH('a) - 1) a"

definition constant_time_lt_w :: "'a::len word \<Rightarrow> 'a word \<Rightarrow> 'a word" where
  "constant_time_lt_w a b = constant_time_msb_w (a XOR ((a XOR b) OR ((a - b) XOR a)))"

definition constant_time_lt_8 :: "'a::len word \<Rightarrow> 'a word \<Rightarrow> u8" where
  "constant_time_lt_8 a b = ucast (constant_time_lt_w a b)"

definition constant_time_ge_w :: "'a::len word \<Rightarrow> 'a word \<Rightarrow> 'a word" where
  "constant_time_ge_w a b = NOT (constant_time_lt_w a b)"

definition constant_time_ge_8 :: "'a::len word \<Rightarrow> 'a word \<Rightarrow> u8" where
  "constant_time_ge_8 a b = ucast (constant_time_ge_w a b)"

definition constant_time_is_zero_w :: "'a::len word \<Rightarrow> 'a word" where
  "constant_time_is_zero_w a = constant_time_msb_w (NOT a AND (a - 1))"

definition constant_time_is_zero_8 :: "'a::len word \<Rightarrow> u8" where
  "constant_time_is_zero_8 a = ucast (constant_time_is_zero_w a)"

definition constant_time_eq_w :: "'a::len word \<Rightarrow> 'a word \<Rightarrow> 'a word" where
  "constant_time_eq_w a b = constant_time_is_zero_w (a XOR b)"

definition constant_time_eq_8 :: "'a::len word \<Rightarrow> 'a word \<Rightarrow> u8" where
  "constant_time_eq_8 a b = ucast (constant_time_eq_w a b)"

text \<open>An \<open>int\<close> argument is a 32-bit word, sign-extended by the cast to \<open>crypto_word_t\<close>.\<close>

definition constant_time_eq_int :: "u32 \<Rightarrow> u32 \<Rightarrow> u64" where
  "constant_time_eq_int a b = constant_time_eq_w (scast a) (scast b)"

definition constant_time_eq_int_8 :: "u32 \<Rightarrow> u32 \<Rightarrow> u8" where
  "constant_time_eq_int_8 a b = constant_time_eq_8 (scast a :: u64) (scast b)"

definition constant_time_select_w :: "'a::len word \<Rightarrow> 'a word \<Rightarrow> 'a word \<Rightarrow> 'a word" where
  "constant_time_select_w msk a b =
     (let msk = value_barrier_w msk in (msk AND a) OR (NOT msk AND b))"

definition constant_time_select_8 :: "'a::len word \<Rightarrow> u8 \<Rightarrow> u8 \<Rightarrow> u8" where
  "constant_time_select_8 msk a b =
     (let m = ucast (value_barrier_w msk) in (m AND a) OR (NOT m AND b))"

definition constant_time_select_int :: "u64 \<Rightarrow> u32 \<Rightarrow> u32 \<Rightarrow> u32" where
  "constant_time_select_int msk a b = ucast (constant_time_select_w msk (scast a) (scast b))"

text \<open>
  The loops over \<open>dst\<close> and \<open>src\<close>: the first \<open>n\<close> bytes of \<open>dst\<close> are rewritten, the rest is kept.
  The buffers are distinct objects, as the assertion on \<open>buffers_alias\<close> demands.
\<close>

fun constant_time_conditional_memcpy :: "bytes \<Rightarrow> bytes \<Rightarrow> nat \<Rightarrow> 'a::len word \<Rightarrow> bytes" where
  "constant_time_conditional_memcpy (out # dst) (inp # src) (Suc n) msk =
     constant_time_select_8 msk inp out # constant_time_conditional_memcpy dst src n msk"
| "constant_time_conditional_memcpy dst src n msk = dst"

fun constant_time_conditional_memxor :: "bytes \<Rightarrow> bytes \<Rightarrow> nat \<Rightarrow> 'a::len word \<Rightarrow> bytes" where
  "constant_time_conditional_memxor (out # dst) (inp # src) (Suc n) msk =
     (out XOR (ucast (value_barrier_w msk) AND inp))
       # constant_time_conditional_memxor dst src n msk"
| "constant_time_conditional_memxor dst src n msk = dst"

subsubsection \<open>Correctness\<close>

lemma two_power_len: "(2 :: int) ^ LENGTH('a::len) = 2 * 2 ^ (LENGTH('a) - Suc 0)"
  by (metis Suc_pred len_gt_0 power_Suc)

lemma bit_msb_iff_uint:
  fixes a :: "'a::len word"
  shows "bit a (LENGTH('a) - Suc 0) \<longleftrightarrow> 2 ^ (LENGTH('a) - Suc 0) \<le> uint a"
proof -
  have lt: "uint a < 2 * 2 ^ (LENGTH('a) - Suc 0)"
    by (simp flip: two_power_len)
  have "bit a (LENGTH('a) - Suc 0) \<longleftrightarrow> bit (uint a) (LENGTH('a) - Suc 0)"
    by (simp add: bit_uint_iff)
  also have "\<dots> \<longleftrightarrow> odd (uint a div 2 ^ (LENGTH('a) - Suc 0))"
    by (rule bit_iff_odd)
  also have "\<dots> \<longleftrightarrow> 2 ^ (LENGTH('a) - Suc 0) \<le> uint a"
  proof (cases "2 ^ (LENGTH('a) - Suc 0) \<le> uint a")
    case True
    then have "uint a div 2 ^ (LENGTH('a) - Suc 0) = 1"
      using lt by (intro int_div_pos_eq [where r = "uint a - 2 ^ (LENGTH('a) - Suc 0)"]) auto
    with True show ?thesis by simp
  next
    case False
    then show ?thesis by simp
  qed
  finally show ?thesis .
qed

lemma drop_bit_msb:
  fixes a :: "'a::len word"
  shows "drop_bit (LENGTH('a) - Suc 0) a = of_bool (bit a (LENGTH('a) - Suc 0))"
proof (rule bit_word_eqI)
  fix n
  assume "n < LENGTH('a)"
  then show "bit (drop_bit (LENGTH('a) - Suc 0) a) n \<longleftrightarrow> bit (of_bool (bit a (LENGTH('a) - Suc 0)) :: 'a word) n"
    by (cases n) (auto simp: bit_drop_bit_eq bit_1_iff dest: bit_imp_le_length)
qed

lemma constant_time_msb_w_eq:
  fixes a :: "'a::len word"
  shows "constant_time_msb_w a =
    (if bit a (LENGTH('a) - Suc 0) then CONSTTIME_TRUE_W else CONSTTIME_FALSE_W)"
  by (simp add: constant_time_msb_w_def drop_bit_msb CONSTTIME_TRUE_W_def CONSTTIME_FALSE_W_def)

lemma uint_diff_cases:
  fixes a b :: "'a::len word"
  shows "uint (a - b) = (if uint b \<le> uint a then uint a - uint b else 2 ^ LENGTH('a) + uint a - uint b)"
  by (simp add: uint_sub_if')

lemma sub_msb_arith:
  fixes A B P :: int
  assumes "0 \<le> A" "0 \<le> B" "A < 2 * P" "B < 2 * P"
  shows "(P \<le> A) \<noteq> (((P \<le> A) \<noteq> (P \<le> B)) \<or>
     ((P \<le> (if B \<le> A then A - B else 2 * P + A - B)) \<noteq> (P \<le> A))) \<longleftrightarrow> A < B"
  using assms by (cases "B \<le> A"; cases "P \<le> A"; cases "P \<le> B"; simp)

lemma constant_time_lt_w_eq:
  fixes a b :: "'a::len word"
  shows "constant_time_lt_w a b = (if a < b then CONSTTIME_TRUE_W else CONSTTIME_FALSE_W)"
proof -
  let ?n = "LENGTH('a) - Suc 0"
  have lt: "a < b \<longleftrightarrow> uint a < uint b"
    by (rule word_less_def)
  have ub: "uint a < 2 * 2 ^ ?n" "uint b < 2 * 2 ^ ?n"
    by (simp_all flip: two_power_len)
  have nn: "0 \<le> uint a" "0 \<le> uint b"
    by simp_all
  have "bit (a XOR ((a XOR b) OR ((a - b) XOR a))) ?n \<longleftrightarrow>
    bit a ?n \<noteq> ((bit a ?n \<noteq> bit b ?n) \<or> (bit (a - b) ?n \<noteq> bit a ?n))"
    by (simp add: bit_xor_iff bit_or_iff)
  also have "\<dots> \<longleftrightarrow> a < b"
    unfolding bit_msb_iff_uint uint_diff_cases two_power_len lt
    by (rule sub_msb_arith [OF nn ub])
  finally have "bit (a XOR ((a XOR b) OR ((a - b) XOR a))) ?n \<longleftrightarrow> a < b" .
  then show ?thesis
    by (simp add: constant_time_lt_w_def constant_time_msb_w_eq)
qed

lemma constant_time_is_zero_w_eq:
  fixes a :: "'a::len word"
  shows "constant_time_is_zero_w a = (if a = 0 then CONSTTIME_TRUE_W else CONSTTIME_FALSE_W)"
proof -
  let ?n = "LENGTH('a) - Suc 0"
  have "bit (NOT a AND (a - 1)) ?n \<longleftrightarrow> a = 0"
  proof (cases "a = 0")
    case True
    then show ?thesis by simp
  next
    case False
    then have "0 < uint a"
      by (simp add: uint_0_iff order_less_le)
    then have "\<not> (\<not> bit a ?n \<and> bit (a - 1) ?n)"
      unfolding bit_msb_iff_uint uint_diff_cases by (auto split: if_splits)
    then show ?thesis
      using False by (simp add: bit_and_iff bit_not_iff)
  qed
  then show ?thesis
    by (simp add: constant_time_is_zero_w_def constant_time_msb_w_eq)
qed

lemma word_xor_eq_0_iff: "a XOR b = 0 \<longleftrightarrow> a = b" for a b :: "'a::len word"
  by (auto simp: bit_eq_iff bit_xor_iff)

lemma constant_time_eq_w_eq:
  "constant_time_eq_w a b = (if a = b then CONSTTIME_TRUE_W else CONSTTIME_FALSE_W)"
  by (simp add: constant_time_eq_w_def constant_time_is_zero_w_eq word_xor_eq_0_iff)

lemma constant_time_select_w_eq:
  "constant_time_select_w (if c then CONSTTIME_TRUE_W else CONSTTIME_FALSE_W) a b = (if c then a else b)"
  by (simp add: constant_time_select_w_def value_barrier_w_def CONSTTIME_TRUE_W_def
      CONSTTIME_FALSE_W_def)

lemma constant_time_select_8_eq:
  "constant_time_select_8 (if c then CONSTTIME_TRUE_W else CONSTTIME_FALSE_W :: 'a::len word) a b
     = (if c then a else b)" if "8 \<le> LENGTH('a)"
proof -
  have "ucast (- 1 :: 'a word) = (- 1 :: u8)"
    using that by (intro bit_word_eqI) (auto simp: bit_ucast_iff)
  then show ?thesis
    by (simp add: constant_time_select_8_def value_barrier_w_def CONSTTIME_TRUE_W_def
        CONSTTIME_FALSE_W_def)
qed

lemma constant_time_conditional_memcpy_eq:
  assumes "8 \<le> LENGTH('a::len)" and "n \<le> length dst" and "n \<le> length src"
  shows "constant_time_conditional_memcpy dst src n
      (if c then CONSTTIME_TRUE_W else CONSTTIME_FALSE_W :: 'a word)
    = (if c then take n src @ drop n dst else dst)"
  using assms(2,3)
proof (induction dst src n "if c then CONSTTIME_TRUE_W else CONSTTIME_FALSE_W :: 'a word"
    rule: constant_time_conditional_memcpy.induct)
  case (1 out dst inp src n)
  then show ?case
    by (simp add: constant_time_select_8_eq [OF assms(1)])
qed auto

subsection \<open>Carry and borrow arithmetic\<close>

text \<open>
  Each function returns the result and the outgoing carry or borrow. \<open>CRYPTO_addc_u64\<close> has two
  implementations, one on 128-bit integers and one on 64-bit integers alone.
\<close>

definition CRYPTO_addc_u32 :: "u32 \<Rightarrow> u32 \<Rightarrow> u32 \<Rightarrow> u32 \<times> u32" where
  "CRYPTO_addc_u32 x y carry =
     (let ret = (ucast carry :: u64) + (ucast x + ucast y)
      in (ucast ret, ucast (drop_bit 32 ret)))"

definition CRYPTO_addc_u64 :: "u64 \<Rightarrow> u64 \<Rightarrow> u64 \<Rightarrow> u64 \<times> u64" where
  "CRYPTO_addc_u64 x y carry =
     (let ret = (ucast carry :: 128 word) + (ucast x + ucast y)
      in (ucast ret, ucast (drop_bit 64 ret)))"

definition CRYPTO_addc_u64_no_uint128 :: "u64 \<Rightarrow> u64 \<Rightarrow> u64 \<Rightarrow> u64 \<times> u64" where
  "CRYPTO_addc_u64_no_uint128 x y carry =
     (let x = x + carry;
          carry = of_bool (x < carry);
          ret = x + y;
          carry = carry + of_bool (ret < x)
      in (ret, carry))"

definition CRYPTO_subc_u32 :: "u32 \<Rightarrow> u32 \<Rightarrow> u32 \<Rightarrow> u32 \<times> u32" where
  "CRYPTO_subc_u32 x y borrow =
     (x - y - borrow, of_bool (x < y) OR (of_bool (x = y) AND borrow))"

definition CRYPTO_subc_u64 :: "u64 \<Rightarrow> u64 \<Rightarrow> u64 \<Rightarrow> u64 \<times> u64" where
  "CRYPTO_subc_u64 x y borrow =
     (x - y - borrow, of_bool (x < y) OR (of_bool (x = y) AND borrow))"

lemma unat_addc_wide:
  fixes x y carry :: "'a::len word"
  assumes "carry \<le> 1" and "LENGTH('a) + 2 \<le> LENGTH('b)"
  shows "unat ((ucast carry :: 'b::len word) + (ucast x + ucast y))
    = unat carry + (unat x + unat y)"
proof -
  have c: "unat carry \<le> 1"
    using assms(1) by (simp add: word_le_nat_alt)
  have "unat x < 2 ^ LENGTH('a)" "unat y < 2 ^ LENGTH('a)"
    by simp_all
  then have "unat carry + (unat x + unat y) < 4 * 2 ^ LENGTH('a)"
    using c by linarith
  also have "\<dots> = 2 ^ (LENGTH('a) + 2)"
    by (simp add: power_add)
  also have "\<dots> \<le> 2 ^ LENGTH('b)"
    using assms(2) by (rule power_increasing) simp
  finally have lt: "unat carry + (unat x + unat y) < 2 ^ LENGTH('b)" .
  have "unat (ucast w :: 'b word) = unat w" for w :: "'a word"
    using assms(2) by (simp add: unat_ucast_widen)
  then show ?thesis
    using lt by (simp add: unat_word_ariths)
qed

text \<open>Splitting a wide sum into its low word and its carry loses nothing.\<close>

lemma unat_split_wide:
  fixes w :: "'b::len word"
  assumes "unat w div 2 ^ LENGTH('a::len) < 2 ^ LENGTH('a)"
  shows "unat (ucast w :: 'a word) + 2 ^ LENGTH('a) * unat (ucast (drop_bit LENGTH('a) w) :: 'a word)
    = unat w"
  using assms by (simp add: unat_ucast_mod unat_drop_bit)

lemma CRYPTO_addc_u32_val:
  assumes "carry \<le> 1" and "CRYPTO_addc_u32 x y carry = (ret, out_carry)"
  shows "unat ret + 2 ^ 32 * unat out_carry = unat x + unat y + unat carry"
proof -
  define w :: u64 where "w = ucast carry + (ucast x + ucast y)"
  have w: "unat w = unat carry + (unat x + unat y)"
    unfolding w_def by (rule unat_addc_wide [OF assms(1)]) simp
  have "unat w div 2 ^ 32 < 2 ^ 32"
    using unat_less [of w] by (simp add: less_mult_imp_div_less)
  then have "unat (ucast w :: u32) + 2 ^ 32 * unat (ucast (drop_bit 32 w) :: u32) = unat w"
    using unat_split_wide [where 'a = 32, of w] by simp
  moreover have "ret = ucast w" "out_carry = ucast (drop_bit 32 w)"
    using assms(2) by (auto simp: CRYPTO_addc_u32_def Let_def w_def)
  ultimately show ?thesis
    using w by simp
qed

lemma CRYPTO_addc_u64_val:
  assumes "carry \<le> 1" and "CRYPTO_addc_u64 x y carry = (ret, out_carry)"
  shows "unat ret + 2 ^ 64 * unat out_carry = unat x + unat y + unat carry"
proof -
  define w :: "128 word" where "w = ucast carry + (ucast x + ucast y)"
  have w: "unat w = unat carry + (unat x + unat y)"
    unfolding w_def by (rule unat_addc_wide [OF assms(1)]) simp
  have "unat w div 2 ^ 64 < 2 ^ 64"
    using unat_less [of w] by (simp add: less_mult_imp_div_less)
  then have "unat (ucast w :: u64) + 2 ^ 64 * unat (ucast (drop_bit 64 w) :: u64) = unat w"
    using unat_split_wide [where 'a = 64, of w] by simp
  moreover have "ret = ucast w" "out_carry = ucast (drop_bit 64 w)"
    using assms(2) by (auto simp: CRYPTO_addc_u64_def Let_def w_def)
  ultimately show ?thesis
    using w by simp
qed

text \<open>One addition with its wrap-around bit, as the portable branch computes it.\<close>

lemma wrap_arith:
  fixes X Y P :: nat
  assumes "X < P" "Y < P"
  defines "S \<equiv> (if X + Y < P then X + Y else X + Y - P)"
  shows "S + P * of_bool (S < Y) = X + Y" and "S + P * of_bool (S < X) = X + Y"
  using assms by (auto simp: S_def)

lemma word_add_overflow_val:
  fixes x y :: "'a::len word"
  shows "unat (x + y) + 2 ^ LENGTH('a) * of_bool (x + y < y) = unat x + unat y"
    and "unat (x + y) + 2 ^ LENGTH('a) * of_bool (x + y < x) = unat x + unat y"
  unfolding word_less_nat_alt unat_plus_if' by (rule wrap_arith; simp)+

lemma CRYPTO_addc_u64_no_uint128_val:
  assumes "carry \<le> 1" and "CRYPTO_addc_u64_no_uint128 x y carry = (ret, out_carry)"
  shows "unat ret + 2 ^ 64 * unat out_carry = unat x + unat y + unat carry"
proof -
  define x' where "x' = x + carry"
  let ?c = "of_bool (x' < carry) :: u64" and ?d = "of_bool (x' + y < x') :: u64"
  have ret: "ret = x' + y" and out: "out_carry = ?c + ?d"
    using assms(2) by (auto simp: CRYPTO_addc_u64_no_uint128_def Let_def x'_def)
  have "unat x' + 2 ^ 64 * of_bool (x' < carry) = unat x + unat carry"
    unfolding x'_def using word_add_overflow_val(1) [of x carry] by simp
  moreover have "unat ret + 2 ^ 64 * of_bool (x' + y < x') = unat x' + unat y"
    unfolding ret using word_add_overflow_val(2) [of x' y] by simp
  moreover have "unat out_carry = of_bool (x' < carry) + of_bool (x' + y < x')"
    unfolding out by (cases "x' < carry"; cases "x' + y < x'") simp_all
  ultimately show ?thesis
    by simp
qed

text \<open>A number below \<open>2 ^ w\<close> and a multiple of \<open>2 ^ w\<close> are determined by their sum.\<close>

lemma word_pair_eqI:
  fixes r r' c c' :: "'a::len word"
  assumes "unat r + 2 ^ LENGTH('a) * unat c = unat r' + 2 ^ LENGTH('a) * unat c'"
  shows "r = r'" and "c = c'"
proof -
  have "unat r = (unat r + 2 ^ LENGTH('a) * unat c) mod 2 ^ LENGTH('a)"
    by simp
  also have "\<dots> = unat r'"
    by (simp add: assms)
  finally show r: "r = r'"
    by (simp add: word_unat_eq_iff)
  show "c = c'"
    using assms by (simp add: r word_unat_eq_iff)
qed

lemma CRYPTO_subc_u64_val:
  assumes "borrow \<le> 1" and "CRYPTO_subc_u64 x y borrow = (ret, out_borrow)"
  shows "unat ret + unat y + unat borrow = unat x + 2 ^ 64 * unat out_borrow"
    and "out_borrow \<le> 1"
proof -
  have b: "borrow = 0 \<or> borrow = 1"
    using assms(1) by (auto simp: word_le_nat_alt le_Suc_eq word_unat_eq_iff)
  have lt: "unat x < 2 ^ 64" "unat y < 2 ^ 64"
    using unat_less [of x] unat_less [of y] by simp_all
  have ret: "ret = x - (y + borrow)"
    and out: "out_borrow = of_bool (x < y \<or> x = y \<and> borrow = 1)"
    using assms(2) b by (auto simp: CRYPTO_subc_u64_def)
  have add: "unat (y + borrow) = (if unat y + unat borrow < 2 ^ 64 then unat y + unat borrow
      else unat y + unat borrow - 2 ^ 64)"
    using unat_plus_if' [of y borrow] by simp
  have sub: "unat ret = (if unat (y + borrow) \<le> unat x then unat x - unat (y + borrow)
      else unat x + 2 ^ 64 - unat (y + borrow))"
    unfolding ret using unat_sub_if' [of x "y + borrow"] by simp
  show "unat ret + unat y + unat borrow = unat x + 2 ^ 64 * unat out_borrow"
    using b lt by (auto simp: sub add out word_less_nat_alt word_unat_eq_iff split: if_splits)
  show "out_borrow \<le> 1"
    by (simp add: out)
qed

subsection \<open>Byte swaps and rotations\<close>

definition CRYPTO_bswap2 :: "u16 \<Rightarrow> u16" where
  "CRYPTO_bswap2 x = drop_bit 8 x OR push_bit 8 x"

definition CRYPTO_bswap4 :: "u32 \<Rightarrow> u32" where
  "CRYPTO_bswap4 x =
     (let x = drop_bit 16 x OR push_bit 16 x
      in drop_bit 8 (x AND 0xff00ff00) OR push_bit 8 (x AND 0x00ff00ff))"

definition CRYPTO_bswap8 :: "u64 \<Rightarrow> u64" where
  "CRYPTO_bswap8 x =
     ucast (CRYPTO_bswap4 (ucast (drop_bit 32 x))) OR push_bit 32 (ucast (CRYPTO_bswap4 (ucast x)))"

text \<open>\<open>shift\<close> is below the width; \<open>(-shift) & 31\<close> is then \<open>(32 - shift) mod 32\<close>.\<close>

definition CRYPTO_rotl_u32 :: "u32 \<Rightarrow> nat \<Rightarrow> u32" where
  "CRYPTO_rotl_u32 v shift = push_bit shift v OR drop_bit ((32 - shift) mod 32) v"

definition CRYPTO_rotr_u32 :: "u32 \<Rightarrow> nat \<Rightarrow> u32" where
  "CRYPTO_rotr_u32 v shift = drop_bit shift v OR push_bit ((32 - shift) mod 32) v"

definition CRYPTO_rotl_u64 :: "u64 \<Rightarrow> nat \<Rightarrow> u64" where
  "CRYPTO_rotl_u64 v shift = push_bit shift v OR drop_bit ((64 - shift) mod 64) v"

definition CRYPTO_rotr_u64 :: "u64 \<Rightarrow> nat \<Rightarrow> u64" where
  "CRYPTO_rotr_u64 v shift = drop_bit shift v OR push_bit ((64 - shift) mod 64) v"

lemma CRYPTO_rotl_u32_rotr: "shift < 32 \<Longrightarrow> CRYPTO_rotr_u32 (CRYPTO_rotl_u32 v shift) shift = v"
proof (rule bit_word_eqI)
  fix n
  assume "shift < 32" and "n < LENGTH(32)"
  moreover from this have "32 \<le> n + shift \<Longrightarrow> 32 + (n + shift - 32) - shift = n"
    by arith
  ultimately show "bit (CRYPTO_rotr_u32 (CRYPTO_rotl_u32 v shift) shift) n \<longleftrightarrow> bit v n"
    by (cases "shift = 0"; cases "n + shift < 32")
      (auto simp: CRYPTO_rotl_u32_def CRYPTO_rotr_u32_def bit_or_iff bit_push_bit_iff
        bit_drop_bit_eq add.commute dest: bit_imp_le_length)
qed

lemma CRYPTO_rotl_u64_rotr: "shift < 64 \<Longrightarrow> CRYPTO_rotr_u64 (CRYPTO_rotl_u64 v shift) shift = v"
proof (rule bit_word_eqI)
  fix n
  assume "shift < 64" and "n < LENGTH(64)"
  moreover from this have "64 \<le> n + shift \<Longrightarrow> 64 + (n + shift - 64) - shift = n"
    by arith
  ultimately show "bit (CRYPTO_rotr_u64 (CRYPTO_rotl_u64 v shift) shift) n \<longleftrightarrow> bit v n"
    by (cases "shift = 0"; cases "n + shift < 64")
      (auto simp: CRYPTO_rotl_u64_def CRYPTO_rotr_u64_def bit_or_iff bit_push_bit_iff
        bit_drop_bit_eq add.commute dest: bit_imp_le_length)
qed

subsection \<open>Loads and stores\<close>

text \<open>
  \<open>memcpy\<close> between an integer object and memory, on the little-endian platforms BoringSSL
  supports: the first byte in memory is the least significant one.
\<close>

definition mem_to_word :: "bytes \<Rightarrow> 'a::len word" where
  "mem_to_word bs = word_of_nat (be_val (rev bs))"

definition word_to_mem :: "'a::len word \<Rightarrow> bytes" where
  "word_to_mem w = rev (be_bytes (LENGTH('a) div 8) (unat w))"

definition CRYPTO_load_u16_be :: "bytes \<Rightarrow> u16" where
  "CRYPTO_load_u16_be inp = CRYPTO_bswap2 (mem_to_word (take 2 inp))"

definition CRYPTO_store_u16_be :: "u16 \<Rightarrow> bytes" where
  "CRYPTO_store_u16_be v = word_to_mem (CRYPTO_bswap2 v)"

definition CRYPTO_load_u32_le :: "bytes \<Rightarrow> u32" where
  "CRYPTO_load_u32_le inp = mem_to_word (take 4 inp)"

definition CRYPTO_store_u32_le :: "u32 \<Rightarrow> bytes" where
  "CRYPTO_store_u32_le v = word_to_mem v"

definition CRYPTO_load_u32_be :: "bytes \<Rightarrow> u32" where
  "CRYPTO_load_u32_be inp = CRYPTO_bswap4 (mem_to_word (take 4 inp))"

definition CRYPTO_store_u32_be :: "u32 \<Rightarrow> bytes" where
  "CRYPTO_store_u32_be v = word_to_mem (CRYPTO_bswap4 v)"

definition CRYPTO_load_u64_le :: "bytes \<Rightarrow> u64" where
  "CRYPTO_load_u64_le inp = mem_to_word (take 8 inp)"

definition CRYPTO_store_u64_le :: "u64 \<Rightarrow> bytes" where
  "CRYPTO_store_u64_le v = word_to_mem v"

definition CRYPTO_load_u64_be :: "bytes \<Rightarrow> u64" where
  "CRYPTO_load_u64_be inp = CRYPTO_bswap8 (mem_to_word (take 8 inp))"

definition CRYPTO_store_u64_be :: "u64 \<Rightarrow> bytes" where
  "CRYPTO_store_u64_be v = word_to_mem (CRYPTO_bswap8 v)"

lemma bit_be_val_rev:
  "bit (be_val (rev bs)) i \<longleftrightarrow> i < 8 * length bs \<and> bit (bs ! (i div 8)) (i mod 8)"
proof (induction bs arbitrary: i)
  case Nil
  then show ?case by simp
next
  case (Cons b bs)
  have v: "be_val (rev (b # bs)) = push_bit 8 (be_val (rev bs)) OR unat b"
  proof -
    have "push_bit 8 (be_val (rev bs)) AND unat b = 0"
      by (rule bit_eqI) (auto simp: bit_and_iff bit_push_bit_iff bit_unsigned_iff
          dest: bit_imp_le_length)
    then have "push_bit 8 (be_val (rev bs)) + unat b = push_bit 8 (be_val (rev bs)) OR unat b"
      by (rule disjunctive_add_eq_or)
    then show ?thesis
      by (simp add: push_bit_eq_mult)
  qed
  show ?case
  proof (cases "i < 8")
    case True
    then show ?thesis
      unfolding v by (simp add: bit_or_iff bit_push_bit_iff bit_unsigned_iff)
  next
    case False
    then obtain j where j: "i = j + 8"
      using le_Suc_ex [of 8 i] by (auto simp: add.commute)
    have "\<not> bit b i"
      using False by (auto dest: bit_imp_le_length)
    then show ?thesis
      unfolding v by (simp add: j bit_or_iff bit_push_bit_iff bit_unsigned_iff Cons div_add_self2)
  qed
qed

lemma bit_mem_to_word:
  "bit (mem_to_word bs :: 'a::len word) i \<longleftrightarrow>
    i < LENGTH('a) \<and> i < 8 * length bs \<and> bit (bs ! (i div 8)) (i mod 8)"
  by (simp add: mem_to_word_def bit_be_val_rev bit_word_of_nat_iff)

lemma mem_to_word_rev_eqI:
  fixes w :: "'a::len word"
  assumes "8 * length bs = LENGTH('a)"
    and "\<And>i. i < LENGTH('a) \<Longrightarrow> bit w i \<longleftrightarrow> bit (bs ! (length bs - Suc (i div 8))) (i mod 8)"
  shows "w = word_of_nat (be_val bs)"
proof (rule bit_word_eqI)
  fix i
  assume i: "i < LENGTH('a)"
  then have "i div 8 < length bs"
    using assms(1) by (simp add: less_mult_imp_div_less mult.commute)
  moreover have "bit (word_of_nat (be_val bs) :: 'a word) i \<longleftrightarrow>
    bit (be_val (rev (rev bs))) i"
    using i by (simp add: bit_word_of_nat_iff)
  ultimately show "bit w i \<longleftrightarrow> bit (word_of_nat (be_val bs) :: 'a word) i"
    using i assms unfolding bit_be_val_rev by (simp add: rev_nth)
qed

text \<open>At the level of bits, a byte swap reverses the bytes and keeps the bits inside each.\<close>

lemma bit_word_beyond: "LENGTH('a) \<le> n \<Longrightarrow> \<not> bit w n" for w :: "'a::len word"
  by (auto dest: bit_imp_le_length)

lemma byte_index_div: "j < 8 \<Longrightarrow> (8 * k + j) div 8 = (k :: nat)"
  and byte_index_mod: "j < 8 \<Longrightarrow> (8 * k + j) mod 8 = (j :: nat)"
  by simp_all

lemma bit_0xff00ff00: "i < 32 \<Longrightarrow> bit (0xff00ff00 :: u32) i \<longleftrightarrow> odd (i div 8)"
  and bit_0x00ff00ff: "i < 32 \<Longrightarrow> bit (0x00ff00ff :: u32) i \<longleftrightarrow> even (i div 8)"
proof -
  have "\<forall>i \<in> set [0..<32]. bit (0xff00ff00 :: u32) i \<longleftrightarrow> odd (i div 8)"
    and "\<forall>i \<in> set [0..<32]. bit (0x00ff00ff :: u32) i \<longleftrightarrow> even (i div 8)"
    by code_simp+
  then show "i < 32 \<Longrightarrow> bit (0xff00ff00 :: u32) i \<longleftrightarrow> odd (i div 8)"
    and "i < 32 \<Longrightarrow> bit (0x00ff00ff :: u32) i \<longleftrightarrow> even (i div 8)"
    by simp_all
qed

lemma bit_CRYPTO_bswap2:
  assumes "j < 8" "k < 2"
  shows "bit (CRYPTO_bswap2 x) (8 * k + j) \<longleftrightarrow> bit x (8 * (1 - k) + j)"
  using assms
  by (auto simp: CRYPTO_bswap2_def bit_or_iff bit_drop_bit_eq bit_push_bit_iff less_2_cases_iff
      bit_word_beyond)

lemma less_4_cases: "k < 4 \<longleftrightarrow> k = 0 \<or> k = 1 \<or> k = 2 \<or> k = (3 :: nat)"
  by arith

lemma bit_CRYPTO_bswap4:
  assumes "j < 8" "k < 4"
  shows "bit (CRYPTO_bswap4 x) (8 * k + j) \<longleftrightarrow> bit x (8 * (3 - k) + j)"
proof -
  have "j div 8 = 0" "(8 + j) div 8 = 1" "(16 + j) div 8 = 2" "(24 + j) div 8 = 3"
    using assms(1) by arith+
  then have masks: "\<not> bit (0xff00ff00 :: u32) j" "bit (0xff00ff00 :: u32) (8 + j)"
    "\<not> bit (0xff00ff00 :: u32) (16 + j)" "bit (0xff00ff00 :: u32) (24 + j)"
    "bit (0x00ff00ff :: u32) j" "\<not> bit (0x00ff00ff :: u32) (8 + j)"
    "bit (0x00ff00ff :: u32) (16 + j)" "\<not> bit (0x00ff00ff :: u32) (24 + j)"
    using assms(1) bit_0xff00ff00 [of j] bit_0xff00ff00 [of "8 + j"] bit_0xff00ff00 [of "16 + j"]
      bit_0xff00ff00 [of "24 + j"] bit_0x00ff00ff [of j] bit_0x00ff00ff [of "8 + j"]
      bit_0x00ff00ff [of "16 + j"] bit_0x00ff00ff [of "24 + j"] by auto
  show ?thesis
    using assms unfolding less_4_cases
    by (elim disjE)
      (auto simp: CRYPTO_bswap4_def Let_def bit_or_iff bit_and_iff bit_drop_bit_eq bit_push_bit_iff
        masks bit_word_beyond simp del: bit_numeral_word_iff)
qed

lemma bit_CRYPTO_bswap8:
  assumes "j < 8" "k < 8"
  shows "bit (CRYPTO_bswap8 x) (8 * k + j) \<longleftrightarrow> bit x (8 * (7 - k) + j)"
proof (cases "k < 4")
  case True
  then have "bit (CRYPTO_bswap8 x) (8 * k + j) \<longleftrightarrow>
    bit (CRYPTO_bswap4 (ucast (drop_bit 32 x))) (8 * k + j)"
    using assms by (auto simp: CRYPTO_bswap8_def bit_or_iff bit_push_bit_iff bit_ucast_iff)
  also have "\<dots> \<longleftrightarrow> bit x (32 + (8 * (3 - k) + j))"
    using assms True
    by (simp add: bit_CRYPTO_bswap4 bit_ucast_iff bit_drop_bit_eq) (auto dest: bit_imp_le_length)
  also have "32 + (8 * (3 - k) + j) = 8 * (7 - k) + j"
    using True by arith
  finally show ?thesis .
next
  case False
  then obtain l where l: "k = l + 4"
    using le_Suc_ex [of 4 k] by (auto simp: add.commute)
  then have lt: "l < 4"
    using assms(2) by simp
  have "bit (CRYPTO_bswap8 x) (8 * k + j) \<longleftrightarrow> bit (CRYPTO_bswap4 (ucast x)) (8 * l + j)"
    using assms lt by (auto simp: CRYPTO_bswap8_def bit_or_iff bit_push_bit_iff bit_ucast_iff l
        bit_word_beyond)
  also have "\<dots> \<longleftrightarrow> bit x (8 * (3 - l) + j)"
    using assms lt by (simp add: bit_CRYPTO_bswap4 bit_ucast_iff) arith
  finally show ?thesis
    by (simp add: l)
qed

lemma swap_mem_to_word:
  fixes w :: "'a::len word"
  assumes "8 * length bs = LENGTH('a)"
    and "\<And>j k. j < 8 \<Longrightarrow> k < length bs \<Longrightarrow>
      bit w (8 * k + j) \<longleftrightarrow> bit (mem_to_word bs :: 'a word) (8 * (length bs - 1 - k) + j)"
  shows "w = word_of_nat (be_val bs)"
proof (rule mem_to_word_rev_eqI [OF assms(1)])
  fix i
  assume i: "i < LENGTH('a)"
  define k j where "k = i div 8" and "j = i mod 8"
  have ij: "i = 8 * k + j" "j < 8" "k < length bs"
    using i by (auto simp: k_def j_def less_mult_imp_div_less simp flip: assms(1))
  then have "8 * (length bs - 1 - k) + j < 8 * length bs"
    by arith
  then show "bit w i \<longleftrightarrow> bit (bs ! (length bs - Suc (i div 8))) (i mod 8)"
    using ij assms(2) [of j k] by (simp add: bit_mem_to_word flip: assms(1))
qed

lemma CRYPTO_load_be:
  shows "2 \<le> length bs \<Longrightarrow> CRYPTO_load_u16_be bs = word_of_nat (be_val (take 2 bs))"
    and "4 \<le> length bs \<Longrightarrow> CRYPTO_load_u32_be bs = word_of_nat (be_val (take 4 bs))"
    and "8 \<le> length bs \<Longrightarrow> CRYPTO_load_u64_be bs = word_of_nat (be_val (take 8 bs))"
  unfolding CRYPTO_load_u16_be_def CRYPTO_load_u32_be_def CRYPTO_load_u64_be_def
  by (rule swap_mem_to_word; simp add: bit_CRYPTO_bswap2 bit_CRYPTO_bswap4 bit_CRYPTO_bswap8)+

lemma length_word_to_mem [simp]: "length (word_to_mem (w :: 'a::len word)) = LENGTH('a) div 8"
  by (simp add: word_to_mem_def)

lemma mem_to_word_word_to_mem:
  fixes w :: "'a::len word"
  assumes "8 dvd LENGTH('a)"
  shows "mem_to_word (word_to_mem w) = w"
proof -
  have "(256 :: nat) ^ (LENGTH('a) div 8) = 2 ^ (8 * (LENGTH('a) div 8))"
    by (simp add: power_mult)
  also have "\<dots> = 2 ^ LENGTH('a)"
    using assms by simp
  finally show ?thesis
    by (simp add: mem_to_word_def word_to_mem_def be_val_be_bytes)
qed

lemma CRYPTO_bswap_involutory:
  shows "CRYPTO_bswap2 (CRYPTO_bswap2 x) = x"
    and "CRYPTO_bswap4 (CRYPTO_bswap4 y) = y"
    and "CRYPTO_bswap8 (CRYPTO_bswap8 z) = z"
proof -
  have split: "\<exists>k j. i = 8 * k + j \<and> j < 8" for i :: nat
    by (rule exI [of _ "i div 8"], rule exI [of _ "i mod 8"]) simp
  show "CRYPTO_bswap2 (CRYPTO_bswap2 x) = x"
  proof (rule bit_word_eqI)
    fix i assume "i < LENGTH(16)"
    then show "bit (CRYPTO_bswap2 (CRYPTO_bswap2 x)) i \<longleftrightarrow> bit x i"
      using split [of i] by (auto simp: bit_CRYPTO_bswap2)
  qed
  show "CRYPTO_bswap4 (CRYPTO_bswap4 y) = y"
  proof (rule bit_word_eqI)
    fix i assume "i < LENGTH(32)"
    then show "bit (CRYPTO_bswap4 (CRYPTO_bswap4 y)) i \<longleftrightarrow> bit y i"
      using split [of i] by (auto simp: bit_CRYPTO_bswap4)
  qed
  show "CRYPTO_bswap8 (CRYPTO_bswap8 z) = z"
  proof (rule bit_word_eqI)
    fix i assume "i < LENGTH(64)"
    then show "bit (CRYPTO_bswap8 (CRYPTO_bswap8 z)) i \<longleftrightarrow> bit z i"
      using split [of i] by (auto simp: bit_CRYPTO_bswap8)
  qed
qed

lemma CRYPTO_load_store_be:
  shows "CRYPTO_load_u16_be (CRYPTO_store_u16_be x) = x"
    and "CRYPTO_load_u32_be (CRYPTO_store_u32_be y) = y"
    and "CRYPTO_load_u64_be (CRYPTO_store_u64_be z) = z"
  by (simp_all add: CRYPTO_load_u16_be_def CRYPTO_store_u16_be_def CRYPTO_load_u32_be_def
      CRYPTO_store_u32_be_def CRYPTO_load_u64_be_def CRYPTO_store_u64_be_def
      mem_to_word_word_to_mem CRYPTO_bswap_involutory)

subsection \<open>Properties\<close>

text \<open>
  C11: Every branch-free comparison of \<open>crypto/internal.h\<close> returns the all-ones mask exactly when
  the comparison holds and the zero mask otherwise, at every word width, and the branch-free
  selection under such a mask returns the first argument exactly when the mask is all ones.
\<close>

theorem constant_time_masks:
  fixes a b :: "'a::len word"
  shows "constant_time_lt_w a b = (if a < b then CONSTTIME_TRUE_W else CONSTTIME_FALSE_W) \<and>
    constant_time_ge_w a b = (if b \<le> a then CONSTTIME_TRUE_W else CONSTTIME_FALSE_W) \<and>
    constant_time_is_zero_w a = (if a = 0 then CONSTTIME_TRUE_W else CONSTTIME_FALSE_W) \<and>
    constant_time_eq_w a b = (if a = b then CONSTTIME_TRUE_W else CONSTTIME_FALSE_W) \<and>
    constant_time_select_w (constant_time_lt_w a b) c d = (if a < b then c else d)"
  by (simp add: constant_time_lt_w_eq constant_time_is_zero_w_eq constant_time_eq_w_eq
      constant_time_select_w_eq constant_time_ge_w_def CONSTTIME_TRUE_W_def CONSTTIME_FALSE_W_def
      not_le)

text \<open>
  C12: Addition with carry and subtraction with borrow are exact: the returned word and the returned
  carry (borrow), weighted by the word size, give the sum (difference) of the unbounded integers,
  and the two preprocessor branches of \<open>CRYPTO_addc_u64\<close> agree.
\<close>

theorem CRYPTO_addc_subc_exact:
  assumes "carry \<le> 1"
    and "CRYPTO_addc_u64 x y carry = (ret, out_carry)"
    and "CRYPTO_subc_u64 x y carry = (diff, out_borrow)"
  shows "unat ret + 2 ^ 64 * unat out_carry = unat x + unat y + unat carry \<and>
    unat diff + unat y + unat carry = unat x + 2 ^ 64 * unat out_borrow \<and>
    CRYPTO_addc_u64_no_uint128 x y carry = (ret, out_carry)"
proof -
  obtain ret' out' where n: "CRYPTO_addc_u64_no_uint128 x y carry = (ret', out')"
    by fastforce
  have "unat ret' + 2 ^ LENGTH(64) * unat out' = unat ret + 2 ^ LENGTH(64) * unat out_carry"
    using CRYPTO_addc_u64_val [OF assms(1,2)] CRYPTO_addc_u64_no_uint128_val [OF assms(1) n] by simp
  then have "ret' = ret" "out' = out_carry"
    by (rule word_pair_eqI)+
  then show ?thesis
    using CRYPTO_addc_u64_val [OF assms(1,2)] CRYPTO_subc_u64_val(1) [OF assms(1,3)] n by simp
qed

theorem CRYPTO_addc_subc_exact_witness:
  "CRYPTO_addc_u64_no_uint128 5 7 1 = (13, 0) \<and> unat (- 3 :: u64) + unat (7 :: u64) + unat (1 :: u64) = 5 + 2 ^ 64"
  using CRYPTO_addc_subc_exact [of 1 5 7 13 0 "- 3" 1]
  by (simp add: CRYPTO_addc_u64_def CRYPTO_subc_u64_def Let_def)

end
