(* ===== verification/Mem.thy ===== *)
theory Mem
  imports Internal
begin

text \<open>
  \<open>crypto/mem.cc\<close>: the allocator with its size prefix, the constant-time memory comparison, the
  FNV-1a hash, and the locale-independent character and string functions.

  The C library's \<open>malloc\<close> is a parameter: \<open>malloc n\<close> is the uninitialised block of \<open>n\<close> bytes it
  returns, or \<^const>\<open>None\<close> for \<open>NULL\<close>. A pointer returned by \<open>OPENSSL_malloc\<close> points past a prefix
  that stores the size; it is modelled by the whole block, prefix included, and \<open>ptr_data\<close> reads
  the bytes the caller sees. The hooks \<open>OPENSSL_memory_alloc\<close>, \<open>OPENSSL_memory_free\<close> and
  \<open>sdallocx\<close> are the weak symbols of a default build, that is, \<open>NULL\<close>.
\<close>

subsection \<open>Allocation\<close>

definition OPENSSL_MALLOC_PREFIX :: u64 where
  "OPENSSL_MALLOC_PREFIX = 8"

definition ptr_data :: "bytes \<Rightarrow> bytes" where
  "ptr_data ptr = drop 8 ptr"

definition ptr_size :: "bytes \<Rightarrow> u64" where
  "ptr_size ptr = mem_to_word (take 8 ptr)"

definition OPENSSL_malloc :: "(u64 \<Rightarrow> bytes option) \<Rightarrow> u64 \<Rightarrow> bytes option" where
  "OPENSSL_malloc malloc sz =
     (if sz + OPENSSL_MALLOC_PREFIX < sz then None
      else case malloc (sz + OPENSSL_MALLOC_PREFIX) of
             None \<Rightarrow> None
           | Some ptr \<Rightarrow> Some (word_to_mem sz @ drop 8 ptr))"

text \<open>\<open>memset\<close> and \<open>memcpy\<close> into the data of a block, at its start.\<close>

definition memcpy_data :: "bytes \<Rightarrow> bytes \<Rightarrow> nat \<Rightarrow> bytes" where
  "memcpy_data ptr src n = take 8 ptr @ take n src @ drop n (ptr_data ptr)"

definition OPENSSL_zalloc :: "(u64 \<Rightarrow> bytes option) \<Rightarrow> u64 \<Rightarrow> bytes option" where
  "OPENSSL_zalloc malloc sz =
     (case OPENSSL_malloc malloc sz of
        None \<Rightarrow> None
      | Some ret \<Rightarrow> Some (memcpy_data ret (replicate (unat sz) 0) (unat sz)))"

definition OPENSSL_calloc :: "(u64 \<Rightarrow> bytes option) \<Rightarrow> u64 \<Rightarrow> u64 \<Rightarrow> bytes option" where
  "OPENSSL_calloc malloc num sz =
     (if sz \<noteq> 0 \<and> num > (- 1) div sz then None else OPENSSL_zalloc malloc (num * sz))"

text \<open>\<open>OPENSSL_cleanse\<close> overwrites \<open>len\<close> bytes with zeros.\<close>

definition OPENSSL_cleanse :: "bytes \<Rightarrow> nat \<Rightarrow> bytes" where
  "OPENSSL_cleanse ptr len = replicate len 0 @ drop len ptr"

text \<open>\<open>OPENSSL_free\<close> returns the contents of the block it hands to the C library's \<open>free\<close>.\<close>

definition OPENSSL_free :: "bytes option \<Rightarrow> bytes option" where
  "OPENSSL_free orig_ptr =
     (case orig_ptr of
        None \<Rightarrow> None
      | Some ptr \<Rightarrow> Some (OPENSSL_cleanse ptr (unat (ptr_size ptr + OPENSSL_MALLOC_PREFIX))))"

text \<open>
  \<open>OPENSSL_realloc\<close> returns the new pointer and the contents of the block that its call of
  \<open>OPENSSL_free\<close> hands to \<open>free\<close>, \<^const>\<open>None\<close> where it frees nothing and the old pointer stays valid.
\<close>

definition OPENSSL_realloc ::
  "(u64 \<Rightarrow> bytes option) \<Rightarrow> bytes option \<Rightarrow> u64 \<Rightarrow> bytes option \<times> bytes option" where
  "OPENSSL_realloc malloc orig_ptr new_size =
     (case orig_ptr of
        None \<Rightarrow> (OPENSSL_malloc malloc new_size, None)
      | Some ptr \<Rightarrow>
          (let old_size = ptr_size ptr
           in case OPENSSL_malloc malloc new_size of
                None \<Rightarrow> (None, None)
              | Some ret \<Rightarrow>
                  (let to_copy = new_size;
                       to_copy = (if old_size < to_copy then old_size else to_copy);
                       ret = memcpy_data ret (ptr_data ptr) (unat to_copy);
                       freed = OPENSSL_free (Some ptr)
                   in (Some ret, freed))))"

definition OPENSSL_memdup :: "(u64 \<Rightarrow> bytes option) \<Rightarrow> bytes \<Rightarrow> u64 \<Rightarrow> bytes option" where
  "OPENSSL_memdup malloc data sz =
     (if sz = 0 then None
      else case OPENSSL_malloc malloc sz of
             None \<Rightarrow> None
           | Some ret \<Rightarrow> Some (memcpy_data ret data (unat sz)))"

subsubsection \<open>The allocator contract\<close>

text \<open>What the development assumes of the C library: a block has the requested size.\<close>

locale libc_malloc =
  fixes malloc :: "u64 \<Rightarrow> bytes option"
  assumes malloc_length: "malloc n = Some p \<Longrightarrow> length p = unat n"

text \<open>What the clients of \<open>OPENSSL_realloc\<close> rely on, seen on the data of the block.\<close>

locale heap_realloc =
  fixes ralloc :: "bytes \<Rightarrow> u64 \<Rightarrow> bytes option"
  assumes ralloc_length: "ralloc b n = Some b' \<Longrightarrow> length b' = unat n"
    and ralloc_keeps: "ralloc b n = Some b' \<Longrightarrow> length b \<le> unat n
      \<Longrightarrow> take (length b) b' = b"

text \<open>A block whose prefix records the size of its data, which is what \<open>OPENSSL_malloc\<close> returns.\<close>

definition valid_ptr :: "bytes \<Rightarrow> bool" where
  "valid_ptr ptr \<longleftrightarrow> length ptr = unat (ptr_size ptr) + 8 \<and> unat (ptr_size ptr) + 8 < 2 ^ 64"

definition block_of :: "bytes \<Rightarrow> bytes" where
  "block_of b = word_to_mem (word_of_nat (length b) :: u64) @ b"

definition realloc_data :: "(u64 \<Rightarrow> bytes option) \<Rightarrow> bytes \<Rightarrow> u64 \<Rightarrow> bytes option" where
  "realloc_data malloc b n = map_option ptr_data (fst (OPENSSL_realloc malloc (Some (block_of b)) n))"

lemma no_prefix_overflow:
  "\<not> sz + OPENSSL_MALLOC_PREFIX < sz \<Longrightarrow> unat (sz + OPENSSL_MALLOC_PREFIX) = unat sz + 8"
  using word_add_overflow_val(2) [of sz OPENSSL_MALLOC_PREFIX]
  by (simp add: OPENSSL_MALLOC_PREFIX_def)

lemma ptr_size_prefix [simp]: "ptr_size (word_to_mem (sz :: u64) @ d) = sz"
  by (simp add: ptr_size_def mem_to_word_word_to_mem)

lemma ptr_data_prefix [simp]: "ptr_data (word_to_mem (sz :: u64) @ d) = d"
  by (simp add: ptr_data_def)

context libc_malloc
begin

lemma malloc_SomeD:
  assumes "OPENSSL_malloc malloc sz = Some ptr"
  shows "ptr_size ptr = sz" and "length (ptr_data ptr) = unat sz"
    and "length ptr = unat sz + 8" and "unat sz + 8 < 2 ^ 64"
proof -
  have no: "\<not> sz + OPENSSL_MALLOC_PREFIX < sz"
    using assms by (auto simp: OPENSSL_malloc_def split: if_splits)
  then obtain p where p: "malloc (sz + OPENSSL_MALLOC_PREFIX) = Some p"
    and ptr: "ptr = word_to_mem sz @ drop 8 p"
    using assms by (auto simp: OPENSSL_malloc_def split: option.splits)
  have len: "unat (sz + OPENSSL_MALLOC_PREFIX) = unat sz + 8"
    using no by (rule no_prefix_overflow)
  then show "unat sz + 8 < 2 ^ 64"
    using unat_less [of "sz + OPENSSL_MALLOC_PREFIX"] by simp
  show "ptr_size ptr = sz" "length (ptr_data ptr) = unat sz" "length ptr = unat sz + 8"
    using malloc_length [OF p] len by (simp_all add: ptr)
qed

lemma memdup_data:
  assumes "OPENSSL_memdup malloc data sz = Some p" "length data = unat sz"
  shows "ptr_data p = data"
proof -
  obtain ret where r: "OPENSSL_malloc malloc sz = Some ret" and p: "p = memcpy_data ret data (unat sz)"
    using assms(1) by (auto simp: OPENSSL_memdup_def split: if_splits option.splits)
  show ?thesis
    using malloc_SomeD [OF r] assms(2) by (simp add: p memcpy_data_def ptr_data_def)
qed

lemma malloc_valid: "OPENSSL_malloc malloc sz = Some ptr \<Longrightarrow> valid_ptr ptr"
  using malloc_SomeD [of sz ptr] by (simp add: valid_ptr_def)

lemma realloc_SomeD:
  assumes "fst (OPENSSL_realloc malloc (Some p) n) = Some p'"
    and "unat (ptr_size p) \<le> length (ptr_data p)"
  shows "ptr_size p' = n" and "length (ptr_data p') = unat n"
    and "take (min (unat (ptr_size p)) (unat n)) (ptr_data p')
       = take (min (unat (ptr_size p)) (unat n)) (ptr_data p)"
proof -
  obtain ret where ret: "OPENSSL_malloc malloc n = Some ret"
    using assms(1) by (auto simp: OPENSSL_realloc_def Let_def split: option.splits)
  define c where "c = min (unat (ptr_size p)) (unat n)"
  have p': "p' = memcpy_data ret (ptr_data p) c"
    using assms(1) ret
    by (auto simp: OPENSSL_realloc_def Let_def c_def word_less_nat_alt min_def split: if_splits)
  have lr: "length ret = unat n + 8" "length (ptr_data ret) = unat n" "ptr_size ret = n"
    by (rule malloc_SomeD [OF ret])+
  have t8: "take 8 p' = take 8 ret"
    using lr by (simp add: p' memcpy_data_def)
  then show "ptr_size p' = n"
    using lr by (simp add: ptr_size_def)
  have d: "ptr_data p' = take c (ptr_data p) @ drop c (ptr_data ret)"
    using lr by (simp add: p' memcpy_data_def ptr_data_def)
  have c: "c \<le> unat n" "c \<le> length (ptr_data p)"
    using assms(2) by (simp_all add: c_def)
  show "length (ptr_data p') = unat n"
    using c lr by (simp add: d)
  show "take (min (unat (ptr_size p)) (unat n)) (ptr_data p')
       = take (min (unat (ptr_size p)) (unat n)) (ptr_data p)"
    using c by (simp add: d flip: c_def)
qed

end

lemma block_of_simps [simp]:
  "ptr_size (block_of b) = word_of_nat (length b)" "ptr_data (block_of b) = b"
  by (simp_all add: block_of_def)

sublocale libc_malloc \<subseteq> ossl: heap_realloc "realloc_data malloc"
proof
  fix b n b'
  assume "realloc_data malloc b n = Some b'"
  then obtain p where p: "fst (OPENSSL_realloc malloc (Some (block_of b)) n) = Some p"
    and b': "b' = ptr_data p"
    by (auto simp: realloc_data_def)
  have le: "unat (ptr_size (block_of b)) \<le> length (ptr_data (block_of b))"
    by (simp add: unsigned_of_nat take_bit_eq_mod)
  show "length b' = unat n"
    using realloc_SomeD(2) [OF p le] by (simp add: b')
  show "take (length b) b' = b" if "length b \<le> unat n"
  proof -
    have "length b < 2 ^ 64"
      using that unat_less [of n] by simp
    then have "unat (ptr_size (block_of b)) = length b"
      by (simp add: unsigned_of_nat take_bit_eq_mod)
    then show ?thesis
      using realloc_SomeD(3) [OF p le] that by (simp add: b' min_def)
  qed
qed

context libc_malloc
begin

lemma realloc_heap: "heap_realloc (realloc_data malloc)"
  by (rule ossl.heap_realloc_axioms)

end

text \<open>An allocator that hands out zeroed blocks and fails above a limit.\<close>

definition bounded_malloc :: "nat \<Rightarrow> u64 \<Rightarrow> bytes option" where
  "bounded_malloc limit n = (if unat n \<le> limit then Some (replicate (unat n) 0) else None)"

interpretation bounded: libc_malloc "bounded_malloc limit" for limit
  by unfold_locales (auto simp: bounded_malloc_def split: if_splits)

lemma heap_realloc_bounded: "heap_realloc (realloc_data (bounded_malloc limit))"
  by (rule bounded.ossl.heap_realloc_axioms)

subsubsection \<open>Properties of the allocator\<close>


subsection \<open>Memory comparison and hashing\<close>

text \<open>\<open>memcmp\<close> of the C library, up to the magnitude of its result.\<close>

fun memcmp :: "bytes \<Rightarrow> bytes \<Rightarrow> nat \<Rightarrow> int" where
  "memcmp (a # as) (b # bs) (Suc n) = (if a < b then - 1 else if b < a then 1 else memcmp as bs n)"
| "memcmp as bs n = 0"

definition OPENSSL_memcmp :: "bytes \<Rightarrow> bytes \<Rightarrow> nat \<Rightarrow> int" where
  "OPENSSL_memcmp s1 s2 n = (if n = 0 then 0 else memcmp s1 s2 n)"

lemma OPENSSL_memcmp_eq_0: "length a = length b \<Longrightarrow> OPENSSL_memcmp a b (length a) = 0 \<longleftrightarrow> a = b"
proof -
  have "length a = length b \<Longrightarrow> memcmp a b (length a) = 0 \<longleftrightarrow> a = b"
    by (induction a b rule: list_induct2) auto
  then show "length a = length b \<Longrightarrow> OPENSSL_memcmp a b (length a) = 0 \<longleftrightarrow> a = b"
    by (auto simp: OPENSSL_memcmp_def)
qed

text \<open>The accumulator \<open>x |= a[i] ^ b[i]\<close> over the \<open>len\<close> bytes at \<open>a\<close> and \<open>b\<close>.\<close>

definition CRYPTO_memcmp :: "bytes \<Rightarrow> bytes \<Rightarrow> nat \<Rightarrow> u8" where
  "CRYPTO_memcmp a b len = fold (\<lambda>i x. x OR (a ! i XOR b ! i)) [0..<len] 0"

text \<open>\<open>OPENSSL_memchr\<close> returns the index of the first match, the model of the pointer to it.\<close>

definition OPENSSL_memchr :: "bytes \<Rightarrow> u8 \<Rightarrow> nat \<Rightarrow> nat option" where
  "OPENSSL_memchr s c n = (if n = 0 then None else List.find (\<lambda>i. s ! i = c) [0..<n])"

definition OPENSSL_hash32 :: "bytes \<Rightarrow> u32" where
  "OPENSSL_hash32 inp = fold (\<lambda>b h. (h XOR ucast b) * 16777619) inp 2166136261"

lemma word_or_eq_0_iff: "a OR b = 0 \<longleftrightarrow> a = 0 \<and> b = 0" for a b :: "'a::len word"
  by (auto simp: bit_eq_iff bit_or_iff)

lemma fold_or_eq_0_iff:
  "fold (\<lambda>i x. x OR f i) xs v = 0 \<longleftrightarrow> v = 0 \<and> (\<forall>i \<in> set xs. f i = 0)"
  for f :: "'i \<Rightarrow> 'a::len word"
  by (induction xs arbitrary: v) (auto simp: word_or_eq_0_iff)

lemma CRYPTO_memcmp_eq_0:
  assumes "length a = len" and "length b = len"
  shows "CRYPTO_memcmp a b len = 0 \<longleftrightarrow> a = b"
proof -
  have "CRYPTO_memcmp a b len = 0 \<longleftrightarrow> (\<forall>i < len. a ! i = b ! i)"
    by (auto simp: CRYPTO_memcmp_def fold_or_eq_0_iff word_xor_eq_0_iff)
  also have "\<dots> \<longleftrightarrow> a = b"
    using assms by (auto intro: nth_equalityI)
  finally show ?thesis .
qed

subsection \<open>Characters\<close>

text \<open>
  The character functions take an \<open>int\<close>. A plain \<open>char\<close> is signed on the platforms modelled, so a
  byte of a C string is promoted by \<^const>\<open>sint\<close>.
\<close>

definition OPENSSL_isalpha :: "int \<Rightarrow> bool" where
  "OPENSSL_isalpha c \<longleftrightarrow> (c \<ge> 97 \<and> c \<le> 122) \<or> (c \<ge> 65 \<and> c \<le> 90)"

definition OPENSSL_isdigit :: "int \<Rightarrow> bool" where
  "OPENSSL_isdigit c \<longleftrightarrow> c \<ge> 48 \<and> c \<le> 57"

definition OPENSSL_isxdigit :: "int \<Rightarrow> bool" where
  "OPENSSL_isxdigit c \<longleftrightarrow> OPENSSL_isdigit c \<or> (c \<ge> 97 \<and> c \<le> 102) \<or> (c \<ge> 65 \<and> c \<le> 70)"

definition OPENSSL_fromxdigit :: "int \<Rightarrow> u8 option" where
  "OPENSSL_fromxdigit c =
     (if OPENSSL_isdigit c then Some (word_of_int (c - 48))
      else if 97 \<le> c \<and> c \<le> 102 then Some (word_of_int (c - 97 + 10))
      else if 65 \<le> c \<and> c \<le> 70 then Some (word_of_int (c - 65 + 10))
      else None)"

definition OPENSSL_isalnum :: "int \<Rightarrow> bool" where
  "OPENSSL_isalnum c \<longleftrightarrow> OPENSSL_isalpha c \<or> OPENSSL_isdigit c"

definition OPENSSL_tolower :: "int \<Rightarrow> int" where
  "OPENSSL_tolower c = (if c \<ge> 65 \<and> c \<le> 90 then c + (97 - 65) else c)"

definition OPENSSL_isspace :: "int \<Rightarrow> bool" where
  "OPENSSL_isspace c \<longleftrightarrow> c = 9 \<or> c = 10 \<or> c = 11 \<or> c = 12 \<or> c = 13 \<or> c = 32"

lemma OPENSSL_fromxdigit_range:
  "OPENSSL_fromxdigit c = Some v \<Longrightarrow> unat v < 16"
  "OPENSSL_fromxdigit c = None \<longleftrightarrow> \<not> OPENSSL_isxdigit c"
proof -
  show "OPENSSL_fromxdigit c = None \<longleftrightarrow> \<not> OPENSSL_isxdigit c"
    by (auto simp: OPENSSL_fromxdigit_def OPENSSL_isxdigit_def split: if_splits)
  assume "OPENSSL_fromxdigit c = Some v"
  then have "\<exists>d. v = word_of_int d \<and> 0 \<le> d \<and> d < 16"
    by (auto simp: OPENSSL_fromxdigit_def OPENSSL_isdigit_def simp del: of_int_diff of_int_add
        split: if_splits intro!: exI)
  then obtain d where "v = word_of_int d" "0 \<le> d" "d < 16"
    by blast
  then show "unat v < 16"
    by (simp add: unat_eq_nat_uint uint_word_of_int)
qed

lemma isdigit_iff: "OPENSSL_isdigit (uint c) \<longleftrightarrow> (\<exists>d < 10. c = word_of_nat (48 + d))" for c :: u8
proof
  assume "OPENSSL_isdigit (uint c)"
  then have "48 \<le> unat c" "unat c \<le> 57"
    by (auto simp: OPENSSL_isdigit_def uint_nat simp del: of_nat_unat)
  then show "\<exists>d < 10. c = word_of_nat (48 + d)"
    by (intro exI [of _ "unat c - 48"]) (simp del: of_nat_add)
next
  assume "\<exists>d < 10. c = word_of_nat (48 + d)"
  then obtain d where "d < 10" "c = word_of_nat (48 + d)" by blast
  then have "uint c = int (48 + d)"
    by (simp only: uint_nat) (subst unat_word_of_nat, simp_all)
  then show "OPENSSL_isdigit (uint c)"
    using \<open>d < 10\<close> by (simp add: OPENSSL_isdigit_def)
qed

subsection \<open>C strings\<close>

text \<open>
  A C string is the list of bytes from its start to the end of its buffer; the string proper ends
  before the first zero byte. Reading past the buffer would be undefined behaviour, so the
  functions below are meant for buffers that hold a terminator, or \<open>len\<close> bytes.
\<close>

definition strlen :: "bytes \<Rightarrow> nat" where
  "strlen s = length (takeWhile (\<lambda>c. c \<noteq> 0) s)"

definition OPENSSL_strhash :: "bytes \<Rightarrow> u32" where
  "OPENSSL_strhash s = OPENSSL_hash32 (take (strlen s) s)"

fun OPENSSL_strnlen :: "bytes \<Rightarrow> nat \<Rightarrow> nat" where
  "OPENSSL_strnlen (c # s) (Suc len) = (if c = 0 then 0 else Suc (OPENSSL_strnlen s len))"
| "OPENSSL_strnlen s len = 0"

definition OPENSSL_strdup :: "(u64 \<Rightarrow> bytes option) \<Rightarrow> bytes option \<Rightarrow> bytes option" where
  "OPENSSL_strdup malloc s =
     (case s of
        None \<Rightarrow> None
      | Some s \<Rightarrow> OPENSSL_memdup malloc s (word_of_nat (strlen s + 1)))"

fun OPENSSL_strcasecmp :: "bytes \<Rightarrow> bytes \<Rightarrow> int" where
  "OPENSSL_strcasecmp (a # as) (b # bs) =
     (let aa = OPENSSL_tolower (sint a); bb = OPENSSL_tolower (sint b)
      in if aa < bb then - 1
         else if aa > bb then 1
         else if aa = 0 then 0
         else OPENSSL_strcasecmp as bs)"
| "OPENSSL_strcasecmp as bs = 0"

fun OPENSSL_strncasecmp :: "bytes \<Rightarrow> bytes \<Rightarrow> nat \<Rightarrow> int" where
  "OPENSSL_strncasecmp (a # as) (b # bs) (Suc n) =
     (let aa = OPENSSL_tolower (sint a); bb = OPENSSL_tolower (sint b)
      in if aa < bb then - 1
         else if aa > bb then 1
         else if aa = 0 then 0
         else OPENSSL_strncasecmp as bs n)"
| "OPENSSL_strncasecmp as bs n = 0"

definition OPENSSL_strndup :: "(u64 \<Rightarrow> bytes option) \<Rightarrow> bytes \<Rightarrow> nat \<Rightarrow> bytes option" where
  "OPENSSL_strndup malloc str sz =
     (let sz = (word_of_nat (OPENSSL_strnlen str sz) :: u64);
          alloc_size = sz + 1
      in if alloc_size < sz then None
         else case OPENSSL_malloc malloc alloc_size of
                None \<Rightarrow> None
              | Some ret \<Rightarrow> Some (memcpy_data ret (take (unat sz) str @ [0]) (unat sz + 1)))"

text \<open>
  \<open>OPENSSL_strlcpy\<close> returns the new contents of \<open>dst\<close> and the length of \<open>src\<close>; the loop copies
  while more than one byte of \<open>dst\<close> is left and \<open>src\<close> has not ended.
\<close>

fun OPENSSL_strlcpy :: "bytes \<Rightarrow> bytes \<Rightarrow> nat \<Rightarrow> bytes \<times> nat" where
  "OPENSSL_strlcpy (d # dst) (c # src) dst_size =
     (if dst_size > 1 \<and> c \<noteq> 0
      then let (dst', l) = OPENSSL_strlcpy dst src (dst_size - 1) in (c # dst', Suc l)
      else (if dst_size \<noteq> 0 then 0 # dst else d # dst, strlen (c # src)))"
| "OPENSSL_strlcpy dst src dst_size = (dst, strlen src)"

fun OPENSSL_strlcat :: "bytes \<Rightarrow> bytes \<Rightarrow> nat \<Rightarrow> bytes \<times> nat" where
  "OPENSSL_strlcat (d # dst) src dst_size =
     (if dst_size > 0 \<and> d \<noteq> 0
      then let (dst', l) = OPENSSL_strlcat dst src (dst_size - 1) in (d # dst', Suc l)
      else OPENSSL_strlcpy (d # dst) src dst_size)"
| "OPENSSL_strlcat [] src dst_size = OPENSSL_strlcpy [] src dst_size"

lemma OPENSSL_strnlen_eq: "len \<le> length s \<Longrightarrow> OPENSSL_strnlen s len = min len (strlen s)"
  by (induction s len rule: OPENSSL_strnlen.induct) (auto simp: strlen_def)

text \<open>The two strings compare equal exactly when they agree after folding case.\<close>

lemma sint_u8_eq_0_iff: "sint (a :: u8) = 0 \<longleftrightarrow> a = 0"
  by (metis signed_0 signed_word_eqI)

lemma tolower_eq_0_iff: "OPENSSL_tolower c = 0 \<longleftrightarrow> c = 0"
  by (auto simp: OPENSSL_tolower_def)

lemma OPENSSL_strcasecmp_eq_0:
  assumes "0 \<in> set a" and "0 \<in> set b"
  shows "OPENSSL_strcasecmp a b = 0 \<longleftrightarrow>
    map (OPENSSL_tolower \<circ> sint) (takeWhile (\<lambda>c. c \<noteq> 0) a)
    = map (OPENSSL_tolower \<circ> sint) (takeWhile (\<lambda>c. c \<noteq> 0) b)"
  using assms
proof (induction a b rule: OPENSSL_strcasecmp.induct)
  case (1 a as b bs)
  have z: "OPENSSL_tolower (sint a) = 0 \<longleftrightarrow> a = 0" "OPENSSL_tolower (sint b) = 0 \<longleftrightarrow> b = 0"
    by (simp_all add: tolower_eq_0_iff sint_u8_eq_0_iff)
  show ?case
  proof (cases "OPENSSL_tolower (sint a) = OPENSSL_tolower (sint b)")
    case True
    then show ?thesis
      using 1 z by (auto simp: Let_def)
  next
    case False
    then show ?thesis
      using z by (auto simp: Let_def)
  qed
qed auto

text \<open>
  \<open>OPENSSL_strlcpy\<close> never writes at or beyond \<open>dst_size\<close>, terminates what it writes, and returns
  the length of \<open>src\<close> whether or not the copy was truncated.
\<close>

lemma OPENSSL_strlcpy_eq:
  assumes "0 \<in> set src" and "dst_size \<le> length dst"
  shows "OPENSSL_strlcpy dst src dst_size =
    (if dst_size = 0 then dst
     else let n = min (dst_size - 1) (strlen src) in take n src @ 0 # drop (Suc n) dst,
     strlen src)"
  using assms
proof (induction dst src dst_size rule: OPENSSL_strlcpy.induct)
  case (1 d dst c src dst_size)
  show ?case
  proof (cases "dst_size > 1 \<and> c \<noteq> 0")
    case True
    then obtain k where k: "dst_size = Suc (Suc k)"
      by (metis One_nat_def Suc_diff_Suc diff_zero lessE less_imp_Suc_add)
    have "OPENSSL_strlcpy dst src (dst_size - 1) =
      (let n = min k (strlen src) in take n src @ 0 # drop (Suc n) dst, strlen src)"
      using 1 True by (auto simp: k)
    then show ?thesis
      using True by (auto simp: Let_def strlen_def k)
  next
    case False
    then show ?thesis
      by (auto simp: Let_def strlen_def)
  qed
qed auto

text \<open>A block's validity in terms of the bytes the caller sees.\<close>

lemma valid_ptr_data: "valid_ptr ptr \<Longrightarrow> length (ptr_data ptr) = unat (ptr_size ptr)"
  by (simp add: valid_ptr_def ptr_data_def)


context libc_malloc
begin

lemma realloc_valid:
  assumes "valid_ptr p" "fst (OPENSSL_realloc malloc (Some p) n) = Some p'"
  shows "valid_ptr p'"
proof -
  note r = realloc_SomeD [OF assms(2)]
  have le: "unat (ptr_size p) \<le> length (ptr_data p)"
    by (simp add: valid_ptr_data [OF assms(1)])
  obtain ret where "OPENSSL_malloc malloc n = Some ret"
    using assms(2) by (auto simp: OPENSSL_realloc_def Let_def split: option.splits)
  note ret = malloc_SomeD [OF this]
  have "8 \<le> length p'"
    using assms(2) ret \<open>OPENSSL_malloc malloc n = Some ret\<close>
    by (auto simp: OPENSSL_realloc_def Let_def memcpy_data_def)
  then show ?thesis
    using r(1,2) [OF le] ret(4) by (simp add: valid_ptr_def ptr_data_def)
qed

end

subsection \<open>Properties\<close>



end
