(* ===== verification/Cbs.thy ===== *)
theory Cbs
  imports Mem
begin

text \<open>
  The byte-string reader \<open>CBS\<close> of \<open>crypto/bytestring/cbs.cc\<close>.

  A \<open>CBS\<close> is a pointer into constant memory and a length; it is modelled by the bytes it spans.
  Every reading function takes the reader and returns \<^const>\<open>None\<close> where the code returns 0, and
  the output with the advanced reader otherwise. After a failure the code leaves the reader and the
  outputs in a state no caller may use, so that state is not part of the model.
\<close>

type_synonym CBS = bytes
type_synonym CBS_ASN1_TAG = u32

subsection \<open>Reading bytes and integers\<close>

definition cbs_get :: "CBS \<Rightarrow> nat \<Rightarrow> (bytes \<times> CBS) option" where
  "cbs_get cbs n = (if length cbs < n then None else Some (take n cbs, drop n cbs))"

definition CBS_skip :: "CBS \<Rightarrow> nat \<Rightarrow> CBS option" where
  "CBS_skip cbs len = do { (_, cbs) \<leftarrow> cbs_get cbs len; Some cbs }"

definition CBS_stow :: "(u64 \<Rightarrow> bytes option) \<Rightarrow> CBS \<Rightarrow> (bytes option \<times> nat) option" where
  "CBS_stow malloc cbs =
     (if length cbs = 0 then Some (None, 0)
      else case OPENSSL_memdup malloc cbs (word_of_nat (length cbs)) of
             None \<Rightarrow> None
           | Some p \<Rightarrow> Some (Some p, length cbs))"

definition CBS_strdup :: "(u64 \<Rightarrow> bytes option) \<Rightarrow> CBS \<Rightarrow> bytes option" where
  "CBS_strdup malloc cbs = OPENSSL_strndup malloc cbs (length cbs)"

definition CBS_contains_zero_byte :: "CBS \<Rightarrow> bool" where
  "CBS_contains_zero_byte cbs \<longleftrightarrow> OPENSSL_memchr cbs 0 (length cbs) \<noteq> None"

definition CBS_mem_equal :: "CBS \<Rightarrow> bytes \<Rightarrow> bool" where
  "CBS_mem_equal cbs data \<longleftrightarrow>
     (if length data \<noteq> length cbs then False else CRYPTO_memcmp cbs data (length data) = 0)"

definition cbs_get_u :: "CBS \<Rightarrow> nat \<Rightarrow> (u64 \<times> CBS) option" where
  "cbs_get_u cbs len = do {
     (data, cbs) \<leftarrow> cbs_get cbs len;
     Some (fold (\<lambda>b result. push_bit 8 result OR ucast b) data 0, cbs)
   }"

definition CBS_get_u8 :: "CBS \<Rightarrow> (u8 \<times> CBS) option" where
  "CBS_get_u8 cbs = do { (v, cbs) \<leftarrow> cbs_get cbs 1; Some (v ! 0, cbs) }"

definition CBS_get_u16 :: "CBS \<Rightarrow> (u16 \<times> CBS) option" where
  "CBS_get_u16 cbs = do { (v, cbs) \<leftarrow> cbs_get_u cbs 2; Some (ucast v, cbs) }"

definition CBS_get_u16le :: "CBS \<Rightarrow> (u16 \<times> CBS) option" where
  "CBS_get_u16le cbs = do { (out, cbs) \<leftarrow> CBS_get_u16 cbs; Some (CRYPTO_bswap2 out, cbs) }"

definition CBS_get_u24 :: "CBS \<Rightarrow> (u32 \<times> CBS) option" where
  "CBS_get_u24 cbs = do { (v, cbs) \<leftarrow> cbs_get_u cbs 3; Some (ucast v, cbs) }"

definition CBS_get_u32 :: "CBS \<Rightarrow> (u32 \<times> CBS) option" where
  "CBS_get_u32 cbs = do { (v, cbs) \<leftarrow> cbs_get_u cbs 4; Some (ucast v, cbs) }"

definition CBS_get_u32le :: "CBS \<Rightarrow> (u32 \<times> CBS) option" where
  "CBS_get_u32le cbs = do { (out, cbs) \<leftarrow> CBS_get_u32 cbs; Some (CRYPTO_bswap4 out, cbs) }"

definition CBS_get_u64 :: "CBS \<Rightarrow> (u64 \<times> CBS) option" where
  "CBS_get_u64 cbs = cbs_get_u cbs 8"

definition CBS_get_u64le :: "CBS \<Rightarrow> (u64 \<times> CBS) option" where
  "CBS_get_u64le cbs = do { (out, cbs) \<leftarrow> cbs_get_u cbs 8; Some (CRYPTO_bswap8 out, cbs) }"

definition CBS_get_last_u8 :: "CBS \<Rightarrow> (u8 \<times> CBS) option" where
  "CBS_get_last_u8 cbs =
     (if length cbs = 0 then None else Some (cbs ! (length cbs - 1), take (length cbs - 1) cbs))"

definition CBS_get_bytes :: "CBS \<Rightarrow> nat \<Rightarrow> (CBS \<times> CBS) option" where
  "CBS_get_bytes cbs len = do { (v, cbs) \<leftarrow> cbs_get cbs len; Some (v, cbs) }"

definition CBS_copy_bytes :: "CBS \<Rightarrow> nat \<Rightarrow> (bytes \<times> CBS) option" where
  "CBS_copy_bytes cbs len = do { (v, cbs) \<leftarrow> cbs_get cbs len; Some (v, cbs) }"

definition cbs_get_length_prefixed :: "CBS \<Rightarrow> nat \<Rightarrow> (CBS \<times> CBS) option" where
  "cbs_get_length_prefixed cbs len_len = do {
     (len, cbs) \<leftarrow> cbs_get_u cbs len_len;
     CBS_get_bytes cbs (unat len)
   }"

definition CBS_get_u8_length_prefixed :: "CBS \<Rightarrow> (CBS \<times> CBS) option" where
  "CBS_get_u8_length_prefixed cbs = cbs_get_length_prefixed cbs 1"

definition CBS_get_u16_length_prefixed :: "CBS \<Rightarrow> (CBS \<times> CBS) option" where
  "CBS_get_u16_length_prefixed cbs = cbs_get_length_prefixed cbs 2"

definition CBS_get_u24_length_prefixed :: "CBS \<Rightarrow> (CBS \<times> CBS) option" where
  "CBS_get_u24_length_prefixed cbs = cbs_get_length_prefixed cbs 3"

definition CBS_get_until_first :: "CBS \<Rightarrow> u8 \<Rightarrow> (CBS \<times> CBS) option" where
  "CBS_get_until_first cbs c = do {
     split \<leftarrow> OPENSSL_memchr cbs c (length cbs);
     CBS_get_bytes cbs split
   }"

text \<open>The \<open>while\<close> loop of \<open>CBS_get_u64_decimal\<close>, over the state \<open>v\<close>, \<open>seen_digit\<close> and the reader.\<close>

fun get_u64_decimal_loop :: "CBS \<Rightarrow> u64 \<Rightarrow> bool \<Rightarrow> (u64 \<times> bool \<times> CBS) option" where
  "get_u64_decimal_loop [] v seen_digit = Some (v, seen_digit, [])"
| "get_u64_decimal_loop (c # cbs) v seen_digit =
     (if \<not> OPENSSL_isdigit (uint c) then Some (v, seen_digit, c # cbs)
      else if (v = 0 \<and> seen_digit) \<or> v > (- 1) div 10 \<or> v * 10 > (- 1) - (ucast c - 48) then None
      else get_u64_decimal_loop cbs (v * 10 + (ucast c - 48)) True)"

definition CBS_get_u64_decimal :: "CBS \<Rightarrow> (u64 \<times> CBS) option" where
  "CBS_get_u64_decimal cbs = do {
     (v, seen_digit, cbs) \<leftarrow> get_u64_decimal_loop cbs 0 False;
     if seen_digit then Some (v, cbs) else None
   }"

subsection \<open>DER and BER elements\<close>

text \<open>The \<open>do\<close> loop of \<open>parse_base128_integer\<close>, over \<open>v\<close> and the reader.\<close>

fun parse_base128_loop :: "CBS \<Rightarrow> u64 \<Rightarrow> (u64 \<times> CBS) option" where
  "parse_base128_loop [] v = None"
| "parse_base128_loop (b # cbs) v =
     (if drop_bit (64 - 7) v \<noteq> 0 then None
      else if v = 0 \<and> b = 0x80 then None
      else let v = push_bit 7 v OR ucast (b AND 0x7f)
           in if b AND 0x80 \<noteq> 0 then parse_base128_loop cbs v else Some (v, cbs))"

definition parse_base128_integer :: "CBS \<Rightarrow> (u64 \<times> CBS) option" where
  "parse_base128_integer cbs = parse_base128_loop cbs 0"

definition CBS_ASN1_TAG_SHIFT :: nat where
  "CBS_ASN1_TAG_SHIFT = 24"

definition CBS_ASN1_CONSTRUCTED :: CBS_ASN1_TAG where
  "CBS_ASN1_CONSTRUCTED = push_bit CBS_ASN1_TAG_SHIFT 0x20"

definition CBS_ASN1_TAG_NUMBER_MASK :: CBS_ASN1_TAG where
  "CBS_ASN1_TAG_NUMBER_MASK = push_bit (5 + CBS_ASN1_TAG_SHIFT) 1 - 1"

definition CBS_ASN1_BOOLEAN :: CBS_ASN1_TAG where "CBS_ASN1_BOOLEAN = 0x1"
definition CBS_ASN1_INTEGER :: CBS_ASN1_TAG where "CBS_ASN1_INTEGER = 0x2"
definition CBS_ASN1_OCTETSTRING :: CBS_ASN1_TAG where "CBS_ASN1_OCTETSTRING = 0x4"

definition parse_asn1_tag :: "CBS \<Rightarrow> (CBS_ASN1_TAG \<times> CBS) option" where
  "parse_asn1_tag cbs = do {
     (tag_byte, cbs) \<leftarrow> CBS_get_u8 cbs;
     let tag = push_bit CBS_ASN1_TAG_SHIFT (ucast tag_byte AND 0xe0);
     let tag_number = (ucast (tag_byte AND 0x1f) :: CBS_ASN1_TAG);
     (tag_number, cbs) \<leftarrow>
       (if tag_number = 0x1f then do {
          (v, cbs) \<leftarrow> parse_base128_integer cbs;
          if v > ucast CBS_ASN1_TAG_NUMBER_MASK \<or> v < 0x1f then None
          else Some (ucast v, cbs)
        }
        else Some (tag_number, cbs));
     let tag = tag OR tag_number;
     if tag AND NOT CBS_ASN1_CONSTRUCTED = 0 then None else Some (tag, cbs)
   }"

text \<open>The outputs of \<open>cbs_get_any_asn1_element\<close>.\<close>

record asn1_element =
  el_out :: CBS
  el_tag :: CBS_ASN1_TAG
  el_header_len :: nat
  el_ber_found :: bool
  el_indefinite :: bool

definition cbs_get_any_asn1_element :: "CBS \<Rightarrow> bool \<Rightarrow> (asn1_element \<times> CBS) option" where
  "cbs_get_any_asn1_element cbs ber_ok = do {
     (tag, header) \<leftarrow> parse_asn1_tag cbs;
     (length_byte, header) \<leftarrow> CBS_get_u8 header;
     let header_len = length cbs - length header;
     if length_byte AND 0x80 = 0 then do {
       let len = (ucast length_byte :: u64) + word_of_nat header_len;
       (out, cbs) \<leftarrow> CBS_get_bytes cbs (unat len);
       Some (\<lparr>el_out = out, el_tag = tag, el_header_len = header_len,
              el_ber_found = False, el_indefinite = False\<rparr>, cbs)
     }
     else do {
       let num_bytes = unat (length_byte AND 0x7f);
       if ber_ok \<and> tag AND CBS_ASN1_CONSTRUCTED \<noteq> 0 \<and> num_bytes = 0 then do {
         (out, cbs) \<leftarrow> CBS_get_bytes cbs header_len;
         Some (\<lparr>el_out = out, el_tag = tag, el_header_len = header_len,
                el_ber_found = True, el_indefinite = True\<rparr>, cbs)
       }
       else if num_bytes = 0 \<or> num_bytes > 4 then None
       else do {
         (len64, header) \<leftarrow> cbs_get_u header num_bytes;
         let non_minimal = (len64 < 128 \<or> drop_bit ((num_bytes - 1) * 8) len64 = 0);
         if non_minimal \<and> \<not> ber_ok then None
         else do {
           let len = len64;
           if len + word_of_nat header_len + word_of_nat num_bytes < len then None
           else do {
             let len = len + (word_of_nat header_len + word_of_nat num_bytes);
             (out, cbs) \<leftarrow> CBS_get_bytes cbs (unat len);
             Some (\<lparr>el_out = out, el_tag = tag, el_header_len = header_len + num_bytes,
                    el_ber_found = non_minimal, el_indefinite = False\<rparr>, cbs)
           }
         }
       }
     }
   }"

definition CBS_get_any_asn1_element :: "CBS \<Rightarrow> (CBS \<times> CBS_ASN1_TAG \<times> nat \<times> CBS) option" where
  "CBS_get_any_asn1_element cbs = do {
     (e, cbs) \<leftarrow> cbs_get_any_asn1_element cbs False;
     Some (el_out e, el_tag e, el_header_len e, cbs)
   }"

definition CBS_get_any_asn1 :: "CBS \<Rightarrow> (CBS \<times> CBS_ASN1_TAG \<times> CBS) option" where
  "CBS_get_any_asn1 cbs = do {
     (out, tag, header_len, cbs) \<leftarrow> CBS_get_any_asn1_element cbs;
     out \<leftarrow> CBS_skip out header_len;
     Some (out, tag, cbs)
   }"

definition CBS_get_any_ber_asn1_element :: "CBS \<Rightarrow> (asn1_element \<times> CBS) option" where
  "CBS_get_any_ber_asn1_element cbs = cbs_get_any_asn1_element cbs True"

definition cbs_get_asn1 :: "CBS \<Rightarrow> CBS_ASN1_TAG \<Rightarrow> bool \<Rightarrow> (CBS \<times> CBS) option" where
  "cbs_get_asn1 cbs tag_value skip_header = do {
     (out, tag, header_len, cbs) \<leftarrow> CBS_get_any_asn1_element cbs;
     if tag \<noteq> tag_value then None
     else if skip_header then do { out \<leftarrow> CBS_skip out header_len; Some (out, cbs) }
     else Some (out, cbs)
   }"

definition CBS_get_asn1 :: "CBS \<Rightarrow> CBS_ASN1_TAG \<Rightarrow> (CBS \<times> CBS) option" where
  "CBS_get_asn1 cbs tag_value = cbs_get_asn1 cbs tag_value True"

definition CBS_get_asn1_element :: "CBS \<Rightarrow> CBS_ASN1_TAG \<Rightarrow> (CBS \<times> CBS) option" where
  "CBS_get_asn1_element cbs tag_value = cbs_get_asn1 cbs tag_value False"

definition CBS_peek_asn1_tag :: "CBS \<Rightarrow> CBS_ASN1_TAG \<Rightarrow> bool" where
  "CBS_peek_asn1_tag cbs tag_value \<longleftrightarrow>
     (case parse_asn1_tag cbs of None \<Rightarrow> False | Some (actual_tag, _) \<Rightarrow> tag_value = actual_tag)"

subsection \<open>Typed ASN.1 values\<close>

text \<open>\<open>CBS_is_valid_asn1_integer\<close> returns the sign of a minimal two's-complement encoding.\<close>

definition CBS_is_valid_asn1_integer :: "CBS \<Rightarrow> bool option" where
  "CBS_is_valid_asn1_integer cbs =
     (case CBS_get_u8 cbs of
        None \<Rightarrow> None
      | Some (first_byte, copy) \<Rightarrow>
          (let is_negative = (first_byte AND 0x80 \<noteq> 0)
           in case CBS_get_u8 copy of
                None \<Rightarrow> Some is_negative
              | Some (second_byte, _) \<Rightarrow>
                  if (first_byte = 0x00 \<and> second_byte AND 0x80 = 0) \<or>
                     (first_byte = 0xff \<and> second_byte AND 0x80 \<noteq> 0) then None
                  else Some is_negative))"

definition CBS_is_unsigned_asn1_integer :: "CBS \<Rightarrow> bool" where
  "CBS_is_unsigned_asn1_integer cbs \<longleftrightarrow> CBS_is_valid_asn1_integer cbs = Some False"

fun get_asn1_uint64_loop :: "bytes \<Rightarrow> u64 \<Rightarrow> u64 option" where
  "get_asn1_uint64_loop [] out = Some out"
| "get_asn1_uint64_loop (b # data) out =
     (if drop_bit 56 out \<noteq> 0 then None
      else get_asn1_uint64_loop data (push_bit 8 out OR ucast b))"

definition CBS_get_asn1_uint64 :: "CBS \<Rightarrow> (u64 \<times> CBS) option" where
  "CBS_get_asn1_uint64 cbs = do {
     (bytes, cbs) \<leftarrow> CBS_get_asn1 cbs CBS_ASN1_INTEGER;
     if \<not> CBS_is_unsigned_asn1_integer bytes then None
     else do { out \<leftarrow> get_asn1_uint64_loop bytes 0; Some (out, cbs) }
   }"

text \<open>An \<open>int64_t\<close> is the 64-bit word of its two's-complement representation.\<close>

definition CBS_get_asn1_int64 :: "CBS \<Rightarrow> (u64 \<times> CBS) option" where
  "CBS_get_asn1_int64 cbs = do {
     (bytes, cbs) \<leftarrow> CBS_get_asn1 cbs CBS_ASN1_INTEGER;
     is_negative \<leftarrow> CBS_is_valid_asn1_integer bytes;
     let len = length bytes;
     if len > 8 then None
     else do {
       let sign_extend = replicate 8 (if is_negative then 0xff else 0);
       let sign_extend = take (8 - len) sign_extend @ bytes;
       Some (CRYPTO_load_u64_be sign_extend, cbs)
     }
   }"

definition CBS_get_asn1_bool :: "CBS \<Rightarrow> (bool \<times> CBS) option" where
  "CBS_get_asn1_bool cbs = do {
     (bytes, cbs) \<leftarrow> CBS_get_asn1 cbs CBS_ASN1_BOOLEAN;
     if length bytes \<noteq> 1 then None
     else do {
       let v = bytes ! 0;
       if v \<noteq> 0 \<and> v \<noteq> 0xff then None else Some (v \<noteq> 0, cbs)
     }
   }"

text \<open>The output of an optional element is \<^const>\<open>None\<close> where \<open>*out_present\<close> is 0.\<close>

definition CBS_get_optional_asn1 :: "CBS \<Rightarrow> CBS_ASN1_TAG \<Rightarrow> (CBS option \<times> CBS) option" where
  "CBS_get_optional_asn1 cbs tag =
     (if CBS_peek_asn1_tag cbs tag
      then do { (out, cbs) \<leftarrow> CBS_get_asn1 cbs tag; Some (Some out, cbs) }
      else Some (None, cbs))"

definition CBS_get_optional_asn1_octet_string ::
  "CBS \<Rightarrow> CBS_ASN1_TAG \<Rightarrow> (CBS \<times> bool \<times> CBS) option" where
  "CBS_get_optional_asn1_octet_string cbs tag = do {
     (child, cbs) \<leftarrow> CBS_get_optional_asn1 cbs tag;
     case child of
       Some child \<Rightarrow> do {
         (out, child) \<leftarrow> CBS_get_asn1 child CBS_ASN1_OCTETSTRING;
         if length child \<noteq> 0 then None else Some (out, True, cbs)
       }
     | None \<Rightarrow> Some ([], False, cbs)
   }"

definition CBS_get_optional_asn1_uint64 ::
  "CBS \<Rightarrow> CBS_ASN1_TAG \<Rightarrow> u64 \<Rightarrow> (u64 \<times> CBS) option" where
  "CBS_get_optional_asn1_uint64 cbs tag default_value = do {
     (child, cbs) \<leftarrow> CBS_get_optional_asn1 cbs tag;
     case child of
       Some child \<Rightarrow> do {
         (out, child) \<leftarrow> CBS_get_asn1_uint64 child;
         if length child \<noteq> 0 then None else Some (out, cbs)
       }
     | None \<Rightarrow> Some (default_value, cbs)
   }"

definition CBS_get_optional_asn1_bool ::
  "CBS \<Rightarrow> CBS_ASN1_TAG \<Rightarrow> bool \<Rightarrow> (bool \<times> CBS) option" where
  "CBS_get_optional_asn1_bool cbs tag default_value = do {
     (child, cbs) \<leftarrow> CBS_get_optional_asn1 cbs tag;
     case child of
       Some child \<Rightarrow> do {
         (child2, child) \<leftarrow> CBS_get_asn1 child CBS_ASN1_BOOLEAN;
         if length child2 \<noteq> 1 \<or> length child \<noteq> 0 then None
         else do {
           let boolean = child2 ! 0;
           if boolean = 0 then Some (False, cbs)
           else if boolean = 0xff then Some (True, cbs)
           else None
         }
       }
     | None \<Rightarrow> Some (default_value, cbs)
   }"

definition CBS_is_valid_asn1_bitstring :: "CBS \<Rightarrow> bool" where
  "CBS_is_valid_asn1_bitstring cbs \<longleftrightarrow>
     (case CBS_get_u8 cbs of
        None \<Rightarrow> False
      | Some (num_unused_bits, inp) \<Rightarrow>
          if num_unused_bits > 7 then False
          else if num_unused_bits = 0 then True
          else case CBS_get_last_u8 inp of
                 None \<Rightarrow> False
               | Some (last_byte, _) \<Rightarrow>
                   \<not> (ucast last_byte AND (push_bit (unat num_unused_bits) 1 - 1) \<noteq> (0 :: u32)))"

definition CBS_asn1_bitstring_has_bit :: "CBS \<Rightarrow> u32 \<Rightarrow> bool" where
  "CBS_asn1_bitstring_has_bit cbs bt \<longleftrightarrow>
     (if \<not> CBS_is_valid_asn1_bitstring cbs then False
      else let byte_num = drop_bit 3 bt + 1;
               bit_num = 7 - (bt AND 7)
           in unat byte_num < length cbs \<and>
              (ucast (cbs ! unat byte_num) :: u32) AND push_bit (unat bit_num) 1 \<noteq> 0)"

text \<open>The loop of \<open>CBS_is_valid_asn1_oid\<close>: \<^const>\<open>None\<close> is the \<open>return 0\<close> inside it.\<close>

fun is_valid_asn1_oid_loop :: "CBS \<Rightarrow> u8 \<Rightarrow> u8 option" where
  "is_valid_asn1_oid_loop [] prev = Some prev"
| "is_valid_asn1_oid_loop (v # copy) prev =
     (if prev AND 0x80 = 0 \<and> v = 0x80 then None else is_valid_asn1_oid_loop copy v)"

definition CBS_is_valid_asn1_oid :: "CBS \<Rightarrow> bool" where
  "CBS_is_valid_asn1_oid cbs \<longleftrightarrow>
     (if length cbs = 0 then False
      else case is_valid_asn1_oid_loop cbs 0 of
             None \<Rightarrow> False
           | Some prev \<Rightarrow> prev AND 0x80 = 0)"

end
