(* ===== verification/Der.thy ===== *)
theory Der
  imports Cbs
begin

text \<open>
  A reference definition of the DER element format (ITU-T X.690) and the proof that the reader of
  \<open>cbs.cc\<close> accepts exactly the encodings of that format: \<open>base128\<close> is the minimal base-128
  encoding of high tag numbers and object identifiers, \<open>der_tag\<close> the identifier octets,
  \<open>der_length\<close> the length octets, and \<open>der_element\<close> a whole element.
\<close>

subsection \<open>The reference encoding\<close>

text \<open>\<open>b128 v\<close> is the list of continuation bytes for the leading digits \<open>v\<close>.\<close>

fun b128 :: "nat \<Rightarrow> bytes" where
  "b128 v = (if v = 0 then [] else b128 (v div 128) @ [word_of_nat (128 + v mod 128)])"

declare b128.simps [simp del]

lemma b128_0 [simp]: "b128 0 = []"
  by (simp add: b128.simps)

definition base128 :: "nat \<Rightarrow> bytes" where
  "base128 v = b128 (v div 128) @ [word_of_nat (v mod 128)]"

definition tag_class :: "CBS_ASN1_TAG \<Rightarrow> nat" where
  "tag_class t = unat t div 2 ^ 29"

definition tag_number :: "CBS_ASN1_TAG \<Rightarrow> nat" where
  "tag_number t = unat t mod 2 ^ 29"

definition valid_tag :: "CBS_ASN1_TAG \<Rightarrow> bool" where
  "valid_tag t \<longleftrightarrow> t AND NOT CBS_ASN1_CONSTRUCTED \<noteq> 0"

definition der_tag :: "CBS_ASN1_TAG \<Rightarrow> bytes" where
  "der_tag t =
     (if tag_number t < 31 then [word_of_nat (32 * tag_class t + tag_number t)]
      else word_of_nat (32 * tag_class t + 31) # base128 (tag_number t))"

definition der_length :: "nat \<Rightarrow> bytes" where
  "der_length n =
     (if n < 2 ^ 7 then [word_of_nat n]
      else if n < 2 ^ 8 then 0x81 # be_bytes 1 n
      else if n < 2 ^ 16 then 0x82 # be_bytes 2 n
      else if n < 2 ^ 24 then 0x83 # be_bytes 3 n
      else 0x84 # be_bytes 4 n)"

definition der_element :: "CBS_ASN1_TAG \<Rightarrow> bytes \<Rightarrow> bytes" where
  "der_element t body = der_tag t @ der_length (length body) @ body"

subsection \<open>The basic readers\<close>

lemma cbs_get_append [simp]: "length a = n \<Longrightarrow> cbs_get (a @ b) n = Some (a, b)"
  by (auto simp: cbs_get_def)

lemma cbs_get_Some_iff: "cbs_get cbs n = Some (a, b) \<longleftrightarrow> cbs = a @ b \<and> length a = n"
  by (auto simp: cbs_get_def)

lemma CBS_get_u8_simps [simp]:
  "CBS_get_u8 [] = None" "CBS_get_u8 (b # cbs) = Some (b, cbs)"
  by (simp_all add: CBS_get_u8_def cbs_get_def)

lemma CBS_get_u8_Some_iff: "CBS_get_u8 cbs = Some (b, r) \<longleftrightarrow> cbs = b # r"
  by (cases cbs) auto

lemma CBS_get_bytes_eq: "CBS_get_bytes cbs n = cbs_get cbs n"
  by (auto simp: CBS_get_bytes_def cbs_get_def)

lemma CBS_skip_append [simp]: "length a = n \<Longrightarrow> CBS_skip (a @ b) n = Some b"
  by (simp add: CBS_skip_def)

lemma fold_be_u64:
  "fold (\<lambda>b result. push_bit 8 result OR ucast b) data (word_of_nat v :: u64)
     = word_of_nat (v * 256 ^ length data + be_val data)"
proof (induction data arbitrary: v)
  case Nil
  then show ?case by simp
next
  case (Cons b data)
  have "push_bit 8 (word_of_nat v :: u64) OR ucast b = word_of_nat (v * 256 + unat b)"
    by (simp add: push_bit_8_or_byte)
  then show ?case
    using Cons [of "v * 256 + unat b"] by (simp add: be_val_Cons algebra_simps)
qed

lemma cbs_get_u_eq:
  "cbs_get_u cbs n = (if length cbs < n then None
     else Some (word_of_nat (be_val (take n cbs)), drop n cbs))"
  using fold_be_u64 [of "take n cbs" 0] by (simp add: cbs_get_u_def cbs_get_def)

lemma cbs_get_u_append:
  "length a = n \<Longrightarrow> cbs_get_u (a @ b) n = Some (word_of_nat (be_val a), b)"
  by (simp add: cbs_get_u_eq)

lemma cbs_get_u_Some_iff:
  "cbs_get_u cbs n = Some (v, r) \<longleftrightarrow> (\<exists>a. cbs = a @ r \<and> length a = n \<and> v = word_of_nat (be_val a))"
  by (auto simp: cbs_get_u_eq intro!: exI [of _ "take n cbs"])

lemma unat_be_val_u64: "length a \<le> 8 \<Longrightarrow> unat (word_of_nat (be_val a) :: u64) = be_val a"
proof -
  assume "length a \<le> 8"
  then have "(256 :: nat) ^ length a \<le> 256 ^ 8"
    by (rule power_increasing) simp
  then have "be_val a < 2 ^ 64"
    using be_val_lt [of a] by simp
  then show ?thesis
    by (simp add: unat_word_of_nat)
qed

subsection \<open>Base-128 integers\<close>

lemma and_0x7f: "unat (b AND 0x7f :: u8) = unat b mod 128"
proof -
  have "b AND 0x7f = take_bit 7 b"
    by (simp add: take_bit_eq_mask mask_eq_exp_minus_1)
  then have "unat (b AND 0x7f) = take_bit 7 (unat b)"
    by (simp only: unsigned_take_bit_eq)
  then show ?thesis
    by (simp add: take_bit_eq_mod)
qed

lemma and_0x80: "b AND 0x80 = 0 \<longleftrightarrow> unat (b :: u8) < 128"
proof -
  have "b AND 0x80 = 0 \<longleftrightarrow> \<not> bit b 7"
    using and_exp_eq_0_iff_not_bit [of b 7] by simp
  also have "bit b 7 \<longleftrightarrow> odd (unat b div 128)"
    using bit_iff_odd [of "unat b" 7] by (simp add: bit_unsigned_iff)
  also have "\<not> odd (unat b div 128) \<longleftrightarrow> unat b < 128"
  proof (cases "unat b < 128")
    case False
    then have "unat b div 128 = 1"
      using unat_lt_256 [of b] by (simp add: div_nat_eqI)
    with False show ?thesis by simp
  qed simp
  finally show ?thesis by simp
qed

text \<open>One step of the loop of \<open>parse_base128_integer\<close> in terms of numbers.\<close>

lemma unat_drop_57_iff: "drop_bit 57 v = 0 \<longleftrightarrow> unat (v :: u64) < 2 ^ 57"
proof -
  have "drop_bit 57 v = 0 \<longleftrightarrow> unat v div 2 ^ 57 = 0"
    by (simp only: word_unat_eq_iff unat_drop_bit) simp
  then show ?thesis by (simp add: div_eq_0_iff)
qed

lemma base128_step:
  assumes "unat (v :: u64) < 2 ^ 57"
  shows "unat (push_bit 7 v OR ucast (b AND 0x7f :: u8)) = unat v * 128 + unat b mod 128"
proof -
  have b: "unat (ucast (b AND 0x7f) :: u64) = unat b mod 128"
    by (simp add: unat_ucast_widen and_0x7f)
  have "unat b mod 128 < 128"
    by simp
  then have "unat (push_bit 7 v OR ucast (b AND 0x7f)) = unat v * 2 ^ 7 + unat (ucast (b AND 0x7f) :: u64)"
    using assms by (intro push_bit_or_small) (simp_all add: b)
  then show ?thesis
    by (simp add: b)
qed

lemma unat_base128_digit:
  "unat (word_of_nat (v mod 128) :: u8) = v mod 128"
  "unat (word_of_nat (128 + v mod 128) :: u8) = 128 + v mod 128"
  by (rule unat_word_of_nat, use mod_less_divisor [of 128 v] in simp)+

lemma mod_128_high: "128 \<le> n \<Longrightarrow> n < 256 \<Longrightarrow> 128 + n mod 128 = (n :: nat)"
  by (simp add: le_mod_geq)

lemma b128_byte: "128 \<le> unat b \<Longrightarrow> word_of_nat (128 + unat b mod 128) = (b :: u8)"
proof -
  assume "128 \<le> unat b"
  then have "128 + unat b mod 128 = unat b"
    using unat_lt_256 by (rule mod_128_high)
  then show ?thesis by (simp del: of_nat_add)
qed

lemma b128_snoc:
  assumes "128 \<le> unat b" and "v = 0 \<Longrightarrow> b \<noteq> 0x80"
  shows "b128 (v * 128 + unat b mod 128) = b128 v @ [b]"
proof -
  have "v * 128 + unat b mod 128 \<noteq> 0"
  proof
    assume z: "v * 128 + unat b mod 128 = 0"
    then have "unat b = 128"
      using mod_128_high [OF assms(1) unat_lt_256] by simp
    then have "b = 0x80"
      by (simp add: word_unat_eq_iff)
    then show False
      using z assms(2) by simp
  qed
  then have "b128 (v * 128 + unat b mod 128) = b128 v @ [word_of_nat (128 + unat b mod 128)]"
    by (subst b128.simps) (simp del: of_nat_add)
  then show ?thesis
    by (simp only: b128_byte [OF assms(1)])
qed

lemma base128_snoc:
  "unat b < 128 \<Longrightarrow> base128 (v * 128 + unat b mod 128) = b128 v @ [b]"
  by (simp add: base128_def)

lemma parse_base128_loop_sound:
  "parse_base128_loop cbs v = Some (w, rest) \<Longrightarrow>
     \<exists>pre. cbs = pre @ rest \<and> b128 (unat v) @ pre = base128 (unat w)"
proof (induction cbs v rule: parse_base128_loop.induct)
  case (1 v)
  then show ?case by simp
next
  case (2 b cbs v)
  define v' where "v' = push_bit 7 v OR ucast (b AND 0x7f)"
  from "2.prems" have d: "drop_bit 57 v = 0" and min: "v = 0 \<Longrightarrow> b \<noteq> 0x80"
    by (auto split: if_splits)
  from d have small: "unat v < 2 ^ 57"
    by (simp only: unat_drop_57_iff)
  have v': "unat v' = unat v * 128 + unat b mod 128"
    unfolding v'_def by (rule base128_step [OF small])
  show ?case
  proof (cases "b AND 0x80 = 0")
    case True
    then have "w = v'" "rest = cbs"
      using "2.prems" by (auto simp: v'_def Let_def split: if_splits)
    then show ?thesis
      using True by (simp only: and_0x80 v') (simp only: base128_snoc append_Cons append_Nil, simp)
  next
    case False
    then have "parse_base128_loop cbs v' = Some (w, rest)"
      using "2.prems" by (auto simp: v'_def Let_def split: if_splits)
    moreover have "drop_bit (64 - 7) v = 0" "\<not> (v = 0 \<and> b = 0x80)"
      using d min by auto
    ultimately obtain pre where "cbs = pre @ rest" "b128 (unat v') @ pre = base128 (unat w)"
      using "2.IH" False by (auto simp: v'_def)
    moreover have "b128 (unat v') = b128 (unat v) @ [b]"
      unfolding v' by (rule b128_snoc) (use False min in \<open>auto simp: and_0x80 unat_eq_0\<close>)
    ultimately show ?thesis
      by (intro exI [of _ "b # pre"]) simp
  qed
qed

lemma parse_base128_loop_b128:
  "v < 2 ^ 64 \<Longrightarrow> parse_base128_loop (b128 v @ rest) 0 = parse_base128_loop rest (word_of_nat v)"
proof (induction v arbitrary: rest rule: b128.induct)
  case (1 v)
  show ?case
  proof (cases "v = 0")
    case True
    then show ?thesis by (simp add: b128.simps)
  next
    case False
    define u where "u = (word_of_nat (v div 128) :: u64)"
    define b where "b = (word_of_nat (128 + v mod 128) :: u8)"
    have lt: "v div 128 < 2 ^ 57"
      using "1.prems" by (simp add: less_mult_imp_div_less)
    then have u: "unat u = v div 128"
      by (simp add: u_def unat_word_of_nat)
    have b: "unat b = 128 + v mod 128"
      unfolding b_def by (rule unat_base128_digit)
    have small: "unat u < 2 ^ 57"
      using lt by (simp only: u)
    have d: "drop_bit 57 u = 0"
      using small by (simp only: unat_drop_57_iff)
    have min: "\<not> (u = 0 \<and> b = 0x80)"
    proof
      assume "u = 0 \<and> b = 0x80"
      then have "v div 128 = 0" "v mod 128 = 0"
        using u b by auto
      then show False using False by (simp add: mod_eq_self_iff_div_eq_0)
    qed
    have step: "push_bit 7 u OR ucast (b AND 0x7f) = word_of_nat v"
    proof -
      have "unat (push_bit 7 u OR ucast (b AND 0x7f)) = unat (word_of_nat v :: u64)"
        using "1.prems" by (simp add: base128_step [OF small] u b unat_word_of_nat)
      then show ?thesis by (simp add: word_unat_eq_iff)
    qed
    have "parse_base128_loop (b128 v @ rest) 0 = parse_base128_loop (b128 (v div 128) @ b # rest) 0"
      using False by (subst b128.simps) (simp add: b_def)
    also have "\<dots> = parse_base128_loop (b # rest) u"
      using "1.IH" [OF False] "1.prems" by (simp add: u_def)
    also have "\<dots> = parse_base128_loop rest (word_of_nat v)"
      using d min by (auto simp: step and_0x80 b)
    finally show ?thesis .
  qed
qed

lemma parse_base128_integer_complete:
  assumes "v < 2 ^ 64"
  shows "parse_base128_integer (base128 v @ rest) = Some (word_of_nat v, rest)"
proof -
  define u where "u = (word_of_nat (v div 128) :: u64)"
  define b where "b = (word_of_nat (v mod 128) :: u8)"
  have lt: "v div 128 < 2 ^ 57"
    using assms by (simp add: less_mult_imp_div_less)
  then have u: "unat u = v div 128"
    by (simp add: u_def unat_word_of_nat)
  have small: "unat u < 2 ^ 57"
    using lt by (simp only: u)
  have d: "drop_bit 57 u = 0"
    using small by (simp only: unat_drop_57_iff)
  have b: "unat b = v mod 128"
    unfolding b_def by (rule unat_base128_digit)
  have "unat (push_bit 7 u OR ucast (b AND 0x7f)) = unat (word_of_nat v :: u64)"
    using assms by (simp add: base128_step [OF small] u b unat_word_of_nat)
  then have step: "push_bit 7 u OR ucast (b AND 0x7f) = word_of_nat v"
    by (simp add: word_unat_eq_iff)
  have "b \<noteq> 0x80"
    using b mod_less_divisor [of 128 v] by auto
  have "parse_base128_integer (base128 v @ rest) = parse_base128_loop (b # rest) u"
    using assms by (simp add: parse_base128_integer_def base128_def parse_base128_loop_b128 u_def b_def)
  also have "\<dots> = Some (word_of_nat v, rest)"
    using d \<open>b \<noteq> 0x80\<close> by (simp add: step and_0x80 b)
  finally show ?thesis .
qed

lemma parse_base128_integer_iff:
  "parse_base128_integer cbs = Some (v, rest) \<longleftrightarrow> cbs = base128 (unat v) @ rest"
proof
  assume "parse_base128_integer cbs = Some (v, rest)"
  then obtain pre where "cbs = pre @ rest" "b128 (unat (0 :: u64)) @ pre = base128 (unat v)"
    using parse_base128_loop_sound [of cbs 0 v rest] by (auto simp: parse_base128_integer_def)
  then show "cbs = base128 (unat v) @ rest"
    by (simp add: b128.simps)
next
  assume "cbs = base128 (unat v) @ rest"
  then show "parse_base128_integer cbs = Some (v, rest)"
    using parse_base128_integer_complete [of "unat v" rest] unat_less [of v] by simp
qed

subsection \<open>Identifier octets\<close>

lemma and_0x1f: "unat (b AND 0x1f :: u8) = unat b mod 32"
proof -
  have "b AND 0x1f = take_bit 5 b"
    by (simp add: take_bit_eq_mask mask_eq_exp_minus_1)
  then have "unat (b AND 0x1f) = take_bit 5 (unat b)"
    by (simp only: unsigned_take_bit_eq)
  then show ?thesis
    by (simp add: take_bit_eq_mod)
qed

lemma and_0xe0: "ucast (b :: u8) AND 0xe0 = (push_bit 5 (ucast (drop_bit 5 b)) :: u32)"
proof (rule bit_word_eqI)
  fix m assume "m < LENGTH(32)"
  have e0: "bit (0xe0 :: u32) m \<longleftrightarrow> 5 \<le> m" if "m < 8"
  proof -
    have "m = 0 \<or> m = 1 \<or> m = 2 \<or> m = 3 \<or> m = 4 \<or> m = 5 \<or> m = 6 \<or> m = 7"
      using that by auto
    then show ?thesis by (elim disjE) simp_all
  qed
  have "bit b m \<Longrightarrow> m < 8"
    using bit_imp_le_length [of b m] by simp
  then show "bit (ucast b AND 0xe0 :: u32) m \<longleftrightarrow> bit (push_bit 5 (ucast (drop_bit 5 b)) :: u32) m"
    using e0 by (auto simp: bit_push_bit_iff bit_and_iff bit_ucast_iff bit_drop_bit_eq simp del: bit_numeral_word_iff)
qed

lemma tag_class_bits:
  "push_bit 24 (ucast (b :: u8) AND 0xe0) = (push_bit 29 (ucast (drop_bit 5 b)) :: u32)"
  by (simp only: and_0xe0 push_bit_push_bit) simp

lemma unat_asn1_tag:
  assumes "unat n < 2 ^ 29"
  shows "unat (push_bit 24 (ucast (b :: u8) AND 0xe0) OR n :: u32) = unat b div 32 * 2 ^ 29 + unat n"
proof -
  have b: "unat (ucast (drop_bit 5 b) :: u32) = unat b div 32"
    by (simp add: unat_ucast_widen unat_drop_bit)
  have "unat b div 32 < 8"
    using unat_lt_256 [of b] by (simp add: less_mult_imp_div_less)
  then show ?thesis
    unfolding tag_class_bits b [symmetric]
    using assms by (intro push_bit_or_small) (simp_all add: b)
qed

text \<open>The parts of a tag, and the tag that the reader assembles from them.\<close>

lemma tag_class_less: "tag_class t < 8"
  using unat_less [of t] by (simp add: tag_class_def less_mult_imp_div_less)

lemma tag_number_less: "tag_number t < 2 ^ 29"
  by (simp add: tag_number_def)

lemma tag_parts: "unat t = tag_class t * 2 ^ 29 + tag_number t"
  by (simp only: tag_class_def tag_number_def div_mult_mod_eq)

lemma tag_eqI: "tag_class t = tag_class u \<Longrightarrow> tag_number t = tag_number u \<Longrightarrow> t = u"
  by (simp add: word_unat_eq_iff tag_parts)

lemma tag_parts_unique:
  assumes "unat t = c * 2 ^ 29 + n" "n < 2 ^ 29"
  shows "tag_class t = c" "tag_number t = n"
  unfolding tag_class_def tag_number_def assms(1) using assms(2) by simp_all

lemma word_of_nat_div_mod_32: "word_of_nat (32 * (unat b div 32) + unat b mod 32) = (b :: u8)"
  by (simp only: mult_div_mod_eq) simp

lemma tag_number_mask: "(ucast CBS_ASN1_TAG_NUMBER_MASK :: u64) = 2 ^ 29 - 1"
  by (simp add: CBS_ASN1_TAG_NUMBER_MASK_def CBS_ASN1_TAG_SHIFT_def)

lemma high_tag_number_iff:
  "v > ucast CBS_ASN1_TAG_NUMBER_MASK \<or> v < 0x1f \<longleftrightarrow> \<not> (31 \<le> unat v \<and> unat v < 2 ^ 29)" for v :: u64
  unfolding tag_number_mask by (auto simp: word_less_nat_alt)

lemma parse_asn1_tag_low:
  assumes "unat b mod 32 \<noteq> 31"
  shows "parse_asn1_tag (b # cbs) =
           (let t = push_bit 24 (ucast b AND 0xe0) OR ucast (b AND 0x1f)
            in if valid_tag t then Some (t, cbs) else None)"
proof -
  have "unat (ucast (b AND 0x1f) :: u32) \<noteq> 31"
    using assms by (simp add: unat_ucast_widen and_0x1f)
  then have "(ucast (b AND 0x1f) :: u32) \<noteq> 0x1f"
    by auto
  then show ?thesis
    by (simp add: parse_asn1_tag_def valid_tag_def CBS_ASN1_TAG_SHIFT_def Let_def)
qed

lemma parse_asn1_tag_high:
  assumes "unat b mod 32 = 31"
  shows "parse_asn1_tag (b # cbs) =
           (case parse_base128_integer cbs of
              None \<Rightarrow> None
            | Some (v, cbs) \<Rightarrow>
                (let t = push_bit 24 (ucast b AND 0xe0) OR ucast v
                 in if 31 \<le> unat v \<and> unat v < 2 ^ 29 \<and> valid_tag t then Some (t, cbs) else None))"
proof -
  have "unat (ucast (b AND 0x1f) :: u32) = unat (0x1f :: u32)"
    using assms by (simp add: unat_ucast_widen and_0x1f)
  then have "(ucast (b AND 0x1f) :: u32) = 0x1f"
    by (simp only: word_unat_eq_iff)
  then show ?thesis
    by (simp add: parse_asn1_tag_def valid_tag_def CBS_ASN1_TAG_SHIFT_def high_tag_number_iff Let_def del: not_le
          split: option.split)
qed

lemma parse_asn1_tag_sound:
  assumes "parse_asn1_tag cbs = Some (t, rest)"
  shows "valid_tag t \<and> cbs = der_tag t @ rest"
proof -
  obtain b cs where cbs: "cbs = b # cs"
    using assms by (cases cbs) (simp_all add: parse_asn1_tag_def)
  show ?thesis
  proof (cases "unat b mod 32 = 31")
    case False
    define n where "n = (ucast (b AND 0x1f) :: u32)"
    have n: "unat n = unat b mod 32"
      by (simp add: n_def unat_ucast_widen and_0x1f)
    have lt: "unat b mod 32 < 32"
      by simp
    have t: "t = push_bit 24 (ucast b AND 0xe0) OR n" "valid_tag t" "rest = cs"
      using assms by (auto simp: cbs parse_asn1_tag_low [OF False] n_def Let_def split: if_splits)
    have "unat t = unat b div 32 * 2 ^ 29 + unat b mod 32"
      unfolding t(1) n [symmetric] by (rule unat_asn1_tag) (use lt in \<open>simp add: n\<close>)
    then have "tag_class t = unat b div 32" "tag_number t = unat b mod 32"
      using lt by (auto intro: tag_parts_unique)
    moreover have "unat b mod 32 < 31"
      using False lt by linarith
    ultimately have "der_tag t = [b]"
      by (simp only: der_tag_def word_of_nat_div_mod_32 if_True)
    then show ?thesis using t(2,3) by (simp add: cbs)
  next
    case True
    then obtain v where v: "parse_base128_integer cs = Some (v, rest)" "31 \<le> unat v" "unat v < 2 ^ 29"
      and t: "t = push_bit 24 (ucast b AND 0xe0) OR ucast v" "valid_tag t"
      using assms by (auto simp: cbs parse_asn1_tag_high [OF True] Let_def split: if_splits option.splits)
    have n: "unat (ucast v :: u32) = unat v"
      using v(3) by (simp add: unat_ucast_mod)
    have "unat t = unat b div 32 * 2 ^ 29 + unat v"
      unfolding t(1) n [symmetric] by (rule unat_asn1_tag) (use v(3) in \<open>simp only: n\<close>)
    then have "tag_class t = unat b div 32" "tag_number t = unat v"
      using v(3) by (auto intro: tag_parts_unique)
    moreover have "word_of_nat (32 * (unat b div 32) + 31) = b"
      using word_of_nat_div_mod_32 [of b] by (simp only: True)
    ultimately have "der_tag t = b # base128 (unat v)"
      using v(2) by (simp add: der_tag_def)
    then show ?thesis
      using v(1) t(2) by (simp add: cbs parse_base128_integer_iff)
  qed
qed

lemma parse_asn1_tag_complete:
  assumes "valid_tag t"
  shows "parse_asn1_tag (der_tag t @ rest) = Some (t, rest)"
proof -
  have c: "32 * tag_class t + k < 2 ^ LENGTH(8) \<and> (32 * tag_class t + k) div 32 = tag_class t
             \<and> (32 * tag_class t + k) mod 32 = k" if "k < 32" for k
    using that tag_class_less [of t] by (simp add: div_mult_self1)
  define k where "k = (if tag_number t < 31 then tag_number t else 31)"
  have "k < 32" by (simp add: k_def)
  define b where "b = (word_of_nat (32 * tag_class t + k) :: u8)"
  have b: "unat b = 32 * tag_class t + k"
    unfolding b_def using c [OF \<open>k < 32\<close>] by (intro unat_word_of_nat) simp
  have div: "unat b div 32 = tag_class t" and mod: "unat b mod 32 = k"
    unfolding b using c [OF \<open>k < 32\<close>] by simp_all
  have eq: "push_bit 24 (ucast b AND 0xe0) OR n = t" if "unat n = tag_number t" for n :: u32
    using unat_asn1_tag [of n b] tag_number_less [of t] tag_parts [of t]
    by (simp only: word_unat_eq_iff that div)
  show ?thesis
  proof (cases "tag_number t < 31")
    case True
    then have "unat (ucast (b AND 0x1f) :: u32) = tag_number t"
      by (simp add: unat_ucast_widen and_0x1f mod k_def)
    then have t: "push_bit 24 (ucast b AND 0xe0) OR ucast (b AND 0x1f) = t"
      by (rule eq)
    have "der_tag t @ rest = b # rest"
      using True by (simp add: der_tag_def b_def k_def)
    moreover have "unat b mod 32 \<noteq> 31"
      using True by (simp add: mod k_def)
    ultimately show ?thesis
      using assms by (simp only: parse_asn1_tag_low t Let_def simp_thms if_True)
  next
    case False
    define v where "v = (word_of_nat (tag_number t) :: u64)"
    have v: "unat v = tag_number t"
      unfolding v_def using tag_number_less [of t] by (intro unat_word_of_nat) simp
    have "unat (ucast v :: u32) = tag_number t"
      using tag_number_less [of t] by (simp add: unat_ucast_mod v)
    then have t: "push_bit 24 (ucast b AND 0xe0) OR ucast v = t"
      by (rule eq)
    have "der_tag t @ rest = b # base128 (unat v) @ rest"
      using False by (simp add: der_tag_def b_def k_def v)
    moreover have "parse_base128_integer (base128 (unat v) @ rest) = Some (v, rest)"
      by (simp add: parse_base128_integer_iff)
    moreover have "unat b mod 32 = 31"
      using False by (simp add: mod k_def)
    ultimately show ?thesis
      using False tag_number_less [of t] assms
      by (simp only: parse_asn1_tag_high option.case prod.case Let_def t v) simp
  qed
qed

lemma parse_asn1_tag_iff:
  "parse_asn1_tag cbs = Some (t, rest) \<longleftrightarrow> valid_tag t \<and> cbs = der_tag t @ rest"
  using parse_asn1_tag_sound parse_asn1_tag_complete by blast

lemma length_b128_le: "v < 128 ^ k \<Longrightarrow> length (b128 v) \<le> k"
proof (induction k arbitrary: v)
  case 0
  then show ?case by (simp add: b128.simps)
next
  case (Suc k)
  then have "length (b128 (v div 128)) \<le> k"
    by (simp add: less_mult_imp_div_less mult.commute)
  then show ?case by (subst b128.simps) simp
qed

lemma length_der_tag_le: "length (der_tag t) \<le> 6"
proof -
  have "tag_number t div 128 < 128 ^ 4"
    using tag_number_less [of t] by (simp add: less_mult_imp_div_less)
  then have "length (b128 (tag_number t div 128)) \<le> 4"
    by (rule length_b128_le)
  then show ?thesis by (simp add: der_tag_def base128_def)
qed

subsection \<open>Length octets\<close>

text \<open>The length octets \<open>lb # ls\<close> that the reader accepts in DER, with the length they stand for.\<close>

definition der_length_octets :: "u8 \<Rightarrow> bytes \<Rightarrow> nat \<Rightarrow> bool" where
  "der_length_octets lb ls n \<longleftrightarrow>
     (if unat lb < 128 then ls = [] \<and> n = unat lb
      else unat lb = 128 + length ls \<and> 1 \<le> length ls \<and> length ls \<le> 4 \<and>
           n = be_val ls \<and> 128 \<le> n \<and> 256 ^ (length ls - 1) \<le> n)"

lemma der_length_octets_less: "der_length_octets lb ls n \<Longrightarrow> n < 2 ^ 32"
proof -
  assume *: "der_length_octets lb ls n"
  have "be_val ls < 2 ^ 32" if "length ls \<le> 4"
  proof -
    have "(256 :: nat) ^ length ls \<le> 256 ^ 4"
      using that by (rule power_increasing) simp
    then show ?thesis using be_val_lt [of ls] by simp
  qed
  with * show ?thesis
    by (auto simp: der_length_octets_def split: if_splits)
qed

lemma der_length_long:
  assumes "1 \<le> length ls" "length ls \<le> 4" "128 \<le> be_val ls" "256 ^ (length ls - 1) \<le> be_val ls"
  shows "der_length (be_val ls) = word_of_nat (128 + length ls) # ls"
proof -
  have lt: "be_val ls < 256 ^ length ls"
    by (rule be_val_lt)
  have bytes: "be_bytes (length ls) (be_val ls) = ls"
    by (rule be_bytes_be_val)
  from assms(1,2) consider "length ls = 1" | "length ls = 2" | "length ls = 3" | "length ls = 4"
    by linarith
  then show ?thesis
    using assms(3,4) lt bytes by cases (simp_all add: der_length_def)
qed

lemma der_length_eq_iff:
  assumes "n < 2 ^ 32"
  shows "der_length n = lb # ls \<longleftrightarrow> der_length_octets lb ls n"
proof
  assume "der_length_octets lb ls n"
  then show "der_length n = lb # ls"
  proof (cases "unat lb < 128")
    case False
    then have *: "unat lb = 128 + length ls" "1 \<le> length ls" "length ls \<le> 4"
      "n = be_val ls" "128 \<le> n" "256 ^ (length ls - 1) \<le> n"
      using \<open>der_length_octets lb ls n\<close> by (simp_all add: der_length_octets_def)
    have "lb = word_of_nat (128 + length ls)"
      by (simp only: *(1) [symmetric]) simp
    then show ?thesis
      using der_length_long [of ls] * by simp
  qed (simp add: der_length_octets_def der_length_def)
next
  assume l: "der_length n = lb # ls"
  show "der_length_octets lb ls n"
  proof (cases "n < 2 ^ 7")
    case True
    then have "lb = word_of_nat n" "ls = []"
      using l by (simp_all add: der_length_def)
    moreover have "unat (word_of_nat n :: u8) = n"
      using True by (intro unat_word_of_nat) simp
    ultimately show ?thesis
      using True by (simp add: der_length_octets_def)
  next
    case False
    then obtain k where "1 \<le> k" "k \<le> 4" "ls = be_bytes k n" "unat lb = 128 + k"
      "n < 256 ^ k" "256 ^ (k - 1) \<le> n"
      using l assms that [of 1] that [of 2] that [of 3] that [of 4]
      by (auto simp: der_length_def split: if_splits)
    then show ?thesis
      using False by (simp add: der_length_octets_def be_val_be_bytes_id)
  qed
qed

subsection \<open>Elements\<close>

text \<open>
  The header of an element is at most twelve bytes and a definite length is below \<open>2 ^ 32\<close>, so that
  none of the additions of \<open>cbs_get_any_asn1_element\<close> wraps.
\<close>

lemma unat_word_sum_small:
  "unat a + m + n < 2 ^ 64 \<Longrightarrow> unat (a + word_of_nat m + word_of_nat n :: u64) = unat a + m + n"
proof -
  assume "unat a + m + n < 2 ^ 64"
  then have "unat (word_of_nat (unat a + m + n) :: u64) = unat a + m + n"
    by (intro unat_word_of_nat) simp
  then show ?thesis by simp
qed

lemma element_len_no_overflow:
  assumes "unat (len :: u64) < 2 ^ 32" "m \<le> 12" "n \<le> 4"
  shows "\<not> len + word_of_nat m + word_of_nat n < len"
    and "unat (len + (word_of_nat m + word_of_nat n)) = unat len + m + n"
proof -
  have "unat (len + word_of_nat m + word_of_nat n) = unat len + m + n"
    using assms by (intro unat_word_sum_small) simp
  then show "\<not> len + word_of_nat m + word_of_nat n < len"
    and "unat (len + (word_of_nat m + word_of_nat n)) = unat len + m + n"
    by (simp_all only: word_less_nat_alt add.assoc)
qed

lemma minimal_length_iff:
  assumes "1 \<le> length ls" "length ls \<le> 4"
  shows "(word_of_nat (be_val ls) < (128 :: u64) \<or> drop_bit ((length ls - 1) * 8) (word_of_nat (be_val ls) :: u64) = 0)
           \<longleftrightarrow> \<not> (128 \<le> be_val ls \<and> 256 ^ (length ls - 1) \<le> be_val ls)"
proof -
  have v: "unat (word_of_nat (be_val ls) :: u64) = be_val ls"
    using assms(2) by (intro unat_be_val_u64) simp
  have p: "2 ^ ((length ls - 1) * 8) = (256 :: nat) ^ (length ls - 1)"
    by (simp add: power_mult mult.commute [of _ 8])
  have "drop_bit ((length ls - 1) * 8) (word_of_nat (be_val ls) :: u64) = 0
          \<longleftrightarrow> be_val ls div 256 ^ (length ls - 1) = 0"
    by (simp only: word_unat_eq_iff unat_drop_bit v p) simp
  then show ?thesis
    by (auto simp: word_less_nat_alt v div_eq_0_iff)
qed

lemma cbs_get_split:
  "cbs_get (h @ tail) (length h + n) = Some (out, rest) \<longleftrightarrow>
     (\<exists>body. out = h @ body \<and> length body = n \<and> tail = body @ rest)"
  by (auto simp: cbs_get_Some_iff append_eq_append_conv2)

text \<open>The reader after the identifier octets \<open>h\<close> of the tag \<open>t\<close> have been parsed, in strict DER mode.\<close>

lemma cbs_get_any_asn1_element_short:
  assumes "valid_tag t" "unat lb < 128"
  shows "cbs_get_any_asn1_element (der_tag t @ lb # tail) False = Some (e, rest) \<longleftrightarrow>
    (\<exists>body. length body = unat lb \<and> tail = body @ rest \<and>
       e = \<lparr>el_out = der_tag t @ lb # body, el_tag = t, el_header_len = length (der_tag t) + 1,
            el_ber_found = False, el_indefinite = False\<rparr>)"
proof -
  have tag: "parse_asn1_tag (der_tag t @ lb # tail) = Some (t, lb # tail)"
    using assms(1) by (rule parse_asn1_tag_complete)
  have "unat (ucast lb :: u64) = unat lb"
    by (simp add: unat_ucast_widen)
  then have len: "unat ((ucast lb :: u64) + word_of_nat (length (der_tag t) + 1)) = length (der_tag t @ [lb]) + unat lb"
    using unat_word_sum_small [of "ucast lb" "length (der_tag t) + 1" 0] length_der_tag_le [of t] assms(2) by simp
  have get: "cbs_get (der_tag t @ lb # tail) (length (der_tag t @ [lb]) + unat lb) = Some (out, r)
               \<longleftrightarrow> (\<exists>body. out = der_tag t @ lb # body \<and> length body = unat lb \<and> tail = body @ r)" for out r
    using cbs_get_split [of "der_tag t @ [lb]" tail "unat lb" out r] by simp
  show ?thesis
    using assms(2)
    by (auto simp add: cbs_get_any_asn1_element_def tag Let_def and_0x80 CBS_get_bytes_eq bind_eq_Some_iff
          len [simplified] get [simplified])
qed

lemma cbs_get_any_asn1_element_long:
  assumes "valid_tag t" "128 \<le> unat lb"
  shows "cbs_get_any_asn1_element (der_tag t @ lb # tail) False = Some (e, rest) \<longleftrightarrow>
    (\<exists>ls body. der_length_octets lb ls (length body) \<and> tail = ls @ body @ rest \<and>
       e = \<lparr>el_out = der_tag t @ lb # ls @ body, el_tag = t,
            el_header_len = length (der_tag t) + 1 + length ls,
            el_ber_found = False, el_indefinite = False\<rparr>)"
    (is "?lhs \<longleftrightarrow> ?rhs")
proof -
  have tag: "parse_asn1_tag (der_tag t @ lb # tail) = Some (t, lb # tail)"
    using assms(1) by (rule parse_asn1_tag_complete)
  define k where "k = unat (lb AND 0x7f)"
  have lb: "unat lb = 128 + k"
    unfolding k_def and_0x7f using mod_128_high [OF assms(2) unat_lt_256] by simp
  have get: "cbs_get (der_tag t @ lb # ls @ r') (unat (word_of_nat (be_val ls) + (word_of_nat (length (der_tag t) + 1) + word_of_nat k) :: u64)) = Some (out, r)
               \<longleftrightarrow> (\<exists>body. out = der_tag t @ lb # ls @ body \<and> length body = be_val ls \<and> r' = body @ r)"
    and ok: "\<not> (word_of_nat (be_val ls) :: u64) + word_of_nat (length (der_tag t) + 1) + word_of_nat k < word_of_nat (be_val ls)"
    if "length ls = k" "k \<le> 4" for ls r' out r
  proof -
    have v: "unat (word_of_nat (be_val ls) :: u64) = be_val ls"
      using that by (intro unat_be_val_u64) simp
    have "be_val ls < 256 ^ 4"
      using be_val_lt [of ls] power_increasing [of k 4 "256 :: nat"] that by simp
    then have v32: "unat (word_of_nat (be_val ls) :: u64) < 2 ^ 32"
      by (simp add: v)
    have m: "length (der_tag t) + 1 \<le> 12"
      using length_der_tag_le [of t] by simp
    show "\<not> (word_of_nat (be_val ls) :: u64) + word_of_nat (length (der_tag t) + 1) + word_of_nat k < word_of_nat (be_val ls)"
      using v32 m that(2) by (rule element_len_no_overflow)
    have "unat (word_of_nat (be_val ls) + (word_of_nat (length (der_tag t) + 1) + word_of_nat k) :: u64)
            = length (der_tag t @ lb # ls) + be_val ls"
      using element_len_no_overflow(2) [OF v32 m that(2)] that(1) by (simp only: v) simp
    then show "cbs_get (der_tag t @ lb # ls @ r') (unat (word_of_nat (be_val ls) + (word_of_nat (length (der_tag t) + 1) + word_of_nat k) :: u64)) = Some (out, r)
               \<longleftrightarrow> (\<exists>body. out = der_tag t @ lb # ls @ body \<and> length body = be_val ls \<and> r' = body @ r)"
      using cbs_get_split [of "der_tag t @ lb # ls" r' "be_val ls" out r] by simp
  qed
  have hdr: "length (der_tag t @ lb # tail) - length tail = length (der_tag t) + 1"
    by simp
  have hi: "lb AND 0x80 \<noteq> 0"
    using assms(2) by (simp add: and_0x80)
  show ?thesis
  proof (cases "1 \<le> k \<and> k \<le> 4")
    case False
    then have "cbs_get_any_asn1_element (der_tag t @ lb # tail) False = None"
      using hi by (auto simp: cbs_get_any_asn1_element_def tag Let_def k_def)
    moreover have "\<not> ?rhs"
      using False assms(2) lb by (auto simp: der_length_octets_def)
    ultimately show ?thesis by simp
  next
    case True
    have "?lhs \<longleftrightarrow> (\<exists>ls r'. tail = ls @ r' \<and> length ls = k \<and>
        128 \<le> be_val ls \<and> 256 ^ (k - 1) \<le> be_val ls \<and>
        (\<exists>body. length body = be_val ls \<and> r' = body @ rest \<and>
           e = \<lparr>el_out = der_tag t @ lb # ls @ body, el_tag = t,
                el_header_len = length (der_tag t) + 1 + k,
                el_ber_found = False, el_indefinite = False\<rparr>))"
    proof (cases "length tail < k")
      case True
      then have "cbs_get_any_asn1_element (der_tag t @ lb # tail) False = None"
        using hi by (simp add: cbs_get_any_asn1_element_def tag Let_def cbs_get_u_eq k_def)
      with True show ?thesis by auto
    next
      case False
      define ls where "ls = take k tail"
      define r' where "r' = drop k tail"
      have tail: "tail = ls @ r'" and ls: "length ls = k"
        using False by (simp_all add: ls_def r'_def)
      have u: "cbs_get_u tail k = Some (word_of_nat (be_val ls), r')"
        unfolding tail using ls by (rule cbs_get_u_append)
      have k: "k \<noteq> 0" "\<not> 4 < k" "k \<le> 4"
        using True by simp_all
      have min: "(word_of_nat (be_val ls) < (128 :: u64) \<or> drop_bit ((k - 1) * 8) (word_of_nat (be_val ls) :: u64) = 0)
           \<longleftrightarrow> \<not> (128 \<le> be_val ls \<and> 256 ^ (k - 1) \<le> be_val ls)"
        using minimal_length_iff [of ls] True ls by simp
      have uniq: "(\<exists>ls' r''. tail = ls' @ r'' \<and> length ls' = k \<and> P ls' r'') \<longleftrightarrow> P ls r'" for P
        using ls by (auto simp: tail)
      show ?thesis
        unfolding uniq cbs_get_any_asn1_element_def
        using hi
        by (simp only: tag bind.bind_lunit prod.case CBS_get_u8_simps hdr Let_def if_False simp_thms k_def [symmetric]
              k u min ok [OF ls k(3)])
           (auto simp: bind_eq_Some_iff CBS_get_bytes_eq get [OF ls k(3), simplified] tail ls)
    qed
    also have "\<dots> \<longleftrightarrow> ?rhs"
      using True assms(2) lb by (force simp: der_length_octets_def)
    finally show ?thesis .
  qed
qed

definition der_asn1_element :: "CBS_ASN1_TAG \<Rightarrow> bytes \<Rightarrow> asn1_element" where
  "der_asn1_element t body =
     \<lparr>el_out = der_element t body, el_tag = t,
      el_header_len = length (der_tag t) + length (der_length (length body)),
      el_ber_found = False, el_indefinite = False\<rparr>"

lemma der_length_Cons: "\<exists>lb ls. der_length n = lb # ls"
  by (simp add: der_length_def)

lemma cbs_get_any_asn1_element_octets:
  assumes "valid_tag t"
  shows "cbs_get_any_asn1_element (der_tag t @ lb # tail) False = Some (e, rest) \<longleftrightarrow>
    (\<exists>ls body. der_length_octets lb ls (length body) \<and> tail = ls @ body @ rest \<and>
       e = \<lparr>el_out = der_tag t @ lb # ls @ body, el_tag = t,
            el_header_len = length (der_tag t) + 1 + length ls,
            el_ber_found = False, el_indefinite = False\<rparr>)"
proof (cases "unat lb < 128")
  case True
  then show ?thesis
    by (simp only: cbs_get_any_asn1_element_short [OF assms True]) (auto simp: der_length_octets_def)
next
  case False
  then show ?thesis
    by (simp only: cbs_get_any_asn1_element_long [OF assms] not_less)
qed

lemma cbs_get_any_asn1_element_iff:
  "cbs_get_any_asn1_element cbs False = Some (e, rest) \<longleftrightarrow>
     (\<exists>t body. valid_tag t \<and> length body < 2 ^ 32 \<and> cbs = der_element t body @ rest \<and>
        e = der_asn1_element t body)"
proof
  assume *: "cbs_get_any_asn1_element cbs False = Some (e, rest)"
  then obtain t lb tail where "parse_asn1_tag cbs = Some (t, lb # tail)"
    by (auto simp: cbs_get_any_asn1_element_def bind_eq_Some_iff CBS_get_u8_Some_iff)
  then have t: "valid_tag t" and cbs: "cbs = der_tag t @ lb # tail"
    by (simp_all add: parse_asn1_tag_iff)
  from * obtain ls body where ls: "der_length_octets lb ls (length body)" and tail: "tail = ls @ body @ rest"
    and e: "e = \<lparr>el_out = der_tag t @ lb # ls @ body, el_tag = t,
            el_header_len = length (der_tag t) + 1 + length ls,
            el_ber_found = False, el_indefinite = False\<rparr>"
    unfolding cbs cbs_get_any_asn1_element_octets [OF t] by blast
  have "length body < 2 ^ 32" and "der_length (length body) = lb # ls"
    using ls der_length_octets_less der_length_eq_iff by blast+
  then show "\<exists>t body. valid_tag t \<and> length body < 2 ^ 32 \<and> cbs = der_element t body @ rest \<and>
        e = der_asn1_element t body"
    by (intro exI [of _ t] exI [of _ body]) (simp add: t cbs tail e der_asn1_element_def der_element_def)
next
  assume "\<exists>t body. valid_tag t \<and> length body < 2 ^ 32 \<and> cbs = der_element t body @ rest \<and>
        e = der_asn1_element t body"
  then obtain t body where t: "valid_tag t" and lt: "length body < 2 ^ 32"
    and cbs: "cbs = der_element t body @ rest" and e: "e = der_asn1_element t body"
    by blast
  obtain lb ls where l: "der_length (length body) = lb # ls"
    using der_length_Cons by blast
  then have ls: "der_length_octets lb ls (length body)"
    using der_length_eq_iff [OF lt] by blast
  have cbs': "cbs = der_tag t @ lb # ls @ body @ rest"
    by (simp add: cbs der_element_def l)
  show "cbs_get_any_asn1_element cbs False = Some (e, rest)"
    unfolding cbs' cbs_get_any_asn1_element_octets [OF t]
    by (intro exI [of _ ls] exI [of _ body]) (simp add: ls e der_asn1_element_def der_element_def l)
qed

lemma CBS_skip_der_element:
  "CBS_skip (der_element t body) (length (der_tag t) + length (der_length (length body))) = Some body"
  using CBS_skip_append [of "der_tag t @ der_length (length body)" _ body] by (simp add: der_element_def)

lemma CBS_get_any_asn1_element_iff:
  "CBS_get_any_asn1_element cbs = Some (out, t, n, rest) \<longleftrightarrow>
     (\<exists>body. valid_tag t \<and> length body < 2 ^ 32 \<and> cbs = der_element t body @ rest \<and>
        out = der_element t body \<and> n = length (der_tag t) + length (der_length (length body)))"
  by (force simp: CBS_get_any_asn1_element_def bind_eq_Some_iff cbs_get_any_asn1_element_iff der_asn1_element_def)

lemma CBS_get_any_asn1_iff:
  "CBS_get_any_asn1 cbs = Some (body, t, rest) \<longleftrightarrow>
     valid_tag t \<and> length body < 2 ^ 32 \<and> cbs = der_element t body @ rest"
  by (force simp: CBS_get_any_asn1_def bind_eq_Some_iff CBS_get_any_asn1_element_iff CBS_skip_der_element)

lemma CBS_get_asn1_iff:
  "CBS_get_asn1 cbs t = Some (body, rest) \<longleftrightarrow>
     valid_tag t \<and> length body < 2 ^ 32 \<and> cbs = der_element t body @ rest"
  by (force simp: CBS_get_asn1_def cbs_get_asn1_def bind_eq_Some_iff CBS_get_any_asn1_element_iff
        CBS_skip_der_element split: if_splits)

lemma CBS_get_asn1_element_iff:
  "CBS_get_asn1_element cbs t = Some (out, rest) \<longleftrightarrow>
     (\<exists>body. valid_tag t \<and> length body < 2 ^ 32 \<and> out = der_element t body \<and> cbs = out @ rest)"
  by (force simp: CBS_get_asn1_element_def cbs_get_asn1_def bind_eq_Some_iff CBS_get_any_asn1_element_iff
        split: if_splits)

subsection \<open>Properties\<close>

text \<open>
  C1: \<open>CBS_get_any_asn1\<close> accepts exactly DER: it returns the body \<open>body\<close>, the tag \<open>t\<close> and the rest
  \<open>rest\<close> of the input precisely when the tag is representable, the body is below \<open>2 ^ 32\<close> bytes and
  the input is the DER encoding of that element followed by \<open>rest\<close>. Every non-minimal tag or
  length, indefinite length and truncated element is therefore an error.
\<close>

theorem CBS_get_any_asn1_der:
  "CBS_get_any_asn1 cbs = Some (body, t, rest) \<longleftrightarrow>
     valid_tag t \<and> length body < 2 ^ 32 \<and> cbs = der_element t body @ rest"
  by (rule CBS_get_any_asn1_iff)

text \<open>
  C8: The base-128 reader accepts exactly the minimal base-128 encodings of the numbers below
  \<open>2 ^ 64\<close>.
\<close>

theorem parse_base128_integer_minimal:
  "parse_base128_integer cbs = Some (v, rest) \<longleftrightarrow> cbs = base128 (unat v) @ rest"
  by (rule parse_base128_integer_iff)

end
