(* ===== verification/DerValues.thy ===== *)
theory DerValues
  imports Der
begin

text \<open>
  The typed ASN.1 readers of \<open>cbs.cc\<close> against the values of X.690: INTEGER as a minimal
  two's-complement byte string, BOOLEAN, and OBJECT IDENTIFIER as a sequence of base-128 arcs.
\<close>

subsection \<open>Two's complement\<close>

text \<open>\<open>tc_minimal\<close> says that no shorter byte string has the same value.\<close>

definition tc_val :: "bytes \<Rightarrow> int" where
  "tc_val bs = int (be_val bs) - (if bs \<noteq> [] \<and> 128 \<le> unat (hd bs) then 256 ^ length bs else 0)"

definition tc_minimal :: "bytes \<Rightarrow> bool" where
  "tc_minimal bs \<longleftrightarrow> bs \<noteq> [] \<and> (1 < length bs \<longrightarrow> tc_val (tl bs) \<noteq> tc_val bs)"

lemma tc_val_Cons:
  "tc_val (b # bs) = (int (unat b) - (if 128 \<le> unat b then 256 else 0)) * 256 ^ length bs + int (be_val bs)"
  by (simp add: tc_val_def be_val_Cons algebra_simps)

lemma tc_val_neg_iff: "bs \<noteq> [] \<Longrightarrow> tc_val bs < 0 \<longleftrightarrow> 128 \<le> unat (hd bs)"
proof -
  have "int (be_val bs) < 256 ^ length bs"
    using be_val_lt [of bs] by (metis of_nat_less_iff of_nat_numeral of_nat_power)
  then show "bs \<noteq> [] \<Longrightarrow> ?thesis"
    by (auto simp: tc_val_def)
qed

lemma tc_val_tl_iff:
  "tc_val (c # bs) = tc_val (b # c # bs) \<longleftrightarrow>
     unat b = 0 \<and> unat c < 128 \<or> unat b = 255 \<and> 128 \<le> unat c"
proof -
  define s where "s = (\<lambda>x :: u8. if 128 \<le> unat x then (1 :: int) else 0)"
  define p where "p = (256 :: int) ^ Suc (length bs)"
  have "p \<noteq> 0" by (simp add: p_def)
  have "tc_val (b # c # bs) - tc_val (c # bs) = (int (unat b) - 256 * s b + s c) * p"
    by (simp add: tc_val_Cons be_val_Cons s_def p_def algebra_simps)
  then have "tc_val (c # bs) = tc_val (b # c # bs) \<longleftrightarrow> int (unat b) - 256 * s b + s c = 0"
    using \<open>p \<noteq> 0\<close> by (metis eq_iff_diff_eq_0 mult_eq_0_iff)
  also have "\<dots> \<longleftrightarrow> unat b = 0 \<and> unat c < 128 \<or> unat b = 255 \<and> 128 \<le> unat c"
    using unat_lt_256 [of b] unat_lt_256 [of c] by (auto simp: s_def simp del: of_nat_unat unat_lt_256)
  finally show ?thesis .
qed

lemma CBS_is_valid_asn1_integer_iff:
  "CBS_is_valid_asn1_integer bs = Some neg \<longleftrightarrow> tc_minimal bs \<and> (neg \<longleftrightarrow> tc_val bs < 0)"
proof (cases bs rule: list.exhaust [case_names Nil Cons])
  case Nil
  then show ?thesis by (simp add: CBS_is_valid_asn1_integer_def tc_minimal_def)
next
  case (Cons b cs)
  have "b = 0 \<longleftrightarrow> unat b = 0" "b = 0xff \<longleftrightarrow> unat b = 255"
    by (simp_all add: word_unat_eq_iff)
  with Cons show ?thesis
    by (cases cs) (auto simp: CBS_is_valid_asn1_integer_def tc_minimal_def tc_val_tl_iff tc_val_neg_iff and_0x80
          simp del: unat_eq_0)
qed

text \<open>A minimal encoding of \<open>n \<ge> 2\<close> bytes is outside the range of \<open>n - 1\<close> bytes.\<close>

lemma tc_val_bounds: "bs \<noteq> [] \<Longrightarrow> - (128 * 256 ^ (length bs - 1)) \<le> tc_val bs \<and> tc_val bs < 128 * 256 ^ (length bs - 1)"
proof -
  assume "bs \<noteq> []"
  then obtain b cs where bs: "bs = b # cs" by (cases bs) auto
  define p where "p = (256 :: int) ^ length cs"
  have cs: "int (be_val cs) < p"
    unfolding p_def using be_val_lt [of cs] by (metis of_nat_less_iff of_nat_numeral of_nat_power)
  define d where "d = int (unat b) - (if 128 \<le> unat b then 256 else 0)"
  have d: "-128 \<le> d" "d \<le> 127"
    using unat_lt_256 [of b] by (auto simp: d_def simp del: of_nat_unat unat_lt_256)
  have "-128 * p \<le> d * p" "d * p \<le> 127 * p"
    using d by (intro mult_right_mono; simp add: p_def)+
  then have "- (128 * p) \<le> d * p + int (be_val cs) \<and> d * p + int (be_val cs) < 128 * p"
    using cs by linarith
  then show ?thesis
    unfolding bs tc_val_Cons p_def [symmetric] d_def [symmetric] by (simp add: p_def)
qed

lemma tc_val_minimal:
  assumes "tc_minimal bs" "1 < length bs"
  shows "tc_val bs < - (128 * 256 ^ (length bs - 2)) \<or> 128 * 256 ^ (length bs - 2) \<le> tc_val bs"
proof -
  obtain b c cs where bs: "bs = b # c # cs"
    using assms(2) by (cases bs; cases "tl bs") auto
  define p where "p = (256 :: int) ^ length cs"
  have "p > 0" by (simp add: p_def)
  have cs: "0 \<le> int (be_val cs)" "int (be_val cs) < p"
    unfolding p_def using be_val_lt [of cs] by (simp, metis of_nat_less_iff of_nat_numeral of_nat_power)
  define d where "d = (int (unat b) - (if 128 \<le> unat b then 256 else 0)) * 256 + int (unat c)"
  have "\<not> (unat b = 0 \<and> unat c < 128 \<or> unat b = 255 \<and> 128 \<le> unat c)"
    using assms(1) tc_val_tl_iff [of c cs b] by (auto simp: tc_minimal_def bs)
  then have d: "d \<le> -129 \<or> 128 \<le> d"
    using unat_lt_256 [of b] unat_lt_256 [of c] by (auto simp: d_def simp del: of_nat_unat unat_lt_256)
  have "tc_val bs = d * p + int (be_val cs)"
    unfolding bs by (simp add: tc_val_Cons be_val_Cons d_def p_def algebra_simps)
  moreover have "d * p \<le> -129 * p \<or> 128 * p \<le> d * p"
    using d \<open>p > 0\<close> by (auto intro: mult_right_mono simp del: mult_minus_left)
  ultimately have "tc_val bs < - (128 * p) \<or> 128 * p \<le> tc_val bs"
    using cs by linarith
  then show ?thesis by (simp add: bs p_def)
qed

lemma power_256: "(256 :: 'a::comm_semiring_1) ^ n = 2 ^ (8 * n)"
  by (simp add: power_mult)

subsection \<open>The INTEGER readers\<close>

lemma unat_drop_56_iff: "drop_bit 56 v = 0 \<longleftrightarrow> unat (v :: u64) < 2 ^ 56"
proof -
  have "drop_bit 56 v = 0 \<longleftrightarrow> unat v div 2 ^ 56 = 0"
    by (simp only: word_unat_eq_iff unat_drop_bit) simp
  then show ?thesis by (simp add: div_eq_0_iff)
qed

lemma nat_shift_bound: "x < 2 ^ 56 \<Longrightarrow> y < 256 \<Longrightarrow> x * 256 + y < (2 :: nat) ^ 64"
  by simp

lemma get_asn1_uint64_loop_iff:
  "get_asn1_uint64_loop bs v = Some w \<longleftrightarrow> unat w = unat v * 256 ^ length bs + be_val bs"
proof (induction bs arbitrary: v)
  case Nil
  then show ?case by (auto simp: word_unat_eq_iff)
next
  case (Cons b bs)
  show ?case
  proof (cases "unat v < 2 ^ 56")
    case True
    have "unat (push_bit 8 v OR ucast b) = unat v * 256 + unat b"
      using push_bit_or_small [of "ucast b" 8 v] nat_shift_bound [OF True, of "unat b"]
      by (simp add: unat_ucast_widen)
    with True Cons.IH show ?thesis
      by (simp add: unat_drop_56_iff be_val_Cons algebra_simps)
  next
    case False
    then have "2 ^ 56 * 256 \<le> unat v * 256 ^ length (b # bs)"
      by (intro mult_mono) (simp_all add: self_le_power)
    then have "unat w \<noteq> unat v * 256 ^ length (b # bs) + be_val (b # bs)"
      using unat_less [of w] by simp
    with False show ?thesis
      by (simp add: unat_drop_56_iff)
  qed
qed

lemma valid_tag_universal: "valid_tag CBS_ASN1_INTEGER" "valid_tag CBS_ASN1_BOOLEAN" "valid_tag CBS_ASN1_OCTETSTRING"
  by (simp_all add: valid_tag_def CBS_ASN1_CONSTRUCTED_def CBS_ASN1_TAG_SHIFT_def
      CBS_ASN1_INTEGER_def CBS_ASN1_BOOLEAN_def CBS_ASN1_OCTETSTRING_def)

lemma tc_minimal_length_le:
  assumes "tc_minimal bs" "- (128 * 256 ^ n) \<le> tc_val bs" "tc_val bs < 128 * 256 ^ n"
  shows "length bs \<le> n + 1"
proof (rule ccontr)
  assume "\<not> length bs \<le> n + 1"
  then have "(256 :: int) ^ n \<le> 256 ^ (length bs - 2)"
    by (intro power_increasing) simp_all
  moreover have "tc_val bs < - (128 * 256 ^ (length bs - 2)) \<or> 128 * 256 ^ (length bs - 2) \<le> tc_val bs"
    using assms(1) \<open>\<not> length bs \<le> n + 1\<close> by (intro tc_val_minimal) simp_all
  ultimately show False
    using assms(2,3) by linarith
qed

lemma CBS_get_asn1_uint64_iff:
  "CBS_get_asn1_uint64 cbs = Some (v, rest) \<longleftrightarrow>
     (\<exists>body. tc_minimal body \<and> tc_val body = uint v \<and>
        cbs = der_element CBS_ASN1_INTEGER body @ rest)"
proof -
  have val: "tc_minimal body \<and> \<not> tc_val body < 0 \<and> get_asn1_uint64_loop body 0 = Some v
          \<longleftrightarrow> tc_minimal body \<and> tc_val body = uint v" for body
  proof -
    have "tc_val body = uint v \<longleftrightarrow> be_val body = unat v" if "tc_minimal body" "\<not> tc_val body < 0"
    proof -
      have "tc_val body = int (be_val body)"
        using that tc_val_neg_iff [of body] by (auto simp: tc_val_def tc_minimal_def)
      then show ?thesis
        by (simp only: of_nat_eq_iff uint_nat)
    qed
    moreover have "\<not> tc_val body < 0" if "tc_val body = uint v"
      by (simp add: that)
    ultimately show ?thesis
      by (auto simp: get_asn1_uint64_loop_iff)
  qed
  have small: "length body < 2 ^ 32" if "tc_minimal body" "tc_val body = uint v" for body
  proof -
    have "- (128 * 256 ^ 8) \<le> uint v"
      by (rule order_trans [OF _ uint_ge_0]) simp
    moreover have "uint v < 128 * 256 ^ 8"
      using uint_lt2p [of v] by simp
    ultimately have "length body \<le> 8 + 1"
      using that by (intro tc_minimal_length_le) (simp_all only:)
    then show ?thesis by simp
  qed
  have "CBS_get_asn1_uint64 cbs = Some (v, rest) \<longleftrightarrow>
     (\<exists>body. length body < 2 ^ 32 \<and> cbs = der_element CBS_ASN1_INTEGER body @ rest \<and>
       (tc_minimal body \<and> \<not> tc_val body < 0 \<and> get_asn1_uint64_loop body 0 = Some v))"
    by (auto simp: CBS_get_asn1_uint64_def bind_eq_Some_iff CBS_get_asn1_iff valid_tag_universal
        CBS_is_unsigned_asn1_integer_def CBS_is_valid_asn1_integer_iff split: if_splits)
  then show ?thesis
    unfolding val using small by blast
qed

text \<open>Sign extension to eight bytes keeps the value.\<close>

lemma be_val_replicate_ff: "int (be_val (replicate k 0xff @ bs)) = 256 ^ (k + length bs) - 256 ^ length bs + int (be_val bs)"
proof (induction k)
  case (Suc k)
  have "unat (0xff :: u8) = 255" by simp
  then have "int (be_val (replicate (Suc k) 0xff @ bs)) =
               255 * 256 ^ (k + length bs) + int (be_val (replicate k 0xff @ bs))"
    by (simp add: be_val_Cons del: unsigned_numeral)
  then show ?case by (simp add: Suc)
qed simp

lemma be_val_replicate_0: "be_val (replicate k 0 @ bs) = be_val bs"
  by (induction k) (simp_all add: be_val_Cons)

lemma word_of_nat_cong: "int m = k + 2 ^ 64 \<Longrightarrow> (word_of_nat m :: u64) = word_of_int k"
proof -
  assume "int m = k + 2 ^ 64"
  then have "(word_of_int (int m) :: u64) = word_of_int (k + 2 ^ 64)"
    by simp
  moreover have "(word_of_int (k + 2 ^ 64) :: u64) = word_of_int k"
    by (rule word_of_int_eq_iff [THEN iffD2]) (simp add: take_bit_eq_mod)
  ultimately show ?thesis
    by simp
qed

lemma load_sign_extended:
  assumes "bs \<noteq> []" "length bs \<le> 8"
  shows "CRYPTO_load_u64_be (take (8 - length bs) (replicate 8 (if tc_val bs < 0 then 0xff else 0)) @ bs)
           = word_of_int (tc_val bs)"
proof -
  define k where "k = 8 - length bs"
  have k: "k + length bs = 8" "min k 8 = k"
    using assms(2) by (simp_all add: k_def)
  have load: "CRYPTO_load_u64_be (replicate k s @ bs) = word_of_nat (be_val (replicate k s @ bs))" for s
    using k by (subst CRYPTO_load_be) simp_all
  have "(word_of_nat (be_val (replicate k (if tc_val bs < 0 then 0xff else 0) @ bs)) :: u64)
          = word_of_int (tc_val bs)"
  proof (cases "tc_val bs < 0")
    case True
    then have "int (be_val (replicate k 0xff @ bs)) = tc_val bs + 2 ^ 64"
      using assms(1) by (simp add: be_val_replicate_ff k(1) tc_val_neg_iff) (simp add: tc_val_def)
    then have "(word_of_nat (be_val (replicate k 0xff @ bs)) :: u64) = word_of_int (tc_val bs)"
      by (rule word_of_nat_cong)
    then show ?thesis
      using True by simp
  next
    case False
    then have "tc_val bs = int (be_val bs)"
      using assms(1) by (simp add: tc_val_neg_iff) (simp add: tc_val_def)
    then show ?thesis by (simp add: be_val_replicate_0)
  qed
  then show ?thesis
    unfolding k_def [symmetric] take_replicate k(2) load .
qed

lemma sint_eq_iff:
  assumes "- (2 ^ 63) \<le> k" "k < 2 ^ 63"
  shows "word_of_int k = (v :: u64) \<longleftrightarrow> k = sint v"
proof -
  have "sint (word_of_int k :: u64) = k"
    using assms by (simp add: sint_sbintrunc' signed_take_bit_int_eq_self)
  then show ?thesis by auto
qed

text \<open>The values of at most eight bytes are those of \<open>int64_t\<close>.\<close>

lemma tc_val_int64:
  assumes "bs \<noteq> []" "length bs \<le> 8"
  shows "- (2 ^ 63) \<le> tc_val bs" "tc_val bs < 2 ^ 63"
proof -
  have "(256 :: int) ^ (length bs - 1) \<le> 256 ^ 7"
    using assms by (intro power_increasing) (auto simp: le_diff_conv)
  moreover have "(2 :: int) ^ 63 = 128 * 256 ^ 7"
    by simp
  ultimately have "128 * (256 :: int) ^ (length bs - 1) \<le> 2 ^ 63"
    by (simp only: mult_le_cancel_left_pos zero_less_numeral)
  then show "- (2 ^ 63) \<le> tc_val bs" "tc_val bs < 2 ^ 63"
    using tc_val_bounds [OF assms(1)] by (auto simp only: neg_le_iff_le intro: order_trans less_le_trans)
qed

lemma int64_length:
  assumes "tc_minimal bs" "tc_val bs = sint (v :: u64)"
  shows "length bs \<le> 8"
proof -
  have "- (128 * 256 ^ 7) \<le> sint v" "sint v < 128 * 256 ^ 7"
    using sint_ge [of v] sint_lt [of v] by simp_all
  then have "length bs \<le> 7 + 1"
    using assms by (intro tc_minimal_length_le) (simp_all only:)
  then show ?thesis by simp
qed

lemma int64_sign_extend_iff:
  "tc_minimal bs \<and> length bs \<le> 8 \<and>
     CRYPTO_load_u64_be (take (8 - length bs) (replicate 8 (if tc_val bs < 0 then 0xff else 0)) @ bs) = v
   \<longleftrightarrow> tc_minimal bs \<and> tc_val bs = sint v"
proof (cases "tc_minimal bs \<and> length bs \<le> 8")
  case True
  then have "bs \<noteq> []" "length bs \<le> 8" by (simp_all add: tc_minimal_def)
  note load_sign_extended [OF this] sint_eq_iff [OF tc_val_int64 [OF this]]
  then show ?thesis
    using True by (simp only: simp_thms)
next
  case False
  then show ?thesis using int64_length by blast
qed

lemma get_asn1_int64_body_iff:
  "do { neg \<leftarrow> CBS_is_valid_asn1_integer body; if 8 < length body then None else Some (g neg, r) } = Some (v, rest)
   \<longleftrightarrow> (tc_minimal body \<and> length body \<le> 8 \<and> g (tc_val body < 0) = v) \<and> r = rest"
  by (auto simp: bind_eq_Some_iff CBS_is_valid_asn1_integer_iff split: if_splits)

lemma CBS_get_asn1_int64_iff:
  "CBS_get_asn1_int64 cbs = Some (v, rest) \<longleftrightarrow>
     (\<exists>body. tc_minimal body \<and> tc_val body = sint v \<and>
        cbs = der_element CBS_ASN1_INTEGER body @ rest)"
proof -
  have "CBS_get_asn1_int64 cbs = Some (v, rest) \<longleftrightarrow>
     (\<exists>body. length body < 2 ^ 32 \<and> cbs = der_element CBS_ASN1_INTEGER body @ rest \<and>
       (tc_minimal body \<and> length body \<le> 8 \<and>
        CRYPTO_load_u64_be (take (8 - length body) (replicate 8 (if tc_val body < 0 then 0xff else 0)) @ body) = v))"
    unfolding CBS_get_asn1_int64_def Let_def
    by (subst bind_eq_Some_iff) (simp only: split_paired_Ex prod.case get_asn1_int64_body_iff CBS_get_asn1_iff
          valid_tag_universal simp_thms, blast)
  also have "\<dots> \<longleftrightarrow> (\<exists>body. length body < 2 ^ 32 \<and> cbs = der_element CBS_ASN1_INTEGER body @ rest \<and>
        tc_minimal body \<and> tc_val body = sint v)"
    by (simp only: int64_sign_extend_iff)
  also have "\<dots> \<longleftrightarrow> (\<exists>body. tc_minimal body \<and> tc_val body = sint v \<and>
        cbs = der_element CBS_ASN1_INTEGER body @ rest)"
  proof -
    have "length body < 2 ^ 32" if "tc_minimal body" "tc_val body = sint v" for body
      using int64_length [OF that] by simp
    then show ?thesis by blast
  qed
  finally show ?thesis .
qed

subsection \<open>BOOLEAN\<close>

lemma CBS_get_asn1_bool_iff:
  "CBS_get_asn1_bool cbs = Some (v, rest) \<longleftrightarrow>
     cbs = der_element CBS_ASN1_BOOLEAN [if v then 0xff else 0] @ rest"
proof -
  have body: "(if length body \<noteq> 1 then None
      else if body ! 0 \<noteq> 0 \<and> body ! 0 \<noteq> 0xff then None else Some (body ! 0 \<noteq> 0, r)) = Some (v, rest)
      \<longleftrightarrow> body = [if v then 0xff else 0] \<and> r = rest" for body :: bytes and r
    by (cases body) auto
  show ?thesis
    unfolding CBS_get_asn1_bool_def Let_def
    by (subst bind_eq_Some_iff) (simp only: split_paired_Ex prod.case body CBS_get_asn1_iff valid_tag_universal, simp)
qed

subsection \<open>OBJECT IDENTIFIER\<close>

text \<open>The contents of an OBJECT IDENTIFIER are the base-128 encodings of one or more arcs.\<close>

definition oid_contents :: "nat list \<Rightarrow> bytes" where
  "oid_contents arcs = concat (map base128 arcs)"

lemma is_valid_asn1_oid_loop_append:
  "is_valid_asn1_oid_loop (xs @ ys) prev =
     (case is_valid_asn1_oid_loop xs prev of None \<Rightarrow> None | Some prev \<Rightarrow> is_valid_asn1_oid_loop ys prev)"
  by (induction xs arbitrary: prev) auto

text \<open>The loop in the middle of an arc whose continuation bytes so far have the value \<open>v\<close>.\<close>

definition oid_state :: "nat \<Rightarrow> u8 \<Rightarrow> bool" where
  "oid_state v prev \<longleftrightarrow> (v = 0 \<longleftrightarrow> unat prev < 128)"

lemma is_valid_asn1_oid_loop_sound:
  "is_valid_asn1_oid_loop cbs prev = Some w \<Longrightarrow> oid_state v prev \<Longrightarrow> unat w < 128 \<Longrightarrow>
     \<exists>arcs. b128 v @ cbs = oid_contents arcs"
proof (induction cbs arbitrary: prev v)
  case Nil
  then have "v = 0" by (simp add: oid_state_def)
  then show ?case
    by (intro exI [of _ "[]"]) (simp add: oid_contents_def)
next
  case (Cons b cbs)
  have min: "\<not> (unat prev < 128 \<and> b = 0x80)" and loop: "is_valid_asn1_oid_loop cbs b = Some w"
    using Cons.prems(1) by (auto simp: and_0x80 split: if_splits)
  define u where "u = v * 128 + unat b mod 128"
  show ?case
  proof (cases "unat b < 128")
    case True
    then have "oid_state 0 b" by (simp add: oid_state_def)
    then obtain arcs where "b128 0 @ cbs = oid_contents arcs"
      using Cons.IH [OF loop _ Cons.prems(3)] by blast
    moreover have "base128 u = b128 v @ [b]"
      unfolding u_def using True by (rule base128_snoc)
    ultimately show ?thesis
      by (intro exI [of _ "u # arcs"]) (simp add: oid_contents_def)
  next
    case False
    have snoc: "b128 u = b128 v @ [b]"
      unfolding u_def by (rule b128_snoc) (use False min Cons.prems(2) in \<open>auto simp: oid_state_def\<close>)
    then have "u \<noteq> 0"
      by (metis b128_0 append_is_Nil_conv not_Cons_self2)
    then have "oid_state u b"
      using False by (simp add: oid_state_def)
    then show ?thesis
      using Cons.IH [OF loop _ Cons.prems(3), of u] by (simp add: snoc)
  qed
qed

lemma is_valid_asn1_oid_loop_b128:
  "0 < v \<Longrightarrow> unat prev < 128 \<Longrightarrow>
     \<exists>w. is_valid_asn1_oid_loop (b128 v) prev = Some w \<and> 128 \<le> unat w"
proof (induction v arbitrary: prev rule: b128.induct)
  case (1 v)
  define b where "b = (word_of_nat (128 + v mod 128) :: u8)"
  have b: "unat b = 128 + v mod 128"
    unfolding b_def by (rule unat_base128_digit)
  have v: "b128 v = b128 (v div 128) @ [b]"
    using "1.prems" by (subst b128.simps) (simp add: b_def)
  show ?case
  proof (cases "v div 128 = 0")
    case True
    then have "v mod 128 = v"
      by (simp only: mod_eq_self_iff_div_eq_0)
    then have "0 < v mod 128"
      using "1.prems"(1) by simp
    then have "b \<noteq> 0x80"
      using b by auto
    then show ?thesis
      by (simp add: v True b)
  next
    case False
    then obtain w where "is_valid_asn1_oid_loop (b128 (v div 128)) prev = Some w" "128 \<le> unat w"
      using "1.IH" "1.prems" by auto
    then show ?thesis
      by (simp add: v is_valid_asn1_oid_loop_append and_0x80 b)
  qed
qed

lemma is_valid_asn1_oid_loop_base128:
  assumes "unat prev < 128"
  shows "\<exists>w. is_valid_asn1_oid_loop (base128 n) prev = Some w \<and> unat w < 128"
proof -
  define b where "b = (word_of_nat (n mod 128) :: u8)"
  have b: "unat b = n mod 128"
    unfolding b_def by (rule unat_base128_digit)
  then have "b \<noteq> 0x80" and "unat b < 128"
    using mod_less_divisor [of 128 n] by auto
  then have last: "is_valid_asn1_oid_loop [b] w = Some b" for w
    by simp
  have "base128 n = b128 (n div 128) @ [b]"
    by (simp add: base128_def b_def)
  moreover have "\<exists>w. is_valid_asn1_oid_loop (b128 (n div 128)) prev = Some w"
    using is_valid_asn1_oid_loop_b128 [OF _ assms, of "n div 128"] by (cases "n div 128 = 0") auto
  ultimately show ?thesis
    using \<open>unat b < 128\<close> by (auto simp: is_valid_asn1_oid_loop_append last simp del: is_valid_asn1_oid_loop.simps)
qed

lemma is_valid_asn1_oid_loop_complete:
  "unat prev < 128 \<Longrightarrow> \<exists>w. is_valid_asn1_oid_loop (oid_contents arcs) prev = Some w \<and> unat w < 128"
proof (induction arcs arbitrary: prev)
  case (Cons n arcs)
  then obtain w where "is_valid_asn1_oid_loop (base128 n) prev = Some w" "unat w < 128"
    using is_valid_asn1_oid_loop_base128 by blast
  then show ?case
    using Cons.IH by (simp add: oid_contents_def is_valid_asn1_oid_loop_append)
qed (simp add: oid_contents_def)

lemma CBS_is_valid_asn1_oid_iff:
  "CBS_is_valid_asn1_oid cbs \<longleftrightarrow> (\<exists>arcs. arcs \<noteq> [] \<and> cbs = oid_contents arcs)"
proof
  assume "CBS_is_valid_asn1_oid cbs"
  then obtain w where "cbs \<noteq> []" "is_valid_asn1_oid_loop cbs 0 = Some w" "unat w < 128"
    by (auto simp: CBS_is_valid_asn1_oid_def and_0x80 split: if_splits option.splits)
  then obtain arcs where "b128 0 @ cbs = oid_contents arcs"
    using is_valid_asn1_oid_loop_sound [of cbs 0 w 0] by (auto simp: oid_state_def)
  then show "\<exists>arcs. arcs \<noteq> [] \<and> cbs = oid_contents arcs"
    using \<open>cbs \<noteq> []\<close> by (intro exI [of _ arcs]) (auto simp: oid_contents_def)
next
  assume "\<exists>arcs. arcs \<noteq> [] \<and> cbs = oid_contents arcs"
  then obtain arcs where arcs: "arcs \<noteq> []" "cbs = oid_contents arcs" by blast
  then have "cbs \<noteq> []"
    by (cases arcs) (simp_all add: oid_contents_def base128_def)
  then show "CBS_is_valid_asn1_oid cbs"
    using is_valid_asn1_oid_loop_complete [of 0 arcs]
    by (auto simp: CBS_is_valid_asn1_oid_def arcs(2) and_0x80)
qed

subsection \<open>Properties\<close>

text \<open>
  C9: The INTEGER readers accept exactly the minimal two's-complement encodings of the values of
  \<open>uint64_t\<close> and \<open>int64_t\<close>, and return the value encoded.
\<close>

theorem CBS_get_asn1_integers:
  "(CBS_get_asn1_uint64 cbs = Some (v, rest) \<longleftrightarrow>
     (\<exists>body. tc_minimal body \<and> tc_val body = uint v \<and> cbs = der_element CBS_ASN1_INTEGER body @ rest)) \<and>
   (CBS_get_asn1_int64 cbs = Some (v, rest) \<longleftrightarrow>
     (\<exists>body. tc_minimal body \<and> tc_val body = sint v \<and> cbs = der_element CBS_ASN1_INTEGER body @ rest))"
  using CBS_get_asn1_uint64_iff CBS_get_asn1_int64_iff by blast

text \<open>
  C10: \<open>CBS_is_valid_asn1_oid\<close> accepts exactly the nonempty sequences of minimally encoded arcs.
\<close>

theorem CBS_is_valid_asn1_oid_arcs:
  "CBS_is_valid_asn1_oid cbs \<longleftrightarrow> (\<exists>arcs. arcs \<noteq> [] \<and> cbs = concat (map base128 arcs))"
  by (simp add: CBS_is_valid_asn1_oid_iff oid_contents_def)

end
