(* ===== verification/Cbb.thy ===== *)
theory Cbb
  imports DerValues
begin

text \<open>
  The byte builder of \<open>crypto/bytestring/cbb.cc\<close>. One value of type \<open>CBB\<close> is a root builder together
  with its chain of open children: \<open>children ! i\<close> is the child of the \<open>i\<close>-th builder of the chain. A
  \<open>CBB *\<close> is its depth in the chain (0 is the root), a depth beyond the chain is a builder that has
  been flushed, whose \<open>base\<close> is \<open>NULL\<close>. Operations return the C result and the new state. The
  allocator \<open>ralloc\<close> is \<open>OPENSSL_realloc\<close> seen on the data of the block; a pointer into the buffer
  is an offset.
\<close>

subsection \<open>The builder\<close>

record cbb_buffer =
  buf :: bytes
  len :: u64
  cap :: u64
  can_resize :: bool
  error :: bool

record cbb_child =
  offset :: u64
  pending_len_len :: u8
  pending_is_asn1 :: bool

record CBB =
  base :: cbb_buffer
  children :: "cbb_child list"

type_synonym ralloc = "bytes \<Rightarrow> u64 \<Rightarrow> bytes option"

definition cbb_init :: "bytes \<Rightarrow> u64 \<Rightarrow> bool \<Rightarrow> CBB" where
  "cbb_init b c resize =
     \<lparr>base = \<lparr>buf = b, len = 0, cap = c, can_resize = resize, error = False\<rparr>, children = []\<rparr>"

definition CBB_init :: "(u64 \<Rightarrow> bytes option) \<Rightarrow> u64 \<Rightarrow> CBB option" where
  "CBB_init malloc initial_capacity =
     (case OPENSSL_malloc malloc initial_capacity of
        None \<Rightarrow> if initial_capacity > 0 then None else Some (cbb_init [] initial_capacity True)
      | Some ptr \<Rightarrow> Some (cbb_init (ptr_data ptr) initial_capacity True))"

definition CBB_init_fixed :: "bytes \<Rightarrow> u64 \<Rightarrow> CBB" where
  "CBB_init_fixed b n = cbb_init b n False"

definition cbb_buffer_reserve :: "ralloc \<Rightarrow> cbb_buffer \<Rightarrow> u64 \<Rightarrow> bool \<times> cbb_buffer" where
  "cbb_buffer_reserve ralloc b n =
     (let newlen = len b + n
      in if newlen < len b then (False, b\<lparr>error := True\<rparr>)
         else if newlen > cap b then
           if \<not> can_resize b then (False, b\<lparr>error := True\<rparr>)
           else let newcap = cap b * 2;
                    newcap = (if newcap < cap b \<or> newcap < newlen then newlen else newcap)
                in case ralloc (buf b) newcap of
                     None \<Rightarrow> (False, b\<lparr>error := True\<rparr>)
                   | Some newbuf \<Rightarrow> (True, b\<lparr>buf := newbuf, cap := newcap\<rparr>)
         else (True, b))"

definition cbb_buffer_add :: "ralloc \<Rightarrow> cbb_buffer \<Rightarrow> u64 \<Rightarrow> bool \<times> cbb_buffer" where
  "cbb_buffer_add ralloc b n =
     (let (ok, b) = cbb_buffer_reserve ralloc b n
      in if \<not> ok then (False, b) else (True, b\<lparr>len := len b + n\<rparr>))"

definition cbb_on_error :: "nat \<Rightarrow> CBB \<Rightarrow> CBB" where
  "cbb_on_error d s = s\<lparr>base := (base s)\<lparr>error := True\<rparr>, children := take d (children s)\<rparr>"

text \<open>\<open>memmove\<close> inside the buffer and the loop that writes \<open>n\<close> big-endian bytes at an offset.\<close>

definition memmove :: "bytes \<Rightarrow> nat \<Rightarrow> nat \<Rightarrow> nat \<Rightarrow> bytes" where
  "memmove b dst src n = take dst b @ take n (drop src b) @ drop (dst + n) b"

fun write_be_loop :: "nat \<Rightarrow> nat \<Rightarrow> u64 \<Rightarrow> bytes \<Rightarrow> bytes \<times> u64" where
  "write_be_loop 0 off v b = (b, v)"
| "write_be_loop (Suc i) off v b = write_be_loop i off (drop_bit 8 v) (b[off + i := ucast v])"

text \<open>
  The part of \<open>CBB_flush\<close> after the recursive call: the child of the builder at depth \<open>d\<close> writes its
  pending length prefix.
\<close>

definition asn1_len_len :: "u64 \<Rightarrow> (u8 \<times> u8 \<times> u64) option" where
  "asn1_len_len n =
     (if n > 0xfffffffe then None
      else if n > 0xffffff then Some (5, 0x80 OR 4, n)
      else if n > 0xffff then Some (4, 0x80 OR 3, n)
      else if n > 0xff then Some (3, 0x80 OR 2, n)
      else if n > 0x7f then Some (2, 0x80 OR 1, n)
      else Some (1, ucast n, 0))"

definition cbb_flush_asn1_prefix ::
  "ralloc \<Rightarrow> cbb_child \<Rightarrow> u64 \<Rightarrow> u64 \<Rightarrow> cbb_buffer \<Rightarrow> (u64 \<times> u8 \<times> u64) option \<times> cbb_buffer" where
  "cbb_flush_asn1_prefix ralloc child child_start n b =
     (case asn1_len_len n of
        None \<Rightarrow> (None, b)
      | Some (len_len, initial_length_byte, n) \<Rightarrow>
          (let extra_bytes = ucast len_len - 1 :: u64;
               (ok, b) =
                 (if len_len \<noteq> 1 then
                    let (ok, b) = cbb_buffer_add ralloc b extra_bytes
                    in (ok, if ok then b\<lparr>buf := memmove (buf b) (unat (child_start + extra_bytes))
                                                  (unat child_start) (unat n)\<rparr> else b)
                  else (True, b))
           in if \<not> ok then (None, b)
              else (Some (offset child + 1, len_len - 1, n),
                    b\<lparr>buf := (buf b)[unat (offset child) := initial_length_byte]\<rparr>)))"

definition cbb_flush_child :: "ralloc \<Rightarrow> nat \<Rightarrow> cbb_child \<Rightarrow> CBB \<Rightarrow> bool \<times> CBB" where
  "cbb_flush_child ralloc d child s =
     (let child_start = offset child + ucast (pending_len_len child);
          b = base s
      in if child_start < offset child \<or> len b < child_start then (False, cbb_on_error d s)
         else
           let n = len b - child_start;
               (prefix, b) =
                 (if pending_is_asn1 child then cbb_flush_asn1_prefix ralloc child child_start n b
                  else (Some (offset child, pending_len_len child, n), b))
           in case prefix of
                None \<Rightarrow> (False, cbb_on_error d (s\<lparr>base := b\<rparr>))
              | Some (off, len_len, n) \<Rightarrow>
                  let (newbuf, n) = write_be_loop (unat len_len) (unat off) n (buf b);
                      s = s\<lparr>base := b\<lparr>buf := newbuf\<rparr>\<rparr>
                  in if n \<noteq> 0 then (False, cbb_on_error d s)
                     else (True, s\<lparr>children := take d (children s)\<rparr>))"

function CBB_flush :: "ralloc \<Rightarrow> nat \<Rightarrow> CBB \<Rightarrow> bool \<times> CBB" where
  "CBB_flush ralloc d s =
     (if d > length (children s) \<or> error (base s) then (False, s)
      else if d = length (children s) then (True, s)
      else let child = children s ! d;
               (ok, s) = CBB_flush ralloc (d + 1) s
           in if \<not> ok then (False, cbb_on_error d s) else cbb_flush_child ralloc d child s)"
  by pat_completeness auto
termination
  by (relation "measure (\<lambda>(ralloc, d, s). length (children s) - d)") auto

declare CBB_flush.simps [simp del]

definition CBB_data :: "nat \<Rightarrow> CBB \<Rightarrow> nat" where
  "CBB_data d s =
     (if d = 0 then 0
      else unat (offset (children s ! (d - 1)) + ucast (pending_len_len (children s ! (d - 1)))))"

definition CBB_len :: "nat \<Rightarrow> CBB \<Rightarrow> u64" where
  "CBB_len d s =
     (if d = 0 then len (base s)
      else len (base s) - offset (children s ! (d - 1)) - ucast (pending_len_len (children s ! (d - 1))))"

text \<open>
  \<open>CBB_cleanup\<close> releases the buffer of a root that owns it; the value is the released buffer.
  \<open>CBB_finish\<close> hands the buffer and its length to the caller, who passed \<open>has_out\<close> (both output
  pointers are not \<open>NULL\<close>).
\<close>

definition CBB_cleanup :: "nat \<Rightarrow> CBB \<Rightarrow> bytes option" where
  "CBB_cleanup d s = (if d \<noteq> 0 then None else if can_resize (base s) then Some (buf (base s)) else None)"

definition CBB_finish :: "ralloc \<Rightarrow> nat \<Rightarrow> bool \<Rightarrow> CBB \<Rightarrow> (bytes \<times> u64) option \<times> CBB" where
  "CBB_finish ralloc d has_out s =
     (if d \<noteq> 0 then (None, s)
      else let (ok, s) = CBB_flush ralloc d s
           in if \<not> ok then (None, s)
              else if can_resize (base s) \<and> \<not> has_out then (None, s)
              else (Some (buf (base s), len (base s)), s\<lparr>base := (base s)\<lparr>buf := []\<rparr>\<rparr>))"

subsection \<open>Writers\<close>

text \<open>\<open>a && b\<close> on operations.\<close>

definition cbb_and :: "bool \<times> CBB \<Rightarrow> (CBB \<Rightarrow> bool \<times> CBB) \<Rightarrow> bool \<times> CBB" where
  "cbb_and r f = (if fst r then f (snd r) else r)"

text \<open>The shape \<open>if (!op) { cbb_on_error(cbb); return 0; }\<close>.\<close>

definition cbb_guard :: "nat \<Rightarrow> bool \<times> CBB \<Rightarrow> bool \<times> CBB" where
  "cbb_guard d r = (if fst r then r else (False, cbb_on_error d (snd r)))"

definition cbb_add_child :: "ralloc \<Rightarrow> nat \<Rightarrow> u8 \<Rightarrow> bool \<Rightarrow> CBB \<Rightarrow> bool \<times> CBB" where
  "cbb_add_child ralloc d len_len is_asn1 s =
     (let off = len (base s);
          (ok, b) = cbb_buffer_add ralloc (base s) (ucast len_len)
      in if \<not> ok then (False, s\<lparr>base := b\<rparr>)
         else (True, s\<lparr>base := b\<lparr>buf := take (unat off) (buf b) @ replicate (unat len_len) 0
                                       @ drop (unat off + unat len_len) (buf b)\<rparr>,
                       children := children s @
                         [\<lparr>offset = off, pending_len_len = len_len, pending_is_asn1 = is_asn1\<rparr>]\<rparr>))"

definition cbb_add_length_prefixed :: "ralloc \<Rightarrow> nat \<Rightarrow> u8 \<Rightarrow> CBB \<Rightarrow> bool \<times> CBB" where
  "cbb_add_length_prefixed ralloc d len_len s =
     cbb_and (CBB_flush ralloc d s) (cbb_add_child ralloc d len_len False)"

definition CBB_add_u8_length_prefixed :: "ralloc \<Rightarrow> nat \<Rightarrow> CBB \<Rightarrow> bool \<times> CBB" where
  "CBB_add_u8_length_prefixed ralloc d s = cbb_add_length_prefixed ralloc d 1 s"

definition CBB_add_u16_length_prefixed :: "ralloc \<Rightarrow> nat \<Rightarrow> CBB \<Rightarrow> bool \<times> CBB" where
  "CBB_add_u16_length_prefixed ralloc d s = cbb_add_length_prefixed ralloc d 2 s"

definition CBB_add_u24_length_prefixed :: "ralloc \<Rightarrow> nat \<Rightarrow> CBB \<Rightarrow> bool \<times> CBB" where
  "CBB_add_u24_length_prefixed ralloc d s = cbb_add_length_prefixed ralloc d 3 s"

text \<open>On success, \<open>CBB_add_space\<close> and \<open>CBB_reserve\<close> return the offset of \<open>*out_data\<close>.\<close>

definition CBB_add_space :: "ralloc \<Rightarrow> nat \<Rightarrow> u64 \<Rightarrow> CBB \<Rightarrow> nat option \<times> CBB" where
  "CBB_add_space ralloc d n s =
     (let (ok, s) = CBB_flush ralloc d s
      in if \<not> ok then (None, s)
         else let out = unat (len (base s));
                  (ok, b) = cbb_buffer_add ralloc (base s) n
              in (if ok then Some out else None, s\<lparr>base := b\<rparr>))"

definition CBB_reserve :: "ralloc \<Rightarrow> nat \<Rightarrow> u64 \<Rightarrow> CBB \<Rightarrow> nat option \<times> CBB" where
  "CBB_reserve ralloc d n s =
     (let (ok, s) = CBB_flush ralloc d s
      in if \<not> ok then (None, s)
         else let out = unat (len (base s));
                  (ok, b) = cbb_buffer_reserve ralloc (base s) n
              in (if ok then Some out else None, s\<lparr>base := b\<rparr>))"

definition CBB_did_write :: "nat \<Rightarrow> u64 \<Rightarrow> CBB \<Rightarrow> bool \<times> CBB" where
  "CBB_did_write d n s =
     (let newlen = len (base s) + n
      in if d < length (children s) \<or> newlen < len (base s) \<or> newlen > cap (base s) then (False, s)
         else (True, s\<lparr>base := (base s)\<lparr>len := newlen\<rparr>\<rparr>))"

definition cbb_write_at :: "nat \<Rightarrow> bytes \<Rightarrow> CBB \<Rightarrow> CBB" where
  "cbb_write_at out data s =
     s\<lparr>base := (base s)\<lparr>buf := take out (buf (base s)) @ data @ drop (out + length data) (buf (base s))\<rparr>\<rparr>"

definition CBB_add_bytes :: "ralloc \<Rightarrow> nat \<Rightarrow> bytes \<Rightarrow> CBB \<Rightarrow> bool \<times> CBB" where
  "CBB_add_bytes ralloc d data s =
     (case CBB_add_space ralloc d (word_of_nat (length data)) s of
        (None, s) \<Rightarrow> (False, s)
      | (Some out, s) \<Rightarrow> (True, cbb_write_at out data s))"

definition CBB_add_zeros :: "ralloc \<Rightarrow> nat \<Rightarrow> u64 \<Rightarrow> CBB \<Rightarrow> bool \<times> CBB" where
  "CBB_add_zeros ralloc d n s =
     (case CBB_add_space ralloc d n s of
        (None, s) \<Rightarrow> (False, s)
      | (Some out, s) \<Rightarrow> (True, cbb_write_at out (replicate (unat n) 0) s))"

definition cbb_add_u :: "ralloc \<Rightarrow> nat \<Rightarrow> u64 \<Rightarrow> u64 \<Rightarrow> CBB \<Rightarrow> bool \<times> CBB" where
  "cbb_add_u ralloc d v len_len s =
     (case CBB_add_space ralloc d len_len s of
        (None, s) \<Rightarrow> (False, s)
      | (Some out, s) \<Rightarrow>
          let (newbuf, v) = write_be_loop (unat len_len) out v (buf (base s));
              s = s\<lparr>base := (base s)\<lparr>buf := newbuf\<rparr>\<rparr>
          in if v \<noteq> 0 then (False, cbb_on_error d s) else (True, s))"

definition CBB_add_u8 :: "ralloc \<Rightarrow> nat \<Rightarrow> u8 \<Rightarrow> CBB \<Rightarrow> bool \<times> CBB" where
  "CBB_add_u8 ralloc d v s = cbb_add_u ralloc d (ucast v) 1 s"

definition CBB_add_u16 :: "ralloc \<Rightarrow> nat \<Rightarrow> u16 \<Rightarrow> CBB \<Rightarrow> bool \<times> CBB" where
  "CBB_add_u16 ralloc d v s = cbb_add_u ralloc d (ucast v) 2 s"

definition CBB_add_u16le :: "ralloc \<Rightarrow> nat \<Rightarrow> u16 \<Rightarrow> CBB \<Rightarrow> bool \<times> CBB" where
  "CBB_add_u16le ralloc d v s = CBB_add_u16 ralloc d (CRYPTO_bswap2 v) s"

definition CBB_add_u24 :: "ralloc \<Rightarrow> nat \<Rightarrow> u32 \<Rightarrow> CBB \<Rightarrow> bool \<times> CBB" where
  "CBB_add_u24 ralloc d v s = cbb_add_u ralloc d (ucast v) 3 s"

definition CBB_add_u32 :: "ralloc \<Rightarrow> nat \<Rightarrow> u32 \<Rightarrow> CBB \<Rightarrow> bool \<times> CBB" where
  "CBB_add_u32 ralloc d v s = cbb_add_u ralloc d (ucast v) 4 s"

definition CBB_add_u32le :: "ralloc \<Rightarrow> nat \<Rightarrow> u32 \<Rightarrow> CBB \<Rightarrow> bool \<times> CBB" where
  "CBB_add_u32le ralloc d v s = CBB_add_u32 ralloc d (CRYPTO_bswap4 v) s"

definition CBB_add_u64 :: "ralloc \<Rightarrow> nat \<Rightarrow> u64 \<Rightarrow> CBB \<Rightarrow> bool \<times> CBB" where
  "CBB_add_u64 ralloc d v s = cbb_add_u ralloc d v 8 s"

definition CBB_add_u64le :: "ralloc \<Rightarrow> nat \<Rightarrow> u64 \<Rightarrow> CBB \<Rightarrow> bool \<times> CBB" where
  "CBB_add_u64le ralloc d v s = CBB_add_u64 ralloc d (CRYPTO_bswap8 v) s"

definition CBB_discard_child :: "nat \<Rightarrow> CBB \<Rightarrow> CBB" where
  "CBB_discard_child d s =
     (if d \<ge> length (children s) then s
      else s\<lparr>base := (base s)\<lparr>len := offset (children s ! d)\<rparr>, children := take d (children s)\<rparr>)"

subsection \<open>ASN.1 writers\<close>

text \<open>The \<open>while\<close> loop of \<open>add_base128_integer\<close> counts the base-128 digits.\<close>

function base128_len :: "u64 \<Rightarrow> nat" where
  "base128_len copy = (if copy > 0 then Suc (base128_len (drop_bit 7 copy)) else 0)"
  by pat_completeness auto
termination
proof (relation "measure unat")
  fix copy :: u64
  assume "0 < copy"
  then have "0 < unat copy"
    by (simp add: word_less_nat_alt)
  then show "(drop_bit 7 copy, copy) \<in> measure unat"
    by (simp only: in_measure unat_drop_bit) simp
qed simp

declare base128_len.simps [simp del]

definition base128_byte :: "u64 \<Rightarrow> nat \<Rightarrow> u8" where
  "base128_byte v i = (let byte = ucast (drop_bit (7 * i) v AND 0x7f)
                       in if i \<noteq> 0 then byte OR 0x80 else byte)"

fun add_base128_loop :: "ralloc \<Rightarrow> nat \<Rightarrow> u64 \<Rightarrow> nat \<Rightarrow> CBB \<Rightarrow> bool \<times> CBB" where
  "add_base128_loop ralloc d v 0 s = (True, s)"
| "add_base128_loop ralloc d v (Suc i) s =
     cbb_and (CBB_add_u8 ralloc d (base128_byte v i) s) (add_base128_loop ralloc d v i)"

definition add_base128_integer :: "ralloc \<Rightarrow> nat \<Rightarrow> u64 \<Rightarrow> CBB \<Rightarrow> bool \<times> CBB" where
  "add_base128_integer ralloc d v s =
     (let len_len = base128_len v;
          len_len = (if len_len = 0 then 1 else len_len)
      in add_base128_loop ralloc d v len_len s)"

definition CBB_add_asn1 :: "ralloc \<Rightarrow> nat \<Rightarrow> CBS_ASN1_TAG \<Rightarrow> CBB \<Rightarrow> bool \<times> CBB" where
  "CBB_add_asn1 ralloc d tag s =
     cbb_and (CBB_flush ralloc d s) (\<lambda>s.
       let tag_bits = ucast (drop_bit CBS_ASN1_TAG_SHIFT tag AND 0xe0) :: u8;
           tag_number = tag AND CBS_ASN1_TAG_NUMBER_MASK
       in cbb_and
            (if tag_number \<ge> 0x1f
             then cbb_and (CBB_add_u8 ralloc d (tag_bits OR 0x1f) s)
                    (add_base128_integer ralloc d (ucast tag_number))
             else CBB_add_u8 ralloc d (ucast (ucast tag_bits OR tag_number)) s)
            (cbb_add_child ralloc d 1 True))"

fun add_asn1_uint64_loop :: "ralloc \<Rightarrow> nat \<Rightarrow> bytes \<Rightarrow> bool \<Rightarrow> CBB \<Rightarrow> bool \<times> bool \<times> CBB" where
  "add_asn1_uint64_loop ralloc d [] started s = (True, started, s)"
| "add_asn1_uint64_loop ralloc d (byte # bytes) started s =
     (if \<not> started \<and> byte = 0 then add_asn1_uint64_loop ralloc d bytes started s
      else let (ok, s) = (if \<not> started \<and> byte AND 0x80 \<noteq> 0 then CBB_add_u8 ralloc d 0 s else (True, s))
           in if \<not> ok then (False, started, s)
              else let (ok, s) = CBB_add_u8 ralloc d byte s
                   in if \<not> ok then (False, True, s)
                      else add_asn1_uint64_loop ralloc d bytes True s)"

definition uint64_bytes :: "u64 \<Rightarrow> bytes" where
  "uint64_bytes v = map (\<lambda>i. ucast (drop_bit (8 * (7 - i)) v AND 0xff)) [0..<8]"

definition CBB_add_asn1_uint64_with_tag :: "ralloc \<Rightarrow> nat \<Rightarrow> u64 \<Rightarrow> CBS_ASN1_TAG \<Rightarrow> CBB \<Rightarrow> bool \<times> CBB" where
  "CBB_add_asn1_uint64_with_tag ralloc d v tag s =
     cbb_and
       (cbb_guard d
         (cbb_and (CBB_add_asn1 ralloc d tag s) (\<lambda>s.
            let (ok, started, s) = add_asn1_uint64_loop ralloc (d + 1) (uint64_bytes v) False s
            in if \<not> ok then (False, s)
               else if \<not> started then CBB_add_u8 ralloc (d + 1) 0 s
               else (True, s))))
       (CBB_flush ralloc d)"

definition CBB_add_asn1_uint64 :: "ralloc \<Rightarrow> nat \<Rightarrow> u64 \<Rightarrow> CBB \<Rightarrow> bool \<times> CBB" where
  "CBB_add_asn1_uint64 ralloc d v s = CBB_add_asn1_uint64_with_tag ralloc d v CBS_ASN1_INTEGER s"

text \<open>The eight bytes of an \<open>int64_t\<close> in memory order, least significant first.\<close>

fun int64_start :: "bytes \<Rightarrow> nat \<Rightarrow> nat" where
  "int64_start bs 0 = 0"
| "int64_start bs (Suc n) =
     (if bs ! Suc n = 0xff \<and> bs ! n AND 0x80 \<noteq> 0 then int64_start bs n else Suc n)"

fun add_asn1_int64_loop :: "ralloc \<Rightarrow> nat \<Rightarrow> bytes \<Rightarrow> nat \<Rightarrow> CBB \<Rightarrow> bool \<times> CBB" where
  "add_asn1_int64_loop ralloc d bs 0 s = (True, s)"
| "add_asn1_int64_loop ralloc d bs (Suc i) s =
     cbb_and (CBB_add_u8 ralloc d (bs ! i) s) (add_asn1_int64_loop ralloc d bs i)"

definition CBB_add_asn1_int64_with_tag :: "ralloc \<Rightarrow> nat \<Rightarrow> u64 \<Rightarrow> CBS_ASN1_TAG \<Rightarrow> CBB \<Rightarrow> bool \<times> CBB" where
  "CBB_add_asn1_int64_with_tag ralloc d v tag s =
     (if sint v \<ge> 0 then CBB_add_asn1_uint64_with_tag ralloc d v tag s
      else let bs = word_to_mem v;
               start = int64_start bs 7
           in cbb_and
                (cbb_guard d
                  (cbb_and (CBB_add_asn1 ralloc d tag s) (add_asn1_int64_loop ralloc (d + 1) bs (start + 1))))
                (CBB_flush ralloc d))"

definition CBB_add_asn1_int64 :: "ralloc \<Rightarrow> nat \<Rightarrow> u64 \<Rightarrow> CBB \<Rightarrow> bool \<times> CBB" where
  "CBB_add_asn1_int64 ralloc d v s = CBB_add_asn1_int64_with_tag ralloc d v CBS_ASN1_INTEGER s"

definition CBB_add_asn1_octet_string :: "ralloc \<Rightarrow> nat \<Rightarrow> bytes \<Rightarrow> CBB \<Rightarrow> bool \<times> CBB" where
  "CBB_add_asn1_octet_string ralloc d data s =
     cbb_guard d
       (cbb_and (cbb_and (CBB_add_asn1 ralloc d CBS_ASN1_OCTETSTRING s)
                         (CBB_add_bytes ralloc (d + 1) data))
                (CBB_flush ralloc d))"

definition CBB_add_asn1_bool :: "ralloc \<Rightarrow> nat \<Rightarrow> bool \<Rightarrow> CBB \<Rightarrow> bool \<times> CBB" where
  "CBB_add_asn1_bool ralloc d v s =
     cbb_guard d
       (cbb_and (cbb_and (CBB_add_asn1 ralloc d CBS_ASN1_BOOLEAN s)
                         (CBB_add_u8 ralloc (d + 1) (if v then 0xff else 0)))
                (CBB_flush ralloc d))"

end
