(* ===== verification/CbbSpec.thy ===== *)
theory CbbSpec
  imports Cbb
begin

text \<open>
  The contract of the builder. The abstract state is a list of frames, one per builder of the chain
  from the root inwards, each with the bytes written to it so far and the kind of length prefix it
  waits for. \<open>repr\<close> relates it to the buffer with its zeroed prefixes and to the child records;
  every operation that succeeds acts on the frames as its specification says, and every failure of
  an operation latches the error bit.
\<close>

subsection \<open>Frames\<close>

type_synonym kind = "nat \<times> bool"
type_synonym frame = "kind \<times> bytes"

fun layout :: "frame list \<Rightarrow> bytes" where
  "layout [] = []"
| "layout (((n, a), w) # fs) = replicate n 0 @ w @ layout fs"

fun chain :: "nat \<Rightarrow> frame list \<Rightarrow> cbb_child list" where
  "chain pos [] = []"
| "chain pos (((n, a), w) # fs) =
     \<lparr>offset = word_of_nat pos, pending_len_len = word_of_nat n, pending_is_asn1 = a\<rparr>
       # chain (pos + n + length w) fs"

definition kind_ok :: "kind \<Rightarrow> bool" where
  "kind_ok k \<longleftrightarrow> fst k < 256 \<and> (snd k \<longrightarrow> fst k = 1)"

text \<open>The bytes a closed frame contributes to its parent, and when its length fits the prefix.\<close>

definition enc :: "kind \<Rightarrow> bytes \<Rightarrow> bytes" where
  "enc k w = (if snd k then der_length (length w) else be_bytes (fst k) (length w)) @ w"

definition fits :: "kind \<Rightarrow> bytes \<Rightarrow> bool" where
  "fits k w \<longleftrightarrow> (if snd k then length w \<le> 0xfffffffe else length w < 256 ^ fst k)"

fun close :: "bytes \<Rightarrow> frame list \<Rightarrow> bytes" where
  "close w [] = w"
| "close w ((k, c) # fs) = w @ enc k (close c fs)"

fun close_fits :: "frame list \<Rightarrow> bool" where
  "close_fits [] = True"
| "close_fits ((k, c) # fs) = (fits k (close c fs) \<and> close_fits fs)"

definition buffer_ok :: "cbb_buffer \<Rightarrow> bool" where
  "buffer_ok b \<longleftrightarrow> len b \<le> cap b \<and> length (buf b) = unat (cap b)"

definition repr :: "CBB \<Rightarrow> frame list \<Rightarrow> bool" where
  "repr s fs \<longleftrightarrow>
     buffer_ok (base s) \<and> \<not> error (base s) \<and>
     fs \<noteq> [] \<and> fst (hd fs) = (0, False) \<and> (\<forall>f \<in> set fs. kind_ok (fst f)) \<and>
     take (unat (len (base s))) (buf (base s)) = layout fs \<and>
     children s = tl (chain 0 fs)"

lemma layout_append: "layout (fs @ gs) = layout fs @ layout gs"
  by (induction fs rule: layout.induct) auto

lemma layout_snoc: "layout (fs @ [((n, a), w)]) = layout fs @ replicate n 0 @ w"
  by (simp add: layout_append)

lemma chain_append: "chain pos (fs @ gs) = chain pos fs @ chain (pos + length (layout fs)) gs"
  by (induction pos fs rule: chain.induct) (auto simp: add.assoc)

lemma length_chain [simp]: "length (chain pos fs) = length fs"
  by (induction pos fs rule: chain.induct) auto

lemma buffer_ok_len: "buffer_ok b \<Longrightarrow> unat (len b) \<le> length (buf b)"
  by (simp add: buffer_ok_def word_le_nat_alt)

lemma repr_len: "repr s fs \<Longrightarrow> unat (len (base s)) = length (layout fs)"
  using buffer_ok_len [of "base s"] by (auto simp: repr_def dest!: arg_cong [where f = length])

lemma repr_layout_less: "repr s fs \<Longrightarrow> length (layout fs) < 2 ^ 64"
  using repr_len [of s fs] unat_less [of "len (base s)"] by simp

lemma repr_children: "repr s fs \<Longrightarrow> Suc (length (children s)) = length fs"
  by (cases fs) (auto simp: repr_def)

subsection \<open>Growing the buffer\<close>

context heap_realloc
begin

lemma cbb_buffer_reserve_ok:
  assumes "cbb_buffer_reserve ralloc b n = (True, b')" "buffer_ok b"
  shows "buffer_ok b'" "len b' = len b" "error b' = error b" "can_resize b' = can_resize b"
    and "unat (len b) + unat n \<le> unat (cap b')"
    and "take (unat (len b)) (buf b') = take (unat (len b)) (buf b)"
proof -
  define newlen where "newlen = len b + n"
  have no: "\<not> newlen < len b"
    using assms(1) by (auto simp: cbb_buffer_reserve_def newlen_def Let_def)
  then have newlen: "unat newlen = unat (len b) + unat n"
    using word_add_overflow_val(2) [of "len b" n] by (simp add: newlen_def)
  have le: "unat (len b) \<le> unat (cap b)" and l: "length (buf b) = unat (cap b)"
    using assms(2) by (auto simp: buffer_ok_def word_le_nat_alt)
  have "buffer_ok b' \<and> len b' = len b \<and> error b' = error b \<and> can_resize b' = can_resize b \<and>
      unat newlen \<le> unat (cap b') \<and> take (unat (len b)) (buf b') = take (unat (len b)) (buf b)"
  proof (cases "newlen > cap b")
    case False
    then have "b' = b"
      using assms(1) no by (auto simp: cbb_buffer_reserve_def newlen_def Let_def)
    then show ?thesis
      using False assms(2) by (simp add: word_less_nat_alt)
  next
    case True
    define newcap where "newcap = (if cap b * 2 < cap b \<or> cap b * 2 < newlen then newlen else cap b * 2)"
    have cap': "unat (cap b) \<le> unat newcap" "unat newlen \<le> unat newcap"
      using True by (auto simp: newcap_def word_less_nat_alt)
    obtain newbuf where r: "ralloc (buf b) newcap = Some newbuf" and b': "b' = b\<lparr>buf := newbuf, cap := newcap\<rparr>"
      using assms(1) no True
      unfolding cbb_buffer_reserve_def Let_def newlen_def [symmetric] newcap_def [symmetric]
      by (auto split: if_splits option.splits)
    have "take (length (buf b)) newbuf = buf b"
      using r cap'(1) by (intro ralloc_keeps) (simp_all add: l)
    then have "take (unat (len b)) (take (length (buf b)) newbuf) = take (unat (len b)) (buf b)"
      by simp
    then have "take (unat (len b)) newbuf = take (unat (len b)) (buf b)"
      using le by (simp add: l min_absorb1)
    moreover have "length newbuf = unat newcap"
      using r by (rule ralloc_length)
    ultimately show ?thesis
      using cap' le by (simp add: b' buffer_ok_def word_le_nat_alt)
  qed
  then show "buffer_ok b'" "len b' = len b" "error b' = error b" "can_resize b' = can_resize b"
    and "unat (len b) + unat n \<le> unat (cap b')"
    and "take (unat (len b)) (buf b') = take (unat (len b)) (buf b)"
    by (simp_all add: newlen)
qed

lemma cbb_buffer_add_ok:
  assumes "cbb_buffer_add ralloc b n = (True, b')" "buffer_ok b"
  shows "buffer_ok b'" "error b' = error b" "can_resize b' = can_resize b"
    and "unat (len b') = unat (len b) + unat n"
    and "take (unat (len b)) (buf b') = take (unat (len b)) (buf b)"
proof -
  obtain b1 where r: "cbb_buffer_reserve ralloc b n = (True, b1)" and b': "b' = b1\<lparr>len := len b1 + n\<rparr>"
    using assms(1) by (auto simp: cbb_buffer_add_def split: prod.splits if_splits)
  note ok = cbb_buffer_reserve_ok [OF r assms(2)]
  have "unat (len b) + unat n < 2 ^ 64"
    using ok(5) unat_less [of "cap b1"] by simp
  then have sum: "unat (len b + n) = unat (len b) + unat n"
    by (simp add: unat_word_ariths)
  then show "buffer_ok b'" "error b' = error b" "can_resize b' = can_resize b"
    and "unat (len b') = unat (len b) + unat n"
    and "take (unat (len b)) (buf b') = take (unat (len b)) (buf b)"
    using ok by (simp_all add: b' buffer_ok_def word_le_nat_alt)
qed

end

lemma cbb_buffer_reserve_fail: "cbb_buffer_reserve ralloc b n = (False, b') \<Longrightarrow> b' = b\<lparr>error := True\<rparr>"
  by (auto simp: cbb_buffer_reserve_def Let_def split: if_splits option.splits)

lemma cbb_buffer_add_fail: "cbb_buffer_add ralloc b n = (False, b') \<Longrightarrow> b' = b\<lparr>error := True\<rparr>"
  by (auto simp: cbb_buffer_add_def split: prod.splits if_splits dest: cbb_buffer_reserve_fail)

subsection \<open>Writing a length prefix\<close>

lemma write_be_loop_eq:
  "length L = off \<Longrightarrow> length X = n \<Longrightarrow>
     write_be_loop n off v (L @ X @ R) = (L @ be_bytes n (unat v) @ R, drop_bit (8 * n) v)"
proof (induction n arbitrary: v X R)
  case (Suc n)
  obtain Y y where X: "X = Y @ [y]" "length Y = n"
    using Suc.prems(2) by (cases X rule: rev_cases) auto
  have "(L @ X @ R)[off + n := ucast v] = L @ Y @ (ucast v # R)"
    using Suc.prems(1) X(2) by (simp add: X(1) list_update_append)
  moreover have "drop_bit (8 * n) (drop_bit 8 v) = drop_bit (8 * Suc n) v"
    by (simp add: add.commute)
  ultimately show ?case
    using Suc.IH [OF Suc.prems(1) X(2), of "drop_bit 8 v" "ucast v # R"]
    by (simp add: unat_drop_bit del: drop_bit_drop_bit)
qed simp

lemma drop_bit_eq_0_iff: "drop_bit (8 * n) (v :: u64) = 0 \<longleftrightarrow> unat v < 256 ^ n"
proof -
  have "drop_bit (8 * n) v = 0 \<longleftrightarrow> unat v div 256 ^ n = 0"
    by (simp only: word_unat_eq_iff unat_drop_bit power_256 [symmetric]) simp
  then show ?thesis by (simp add: div_eq_0_iff)
qed

lemma memmove_eq:
  assumes "length L = src" "length C = n" "length X = e"
  shows "\<exists>J. length J = e \<and> memmove (L @ C @ X @ R) (src + e) src n = L @ J @ C @ R"
proof -
  have "take (src + e) (L @ C @ X @ R) = L @ take e (C @ X @ R)"
    using assms(1) by simp
  moreover have "drop (src + e + n) (L @ C @ X @ R) = R"
    using assms by simp
  moreover have "take n (drop src (L @ C @ X @ R)) = C"
    using assms by simp
  ultimately have "memmove (L @ C @ X @ R) (src + e) src n = L @ take e (C @ X @ R) @ C @ R"
    by (simp only: memmove_def append_assoc)
  moreover have "length (take e (C @ X @ R)) = e"
    using assms by simp
  ultimately show ?thesis by blast
qed

lemma asn1_len_len_ok:
  assumes "asn1_len_len n = Some (len_len, ilb, n')"
  shows "unat n \<le> 0xfffffffe" and "1 \<le> unat len_len" and "unat len_len \<le> 5"
    and "der_length (unat n) = ilb # be_bytes (unat len_len - 1) (unat n)"
    and "unat n' < 256 ^ (unat len_len - 1)"
    and "be_bytes (unat len_len - 1) (unat n') = be_bytes (unat len_len - 1) (unat n)"
    and "len_len \<noteq> 1 \<Longrightarrow> n' = n"
proof -
  have "unat n \<le> 0xfffffffe \<and> 1 \<le> unat len_len \<and> unat len_len \<le> 5 \<and>
      der_length (unat n) = ilb # be_bytes (unat len_len - 1) (unat n) \<and>
      unat n' < 256 ^ (unat len_len - 1) \<and>
      be_bytes (unat len_len - 1) (unat n') = be_bytes (unat len_len - 1) (unat n) \<and>
      (len_len \<noteq> 1 \<longrightarrow> n' = n)"
  proof -
    from assms consider
        (c5) "0xffffff < unat n" "unat n \<le> 0xfffffffe" "len_len = 5" "ilb = 0x84" "n' = n"
      | (c4) "0xffff < unat n" "unat n \<le> 0xffffff" "len_len = 4" "ilb = 0x83" "n' = n"
      | (c3) "0xff < unat n" "unat n \<le> 0xffff" "len_len = 3" "ilb = 0x82" "n' = n"
      | (c2) "0x7f < unat n" "unat n \<le> 0xff" "len_len = 2" "ilb = 0x81" "n' = n"
      | (c1) "unat n \<le> 0x7f" "len_len = 1" "ilb = word_of_nat (unat n)" "n' = 0"
      unfolding asn1_len_len_def by (auto simp: word_less_nat_alt not_less split: if_splits)
    then show ?thesis
      by cases (simp_all add: der_length_def)
  qed
  then show "unat n \<le> 0xfffffffe" and "1 \<le> unat len_len" and "unat len_len \<le> 5"
    and "der_length (unat n) = ilb # be_bytes (unat len_len - 1) (unat n)"
    and "unat n' < 256 ^ (unat len_len - 1)"
    and "be_bytes (unat len_len - 1) (unat n') = be_bytes (unat len_len - 1) (unat n)"
    and "len_len \<noteq> 1 \<Longrightarrow> n' = n"
    by blast+
qed

lemma buffer_split:
  assumes "buffer_ok b" "take (unat (len b)) (buf b) = D"
  obtains R where "buf b = D @ R" "length D = unat (len b)" "length D + length R = unat (cap b)"
proof (rule that [of "drop (unat (len b)) (buf b)"])
  show "buf b = D @ drop (unat (len b)) (buf b)"
    using assms(2) by (metis append_take_drop_id)
  show l: "length D = unat (len b)"
    using assms(2) buffer_ok_len [OF assms(1)] by auto
  show "length D + length (drop (unat (len b)) (buf b)) = unat (cap b)"
    using assms(1) buffer_ok_len [OF assms(1)] by (simp add: l buffer_ok_def)
qed

lemma buffer_okI:
  "length D = unat (len b) \<Longrightarrow> buf b = D @ R \<Longrightarrow> length D + length R = unat (cap b)
     \<Longrightarrow> buffer_ok b \<and> take (unat (len b)) (buf b) = D"
  by (auto simp: buffer_ok_def word_le_nat_alt)

context heap_realloc
begin

text \<open>Making room for a long-form length: the buffer after \<open>cbb_buffer_add\<close> and \<open>memmove\<close>.\<close>

lemma asn1_make_room:
  assumes "buffer_ok b" "take (unat (len b)) (buf b) = L @ C"
    and "cbb_buffer_add ralloc b e = (True, b')"
    and "unat cs = length L"
  obtains J R where "length J = unat e" "memmove (buf b') (unat (cs + e)) (unat cs) (length C) = L @ J @ C @ R"
    "unat (len b') = length (L @ J @ C)" "length (L @ J @ C) + length R = unat (cap b')"
    "error b' = error b" "can_resize b' = can_resize b"
proof -
  note add = cbb_buffer_add_ok [OF assms(3,1)]
  have len: "length (L @ C) = unat (len b)"
    using assms(2) buffer_ok_len [OF assms(1)] by (metis length_take min_absorb2)
  obtain R0 where R0: "buf b' = take (unat (len b')) (buf b') @ R0"
    "length (take (unat (len b')) (buf b')) = unat (len b')"
    "length (take (unat (len b')) (buf b')) + length R0 = unat (cap b')"
    using buffer_split [OF add(1) refl] by metis
  define X where "X = drop (unat (len b)) (take (unat (len b')) (buf b'))"
  have "take (unat (len b)) (take (unat (len b')) (buf b')) = L @ C"
    using add(4,5) assms(2) by (simp add: min_absorb1)
  then have D: "take (unat (len b')) (buf b') = (L @ C) @ X"
    unfolding X_def by (metis append_take_drop_id)
  have X: "length X = unat e"
    using R0(2) add(4) len unfolding D by simp
  have "unat (len b) + unat e < 2 ^ 64"
    using add(4) unat_less [of "len b'"] by simp
  then have cse: "unat (cs + e) = length L + unat e"
    using len assms(4) by (simp add: unat_word_ariths)
  have "buf b' = L @ C @ X @ R0"
    using R0(1) D by simp
  moreover obtain J where "length J = unat e"
    "memmove (L @ C @ X @ R0) (length L + unat e) (length L) (length C) = L @ J @ C @ R0"
    using memmove_eq [OF refl refl X] by blast
  moreover have "unat (len b') = length (L @ C) + unat e" "length (L @ C) + unat e + length R0 = unat (cap b')"
    using R0(3) unfolding R0(2) by (simp_all only: add(4) len)
  ultimately show thesis
    using that [of J R0] add(2,3) by (simp add: cse assms(4))
qed

lemma cbb_flush_asn1_prefix_ok:
  assumes pre: "cbb_flush_asn1_prefix ralloc child cs n b = (Some (off, ll, n'), b')"
    and ok: "buffer_ok b" and D: "take (unat (len b)) (buf b) = L @ [z] @ C"
    and off: "offset child = word_of_nat (length L)"
    and cs: "unat cs = length L + 1" and n: "unat n = length C"
  obtains ilb J R where "buf b' = L @ [ilb] @ J @ C @ R" "length J = unat ll"
    "unat (len b') = length (L @ [ilb] @ J @ C)" "length (L @ [ilb] @ J @ C) + length R = unat (cap b')"
    "error b' = error b" "can_resize b' = can_resize b" "unat off = length L + 1"
    "der_length (length C) = ilb # be_bytes (unat ll) (unat n')"
    "unat n' < 256 ^ unat ll" "length C \<le> 0xfffffffe"
proof -
  obtain len_len ilb where a: "asn1_len_len n = Some (len_len, ilb, n')" and ll: "ll = len_len - 1"
    and off': "off = offset child + 1"
    using pre by (auto simp: cbb_flush_asn1_prefix_def Let_def split: option.splits prod.splits if_splits)
  note a' = asn1_len_len_ok [OF a]
  have ull: "unat ll = unat len_len - 1"
    using a'(2) by (simp add: ll unat_sub word_le_nat_alt)
  have "length (L @ [z] @ C) = unat (len b)"
    using D buffer_ok_len [OF ok] by (metis length_take min_absorb2)
  then have "length L + 1 < 2 ^ 64"
    using unat_less [of "len b"] cs unat_less [of cs] by simp
  then have uoff: "unat off = length L + 1"
    by (simp add: off' off unat_word_ariths unat_word_of_nat)
  have L: "unat (offset child) = length L"
    using \<open>length L + 1 < 2 ^ 64\<close> by (simp add: off unat_word_of_nat)
  have der: "der_length (length C) = ilb # be_bytes (unat ll) (unat n')" "unat n' < 256 ^ unat ll"
    "length C \<le> 0xfffffffe"
    using a' by (simp_all add: ull n)
  show thesis
  proof (cases "len_len = 1")
    case True
    then have b': "b' = b\<lparr>buf := (buf b)[length L := ilb]\<rparr>"
      using pre by (simp add: cbb_flush_asn1_prefix_def a L Let_def)
    obtain R where R: "buf b = (L @ [z] @ C) @ R" "length (L @ [z] @ C) = unat (len b)"
      "length (L @ [z] @ C) + length R = unat (cap b)"
      using buffer_split [OF ok D] by metis
    have "buf b' = L @ [ilb] @ [] @ C @ R"
      by (simp add: b' R(1))
    then show thesis
      using that [of ilb "[]" R] R(2,3) True ll uoff der by (simp add: b')
  next
    case False
    define e where "e = (ucast len_len - 1 :: u64)"
    obtain b1 where add: "cbb_buffer_add ralloc b e = (True, b1)"
      and b': "b' = b1\<lparr>buf := (memmove (buf b1) (unat (cs + e)) (unat cs) (unat n'))[length L := ilb]\<rparr>"
      using pre False by (auto simp: cbb_flush_asn1_prefix_def a L e_def Let_def split: prod.splits if_splits)
    have "unat n' = length C"
      using a'(7) False n by simp
    have e: "unat e = unat ll"
    proof -
      have "unat (ucast len_len :: u64) = unat len_len"
        by (simp add: unat_ucast_widen)
      then show ?thesis
        using a'(2) by (simp add: e_def ull unat_sub word_le_nat_alt)
    qed
    from D have D': "take (unat (len b)) (buf b) = (L @ [z]) @ C"
      by simp
    have cs': "unat cs = length (L @ [z])"
      using cs by simp
    obtain J R where J: "length J = unat e"
      "memmove (buf b1) (unat (cs + e)) (unat cs) (length C) = (L @ [z]) @ J @ C @ R"
      "unat (len b1) = length ((L @ [z]) @ J @ C)" "length ((L @ [z]) @ J @ C) + length R = unat (cap b1)"
      "error b1 = error b" "can_resize b1 = can_resize b"
      using asn1_make_room [OF ok D' add cs'] by metis
    have "buf b' = L @ [ilb] @ J @ C @ R"
      by (simp add: b' \<open>unat n' = length C\<close> J(2))
    then show thesis
      using that [of ilb J R] J uoff der e by (simp add: b')
  qed
qed

end

subsection \<open>Flushing\<close>

lemma chain_last_two:
  "tl (chain 0 (fs @ [(kp, w), ((n, a), c)])) =
     tl (chain 0 (fs @ [(kp, w)])) @
       [\<lparr>offset = word_of_nat (length (layout (fs @ [(kp, w)]))), pending_len_len = word_of_nat n, pending_is_asn1 = a\<rparr>]"
proof -
  have "fs @ [(kp, w), ((n, a), c)] = (fs @ [(kp, w)]) @ [((n, a), c)]"
    by simp
  then have "chain 0 (fs @ [(kp, w), ((n, a), c)]) = chain 0 (fs @ [(kp, w)]) @ chain (length (layout (fs @ [(kp, w)]))) [((n, a), c)]"
    by (simp only: chain_append add_0)
  then show ?thesis
    by (cases fs; cases kp) auto
qed

lemma layout_last_two:
  "layout (fs @ [(kp, w), ((n, a), c)]) = layout (fs @ [(kp, w)]) @ replicate n 0 @ c"
  by (cases kp) (simp add: layout_append)

lemma reprI:
  assumes "repr s0 (fs @ [(kp, w), f])" "children s = tl (chain 0 (fs @ [(kp, w)]))"
    and "buffer_ok (base s)" "\<not> error (base s)"
    and "take (unat (len (base s))) (buf (base s)) = layout (fs @ [(kp, w)]) @ v"
  shows "repr s (fs @ [(kp, w @ v)])"
proof -
  have "chain 0 (fs @ [(kp, w @ v)]) = chain 0 (fs @ [(kp, w)])"
    by (cases kp) (simp add: chain_append)
  moreover have "layout (fs @ [(kp, w @ v)]) = layout (fs @ [(kp, w)]) @ v"
    by (cases kp) (simp add: layout_append)
  moreover have "hd (fs @ [(kp, w @ v)]) = (fst (hd (fs @ [(kp, w)])), snd (hd (fs @ [(kp, w @ v)])))"
    by (cases fs) auto
  ultimately show ?thesis
    using assms by (cases fs) (auto simp: repr_def)
qed

context heap_realloc
begin

lemma cbb_flush_child_ok:
  assumes r: "repr s (fs @ [(kp, w), (k, c)])"
    and fl: "cbb_flush_child ralloc (length fs) (children s ! length fs) s = (True, s')"
  shows "repr s' (fs @ [(kp, w @ enc k c)])" and "fits k c" and "can_resize (base s') = can_resize (base s)"
proof -
  obtain n a where k: "k = (n, a)" by fastforce
  define L where "L = layout (fs @ [(kp, w)])"
  define ch where "ch = children s ! length fs"
  have kok: "n < 256" "a \<Longrightarrow> n = 1"
    using r by (auto simp: repr_def kind_ok_def k)
  have cs: "children s = tl (chain 0 (fs @ [(kp, w)])) @
      [\<lparr>offset = word_of_nat (length L), pending_len_len = word_of_nat n, pending_is_asn1 = a\<rparr>]"
    using r by (simp add: repr_def k L_def chain_last_two del: tl_append2)
  have lfs: "length (tl (chain 0 (fs @ [(kp, w)]))) = length fs"
    by simp
  have ch: "ch = \<lparr>offset = word_of_nat (length L), pending_len_len = word_of_nat n, pending_is_asn1 = a\<rparr>"
    unfolding ch_def cs by (metis lfs nth_append_length)
  have take_cs: "take (length fs) (children s) = tl (chain 0 (fs @ [(kp, w)]))"
    unfolding cs by (metis append_eq_conv_conj lfs)
  have ok: "buffer_ok (base s)" and ne: "\<not> error (base s)"
    using r by (simp_all add: repr_def)
  have D: "take (unat (len (base s))) (buf (base s)) = L @ replicate n 0 @ c"
    using r by (simp add: repr_def k layout_last_two L_def)
  obtain R where R: "buf (base s) = (L @ replicate n 0 @ c) @ R"
    "length (L @ replicate n 0 @ c) = unat (len (base s))"
    "length (L @ replicate n 0 @ c) + length R = unat (cap (base s))"
    using buffer_split [OF ok D] by metis
  have sz: "length L + n + length c < 2 ^ 64"
    using R(2) unat_less [of "len (base s)"] by simp
  define start where "start = offset ch + ucast (pending_len_len ch)"
  have pll: "unat (pending_len_len ch) = n"
    using kok(1) by (simp add: ch unat_word_of_nat)
  have off: "unat (offset ch) = length L"
    using sz by (simp add: ch unat_word_of_nat)
  have start: "unat start = length L + n"
    using sz pll off by (simp add: start_def unat_word_ariths unat_ucast_widen)
  have noov: "\<not> start < offset ch" "\<not> len (base s) < start"
    using R(2) by (simp_all add: word_less_nat_alt off start)
  define m where "m = len (base s) - start"
  have m: "unat m = length c"
    using R(2) noov(2) by (simp add: m_def unat_sub word_le_nat_alt not_less start)
  have pa: "pending_is_asn1 ch = a"
    by (simp add: ch)
  define wrt where "wrt = (\<lambda>b2 off ll m'.
      (let (newbuf, n) = write_be_loop (unat (ll :: u8)) (unat (off :: u64)) m' (buf b2);
           s = s\<lparr>base := b2\<lparr>buf := newbuf\<rparr>\<rparr>
       in if n \<noteq> 0 then (False, cbb_on_error (length fs) s)
          else (True, s\<lparr>children := take (length fs) (children s)\<rparr>)))"
  have fl': "(case (if a then cbb_flush_asn1_prefix ralloc ch start m (base s)
                    else (Some (offset ch, pending_len_len ch, m), base s)) of
               (prefix, b2) \<Rightarrow> (case prefix of None \<Rightarrow> (False, cbb_on_error (length fs) (s\<lparr>base := b2\<rparr>))
                 | Some (off, ll, m') \<Rightarrow> wrt b2 off ll m')) = (True, s')"
    using fl noov pa
    unfolding cbb_flush_child_def ch_def [symmetric] wrt_def Let_def start_def [symmetric] m_def [symmetric]
    by (simp split del: if_split cong del: if_weak_cong)
  obtain P J R2 b2 off ll m' where wr: "wrt b2 off ll m' = (True, s')"
    and b2: "buf b2 = P @ J @ c @ R2" "length J = unat ll" "unat off = length P"
      "unat (len b2) = length (P @ J @ c)" "length (P @ J @ c) + length R2 = unat (cap b2)"
      "error b2 = error (base s)" "can_resize b2 = can_resize (base s)"
    and P: "P @ be_bytes (unat ll) (unat m') @ c = L @ enc k c"
    and F: "unat m' < 256 ^ unat ll \<Longrightarrow> fits k c"
  proof (cases a)
    case True
    obtain off ll m' b2 where pre: "cbb_flush_asn1_prefix ralloc ch start m (base s) = (Some (off, ll, m'), b2)"
      and wr: "wrt b2 off ll m' = (True, s')"
      using fl' True by (auto split: prod.splits option.splits)
    have D1: "take (unat (len (base s))) (buf (base s)) = L @ [0] @ c"
      using D kok(2) [OF True] by simp
    have start1: "unat start = length L + 1"
      using start kok(2) [OF True] by simp
    have offw: "offset ch = word_of_nat (length L)"
      by (simp add: ch)
    obtain ilb J R2 where "buf b2 = L @ [ilb] @ J @ c @ R2" "length J = unat ll"
      "unat (len b2) = length (L @ [ilb] @ J @ c)" "length (L @ [ilb] @ J @ c) + length R2 = unat (cap b2)"
      "error b2 = error (base s)" "can_resize b2 = can_resize (base s)" "unat off = length L + 1"
      "der_length (length c) = ilb # be_bytes (unat ll) (unat m')" "length c \<le> 0xfffffffe"
      using cbb_flush_asn1_prefix_ok [OF pre ok D1 offw start1 m] by metis
    then show thesis
      using that [of b2 off ll m' "L @ [ilb]" J R2] wr True by (simp add: k enc_def fits_def)
  next
    case False
    then have "wrt (base s) (offset ch) (pending_len_len ch) m = (True, s')"
      using fl' by simp
    then show thesis
      using that [of "base s" "offset ch" "pending_len_len ch" m L "replicate n 0" R] R False
      by (simp add: off pll m k enc_def fits_def)
  qed
  have loop: "write_be_loop (unat ll) (unat off) m' (buf b2) =
      (P @ be_bytes (unat ll) (unat m') @ c @ R2, drop_bit (8 * unat ll) m')"
    unfolding b2(1) by (rule write_be_loop_eq) (simp_all add: b2)
  have s': "s' = s\<lparr>base := b2\<lparr>buf := (L @ enc k c) @ R2\<rparr>, children := take (length fs) (children s)\<rparr>"
    and z: "drop_bit (8 * unat ll) m' = 0"
    using wr by (auto simp: wrt_def loop Let_def P [symmetric] split: if_splits)
  show "fits k c"
    using z by (intro F) (simp add: drop_bit_eq_0_iff)
  show "can_resize (base s') = can_resize (base s)"
    by (simp add: s' b2)
  have lenP: "length (P @ J @ c) = length (L @ enc k c)"
    using b2(2) by (simp flip: P)
  have "buffer_ok (base s') \<and> take (unat (len (base s'))) (buf (base s')) = L @ enc k c"
    by (rule buffer_okI) (use b2(4,5) lenP in \<open>simp_all add: s'\<close>)
  then show "repr s' (fs @ [(kp, w @ enc k c)])"
    using ne by (intro reprI [OF r]) (simp_all add: L_def s' take_cs b2(6))
qed

text \<open>Closing every frame inside the one at depth \<open>d\<close>.\<close>

end

definition flush_frames :: "nat \<Rightarrow> frame list \<Rightarrow> frame list" where
  "flush_frames d fs = take d fs @ [(fst (fs ! d), close (snd (fs ! d)) (drop (Suc d) fs))]"

lemma chain_nth:
  "i < length fs \<Longrightarrow> chain pos fs ! i =
     \<lparr>offset = word_of_nat (pos + length (layout (take i fs))),
      pending_len_len = word_of_nat (fst (fst (fs ! i))), pending_is_asn1 = snd (fst (fs ! i))\<rparr>"
proof (induction pos fs arbitrary: i rule: chain.induct)
  case (2 pos n a w fs)
  then show ?case by (cases i) (simp_all add: add.assoc)
qed simp

lemma repr_child:
  "repr s fs \<Longrightarrow> Suc d < length fs \<Longrightarrow> children s ! d = chain 0 fs ! Suc d"
  by (simp add: repr_def nth_tl)

lemma flush_frames_last: "Suc d = length fs \<Longrightarrow> flush_frames d fs = fs"
  by (simp add: flush_frames_def take_Suc_conv_app_nth [symmetric])

lemma flush_frames_step:
  assumes "Suc d < length fs"
  shows "flush_frames (Suc d) fs = take d fs @ [fs ! d, (fst (fs ! Suc d), close (snd (fs ! Suc d)) (drop (Suc (Suc d)) fs))]"
    and "close (snd (fs ! d)) (drop (Suc d) fs) =
      snd (fs ! d) @ enc (fst (fs ! Suc d)) (close (snd (fs ! Suc d)) (drop (Suc (Suc d)) fs))"
    and "close_fits (drop (Suc d) fs) \<longleftrightarrow>
      fits (fst (fs ! Suc d)) (close (snd (fs ! Suc d)) (drop (Suc (Suc d)) fs)) \<and> close_fits (drop (Suc (Suc d)) fs)"
proof -
  have "drop (Suc d) fs = (fst (fs ! Suc d), snd (fs ! Suc d)) # drop (Suc (Suc d)) fs"
    using assms by (simp add: Cons_nth_drop_Suc)
  then show "close (snd (fs ! d)) (drop (Suc d) fs) =
      snd (fs ! d) @ enc (fst (fs ! Suc d)) (close (snd (fs ! Suc d)) (drop (Suc (Suc d)) fs))"
    and "close_fits (drop (Suc d) fs) \<longleftrightarrow>
      fits (fst (fs ! Suc d)) (close (snd (fs ! Suc d)) (drop (Suc (Suc d)) fs)) \<and> close_fits (drop (Suc (Suc d)) fs)"
    by (simp_all only: close.simps close_fits.simps)
  show "flush_frames (Suc d) fs = take d fs @ [fs ! d, (fst (fs ! Suc d), close (snd (fs ! Suc d)) (drop (Suc (Suc d)) fs))]"
    using assms by (simp add: flush_frames_def take_Suc_conv_app_nth)
qed

context heap_realloc
begin

lemma CBB_flush_ok:
  assumes "CBB_flush ralloc d s = (True, s')" "repr s fs"
  shows "repr s' (flush_frames d fs) \<and> close_fits (drop (Suc d) fs) \<and> d < length fs \<and>
    can_resize (base s') = can_resize (base s)"
  using assms(1)
proof (induction "length (children s) - d" arbitrary: d s')
  case 0
  have len: "Suc (length (children s)) = length fs"
    using assms(2) by (rule repr_children)
  have "s' = s" and "Suc d = length fs"
    using "0.prems" "0.hyps" len by (auto simp: CBB_flush.simps [of ralloc d s] split: if_splits)
  then show ?case
    using assms(2) by (simp add: flush_frames_last)
next
  case (Suc k)
  have len: "Suc (length (children s)) = length fs"
    using assms(2) by (rule repr_children)
  have d: "Suc d < length fs" "d \<noteq> length (children s)"
    using Suc.hyps(2) len by auto
  obtain s1 where s1: "CBB_flush ralloc (Suc d) s = (True, s1)"
    and ch: "cbb_flush_child ralloc d (children s ! d) s1 = (True, s')"
    using Suc.prems d(2)
    by (auto simp: CBB_flush.simps [of ralloc d s] Let_def split: prod.splits if_splits)
  have IH: "repr s1 (flush_frames (Suc d) fs)" "close_fits (drop (Suc (Suc d)) fs)"
    "can_resize (base s1) = can_resize (base s)"
    using Suc.hyps(1) [OF _ s1] Suc.hyps(2) by auto
  obtain kp w where fd: "fs ! d = (kp, w)"
    by fastforce
  define k' c where "k' = fst (fs ! Suc d)" and "c = close (snd (fs ! Suc d)) (drop (Suc (Suc d)) fs)"
  have ff: "flush_frames (Suc d) fs = take d fs @ [(kp, w), (k', c)]"
    using flush_frames_step(1) [OF d(1)] by (simp add: fd k'_def c_def)
  have td: "length (take d fs) = d"
    using d(1) by simp
  have "children s1 ! d = children s ! d"
  proof -
    have "children s1 ! d = chain 0 (flush_frames (Suc d) fs) ! Suc d"
      using IH(1) by (rule repr_child) (use d(1) in \<open>simp add: ff\<close>)
    also have "\<dots> = chain 0 fs ! Suc d"
      using d(1) by (simp add: chain_nth flush_frames_def nth_append)
    also have "\<dots> = children s ! d"
      using repr_child [OF assms(2) d(1)] by simp
    finally show ?thesis .
  qed
  then have ch': "cbb_flush_child ralloc (length (take d fs)) (children s1 ! length (take d fs)) s1 = (True, s')"
    using ch by (simp only: td)
  note child = cbb_flush_child_ok [OF IH(1) [unfolded ff] ch']
  have "flush_frames d fs = take d fs @ [(kp, w @ enc k' c)]"
    using flush_frames_step(2) [OF d(1)] by (simp add: flush_frames_def fd k'_def c_def)
  then show ?case
    using child IH flush_frames_step(3) [OF d(1)] d(1) by (simp add: k'_def c_def)
qed

end

subsection \<open>Writing\<close>

text \<open>
  \<open>append_frames d v\<close> is the effect of a write of \<open>v\<close> at depth \<open>d\<close>: inner frames are closed and \<open>v\<close>
  is appended. \<open>writes op d v\<close> says that \<open>op\<close>, when it succeeds, has that effect, and \<open>opens op d k v\<close>
  that it writes \<open>v\<close> and opens an empty child of kind \<open>k\<close>.
\<close>

definition append_frames :: "nat \<Rightarrow> bytes \<Rightarrow> frame list \<Rightarrow> frame list" where
  "append_frames d v fs = take d fs @ [(fst (fs ! d), close (snd (fs ! d)) (drop (Suc d) fs) @ v)]"

definition writes :: "(CBB \<Rightarrow> bool \<times> CBB) \<Rightarrow> nat \<Rightarrow> bytes \<Rightarrow> bool" where
  "writes f d v \<longleftrightarrow>
     (\<forall>s fs s'. repr s fs \<longrightarrow> f s = (True, s') \<longrightarrow> d < length fs \<and> repr s' (append_frames d v fs))"

definition opens :: "(CBB \<Rightarrow> bool \<times> CBB) \<Rightarrow> nat \<Rightarrow> kind \<Rightarrow> bytes \<Rightarrow> bool" where
  "opens f d k v \<longleftrightarrow>
     (\<forall>s fs s'. repr s fs \<longrightarrow> f s = (True, s') \<longrightarrow>
        d < length fs \<and> repr s' (append_frames d v fs @ [(k, [])]))"

text \<open>The same for an operation that is only run on the innermost builder.\<close>

definition writes_in :: "(CBB \<Rightarrow> bool \<times> CBB) \<Rightarrow> nat \<Rightarrow> bytes \<Rightarrow> bool" where
  "writes_in f d v \<longleftrightarrow>
     (\<forall>s fs s'. repr s fs \<longrightarrow> Suc d = length fs \<longrightarrow> f s = (True, s') \<longrightarrow> repr s' (append_frames d v fs))"

lemma writes_inI:
  "(\<And>s fs s'. repr s fs \<Longrightarrow> Suc d = length fs \<Longrightarrow> f s = (True, s') \<Longrightarrow> repr s' (append_frames d v fs))
     \<Longrightarrow> writes_in f d v"
  by (auto simp: writes_in_def)

lemma writes_inD:
  "writes_in f d v \<Longrightarrow> repr s fs \<Longrightarrow> Suc d = length fs \<Longrightarrow> f s = (True, s') \<Longrightarrow> repr s' (append_frames d v fs)"
  by (auto simp: writes_in_def)

lemma writes_imp_in: "writes f d v \<Longrightarrow> writes_in f d v"
  by (auto simp: writes_in_def writes_def)

lemma writesI:
  "(\<And>s fs s'. repr s fs \<Longrightarrow> f s = (True, s') \<Longrightarrow> d < length fs \<and> repr s' (append_frames d v fs)) \<Longrightarrow> writes f d v"
  by (auto simp: writes_def)

lemma writesD:
  "writes f d v \<Longrightarrow> repr s fs \<Longrightarrow> f s = (True, s') \<Longrightarrow> d < length fs \<and> repr s' (append_frames d v fs)"
  by (auto simp: writes_def)

lemma opensI:
  "(\<And>s fs s'. repr s fs \<Longrightarrow> f s = (True, s') \<Longrightarrow> d < length fs \<and> repr s' (append_frames d v fs @ [(k, [])]))
     \<Longrightarrow> opens f d k v"
  by (auto simp: opens_def)

lemma opensD:
  "opens f d k v \<Longrightarrow> repr s fs \<Longrightarrow> f s = (True, s') \<Longrightarrow> d < length fs \<and> repr s' (append_frames d v fs @ [(k, [])])"
  by (auto simp: opens_def)

lemma append_frames_Nil: "append_frames d [] fs = flush_frames d fs"
  by (simp add: append_frames_def flush_frames_def)

lemma length_append_frames [simp]: "d < length fs \<Longrightarrow> length (append_frames d v fs) = Suc d"
  by (simp add: append_frames_def)

lemma nth_append_frames: "d < length fs \<Longrightarrow> append_frames d v fs ! d =
    (fst (fs ! d), close (snd (fs ! d)) (drop (Suc d) fs) @ v)"
  by (simp add: append_frames_def nth_append)

lemma append_frames_innermost: "Suc d = length fs \<Longrightarrow> append_frames d [] fs = fs"
  by (simp add: append_frames_Nil flush_frames_last)

lemma append_frames_append [simp]:
  "d < length fs \<Longrightarrow> append_frames d w (append_frames d v fs) = append_frames d (v @ w) fs"
  by (simp add: append_frames_def nth_append)

lemma append_frames_child [simp]:
  "d < length fs \<Longrightarrow> append_frames (Suc d) w (append_frames d v fs @ [(k, c)]) = append_frames d v fs @ [(k, c @ w)]"
  by (simp add: append_frames_def nth_append)

lemma append_frames_close:
  "d < length fs \<Longrightarrow> append_frames d [] (append_frames d v fs @ [(k, c)]) = append_frames d (v @ enc k c) fs"
  by (simp add: append_frames_def nth_append)

lemma cbb_and_True_iff: "cbb_and r f = (True, s') \<longleftrightarrow> (\<exists>s. r = (True, s) \<and> f s = (True, s'))"
  by (cases r) (auto simp: cbb_and_def)

lemma cbb_guard_True_iff: "cbb_guard d r = (True, s') \<longleftrightarrow> r = (True, s')"
  by (cases r) (auto simp: cbb_guard_def)

lemma writes_and: "writes f d v \<Longrightarrow> writes g d w \<Longrightarrow> writes (\<lambda>s. cbb_and (f s) g) d (v @ w)"
proof (rule writesI)
  fix s fs s'
  assume f: "writes f d v" and g: "writes g d w" and r: "repr s fs" and "cbb_and (f s) g = (True, s')"
  then obtain s1 where s1: "f s = (True, s1)" and s': "g s1 = (True, s')"
    by (auto simp: cbb_and_True_iff)
  have d: "d < length fs" "repr s1 (append_frames d v fs)"
    using writesD [OF f r s1] by auto
  show "d < length fs \<and> repr s' (append_frames d (v @ w) fs)"
    using writesD [OF g d(2) s'] d(1) by simp
qed

lemma writes_opens: "writes f d v \<Longrightarrow> opens g d k w \<Longrightarrow> opens (\<lambda>s. cbb_and (f s) g) d k (v @ w)"
proof (rule opensI)
  fix s fs s'
  assume f: "writes f d v" and g: "opens g d k w" and r: "repr s fs" and "cbb_and (f s) g = (True, s')"
  then obtain s1 where s1: "f s = (True, s1)" and s': "g s1 = (True, s')"
    by (auto simp: cbb_and_True_iff)
  have d: "d < length fs" "repr s1 (append_frames d v fs)"
    using writesD [OF f r s1] by auto
  show "d < length fs \<and> repr s' (append_frames d (v @ w) fs @ [(k, [])])"
    using opensD [OF g d(2) s'] d(1) by simp
qed

lemma writes_guard: "writes f d v \<Longrightarrow> writes (\<lambda>s. cbb_guard e (f s)) d v"
  by (simp add: writes_def cbb_guard_True_iff)

context heap_realloc
begin

lemma writes_flush: "writes (CBB_flush ralloc d) d []"
  by (rule writesI) (use CBB_flush_ok in \<open>auto simp: append_frames_Nil\<close>)

text \<open>A complete element: open a child, write to it, and flush the parent.\<close>

lemma writes_element:
  assumes "opens f d k v" "writes_in g (Suc d) w"
  shows "writes (\<lambda>s. cbb_and (cbb_and (f s) g) (CBB_flush ralloc d)) d (v @ enc k w)"
proof (rule writesI)
  fix s fs s'
  assume r: "repr s fs" and "cbb_and (cbb_and (f s) g) (CBB_flush ralloc d) = (True, s')"
  then obtain s1 s2 where s1: "f s = (True, s1)" and s2: "g s1 = (True, s2)"
    and s': "CBB_flush ralloc d s2 = (True, s')"
    by (auto simp: cbb_and_True_iff)
  have d: "d < length fs" and r1: "repr s1 (append_frames d v fs @ [(k, [])])"
    using opensD [OF assms(1) r s1] by auto
  have "repr s2 (append_frames d v fs @ [(k, w)])"
    using writes_inD [OF assms(2) r1 _ s2] d by simp
  then have "repr s' (append_frames d [] (append_frames d v fs @ [(k, w)]))"
    using writesD [OF writes_flush _ s'] by blast
  then show "d < length fs \<and> repr s' (append_frames d (v @ enc k w) fs)"
    using d by (simp add: append_frames_close)
qed

lemma element_fits:
  assumes "opens f d k v" "writes_in g (Suc d) w" "repr s fs"
    and "cbb_and (cbb_and (f s) g) (CBB_flush ralloc d) = (True, s')"
  shows "fits k w"
proof -
  obtain s1 s2 where s1: "f s = (True, s1)" and s2: "g s1 = (True, s2)"
    and s': "CBB_flush ralloc d s2 = (True, s')"
    using assms(4) by (auto simp: cbb_and_True_iff)
  have d: "d < length fs" and r1: "repr s1 (append_frames d v fs @ [(k, [])])"
    using opensD [OF assms(1,3) s1] by auto
  have "repr s2 (append_frames d v fs @ [(k, w)])"
    using writes_inD [OF assms(2) r1 _ s2] d by simp
  then show ?thesis
    using CBB_flush_ok [OF s'] d by fastforce
qed

end

text \<open>Space added at the end of the buffer belongs to the innermost frame.\<close>

lemma repr_extend:
  assumes "repr s (fs @ [(k, w)])"
    and "buf b = layout (fs @ [(k, w)]) @ v @ R"
    and "unat (len b) = length (layout (fs @ [(k, w)])) + length v"
    and "length (layout (fs @ [(k, w)])) + length v + length R = unat (cap b)"
    and "error b = error (base s)"
  shows "repr (s\<lparr>base := b\<rparr>) (fs @ [(k, w @ v)])"
proof -
  have "chain 0 (fs @ [(k, w @ v)]) = chain 0 (fs @ [(k, w)])"
    by (cases k) (simp add: chain_append)
  moreover have "layout (fs @ [(k, w @ v)]) = layout (fs @ [(k, w)]) @ v"
    by (cases k) (simp add: layout_append)
  moreover have "buffer_ok b \<and> take (unat (len b)) (buf b) = layout (fs @ [(k, w)]) @ v"
    by (rule buffer_okI) (use assms in simp_all)
  ultimately show ?thesis
    using assms(1,5) by (cases fs) (auto simp: repr_def)
qed

context heap_realloc
begin

lemma cbb_buffer_add_split:
  assumes "cbb_buffer_add ralloc b n = (True, b')" "buffer_ok b" "take (unat (len b)) (buf b) = D"
  obtains X R where "buf b' = D @ X @ R" "length D = unat (len b)" "length X = unat n"
    "unat (len b') = length D + unat n" "length D + unat n + length R = unat (cap b')"
    "error b' = error b" "can_resize b' = can_resize b"
proof -
  note add = cbb_buffer_add_ok [OF assms(1,2)]
  have len: "length D = unat (len b)"
    using assms(3) buffer_ok_len [OF assms(2)] by auto
  define X where "X = drop (unat (len b)) (take (unat (len b')) (buf b'))"
  define R where "R = drop (unat (len b')) (buf b')"
  have "take (unat (len b)) (take (unat (len b')) (buf b')) = D"
    using add(4,5) assms(3) by (simp add: min_absorb1)
  then have D: "take (unat (len b')) (buf b') = D @ X"
    unfolding X_def by (metis append_take_drop_id)
  then have "buf b' = D @ X @ R"
    unfolding R_def by (metis append_assoc append_take_drop_id)
  moreover have "length (D @ X) = unat (len b')"
    using D [symmetric] buffer_ok_len [OF add(1)] by simp
  ultimately show thesis
    using that [of X R] len add by (auto simp: buffer_ok_def)
qed

lemma CBB_add_space_ok:
  assumes "CBB_add_space ralloc d n s = (Some out, s')" "repr s fs"
  obtains X R where "d < length fs" "out = length (layout (flush_frames d fs))" "length X = unat n"
    "buf (base s') = layout (flush_frames d fs) @ X @ R" "error (base s') = False"
    "\<And>v b. length v = unat n \<Longrightarrow> b = (base s')\<lparr>buf := layout (flush_frames d fs) @ v @ R\<rparr>
       \<Longrightarrow> repr (s'\<lparr>base := b\<rparr>) (append_frames d v fs)"
proof -
  obtain s1 b where f: "CBB_flush ralloc d s = (True, s1)" and add: "cbb_buffer_add ralloc (base s1) n = (True, b)"
    and s': "s' = s1\<lparr>base := b\<rparr>" and out: "out = unat (len (base s1))"
    using assms(1) by (auto simp: CBB_add_space_def Let_def split: prod.splits if_splits)
  have r1: "repr s1 (flush_frames d fs)" and d: "d < length fs"
    using CBB_flush_ok [OF f assms(2)] by auto
  have ok: "buffer_ok (base s1)" "take (unat (len (base s1))) (buf (base s1)) = layout (flush_frames d fs)"
    "\<not> error (base s1)"
    using r1 by (simp_all add: repr_def)
  obtain X R where X: "buf b = layout (flush_frames d fs) @ X @ R"
    "length (layout (flush_frames d fs)) = unat (len (base s1))" "length X = unat n"
    "unat (len b) = length (layout (flush_frames d fs)) + unat n"
    "length (layout (flush_frames d fs)) + unat n + length R = unat (cap b)"
    "error b = error (base s1)"
    using cbb_buffer_add_split [OF add ok(1,2)] by metis
  define k w where "k = fst (fs ! d)" and "w = close (snd (fs ! d)) (drop (Suc d) fs)"
  have ff: "flush_frames d fs = take d fs @ [(k, w)]"
    by (simp add: flush_frames_def k_def w_def)
  have af: "append_frames d v fs = take d fs @ [(k, w @ v)]" for v
    by (simp add: append_frames_def k_def w_def)
  show thesis
  proof (rule that [of X R])
    fix v b'
    assume v: "length v = unat n" and b': "b' = (base s')\<lparr>buf := layout (flush_frames d fs) @ v @ R\<rparr>"
    have "repr (s1\<lparr>base := b'\<rparr>) (append_frames d v fs)"
      unfolding af by (rule repr_extend [of _ _ _ _ _ _ R]) (use r1 X v in \<open>simp_all add: ff [symmetric] b' s'\<close>)
    then show "repr (s'\<lparr>base := b'\<rparr>) (append_frames d v fs)"
      by (simp add: s')
  qed (use X d ok(3) out s' in simp_all)
qed

lemma writes_bytes:
  assumes "length data < 2 ^ 64"
  shows "writes (CBB_add_bytes ralloc d data) d data"
proof (rule writesI)
  fix s fs s'
  assume r: "repr s fs" and "CBB_add_bytes ralloc d data s = (True, s')"
  then obtain out s1 where sp: "CBB_add_space ralloc d (word_of_nat (length data)) s = (Some out, s1)"
    and s': "s' = cbb_write_at out data s1"
    by (auto simp: CBB_add_bytes_def split: prod.splits option.splits)
  have n: "unat (word_of_nat (length data) :: u64) = length data"
    using assms by (intro unat_word_of_nat) simp
  show "d < length fs \<and> repr s' (append_frames d data fs)"
  proof (rule CBB_add_space_ok [OF sp r], goal_cases)
    case (1 X R)
    then show ?thesis
      using n by (simp add: s' cbb_write_at_def)
  qed
qed

lemma writes_u:
  assumes "unat n = k"
  shows "writes (cbb_add_u ralloc d v n) d (be_bytes k (unat v))"
proof (rule writesI)
  fix s fs s'
  assume r: "repr s fs" and a: "cbb_add_u ralloc d v n s = (True, s')"
  then obtain out s1 where sp: "CBB_add_space ralloc d n s = (Some out, s1)"
    by (auto simp: cbb_add_u_def split: prod.splits option.splits)
  show "d < length fs \<and> repr s' (append_frames d (be_bytes k (unat v)) fs)"
  proof (rule CBB_add_space_ok [OF sp r], goal_cases)
    case (1 X R)
    have "write_be_loop (unat n) out v (buf (base s1)) =
        (layout (flush_frames d fs) @ be_bytes (unat n) (unat v) @ R, drop_bit (8 * unat n) v)"
      unfolding 1(4) by (rule write_be_loop_eq) (simp_all add: 1)
    then have "s' = s1\<lparr>base := (base s1)\<lparr>buf := layout (flush_frames d fs) @ be_bytes k (unat v) @ R\<rparr>\<rparr>"
      using a by (auto simp: cbb_add_u_def sp Let_def assms split: if_splits)
    then show ?thesis
      using 1 assms by simp
  qed
qed

end

end
