(* ===== verification/CbbDer.thy ===== *)
theory CbbDer
  imports CbbSpec
begin

text \<open>
  The ASN.1 writers of \<open>cbb.cc\<close> write the DER encodings of the reference definition, so that the
  readers of \<open>cbs.cc\<close> return what was written.
\<close>

subsection \<open>Children\<close>

lemma repr_snoc_child:
  assumes "repr s gs" "kind_ok (n, a)"
    and "buf b = layout gs @ replicate n 0 @ R" "unat (len b) = length (layout gs) + n"
    and "length (layout gs) + n + length R = unat (cap b)" "error b = error (base s)"
    and "c = \<lparr>offset = word_of_nat (length (layout gs)), pending_len_len = word_of_nat n, pending_is_asn1 = a\<rparr>"
  shows "repr (s\<lparr>base := b, children := children s @ [c]\<rparr>) (gs @ [((n, a), [])])"
proof -
  have "buffer_ok b \<and> take (unat (len b)) (buf b) = layout gs @ replicate n 0"
    by (rule buffer_okI) (use assms in simp_all)
  moreover have "gs \<noteq> []" "chain 0 gs \<noteq> []"
    using assms(1) length_chain [of 0 gs] by (auto simp: repr_def simp del: length_chain)
  ultimately show ?thesis
    using assms(1,2,6,7) by (auto simp: repr_def layout_append chain_append)
qed

context heap_realloc
begin

lemma opens_child:
  assumes "writes f d v" "kind_ok (unat n, a)"
  shows "opens (\<lambda>s. cbb_and (f s) (cbb_add_child ralloc d n a)) d (unat n, a) v"
proof (rule opensI)
  fix s fs s'
  assume r: "repr s fs" and "cbb_and (f s) (cbb_add_child ralloc d n a) = (True, s')"
  then obtain s1 where s1: "f s = (True, s1)" and ch: "cbb_add_child ralloc d n a s1 = (True, s')"
    by (auto simp: cbb_and_True_iff)
  define gs where "gs = append_frames d v fs"
  have d: "d < length fs" and r1: "repr s1 gs"
    using writesD [OF assms(1) r s1] by (auto simp: gs_def)
  then have ok: "buffer_ok (base s1)" "take (unat (len (base s1))) (buf (base s1)) = layout gs"
    by (simp_all add: repr_def)
  obtain b where add: "cbb_buffer_add ralloc (base s1) (ucast n) = (True, b)"
    and s': "s' = s1\<lparr>base := b\<lparr>buf := take (unat (len (base s1))) (buf b) @ replicate (unat n) 0
                                       @ drop (unat (len (base s1)) + unat n) (buf b)\<rparr>,
                     children := children s1 @
                         [\<lparr>offset = len (base s1), pending_len_len = n, pending_is_asn1 = a\<rparr>]\<rparr>"
    using ch by (auto simp: cbb_add_child_def Let_def split: prod.splits if_splits)
  have n: "unat (ucast n :: u64) = unat n"
    by (simp add: unat_ucast_widen)
  obtain X R where X: "buf b = layout gs @ X @ R" "length (layout gs) = unat (len (base s1))" "length X = unat n"
    "unat (len b) = length (layout gs) + unat n" "length (layout gs) + unat n + length R = unat (cap b)"
    "error b = error (base s1)"
    using cbb_buffer_add_split [OF add ok] by (metis n)
  have w: "word_of_nat (unat (len (base s1))) = len (base s1)" "word_of_nat (unat n) = n"
    by simp_all
  have "repr s' (gs @ [((unat n, a), [])])"
    unfolding s' by (rule repr_snoc_child [OF r1 assms(2), of _ R]) (use X w in simp_all)
  then show "d < length fs \<and> repr s' (append_frames d v fs @ [((unat n, a), [])])"
    using d by (simp add: gs_def)
qed

lemma opens_length_prefixed:
  "kind_ok (unat n, False) \<Longrightarrow> opens (cbb_add_length_prefixed ralloc d n) d (unat n, False) []"
  using opens_child [OF writes_flush, of n False d] by (simp add: cbb_add_length_prefixed_def [abs_def])

lemma writes_u8: "writes (CBB_add_u8 ralloc d v) d [v]"
proof -
  have "writes (cbb_add_u ralloc d (ucast v) 1) d (be_bytes 1 (unat (ucast v :: u64)))"
    by (rule writes_u) simp
  then show ?thesis
    by (simp add: CBB_add_u8_def [abs_def] unat_ucast_widen)
qed

end

subsection \<open>Base-128 integers\<close>

lemma base128_byte_eq:
  "base128_byte v i = word_of_nat ((if i \<noteq> 0 then 128 else 0) + unat v div 128 ^ i mod 128)"
proof -
  define x where "x = unat v div 128 ^ i mod 128"
  have "x < 128" by (simp add: x_def)
  have "drop_bit (7 * i) v AND 0x7f = take_bit 7 (drop_bit (7 * i) v)"
    by (simp add: take_bit_eq_mask mask_eq_exp_minus_1)
  then have "unat (drop_bit (7 * i) v AND 0x7f) = unat (drop_bit (7 * i) v) mod 128"
    by (simp only: unsigned_take_bit_eq) (simp add: take_bit_eq_mod)
  moreover have "unat (drop_bit (7 * i) v) = unat v div 128 ^ i"
    by (simp add: unat_drop_bit power_mult)
  ultimately have u: "unat (drop_bit (7 * i) v AND 0x7f) = x"
    by (simp add: x_def)
  define byte where "byte = (ucast (drop_bit (7 * i) v AND 0x7f) :: u8)"
  have byte: "unat byte = x"
    using \<open>x < 128\<close> by (simp add: byte_def unat_ucast_mod u)
  have "unat (push_bit 7 1 OR byte) = unat (1 :: u8) * 2 ^ 7 + unat byte"
    by (rule push_bit_or_small) (use \<open>x < 128\<close> byte in simp_all)
  then have "unat (byte OR 0x80) = 128 + x"
    by (simp add: byte or.commute)
  then have "byte OR 0x80 = word_of_nat (128 + x)" "byte = word_of_nat x"
    using byte \<open>x < 128\<close> by (simp_all only: word_unat_eq_iff) (simp_all add: unat_word_of_nat del: of_nat_add)
  then show ?thesis
    by (simp add: base128_byte_def byte_def [symmetric] Let_def x_def [symmetric] del: of_nat_add)
qed

lemma b128_bytes:
  "b128 (unat v) = map (\<lambda>i. word_of_nat (128 + unat v div 128 ^ i mod 128)) (rev [0..<base128_len v])"
proof (induction v rule: base128_len.induct)
  case (1 v)
  show ?case
  proof (cases "0 < v")
    case False
    then show ?thesis
      by (simp add: base128_len.simps word_less_nat_alt)
  next
    case True
    define u where "u = drop_bit 7 v"
    have u: "unat u = unat v div 128"
      by (simp add: u_def unat_drop_bit)
    have len: "base128_len v = Suc (base128_len u)"
      using True by (simp add: base128_len.simps [of v] u_def)
    have "unat v \<noteq> 0"
      using True by (simp add: word_less_nat_alt)
    then have "b128 (unat v) = b128 (unat u) @ [word_of_nat (128 + unat v mod 128)]"
      by (subst b128.simps) (simp add: u)
    also have "b128 (unat u) = map (\<lambda>i. word_of_nat (128 + unat u div 128 ^ i mod 128)) (rev [0..<base128_len u])"
      using "1.IH" [OF True] by (simp add: u_def)
    also have "\<dots> = map (\<lambda>i. word_of_nat (128 + unat v div 128 ^ i mod 128)) (map Suc (rev [0..<base128_len u]))"
      by (simp add: u div_mult2_eq)
    also have "map Suc (rev [0..<base128_len u]) = rev [Suc 0..<Suc (base128_len u)]"
      by (simp only: rev_map [symmetric] map_Suc_upt)
    finally show ?thesis
      by (simp add: len upt_conv_Cons del: upt_Suc)
  qed
qed

lemma base128_bytes:
  "base128 (unat v) = map (base128_byte v) (rev [0..<(if base128_len v = 0 then 1 else base128_len v)])"
proof (cases "0 < v")
  case False
  then have "v = 0" by (simp add: word_gt_0)
  then show ?thesis
    by (simp add: base128_len.simps base128_byte_eq base128_def)
next
  case True
  define u where "u = drop_bit 7 v"
  have u: "unat u = unat v div 128"
    by (simp add: u_def unat_drop_bit)
  have len: "base128_len v = Suc (base128_len u)"
    using True by (simp add: base128_len.simps [of v] u_def)
  have "base128 (unat v) = b128 (unat u) @ [base128_byte v 0]"
    by (simp add: base128_def u base128_byte_eq)
  also have "b128 (unat u) = map (base128_byte v) (map Suc (rev [0..<base128_len u]))"
    unfolding b128_bytes by (simp add: u div_mult2_eq base128_byte_eq)
  also have "map Suc (rev [0..<base128_len u]) = rev [Suc 0..<Suc (base128_len u)]"
    by (simp only: rev_map [symmetric] map_Suc_upt)
  finally show ?thesis
    by (simp add: len upt_conv_Cons del: upt_Suc)
qed

context heap_realloc
begin

lemma writes_base128_loop:
  assumes "n \<noteq> 0"
  shows "writes (add_base128_loop ralloc d v n) d (map (base128_byte v) (rev [0..<n]))"
  using assms
proof (induction n)
  case (Suc n)
  show ?case
  proof (cases "n = 0")
    case True
    have "add_base128_loop ralloc d v (Suc n) = CBB_add_u8 ralloc d (base128_byte v 0)"
      by (rule ext) (auto simp: True cbb_and_def prod_eq_iff)
    then show ?thesis
      using writes_u8 [of d "base128_byte v 0"] by (simp add: True)
  next
    case False
    then show ?thesis
      using writes_and [OF writes_u8 [of d "base128_byte v n"] Suc.IH [OF False]] by simp
  qed
qed simp

lemma writes_base128: "writes (add_base128_integer ralloc d v) d (base128 (unat v))"
  unfolding add_base128_integer_def [abs_def] Let_def base128_bytes by (rule writes_base128_loop) simp

end

subsection \<open>Identifier octets\<close>

lemma unat_tag_number: "unat (t AND CBS_ASN1_TAG_NUMBER_MASK) = tag_number t"
proof -
  have "CBS_ASN1_TAG_NUMBER_MASK = Bit_Operations.mask 29"
    by (simp add: CBS_ASN1_TAG_NUMBER_MASK_def CBS_ASN1_TAG_SHIFT_def mask_eq_exp_minus_1)
  then have "t AND CBS_ASN1_TAG_NUMBER_MASK = take_bit 29 t"
    by (simp only: take_bit_eq_mask)
  then have "unat (t AND CBS_ASN1_TAG_NUMBER_MASK) = take_bit 29 (unat t)"
    by (simp only: unsigned_take_bit_eq)
  then show ?thesis
    by (simp add: take_bit_eq_mod tag_number_def)
qed

lemma unat_push_bit_small:
  fixes v :: "'a::len word"
  assumes "unat v * 2 ^ n < 2 ^ LENGTH('a)"
  shows "unat (push_bit n v) = unat v * 2 ^ n"
  using push_bit_or_small [of "0 :: 'a word" n v] assms by simp

lemma tag_bits_eq: "(ucast (drop_bit CBS_ASN1_TAG_SHIFT t AND 0xe0) :: u8) = push_bit 5 (word_of_nat (tag_class t))"
proof -
  define b where "b = (ucast (drop_bit 24 t) :: u8)"
  have "unat (drop_bit 24 t) < 256"
    using unat_less [of t] by (simp only: unat_drop_bit) (simp add: less_mult_imp_div_less)
  then have b: "unat b = unat (drop_bit 24 t)"
    by (simp only: b_def unat_ucast_mod) simp
  have "drop_bit 24 t = ucast b"
    by (simp only: word_unat_eq_iff unat_ucast_widen b) (simp add: unat_ucast_widen b)
  then have "ucast (drop_bit CBS_ASN1_TAG_SHIFT t AND 0xe0) = (ucast (push_bit 5 (ucast (drop_bit 5 b) :: u32)) :: u8)"
    by (simp only: CBS_ASN1_TAG_SHIFT_def and_0xe0)
  moreover have "unat (ucast (push_bit 5 (ucast (drop_bit 5 b) :: u32)) :: u8) = unat b div 32 * 32"
  proof -
    have d: "unat (ucast (drop_bit 5 b) :: u32) = unat b div 32"
    proof -
      have "unat b div 32 < 2 ^ LENGTH(32)"
        by (rule le_less_trans [OF div_le_dividend less_trans [OF unat_lt_256]]) simp
      then show ?thesis
        by (simp only: unat_ucast_mod unat_drop_bit) simp
    qed
    have lt: "unat b div 32 * 32 < 256"
      using div_times_less_eq_dividend [of "unat b" 32] unat_lt_256 [of b] by linarith
    have "unat (push_bit 5 (ucast (drop_bit 5 b) :: u32)) = unat b div 32 * 32"
      using unat_push_bit_small [of "ucast (drop_bit 5 b) :: u32" 5] lt by (simp only: d) simp
    then show ?thesis
      using lt by (simp only: unat_ucast_mod) simp
  qed
  moreover have "tag_class t = unat b div 32"
    by (simp only: b unat_drop_bit tag_class_def div_mult2_eq [symmetric]) simp
  moreover have "unat (push_bit 5 (word_of_nat (tag_class t)) :: u8) = tag_class t * 32"
  proof -
    have "unat (word_of_nat (tag_class t) :: u8) = tag_class t"
      using tag_class_less [of t] by (intro unat_word_of_nat) simp
    then show ?thesis
      using unat_push_bit_small [of "word_of_nat (tag_class t) :: u8" 5] tag_class_less [of t] by simp
  qed
  ultimately show ?thesis
    by (simp only: word_unat_eq_iff)
qed

lemma tag_bits_or:
  assumes "m < 32"
  shows "push_bit 5 (word_of_nat (tag_class t)) OR word_of_nat m = (word_of_nat (32 * tag_class t + m) :: u8)"
proof -
  have c: "unat (word_of_nat (tag_class t) :: u8) = tag_class t"
    using tag_class_less [of t] by (intro unat_word_of_nat) simp
  have m: "unat (word_of_nat m :: u8) = m"
    using assms by (intro unat_word_of_nat) simp
  have "unat (push_bit 5 (word_of_nat (tag_class t)) OR word_of_nat m :: u8) = tag_class t * 2 ^ 5 + m"
    using push_bit_or_small [of "word_of_nat m :: u8" 5 "word_of_nat (tag_class t)"] assms tag_class_less [of t]
    by (simp only: c m) simp
  moreover have "unat (word_of_nat (32 * tag_class t + m) :: u8) = 32 * tag_class t + m"
    using assms tag_class_less [of t] by (intro unat_word_of_nat) simp
  ultimately show ?thesis
    by (simp only: word_unat_eq_iff) simp
qed

lemma tag_low_byte:
  assumes "tag_number t < 31"
  shows "ucast (ucast (ucast (drop_bit CBS_ASN1_TAG_SHIFT t AND 0xe0) :: u8) OR (t AND CBS_ASN1_TAG_NUMBER_MASK))
           = (word_of_nat (32 * tag_class t + tag_number t) :: u8)"
proof -
  have w: "ucast (t AND CBS_ASN1_TAG_NUMBER_MASK) = (word_of_nat (tag_number t) :: u8)"
    by (simp flip: unat_tag_number)
  have "ucast (ucast x OR y) = x OR (ucast y :: u8)" for x :: u8 and y :: u32
    by (rule bit_word_eqI) (auto simp: bit_ucast_iff bit_or_iff)
  then have "ucast (ucast (ucast (drop_bit CBS_ASN1_TAG_SHIFT t AND 0xe0) :: u8) OR (t AND CBS_ASN1_TAG_NUMBER_MASK))
           = push_bit 5 (word_of_nat (tag_class t)) OR (word_of_nat (tag_number t) :: u8)"
    by (simp only: tag_bits_eq w)
  then show ?thesis
    using assms by (simp only: tag_bits_or)
qed

lemma tag_high_byte:
  "(ucast (drop_bit CBS_ASN1_TAG_SHIFT t AND 0xe0) :: u8) OR 0x1f = word_of_nat (32 * tag_class t + 31)"
  using tag_bits_or [of 31 t] by (simp only: tag_bits_eq) simp

context heap_realloc
begin

lemma opens_asn1: "opens (CBB_add_asn1 ralloc d t) d (1, True) (der_tag t)"
proof -
  define n where "n = t AND CBS_ASN1_TAG_NUMBER_MASK"
  define hdr where "hdr = (\<lambda>s. if n \<ge> 0x1f
        then cbb_and (CBB_add_u8 ralloc d (ucast (drop_bit CBS_ASN1_TAG_SHIFT t AND 0xe0) OR 0x1f) s)
               (add_base128_integer ralloc d (ucast n))
        else CBB_add_u8 ralloc d (ucast (ucast (ucast (drop_bit CBS_ASN1_TAG_SHIFT t AND 0xe0) :: u8) OR n)) s)"
  have n: "n \<ge> 0x1f \<longleftrightarrow> \<not> tag_number t < 31" "unat (ucast n :: u64) = tag_number t"
    by (simp_all add: word_le_nat_alt n_def unat_tag_number unat_ucast_widen not_less)
  have "writes hdr d (der_tag t)"
  proof (cases "tag_number t < 31")
    case True
    then have "hdr = CBB_add_u8 ralloc d (word_of_nat (32 * tag_class t + tag_number t))"
      using tag_low_byte [OF True] by (simp only: hdr_def n(1) n_def [symmetric]) simp
    then show ?thesis
      using writes_u8 True by (simp add: der_tag_def)
  next
    case False
    then have "hdr = (\<lambda>s. cbb_and (CBB_add_u8 ralloc d (word_of_nat (32 * tag_class t + 31)) s)
               (add_base128_integer ralloc d (ucast n)))"
      unfolding hdr_def n(1) by (simp only: tag_high_byte if_True simp_thms)
    then show ?thesis
      using writes_and [OF writes_u8 writes_base128, of d "word_of_nat (32 * tag_class t + 31)" "ucast n"] False
      by (simp add: der_tag_def n(2))
  qed
  then have "opens (\<lambda>s. cbb_and (hdr s) (cbb_add_child ralloc d 1 True)) d (1, True) (der_tag t)"
    using opens_child [of hdr d "der_tag t" 1 True] by (simp add: kind_ok_def)
  then have "opens (\<lambda>s. cbb_and (CBB_flush ralloc d s) (\<lambda>s. cbb_and (hdr s) (cbb_add_child ralloc d 1 True)))
      d (1, True) (der_tag t)"
    using writes_opens [OF writes_flush] by fastforce
  then show ?thesis
    unfolding CBB_add_asn1_def [abs_def] Let_def hdr_def n_def .
qed

end

subsection \<open>Elements\<close>

text \<open>The contents octets of an unsigned integer: no leading zeros, padded when the top bit is set.\<close>

definition pad_unsigned :: "bytes \<Rightarrow> bytes" where
  "pad_unsigned bs = (if bs \<noteq> [] \<and> hd bs AND 0x80 \<noteq> 0 then 0 # bs else bs)"

definition uint_contents :: "bytes \<Rightarrow> bytes" where
  "uint_contents bs = (let r = dropWhile (\<lambda>b. b = 0) bs in if r = [] then [0] else pad_unsigned r)"

lemma enc_der_element: "der_tag t @ enc (1, True) w = der_element t w" "der_tag t @ enc (Suc 0, True) w = der_element t w"
  by (simp_all add: enc_def der_element_def)

context heap_realloc
begin

lemma writes_octet_string:
  assumes "length data < 2 ^ 64"
  shows "writes (CBB_add_asn1_octet_string ralloc d data) d (der_element CBS_ASN1_OCTETSTRING data)"
  using writes_guard [OF writes_element [OF opens_asn1 writes_imp_in [OF writes_bytes [OF assms]]],
      of d d CBS_ASN1_OCTETSTRING]
  by (simp add: CBB_add_asn1_octet_string_def [abs_def] enc_der_element)

lemma writes_bool:
  "writes (CBB_add_asn1_bool ralloc d v) d (der_element CBS_ASN1_BOOLEAN [if v then 0xff else 0])"
  using writes_guard [OF writes_element [OF opens_asn1 writes_imp_in [OF writes_u8]],
      of d d CBS_ASN1_BOOLEAN "if v then 0xff else 0"]
  by (simp add: CBB_add_asn1_bool_def [abs_def] enc_der_element)

lemma uint64_loop_started:
  "add_asn1_uint64_loop ralloc d bs True s = (True, st, s') \<Longrightarrow> repr s fs \<Longrightarrow> Suc d = length fs
     \<Longrightarrow> st \<and> repr s' (append_frames d bs fs)"
proof (induction bs arbitrary: s fs)
  case Nil
  then show ?case by (simp add: append_frames_innermost)
next
  case (Cons b bs)
  then obtain s1 where s1: "CBB_add_u8 ralloc d b s = (True, s1)"
    and loop: "add_asn1_uint64_loop ralloc d bs True s1 = (True, st, s')"
    by (auto split: prod.splits if_splits)
  have d: "d < length fs" and r: "repr s1 (append_frames d [b] fs)"
    using writesD [OF writes_u8 Cons.prems(2) s1] by auto
  show ?case
    using Cons.IH [OF loop r] d by simp
qed

lemma uint64_loop:
  "add_asn1_uint64_loop ralloc d bs False s = (True, st, s') \<Longrightarrow> repr s fs \<Longrightarrow> Suc d = length fs
     \<Longrightarrow> st = (dropWhile (\<lambda>b. b = 0) bs \<noteq> []) \<and>
         repr s' (append_frames d (pad_unsigned (dropWhile (\<lambda>b. b = 0) bs)) fs)"
proof (induction bs arbitrary: s fs)
  case Nil
  then show ?case by (simp add: append_frames_innermost pad_unsigned_def)
next
  case (Cons b bs)
  show ?case
  proof (cases "b = 0")
    case True
    then show ?thesis using Cons by simp
  next
    case False
    define w where "w = (if b AND 0x80 \<noteq> 0 then [0, b] else [b])"
    obtain s1 where r: "repr s1 (append_frames d w fs)"
      and loop: "add_asn1_uint64_loop ralloc d bs True s1 = (True, st, s')"
    proof (cases "b AND 0x80 \<noteq> 0")
      case True
      obtain s0 s1 where s0: "CBB_add_u8 ralloc d 0 s = (True, s0)" and s1: "CBB_add_u8 ralloc d b s0 = (True, s1)"
        and loop: "add_asn1_uint64_loop ralloc d bs True s1 = (True, st, s')"
        using Cons.prems(1) True False by (auto split: prod.splits if_splits)
      have "repr s1 (append_frames d ([0] @ [b]) fs)"
        using writesD [OF writes_u8 Cons.prems(2) s0] writesD [OF writes_u8 _ s1] by fastforce
      then show thesis
        using that loop True by (simp add: w_def)
    next
      case high: False
      obtain s1 where s1: "CBB_add_u8 ralloc d b s = (True, s1)"
        and loop: "add_asn1_uint64_loop ralloc d bs True s1 = (True, st, s')"
        using Cons.prems(1) high False by (auto split: prod.splits if_splits)
      then show thesis
        using that [OF _ loop] writesD [OF writes_u8 Cons.prems(2) s1] high by (simp add: w_def)
    qed
    have "st \<and> repr s' (append_frames d (w @ bs) fs)"
      using uint64_loop_started [OF loop r] Cons.prems(3) by simp
    then show ?thesis
      using False by (simp add: w_def pad_unsigned_def split: if_splits)
  qed
qed

lemma writes_uint64_with_tag:
  "writes (CBB_add_asn1_uint64_with_tag ralloc d v t) d (der_element t (uint_contents (uint64_bytes v)))"
proof -
  define g where "g = (\<lambda>s. let (ok, started, s) = add_asn1_uint64_loop ralloc (d + 1) (uint64_bytes v) False s
            in if \<not> ok then (False, s) else if \<not> started then CBB_add_u8 ralloc (d + 1) 0 s else (True, s))"
  have "writes_in g (Suc d) (uint_contents (uint64_bytes v))"
  proof (rule writes_inI)
    fix s fs s'
    assume r: "repr s fs" and d: "Suc (Suc d) = length fs" and g: "g s = (True, s')"
    obtain st s1 where loop: "add_asn1_uint64_loop ralloc (Suc d) (uint64_bytes v) False s = (True, st, s1)"
      and fin: "(if \<not> st then CBB_add_u8 ralloc (Suc d) 0 s1 else (True, s1)) = (True, s')"
      using g by (auto simp: g_def split: prod.splits if_splits)
    note l = uint64_loop [OF loop r d]
    show "repr s' (append_frames (Suc d) (uint_contents (uint64_bytes v)) fs)"
    proof (cases st)
      case True
      then show ?thesis using l fin by (auto simp: uint_contents_def)
    next
      case False
      then have e: "dropWhile (\<lambda>b. b = 0) (uint64_bytes v) = []"
        using l by blast
      then have "repr s1 fs"
        using l d unfolding e by (simp add: pad_unsigned_def append_frames_innermost)
      then show ?thesis
        using writesD [OF writes_u8] fin False l by (simp add: uint_contents_def)
    qed
  qed
  then have "writes (\<lambda>s. cbb_and (cbb_and (CBB_add_asn1 ralloc d t s) g) (CBB_flush ralloc d)) d
      (der_element t (uint_contents (uint64_bytes v)))"
    using writes_element [OF opens_asn1] by (simp flip: enc_der_element)
  moreover have "CBB_add_asn1_uint64_with_tag ralloc d v t s = (True, s') \<longleftrightarrow>
      cbb_and (cbb_and (CBB_add_asn1 ralloc d t s) g) (CBB_flush ralloc d) = (True, s')" for s s'
    by (simp add: CBB_add_asn1_uint64_with_tag_def g_def cbb_and_True_iff cbb_guard_True_iff)
  ultimately show ?thesis
    by (simp add: writes_def)
qed

end

lemma be_bytes_conv_map: "be_bytes n v = map (\<lambda>i. word_of_nat (v div 256 ^ i)) (rev [0..<n])"
proof (induction n arbitrary: v)
  case (Suc n)
  have "rev [0..<Suc n] = map Suc (rev [0..<n]) @ [0]"
    by (simp add: rev_map [symmetric] map_Suc_upt upt_conv_Cons del: upt_Suc)
  then show ?case
    by (simp add: Suc div_mult2_eq del: upt_Suc)
qed simp

lemma uint64_bytes_eq: "uint64_bytes v = be_bytes 8 (unat v)"
proof -
  have byte: "ucast (drop_bit (8 * i) v AND 0xff) = (word_of_nat (unat v div 256 ^ i) :: u8)" for i
  proof -
    have "(ucast (drop_bit (8 * i) v AND 0xff) :: u8) = ucast (drop_bit (8 * i) v)"
    proof (rule bit_word_eqI)
      fix m assume "m < LENGTH(8)"
      then have "m = 0 \<or> m = 1 \<or> m = 2 \<or> m = 3 \<or> m = 4 \<or> m = 5 \<or> m = 6 \<or> m = 7"
        by auto
      then have "bit (0xff :: u64) m"
        by (elim disjE) simp_all
      then show "bit (ucast (drop_bit (8 * i) v AND 0xff) :: u8) m = bit (ucast (drop_bit (8 * i) v) :: u8) m"
        by (simp add: bit_ucast_iff bit_and_iff del: bit_numeral_word_iff)
    qed
    also have "\<dots> = word_of_nat (unat (drop_bit (8 * i) v))"
      by simp
    finally show ?thesis
      by (simp only: unat_drop_bit power_256 [symmetric])
  qed
  have rev8: "map (\<lambda>i. 7 - i) [0..<8] = rev [0..<8 :: nat]"
    by (rule nth_equalityI) (simp_all add: rev_nth)
  have "uint64_bytes v = map (\<lambda>i. word_of_nat (unat v div 256 ^ i)) (map (\<lambda>i. 7 - i) [0..<8])"
    by (simp only: uint64_bytes_def byte map_map o_def)
  then show ?thesis
    by (simp only: rev8 be_bytes_conv_map)
qed

lemma be_val_dropWhile_0: "be_val (dropWhile (\<lambda>b. b = 0) bs) = be_val bs"
  by (induction bs) (simp_all add: be_val_Cons)

lemma uint_contents_val: "tc_minimal (uint_contents bs) \<and> tc_val (uint_contents bs) = int (be_val bs)"
proof (cases "dropWhile (\<lambda>b. b = 0) bs")
  case Nil
  then have "be_val bs = 0"
    using be_val_dropWhile_0 [of bs] by (simp only: Nil be_val_Nil)
  then show ?thesis
    using Nil by (auto simp: uint_contents_def tc_minimal_def tc_val_def be_val_Cons)
next
  case (Cons b r)
  then have "b \<noteq> 0"
    using hd_dropWhile [of "\<lambda>b. b = 0" bs] by auto
  then have nz: "unat b \<noteq> 0"
    by (simp add: unat_eq_0)
  have val: "be_val bs = be_val (b # r)"
    using be_val_dropWhile_0 [of bs] Cons by simp
  show ?thesis
  proof (cases "b AND 0x80 \<noteq> 0")
    case True
    then have "uint_contents bs = 0 # b # r" "128 \<le> unat b"
      using Cons by (auto simp: uint_contents_def pad_unsigned_def and_0x80 Let_def)
    then show ?thesis
      using tc_val_tl_iff [of b r 0] by (simp add: tc_minimal_def tc_val_def be_val_Cons val)
  next
    case False
    then have u: "uint_contents bs = b # r" "unat b < 128"
      using Cons by (auto simp: uint_contents_def pad_unsigned_def and_0x80 Let_def)
    then have "tc_minimal (b # r)"
      using nz by (cases r) (auto simp: tc_minimal_def tc_val_tl_iff)
    then show ?thesis
      using u by (simp add: tc_val_def val)
  qed
qed

lemma uint64_contents:
  "tc_minimal (uint_contents (uint64_bytes v))" "tc_val (uint_contents (uint64_bytes v)) = uint v"
proof -
  have "be_val (uint64_bytes v) = unat v"
    unfolding uint64_bytes_eq using unat_less [of v] by (intro be_val_be_bytes_id) simp
  then show "tc_minimal (uint_contents (uint64_bytes v))" "tc_val (uint_contents (uint64_bytes v)) = uint v"
    using uint_contents_val [of "uint64_bytes v"] by simp_all
qed

text \<open>The contents octets of a negative integer: \<open>int64_start\<close> drops the redundant sign bytes.\<close>

lemma rev_take_Suc: "n < length bs \<Longrightarrow> rev (take (Suc n) bs) = bs ! n # rev (take n bs)"
  by (simp add: take_Suc_conv_app_nth)

lemma int64_start_ok:
  "n < length bs \<Longrightarrow> 128 \<le> unat (bs ! n) \<Longrightarrow>
     int64_start bs n \<le> n \<and> tc_minimal (rev (take (Suc (int64_start bs n)) bs)) \<and>
     tc_val (rev (take (Suc (int64_start bs n)) bs)) = tc_val (rev (take (Suc n) bs))"
proof (induction n)
  case 0
  then show ?case by (simp add: rev_take_Suc tc_minimal_def)
next
  case (Suc n)
  have two: "rev (take (Suc (Suc n)) bs) = bs ! Suc n # bs ! n # rev (take n bs)"
    using Suc.prems(1) by (simp add: rev_take_Suc)
  show ?case
  proof (cases "bs ! Suc n = 0xff \<and> bs ! n AND 0x80 \<noteq> 0")
    case True
    then have hi: "128 \<le> unat (bs ! n)"
      by (simp add: and_0x80)
    then have "tc_val (rev (take (Suc n) bs)) = tc_val (rev (take (Suc (Suc n)) bs))"
      using True Suc.prems(1) by (simp only: two rev_take_Suc Suc_lessD tc_val_tl_iff) simp
    then show ?thesis
      using Suc.IH [OF _ hi] True Suc.prems(1) by simp
  next
    case False
    have "\<not> (unat (bs ! Suc n) = 0 \<and> unat (bs ! n) < 128 \<or> unat (bs ! Suc n) = 255 \<and> 128 \<le> unat (bs ! n))"
    proof -
      have "bs ! Suc n = 0xff \<longleftrightarrow> unat (bs ! Suc n) = 255"
        by (simp add: word_unat_eq_iff)
      then show ?thesis
        using False Suc.prems(2) by (auto simp: and_0x80)
    qed
    then have "tc_minimal (rev (take (Suc (Suc n)) bs))"
      by (simp only: two tc_minimal_def list.sel tc_val_tl_iff) simp
    moreover have "int64_start bs (Suc n) = Suc n"
      using False by auto
    ultimately show ?thesis
      by (simp del: int64_start.simps)
  qed
qed

lemma tc_val_be_bytes_sint: "tc_val (be_bytes 8 (unat v)) = sint (v :: u64)"
proof -
  have ne: "be_bytes 8 (unat v) \<noteq> []" and l8: "length (be_bytes 8 (unat v)) \<le> 8"
    using length_be_bytes [of 8 "unat v"] by (auto simp del: length_be_bytes)
  have "be_val (be_bytes 8 (unat v)) = unat v"
    using unat_less [of v] by (intro be_val_be_bytes_id) simp
  moreover have "CRYPTO_load_u64_be (be_bytes 8 (unat v)) = word_of_nat (be_val (take 8 (be_bytes 8 (unat v))))"
    by (rule CRYPTO_load_be) simp
  ultimately have "CRYPTO_load_u64_be (be_bytes 8 (unat v)) = v"
    by simp
  then have "word_of_int (tc_val (be_bytes 8 (unat v))) = v"
    using load_sign_extended [OF ne l8] by simp
  then show ?thesis
    using sint_eq_iff [OF tc_val_int64 [OF ne l8]] by blast
qed

definition int64_contents :: "u64 \<Rightarrow> bytes" where
  "int64_contents v =
     (if sint v \<ge> 0 then uint_contents (uint64_bytes v)
      else rev (take (Suc (int64_start (word_to_mem v) 7)) (word_to_mem v)))"

lemma int64_contents_ok: "tc_minimal (int64_contents v)" "tc_val (int64_contents v) = sint v"
proof -
  have "tc_minimal (int64_contents v) \<and> tc_val (int64_contents v) = sint v"
  proof (cases "sint v \<ge> 0")
    case True
    then have "uint v = sint v"
      using tc_val_be_bytes_sint [of v] tc_val_neg_iff [of "be_bytes 8 (unat v)"] be_val_be_bytes_id [of "unat v" 8]
        unat_less [of v] length_be_bytes [of 8 "unat v"]
      by (auto simp: tc_val_def simp del: length_be_bytes split: if_splits)
    then show ?thesis
      using True uint64_contents [of v] by (simp add: int64_contents_def)
  next
    case False
    define bs where "bs = word_to_mem v"
    have l: "length bs = 8" "rev bs = be_bytes 8 (unat v)"
      by (simp_all add: bs_def word_to_mem_def)
    have full: "rev (take (Suc 7) bs) = be_bytes 8 (unat v)"
      using l by simp
    have "bs \<noteq> []"
      using l(1) by auto
    then have "hd (be_bytes 8 (unat v)) = bs ! 7"
      using l(1) by (simp add: l(2) [symmetric] hd_rev last_conv_nth)
    moreover have "be_bytes 8 (unat v) \<noteq> []"
      using \<open>bs \<noteq> []\<close> by (simp add: l(2) [symmetric])
    ultimately have "128 \<le> unat (bs ! 7)"
      using False tc_val_neg_iff [of "be_bytes 8 (unat v)"] by (simp add: tc_val_be_bytes_sint)
    then show ?thesis
      using int64_start_ok [of 7 bs] l(1) False full
      by (simp add: int64_contents_def bs_def [symmetric] tc_val_be_bytes_sint)
  qed
  then show "tc_minimal (int64_contents v)" "tc_val (int64_contents v) = sint v"
    by blast+
qed

context heap_realloc
begin

lemma writes_int64_loop:
  assumes "n \<noteq> 0" "n \<le> length bs"
  shows "writes (add_asn1_int64_loop ralloc d bs n) d (rev (take n bs))"
  using assms
proof (induction n)
  case (Suc n)
  show ?case
  proof (cases "n = 0")
    case True
    have "add_asn1_int64_loop ralloc d bs (Suc n) = CBB_add_u8 ralloc d (bs ! 0)"
      by (rule ext) (auto simp: True cbb_and_def prod_eq_iff)
    then show ?thesis
      using writes_u8 [of d "bs ! 0"] Suc.prems(2) by (cases bs) (simp_all add: True)
  next
    case False
    then show ?thesis
      using writes_and [OF writes_u8 [of d "bs ! n"] Suc.IH [OF False]] Suc.prems(2) by (simp add: rev_take_Suc)
  qed
qed simp

lemma writes_int64_with_tag:
  "writes (CBB_add_asn1_int64_with_tag ralloc d v t) d (der_element t (int64_contents v))"
proof (cases "sint v \<ge> 0")
  case True
  then show ?thesis
    using writes_uint64_with_tag [of d v t]
    by (simp add: CBB_add_asn1_int64_with_tag_def [abs_def] int64_contents_def)
next
  case False
  define n where "n = int64_start (word_to_mem v) 7"
  have le: "int64_start bs m \<le> m" for bs m
    by (induction m) (simp_all add: le_SucI)
  have "Suc n \<le> length (word_to_mem v)"
    using le [of "word_to_mem v" 7] by (simp add: n_def)
  then have "writes_in (add_asn1_int64_loop ralloc (Suc d) (word_to_mem v) (Suc n)) (Suc d) (int64_contents v)"
    using writes_imp_in [OF writes_int64_loop [of "Suc n" "word_to_mem v" "Suc d"]] False
    by (simp add: int64_contents_def n_def)
  then have w: "writes (\<lambda>s. cbb_and (cbb_and (CBB_add_asn1 ralloc d t s)
      (add_asn1_int64_loop ralloc (Suc d) (word_to_mem v) (Suc n))) (CBB_flush ralloc d)) d
      (der_element t (int64_contents v))"
    using writes_element [OF opens_asn1] by (simp flip: enc_der_element)
  have "CBB_add_asn1_int64_with_tag ralloc d v t s = (True, s') \<longleftrightarrow>
      cbb_and (cbb_and (CBB_add_asn1 ralloc d t s)
        (add_asn1_int64_loop ralloc (Suc d) (word_to_mem v) (Suc n))) (CBB_flush ralloc d) = (True, s')" for s s'
    using False
    by (simp add: CBB_add_asn1_int64_with_tag_def n_def [symmetric] Let_def cbb_and_True_iff cbb_guard_True_iff
        del: add_asn1_int64_loop.simps)
  then show ?thesis
    using w by (simp add: writes_def)
qed

end

subsection \<open>The finished buffer\<close>

lemma repr_init_fixed: "length b = unat n \<Longrightarrow> repr (CBB_init_fixed b n) [((0, False), [])]"
  by (simp add: repr_def CBB_init_fixed_def cbb_init_def buffer_ok_def kind_ok_def)

context libc_malloc
begin

lemma repr_init: "CBB_init malloc n = Some s \<Longrightarrow> repr s [((0, False), [])]"
proof -
  assume "CBB_init malloc n = Some s"
  then obtain b where s: "s = cbb_init b n True" and "length b = unat n"
    using malloc_SomeD [of n] by (auto simp: CBB_init_def word_gt_0 split: option.splits if_splits)
  then show ?thesis
    by (simp add: repr_def cbb_init_def buffer_ok_def kind_ok_def)
qed

end

context heap_realloc
begin

text \<open>Finishing a root builder after a write returns exactly the bytes written.\<close>

lemma finish_bytes:
  assumes "repr s [((0, False), [])]" "writes f 0 v" "f s = (True, s1)"
    and "CBB_finish ralloc 0 has_out s1 = (Some (b, l), s2)"
  shows "take (unat l) b = v"
proof -
  obtain s3 where fl: "CBB_flush ralloc 0 s1 = (True, s3)" and b: "b = buf (base s3)" "l = len (base s3)"
    using assms(4) by (auto simp: CBB_finish_def split: prod.splits if_splits)
  have "repr s1 (append_frames 0 v [((0, False), [])])"
    using writesD [OF assms(2,1,3)] by simp
  then have "repr s3 (append_frames 0 [] (append_frames 0 v [((0, False), [])]))"
    using writesD [OF writes_flush _ fl] by blast
  then show ?thesis
    by (simp add: repr_def b append_frames_def)
qed

end

subsection \<open>The error bit\<close>

text \<open>
  \<open>latches f d\<close>: on an open builder every failure of \<open>f\<close> sets the error bit, every success keeps the
  builder open, and once the error bit is set \<open>f\<close> fails and leaves it set.
\<close>

definition latches :: "(CBB \<Rightarrow> bool \<times> CBB) \<Rightarrow> nat \<Rightarrow> bool" where
  "latches f d \<longleftrightarrow> (\<forall>s. d \<le> length (children s) \<longrightarrow>
     (if fst (f s) then d \<le> length (children (snd (f s))) \<and> \<not> error (base s)
      else error (base (snd (f s)))))"

lemma latchesI:
  fixes f :: "CBB \<Rightarrow> bool \<times> CBB"
  assumes "\<And>s s'. d \<le> length (children s) \<Longrightarrow> f s = (True, s') \<Longrightarrow> d \<le> length (children s') \<and> \<not> error (base s)"
    and "\<And>s s'. d \<le> length (children s) \<Longrightarrow> f s = (False, s') \<Longrightarrow> error (base s')"
  shows "latches f d"
  unfolding latches_def
proof (intro allI impI)
  fix s :: CBB
  assume "d \<le> length (children s)"
  then show "if fst (f s) then d \<le> length (children (snd (f s))) \<and> \<not> error (base s) else error (base (snd (f s)))"
    using assms [of s "snd (f s)"] by (cases "f s"; cases "fst (f s)") auto
qed

lemma latchesD:
  fixes f :: "CBB \<Rightarrow> bool \<times> CBB" and s :: CBB
  assumes "latches f d" "d \<le> length (children s)"
  shows "f s = (True, s') \<Longrightarrow> d \<le> length (children s') \<and> \<not> error (base s)" "f s = (False, s') \<Longrightarrow> error (base s')"
  using assms by (force simp: latches_def)+

lemma cbb_and_False_iff:
  "cbb_and r f = (False, s') \<longleftrightarrow> r = (False, s') \<or> (\<exists>s. r = (True, s) \<and> f s = (False, s'))"
  by (cases r) (auto simp: cbb_and_def)

lemma latches_and: "latches f d \<Longrightarrow> latches g d \<Longrightarrow> latches (\<lambda>s. cbb_and (f s) g) d"
proof (rule latchesI)
  fix s s' :: CBB
  assume f: "latches f d" and g: "latches g d" and d: "d \<le> length (children s)"
  show "cbb_and (f s) g = (True, s') \<Longrightarrow> d \<le> length (children s') \<and> \<not> error (base s)"
    unfolding cbb_and_True_iff using latchesD(1) [OF f d] latchesD(1) [OF g] by blast
  show "cbb_and (f s) g = (False, s') \<Longrightarrow> error (base s')"
    unfolding cbb_and_False_iff using latchesD [OF f d] latchesD(2) [OF g] by blast
qed

lemma error_on_error [simp]: "error (base (cbb_on_error d s))" "children (cbb_on_error d s) = take d (children s)"
  by (simp_all add: cbb_on_error_def)

lemma cbb_flush_child_latches:
  "cbb_flush_child ralloc d c s = (False, s') \<Longrightarrow> error (base s')"
  "cbb_flush_child ralloc d c s = (True, s') \<Longrightarrow> children s' = take d (children s)"
  by (auto simp: cbb_flush_child_def Let_def split: if_splits prod.splits option.splits)

lemma CBB_flush_error: "error (base s) \<Longrightarrow> CBB_flush ralloc d s = (False, s)"
  by (simp add: CBB_flush.simps)

lemma CBB_flush_latches_aux:
  "d \<le> length (children s) \<Longrightarrow>
     (CBB_flush ralloc d s = (True, s') \<longrightarrow> length (children s') = d) \<and>
     (CBB_flush ralloc d s = (False, s') \<longrightarrow> error (base s'))"
proof (induction "length (children s) - d" arbitrary: d s')
  case 0
  then show ?case by (auto simp: CBB_flush.simps [of ralloc d s])
next
  case (Suc k)
  obtain ok s1 where s1: "CBB_flush ralloc (Suc d) s = (ok, s1)"
    by fastforce
  have IH: "(ok \<longrightarrow> length (children s1) = Suc d) \<and> (\<not> ok \<longrightarrow> error (base s1))"
    using Suc.hyps(1) [of "Suc d" s1] Suc.hyps(2) s1 by (cases ok) auto
  show ?case
  proof (cases "error (base s)")
    case True
    then show ?thesis by (auto simp: CBB_flush_error)
  next
    case False
    then have fl: "CBB_flush ralloc d s =
        (if \<not> ok then (False, cbb_on_error d s1) else cbb_flush_child ralloc d (children s ! d) s1)"
    proof -
      have "d \<noteq> length (children s)" "\<not> d > length (children s)"
        using Suc.hyps(2) by auto
      then show ?thesis
        using False s1 by (simp add: CBB_flush.simps [of ralloc d s])
    qed
    show ?thesis
      using IH cbb_flush_child_latches [of ralloc d "children s ! d" s1 s'] by (auto simp: fl)
  qed
qed

lemma latches_flush: "latches (CBB_flush ralloc d) d"
proof (rule latchesI)
  fix s s' :: CBB
  assume d: "d \<le> length (children s)"
  show "CBB_flush ralloc d s = (True, s') \<Longrightarrow> d \<le> length (children s') \<and> \<not> error (base s)"
    using CBB_flush_latches_aux [OF d, of ralloc s'] CBB_flush_error [of s ralloc d] by auto
  show "CBB_flush ralloc d s = (False, s') \<Longrightarrow> error (base s')"
    using CBB_flush_latches_aux [OF d, of ralloc s'] by blast
qed

lemma CBB_add_space_latches:
  assumes d: "d \<le> length (children s)"
  shows "CBB_add_space ralloc d n s = (Some out, s') \<Longrightarrow> d \<le> length (children s') \<and> \<not> error (base s)"
    and "CBB_add_space ralloc d n s = (None, s') \<Longrightarrow> error (base s')"
proof -
  obtain ok s1 where s1: "CBB_flush ralloc d s = (ok, s1)"
    by fastforce
  obtain ok' b where b: "cbb_buffer_add ralloc (base s1) n = (ok', b)"
    by fastforce
  show "CBB_add_space ralloc d n s = (Some out, s') \<Longrightarrow> d \<le> length (children s') \<and> \<not> error (base s)"
    using latchesD(1) [OF latches_flush d, of ralloc s1] s1 b
    by (auto simp: CBB_add_space_def split: if_splits)
  show "CBB_add_space ralloc d n s = (None, s') \<Longrightarrow> error (base s')"
    using latchesD(2) [OF latches_flush d, of ralloc s1] cbb_buffer_add_fail [of ralloc "base s1" n b] s1 b
    by (auto simp: CBB_add_space_def split: if_splits)
qed

lemma latches_bytes: "latches (CBB_add_bytes ralloc d data) d"
proof (rule latchesI)
  fix s s' :: CBB
  assume d: "d \<le> length (children s)"
  obtain out s1 where s1: "CBB_add_space ralloc d (word_of_nat (length data)) s = (out, s1)"
    by fastforce
  show "CBB_add_bytes ralloc d data s = (True, s') \<Longrightarrow> d \<le> length (children s') \<and> \<not> error (base s)"
    "CBB_add_bytes ralloc d data s = (False, s') \<Longrightarrow> error (base s')"
    using CBB_add_space_latches [OF d, of ralloc "word_of_nat (length data)"] s1
    by (auto simp: CBB_add_bytes_def cbb_write_at_def split: option.splits)
qed

lemma latches_u: "latches (cbb_add_u ralloc d v n) d"
proof (rule latchesI)
  fix s s' :: CBB
  assume d: "d \<le> length (children s)"
  obtain out s1 where s1: "CBB_add_space ralloc d n s = (out, s1)"
    by fastforce
  show "cbb_add_u ralloc d v n s = (True, s') \<Longrightarrow> d \<le> length (children s') \<and> \<not> error (base s)"
    "cbb_add_u ralloc d v n s = (False, s') \<Longrightarrow> error (base s')"
    using CBB_add_space_latches [OF d, of ralloc n] s1
    by (auto simp: cbb_add_u_def Let_def split: option.splits prod.splits if_splits)
qed

lemma latches_base128: "latches (add_base128_integer ralloc d v) d"
proof -
  have loop: "latches (add_base128_loop ralloc d v (Suc n)) d" for n
  proof (induction n)
    case 0
    have "add_base128_loop ralloc d v (Suc 0) = CBB_add_u8 ralloc d (base128_byte v 0)"
      by (rule ext) (auto simp: cbb_and_def prod_eq_iff)
    then show ?case
      using latches_u by (simp add: CBB_add_u8_def [abs_def])
  next
    case (Suc n)
    have "latches (\<lambda>s. cbb_and (CBB_add_u8 ralloc d (base128_byte v (Suc n)) s) (add_base128_loop ralloc d v (Suc n))) d"
      using latches_u Suc.IH by (intro latches_and) (simp_all add: CBB_add_u8_def [abs_def] del: add_base128_loop.simps)
    then show ?case by simp
  qed
  show ?thesis
    using loop [of 0] loop [of "base128_len v - 1"]
    by (auto simp: add_base128_integer_def [abs_def] Let_def simp del: add_base128_loop.simps)
qed

lemma latches_child:
  assumes "latches f d"
  shows "latches (\<lambda>s. cbb_and (f s) (cbb_add_child ralloc d n a)) d"
proof (rule latchesI)
  fix s s' :: CBB
  assume d: "d \<le> length (children s)"
  obtain ok s1 where s1: "f s = (ok, s1)"
    by fastforce
  obtain ok' b where b: "cbb_buffer_add ralloc (base s1) (ucast n) = (ok', b)"
    by fastforce
  note f = latchesD [OF assms d]
  show "cbb_and (f s) (cbb_add_child ralloc d n a) = (True, s') \<Longrightarrow> d \<le> length (children s') \<and> \<not> error (base s)"
    using f(1) [of s1] s1 b by (auto simp: cbb_and_def cbb_add_child_def Let_def split: if_splits)
  show "cbb_and (f s) (cbb_add_child ralloc d n a) = (False, s') \<Longrightarrow> error (base s')"
    using f(2) [of s1] s1 b cbb_buffer_add_fail [of ralloc "base s1" "ucast n" b]
    by (auto simp: cbb_and_def cbb_add_child_def Let_def split: if_splits)
qed

lemma latches_tag:
  "latches (\<lambda>s. if b then cbb_and (CBB_add_u8 ralloc d x s) (add_base128_integer ralloc d y)
      else CBB_add_u8 ralloc d z s) d"
  using latches_and [OF _ latches_base128] latches_u by (cases b) (simp_all add: CBB_add_u8_def [abs_def])

lemma latches_asn1: "latches (CBB_add_asn1 ralloc d t) d"
  unfolding CBB_add_asn1_def [abs_def] Let_def by (intro latches_and latches_flush latches_child latches_tag)

lemma asn1_opens_child:
  assumes "d \<le> length (children s)" "CBB_add_asn1 ralloc d t s = (True, s')"
  shows "Suc d \<le> length (children s')"
proof -
  obtain s1 s2 where "CBB_flush ralloc d s = (True, s1)"
    and s2: "(if t AND CBS_ASN1_TAG_NUMBER_MASK \<ge> 0x1f
      then cbb_and (CBB_add_u8 ralloc d (ucast (drop_bit CBS_ASN1_TAG_SHIFT t AND 0xe0) OR 0x1f) s1)
        (add_base128_integer ralloc d (ucast (t AND CBS_ASN1_TAG_NUMBER_MASK)))
      else CBB_add_u8 ralloc d (ucast (ucast (ucast (drop_bit CBS_ASN1_TAG_SHIFT t AND 0xe0) :: u8) OR
        (t AND CBS_ASN1_TAG_NUMBER_MASK))) s1) = (True, s2)"
    and ch: "cbb_add_child ralloc d 1 True s2 = (True, s')"
    using assms(2) unfolding CBB_add_asn1_def Let_def cbb_and_True_iff by blast
  then have "d \<le> length (children s1)" using latchesD(1) [OF latches_flush assms(1)] by blast
  then have "d \<le> length (children s2)" using latchesD(1) [OF latches_tag _ s2] by blast
  then show ?thesis using ch by (auto simp: cbb_add_child_def Let_def split: prod.splits if_splits)
qed

lemma CBB_flush_open: "CBB_flush ralloc d s = (True, s') \<Longrightarrow> d \<le> length (children s)"
  by (auto simp: CBB_flush.simps [of ralloc d s] split: if_splits)

lemma guard_simps [simp]:
  "cbb_guard d r = (True, s') \<longleftrightarrow> r = (True, s')" "cbb_guard d r = (False, s') \<Longrightarrow> error (base s')"
  by (cases r; auto simp: cbb_guard_def split: if_splits)+

text \<open>The two shapes of the writers of whole elements: the guard covers the last flush, or does not.\<close>

lemma latches_guarded:
  assumes "latches f d"
  shows "latches (\<lambda>s. cbb_guard d (cbb_and (cbb_and (f s) g) (CBB_flush ralloc d))) d"
proof (rule latchesI)
  fix s s' :: CBB
  assume d: "d \<le> length (children s)"
  show "error (base s')" if "cbb_guard d (cbb_and (cbb_and (f s) g) (CBB_flush ralloc d)) = (False, s')"
    using that by simp
  show "d \<le> length (children s') \<and> \<not> error (base s)"
    if "cbb_guard d (cbb_and (cbb_and (f s) g) (CBB_flush ralloc d)) = (True, s')"
    using that latchesD(1) [OF assms d] latchesD(1) [OF latches_flush CBB_flush_open]
    unfolding guard_simps cbb_and_True_iff by blast
qed

lemma latches_guarded_flush:
  assumes "latches f d"
    and "\<And>s s1 s2. d \<le> length (children s) \<Longrightarrow> f s = (True, s1) \<Longrightarrow> g s1 = (True, s2) \<Longrightarrow> d \<le> length (children s2)"
  shows "latches (\<lambda>s. cbb_and (cbb_guard d (cbb_and (f s) g)) (CBB_flush ralloc d)) d"
proof (rule latchesI)
  fix s s' :: CBB
  assume d: "d \<le> length (children s)"
  show "d \<le> length (children s') \<and> \<not> error (base s)"
    if "cbb_and (cbb_guard d (cbb_and (f s) g)) (CBB_flush ralloc d) = (True, s')"
    using that latchesD(1) [OF assms(1) d] latchesD(1) [OF latches_flush CBB_flush_open]
    unfolding guard_simps cbb_and_True_iff by blast
  show "error (base s')" if "cbb_and (cbb_guard d (cbb_and (f s) g)) (CBB_flush ralloc d) = (False, s')"
    using that assms(2) [OF d] latchesD(2) [OF latches_flush]
    unfolding cbb_and_False_iff guard_simps cbb_and_True_iff using guard_simps(2) by blast
qed

lemma u8_keeps_open:
  "CBB_add_u8 ralloc d v s = (True, s') \<Longrightarrow> d \<le> length (children s) \<Longrightarrow> d \<le> length (children s')"
  using latchesD(1) [OF latches_u] by (simp add: CBB_add_u8_def)

lemma uint64_loop_keeps_open:
  "add_asn1_uint64_loop ralloc d bs started s = (True, st, s') \<Longrightarrow> d \<le> length (children s) \<Longrightarrow>
     d \<le> length (children s')"
  by (induction ralloc d bs started s rule: add_asn1_uint64_loop.induct)
    (auto simp: Let_def split: if_splits prod.splits dest: u8_keeps_open)

lemma latches_uint64: "latches (CBB_add_asn1_uint64_with_tag ralloc d v t) d"
  unfolding CBB_add_asn1_uint64_with_tag_def [abs_def]
proof (rule latches_guarded_flush [OF latches_asn1])
  fix s s1 s2 :: CBB
  assume "d \<le> length (children s)" "CBB_add_asn1 ralloc d t s = (True, s1)"
  then have "d + 1 \<le> length (children s1)" using asn1_opens_child by simp
  then show "(let (ok, started, s) = add_asn1_uint64_loop ralloc (d + 1) (uint64_bytes v) False s1
      in if \<not> ok then (False, s) else if \<not> started then CBB_add_u8 ralloc (d + 1) 0 s else (True, s)) = (True, s2) \<Longrightarrow>
    d \<le> length (children s2)"
    using u8_keeps_open [of ralloc "d + 1" 0 _ s2] uint64_loop_keeps_open [of ralloc "d + 1" "uint64_bytes v" False s1]
    by (fastforce split: prod.splits if_splits)
qed

lemma int64_loop_keeps_open:
  "add_asn1_int64_loop ralloc d bs n s = (True, s') \<Longrightarrow> d \<le> length (children s) \<Longrightarrow> d \<le> length (children s')"
  by (induction n arbitrary: s) (auto simp: cbb_and_True_iff dest: u8_keeps_open)

lemma latches_int64: "latches (CBB_add_asn1_int64_with_tag ralloc d v t) d"
proof (cases "sint v \<ge> 0")
  case True
  then show ?thesis by (simp add: CBB_add_asn1_int64_with_tag_def [abs_def] latches_uint64)
next
  case False
  then show ?thesis
    unfolding CBB_add_asn1_int64_with_tag_def [abs_def] Let_def if_not_P [OF False]
  proof (intro latches_guarded_flush [OF latches_asn1])
    fix s s1 s2 :: CBB
    assume "d \<le> length (children s)" "CBB_add_asn1 ralloc d t s = (True, s1)"
    then have "d + 1 \<le> length (children s1)" using asn1_opens_child by simp
    then show "add_asn1_int64_loop ralloc (d + 1) (word_to_mem v) (int64_start (word_to_mem v) 7 + 1) s1 = (True, s2) \<Longrightarrow>
        d \<le> length (children s2)"
      using int64_loop_keeps_open [of ralloc "d + 1"] by fastforce
  qed
qed

subsubsection \<open>Sequences of operations\<close>

text \<open>
  The operations that report errors through the error bit. \<open>CBB_did_write\<close>, which does not look at the
  bit, and the operations that can refuse their input without setting it (\<open>CBB_finish\<close> of a child,
  \<open>CBB_add_asn1_oid_from_text\<close>, \<open>CBB_flush_asn1_set_of\<close>) are not among them.
\<close>

datatype cbb_op =
  Flush | AddSpace u64 | Reserve u64 | AddBytes bytes | AddZeros u64
  | AddU8 u8 | AddU16 u16 | AddU16le u16 | AddU24 u32 | AddU32 u32 | AddU32le u32 | AddU64 u64 | AddU64le u64
  | AddU8LengthPrefixed | AddU16LengthPrefixed | AddU24LengthPrefixed | AddAsn1 CBS_ASN1_TAG
  | AddAsn1Uint64 u64 CBS_ASN1_TAG | AddAsn1Int64 u64 CBS_ASN1_TAG | AddAsn1OctetString bytes | AddAsn1Bool bool

text \<open>Whether the operation returned an offset.\<close>

definition is_offset :: "nat option \<times> CBB \<Rightarrow> bool \<times> CBB" where
  "is_offset r = (fst r \<noteq> None, snd r)"

fun cbb_exec :: "ralloc \<Rightarrow> nat \<Rightarrow> cbb_op \<Rightarrow> CBB \<Rightarrow> bool \<times> CBB" where
  "cbb_exec ralloc d Flush s = CBB_flush ralloc d s"
| "cbb_exec ralloc d (AddSpace n) s = is_offset (CBB_add_space ralloc d n s)"
| "cbb_exec ralloc d (Reserve n) s = is_offset (CBB_reserve ralloc d n s)"
| "cbb_exec ralloc d (AddBytes data) s = CBB_add_bytes ralloc d data s"
| "cbb_exec ralloc d (AddZeros n) s = CBB_add_zeros ralloc d n s"
| "cbb_exec ralloc d (AddU8 v) s = CBB_add_u8 ralloc d v s"
| "cbb_exec ralloc d (AddU16 w) s = CBB_add_u16 ralloc d w s"
| "cbb_exec ralloc d (AddU16le w) s = CBB_add_u16le ralloc d w s"
| "cbb_exec ralloc d (AddU24 x) s = CBB_add_u24 ralloc d x s"
| "cbb_exec ralloc d (AddU32 x) s = CBB_add_u32 ralloc d x s"
| "cbb_exec ralloc d (AddU32le x) s = CBB_add_u32le ralloc d x s"
| "cbb_exec ralloc d (AddU64 y) s = CBB_add_u64 ralloc d y s"
| "cbb_exec ralloc d (AddU64le y) s = CBB_add_u64le ralloc d y s"
| "cbb_exec ralloc d AddU8LengthPrefixed s = CBB_add_u8_length_prefixed ralloc d s"
| "cbb_exec ralloc d AddU16LengthPrefixed s = CBB_add_u16_length_prefixed ralloc d s"
| "cbb_exec ralloc d AddU24LengthPrefixed s = CBB_add_u24_length_prefixed ralloc d s"
| "cbb_exec ralloc d (AddAsn1 t) s = CBB_add_asn1 ralloc d t s"
| "cbb_exec ralloc d (AddAsn1Uint64 y t) s = CBB_add_asn1_uint64_with_tag ralloc d y t s"
| "cbb_exec ralloc d (AddAsn1Int64 y t) s = CBB_add_asn1_int64_with_tag ralloc d y t s"
| "cbb_exec ralloc d (AddAsn1OctetString data) s = CBB_add_asn1_octet_string ralloc d data s"
| "cbb_exec ralloc d (AddAsn1Bool b) s = CBB_add_asn1_bool ralloc d b s"

text \<open>A run of operations, each on the builder at its depth: what they returned, and the final state.\<close>

fun cbb_run :: "ralloc \<Rightarrow> (nat \<times> cbb_op) list \<Rightarrow> CBB \<Rightarrow> bool list \<times> CBB" where
  "cbb_run ralloc [] s = ([], s)"
| "cbb_run ralloc ((d, op) # ops) s =
     (let (ok, s) = cbb_exec ralloc d op s; (oks, s) = cbb_run ralloc ops s in (ok # oks, s))"

lemma latches_space: "latches (\<lambda>s. is_offset (CBB_add_space ralloc d n s)) d"
  using CBB_add_space_latches [of d _ ralloc n] by (intro latchesI) (auto simp: is_offset_def prod_eq_iff)

lemma latches_reserve: "latches (\<lambda>s. is_offset (CBB_reserve ralloc d n s)) d"
proof (rule latchesI)
  fix s s' :: CBB
  assume d: "d \<le> length (children s)"
  obtain ok s1 where s1: "CBB_flush ralloc d s = (ok, s1)" by fastforce
  obtain ok' b where b: "cbb_buffer_reserve ralloc (base s1) n = (ok', b)" by fastforce
  have err: "\<not> ok' \<Longrightarrow> error b"
    using b by (auto simp: cbb_buffer_reserve_def Let_def split: if_splits option.splits)
  show "is_offset (CBB_reserve ralloc d n s) = (True, s') \<Longrightarrow> d \<le> length (children s') \<and> \<not> error (base s)"
    using latchesD(1) [OF latches_flush d, of ralloc s1] s1 b
    by (auto simp: is_offset_def CBB_reserve_def split: if_splits)
  show "is_offset (CBB_reserve ralloc d n s) = (False, s') \<Longrightarrow> error (base s')"
    using latchesD(2) [OF latches_flush d, of ralloc s1] s1 b err
    by (auto simp: is_offset_def CBB_reserve_def split: if_splits)
qed

lemma latches_zeros: "latches (CBB_add_zeros ralloc d n) d"
proof (rule latchesI)
  fix s s' :: CBB
  assume d: "d \<le> length (children s)"
  obtain out s1 where s1: "CBB_add_space ralloc d n s = (out, s1)" by fastforce
  show "CBB_add_zeros ralloc d n s = (True, s') \<Longrightarrow> d \<le> length (children s') \<and> \<not> error (base s)"
    "CBB_add_zeros ralloc d n s = (False, s') \<Longrightarrow> error (base s')"
    using CBB_add_space_latches [OF d, of ralloc n] s1
    by (auto simp: CBB_add_zeros_def cbb_write_at_def split: option.splits)
qed

lemmas cbb_u_defs = CBB_add_u8_def CBB_add_u16_def CBB_add_u16le_def CBB_add_u24_def CBB_add_u32_def
  CBB_add_u32le_def CBB_add_u64_def CBB_add_u64le_def

lemmas cbb_prefixed_defs = CBB_add_u8_length_prefixed_def CBB_add_u16_length_prefixed_def
  CBB_add_u24_length_prefixed_def cbb_add_length_prefixed_def

lemma latches_exec: "latches (cbb_exec ralloc d op) d"
  by (cases op)
    (simp_all add: cbb_exec.simps [abs_def] cbb_u_defs [abs_def] cbb_prefixed_defs [abs_def]
      CBB_add_asn1_octet_string_def [abs_def] CBB_add_asn1_bool_def [abs_def]
      latches_flush latches_space latches_reserve latches_bytes latches_zeros latches_u latches_child latches_asn1
      latches_uint64 latches_int64 latches_guarded)

text \<open>With the error bit set every operation fails, also on a builder that is no longer open.\<close>

lemma exec_error:
  assumes "error (base s)"
  shows "\<not> fst (cbb_exec ralloc d op s) \<and> error (base (snd (cbb_exec ralloc d op s)))"
  using CBB_flush_error [OF assms, of ralloc d] assms
  by (cases op)
    (simp_all add: cbb_u_defs cbb_prefixed_defs is_offset_def CBB_add_space_def CBB_reserve_def CBB_add_bytes_def
      CBB_add_zeros_def cbb_add_u_def CBB_add_asn1_def CBB_add_asn1_uint64_with_tag_def
      CBB_add_asn1_int64_with_tag_def CBB_add_asn1_octet_string_def CBB_add_asn1_bool_def cbb_and_def cbb_guard_def)

lemma run_error:
  "error (base s) \<Longrightarrow> list_all (\<lambda>ok. \<not> ok) (fst (cbb_run ralloc ops s)) \<and> error (base (snd (cbb_run ralloc ops s)))"
proof (induction ops arbitrary: s)
  case (Cons p ops)
  obtain d op where p: "p = (d, op)" by fastforce
  show ?case
    using exec_error [OF Cons.prems, of ralloc d op] Cons.IH [of "snd (cbb_exec ralloc d op s)"]
    by (simp add: p case_prod_unfold Let_def)
qed simp

lemma finish_error: "error (base s) \<Longrightarrow> fst (CBB_finish ralloc d has_out s) = None"
  by (simp add: CBB_finish_def CBB_flush_error)

subsection \<open>Properties\<close>

text \<open>
  C2: \<open>CBB_flush\<close> implements the closing of frames: when it succeeds on a builder that represents the
  frames \<open>fs\<close>, the buffer then represents \<open>fs\<close> with every frame inside depth \<open>d\<close> closed, each with its
  length written in front of it in the prefix it reserved (in DER form, moving the contents, for an
  ASN.1 child), and every length fits its prefix.
\<close>

theorem CBB_flush_closes_frames:
  assumes "libc_malloc malloc" and "repr s fs"
    and "CBB_flush (realloc_data malloc) d s = (True, s')"
  shows "d < length fs \<and> repr s' (flush_frames d fs) \<and> close_fits (drop (Suc d) fs)"
  using heap_realloc.CBB_flush_ok [OF libc_malloc.realloc_heap [OF assms(1)] assms(3,2)] by blast

theorem CBB_flush_closes_frames_witness:
  "repr \<lparr>base = \<lparr>buf = [1, 7, 0, 0], len = 2, cap = 4, can_resize = False, error = False\<rparr>, children = []\<rparr>
     (flush_frames 0 [((0, False), []), ((1, False), [7])])"
proof -
  define s where "s = \<lparr>base = \<lparr>buf = [0, 7, 0, 0], len = 2, cap = 4, can_resize = False, error = False\<rparr>,
    children = [\<lparr>offset = 0, pending_len_len = 1, pending_is_asn1 = False\<rparr>]\<rparr>"
  have "repr s [((0, False), []), ((1, False), [7])]"
    by (simp add: repr_def s_def buffer_ok_def kind_ok_def)
  moreover have "CBB_flush (realloc_data (bounded_malloc 9)) 0 s =
    (True, \<lparr>base = \<lparr>buf = [1, 7, 0, 0], len = 2, cap = 4, can_resize = False, error = False\<rparr>, children = []\<rparr>)"
    unfolding s_def by code_simp
  ultimately show ?thesis
    using CBB_flush_closes_frames [OF bounded.libc_malloc_axioms] by blast
qed

text \<open>
  C4: A value written by \<open>CBB_add_asn1_uint64\<close> or \<open>CBB_add_asn1_int64\<close> into a fresh builder is read
  back by \<open>CBS_get_asn1_uint64\<close> and \<open>CBS_get_asn1_int64\<close> from the finished buffer, with nothing left.
\<close>

theorem CBB_asn1_integer_roundtrip:
  assumes "libc_malloc malloc" and "CBB_init malloc n = Some s0"
    and "CBB_add_asn1_uint64 (realloc_data malloc) 0 v s0 = (True, s1)"
    and "CBB_finish (realloc_data malloc) 0 True s1 = (Some (b, l), s2)"
    and "CBB_add_asn1_int64 (realloc_data malloc) 0 v s0 = (True, t1)"
    and "CBB_finish (realloc_data malloc) 0 True t1 = (Some (c, k), t2)"
  shows "CBS_get_asn1_uint64 (take (unat l) b) = Some (v, []) \<and>
    CBS_get_asn1_int64 (take (unat k) c) = Some (v, [])"
proof -
  note h = libc_malloc.realloc_heap [OF assms(1)]
  note init = libc_malloc.repr_init [OF assms(1,2)]
  have "take (unat l) b = der_element CBS_ASN1_INTEGER (uint_contents (uint64_bytes v))"
    using heap_realloc.finish_bytes [OF h init heap_realloc.writes_uint64_with_tag [OF h] _ assms(4)] assms(3)
    by (simp add: CBB_add_asn1_uint64_def)
  moreover have "take (unat k) c = der_element CBS_ASN1_INTEGER (int64_contents v)"
    using heap_realloc.finish_bytes [OF h init heap_realloc.writes_int64_with_tag [OF h] _ assms(6)] assms(5)
    by (simp add: CBB_add_asn1_int64_def)
  ultimately show ?thesis
    using uint64_contents [of v] int64_contents_ok [of v]
    by (metis CBS_get_asn1_uint64_iff CBS_get_asn1_int64_iff append_Nil2)
qed

theorem CBB_asn1_integer_roundtrip_witness:
  "CBS_get_asn1_uint64 [2, 2, 0, 200] = Some (200, []) \<and> CBS_get_asn1_int64 [2, 2, 0, 200] = Some (200, [])"
proof -
  define s0 where "s0 = \<lparr>base = \<lparr>buf = [0, 0, 0, 0], len = 0, cap = 4, can_resize = True, error = False\<rparr>, children = []\<rparr>"
  define s1 where "s1 = \<lparr>base = \<lparr>buf = [2, 2, 0, 200], len = 4, cap = 4, can_resize = True, error = False\<rparr>, children = []\<rparr>"
  define s2 where "s2 = \<lparr>base = \<lparr>buf = [], len = 4, cap = 4, can_resize = True, error = False\<rparr>, children = []\<rparr>"
  have "CBB_init (bounded_malloc 64) 4 = Some s0"
    unfolding s0_def by code_simp
  moreover have "CBB_add_asn1_uint64 (realloc_data (bounded_malloc 64)) 0 200 s0 = (True, s1)"
    unfolding s0_def s1_def by code_simp
  moreover have "CBB_add_asn1_int64 (realloc_data (bounded_malloc 64)) 0 200 s0 = (True, s1)"
    unfolding s0_def s1_def by code_simp
  moreover have "CBB_finish (realloc_data (bounded_malloc 64)) 0 True s1 = (Some ([2, 2, 0, 200], 4), s2)"
    unfolding s1_def s2_def by code_simp
  ultimately show ?thesis
    using CBB_asn1_integer_roundtrip [OF bounded.libc_malloc_axioms] by fastforce
qed

text \<open>
  C3: An element opened with \<open>CBB_add_asn1\<close>, filled through the child with \<open>CBB_add_bytes\<close> and
  finished without an explicit flush is read back by \<open>CBS_get_asn1\<close> with the same tag, for every
  representable tag (high tag numbers included) and every length the builder accepts.
\<close>

theorem CBB_asn1_element_roundtrip:
  assumes "libc_malloc malloc" and "CBB_init malloc n = Some s0" and "valid_tag t"
    and "length data < 2 ^ 64"
    and "CBB_add_asn1 (realloc_data malloc) 0 t s0 = (True, s1)"
    and "CBB_add_bytes (realloc_data malloc) 1 data s1 = (True, s2)"
    and "CBB_finish (realloc_data malloc) 0 True s2 = (Some (b, l), s3)"
  shows "CBS_get_asn1 (take (unat l) b) t = Some (data, [])"
proof -
  note h = libc_malloc.realloc_heap [OF assms(1)]
  note init = libc_malloc.repr_init [OF assms(1,2)]
  obtain s4 where fl: "CBB_flush (realloc_data malloc) 0 s2 = (True, s4)" and b: "b = buf (base s4)" "l = len (base s4)"
    using assms(7) by (auto simp: CBB_finish_def split: prod.splits if_splits)
  have "repr s1 [((0, False), der_tag t), ((1, True), [])]"
    using opensD [OF heap_realloc.opens_asn1 [OF h] init assms(5)] by (simp add: append_frames_def)
  then have "repr s2 [((0, False), der_tag t), ((1, True), data)]"
    using writesD [OF heap_realloc.writes_bytes [OF h assms(4)] _ assms(6)] by (fastforce simp: append_frames_def)
  then have "repr s4 [((0, False), der_tag t @ enc (1, True) data)]" "fits (1, True) data"
    using heap_realloc.CBB_flush_ok [OF h fl] by (fastforce simp: flush_frames_def)+
  then have "take (unat l) b = der_element t data" "length data < 2 ^ 32"
    by (simp_all add: repr_def b enc_der_element fits_def)
  then show ?thesis
    using assms(3) by (simp add: CBS_get_asn1_iff)
qed

theorem CBB_asn1_element_roundtrip_witness: "CBS_get_asn1 [0x3f, 0x1f, 1, 9] 0x2000001f = Some ([9], [])"
proof -
  define s0 where "s0 = \<lparr>base = \<lparr>buf = [0], len = 0, cap = 1, can_resize = True, error = False\<rparr>, children = []\<rparr>"
  define s1 where "s1 = \<lparr>base = \<lparr>buf = [0x3f, 0x1f, 0, 0], len = 3, cap = 4, can_resize = True, error = False\<rparr>,
    children = [\<lparr>offset = 2, pending_len_len = 1, pending_is_asn1 = True\<rparr>]\<rparr>"
  define s2 where "s2 = \<lparr>base = \<lparr>buf = [0x3f, 0x1f, 0, 9], len = 4, cap = 4, can_resize = True, error = False\<rparr>,
    children = [\<lparr>offset = 2, pending_len_len = 1, pending_is_asn1 = True\<rparr>]\<rparr>"
  define s3 where "s3 = \<lparr>base = \<lparr>buf = [], len = 4, cap = 4, can_resize = True, error = False\<rparr>, children = []\<rparr>"
  have "CBB_init (bounded_malloc 64) 1 = Some s0"
    unfolding s0_def by code_simp
  moreover have "valid_tag 0x2000001f" "length [9 :: u8] < 2 ^ 64"
    by (simp_all add: valid_tag_def CBS_ASN1_CONSTRUCTED_def CBS_ASN1_TAG_SHIFT_def)
  moreover have "CBB_add_asn1 (realloc_data (bounded_malloc 64)) 0 0x2000001f s0 = (True, s1)"
    unfolding s0_def s1_def by code_simp
  moreover have "CBB_add_bytes (realloc_data (bounded_malloc 64)) 1 [9] s1 = (True, s2)"
    unfolding s1_def s2_def by code_simp
  moreover have "CBB_finish (realloc_data (bounded_malloc 64)) 0 True s2 = (Some ([0x3f, 0x1f, 1, 9], 4), s3)"
    unfolding s2_def s3_def by code_simp
  ultimately have "CBS_get_asn1 (take (unat (4 :: u64)) [0x3f, 0x1f, 1, 9]) 0x2000001f = Some ([9], [])"
    by (rule CBB_asn1_element_roundtrip [OF bounded.libc_malloc_axioms])
  then show ?thesis by simp
qed

text \<open>
  C5: The error bit latches. A flush, a reservation, a write of bytes, zeros or an integer, the start of a
  length-prefixed child or an ASN.1 element, and a write of a whole INTEGER, OCTET STRING or BOOLEAN on an
  open builder sets it whenever it fails, and never succeeds when it is set. Once it is set, every sequence
  of these operations, on any builder of the chain, fails throughout, and so does \<open>CBB_finish\<close> after it.
\<close>

theorem CBB_error_latches:
  assumes "d \<le> length (children s)" and "cbb_exec ralloc d op s = (ok, s')"
  shows "(if ok then \<not> error (base s) else error (base s')) \<and>
    (error (base s') \<longrightarrow>
       (let (oks, s'') = cbb_run ralloc ops s'
        in list_all (\<lambda>ok. \<not> ok) oks \<and> fst (CBB_finish ralloc 0 has_out s'') = None))"
  using latchesD [OF latches_exec assms(1), of ralloc op s'] run_error [of s' ralloc ops]
    finish_error [of "snd (cbb_run ralloc ops s')" ralloc 0 has_out] assms(2)
  by (cases ok) (simp_all add: case_prod_unfold)

theorem CBB_error_latches_witness:
  "error (base (snd (CBB_add_bytes (realloc_data (bounded_malloc 64)) 0 [1, 2] (CBB_init_fixed [0] 1)))) \<and>
   fst (CBB_finish (realloc_data (bounded_malloc 64)) 0 True
     (snd (CBB_add_bytes (realloc_data (bounded_malloc 64)) 0 [1, 2] (CBB_init_fixed [0] 1)))) = None"
proof -
  define s where "s = CBB_init_fixed [0] 1"
  have "0 \<le> length (children s)" by simp
  moreover have "cbb_exec (realloc_data (bounded_malloc 64)) 0 (AddBytes [1, 2]) s =
      (False, snd (CBB_add_bytes (realloc_data (bounded_malloc 64)) 0 [1, 2] s))"
    unfolding s_def by code_simp
  ultimately show ?thesis
    using CBB_error_latches [of 0 s "realloc_data (bounded_malloc 64)" "AddBytes [1, 2]" False _ "[]" True]
    by (simp add: s_def)
qed

end
