(* ===== verification/Oid.thy ===== *)
theory Oid
  imports CbbDer "HOL-Library.Multiset"
begin

text \<open>
  The textual form of object identifiers: \<open>CBS_asn1_oid_to_text\<close> of \<open>cbs.cc\<close> and
  \<open>CBB_add_asn1_oid_from_text\<close> of \<open>cbb.cc\<close>, against the reference form \<open>dotted\<close>, and the
  canonical order of SET OF elements written by \<open>CBB_flush_asn1_set_of\<close>.
\<close>

subsection \<open>Decimal numbers\<close>

text \<open>\<open>decimal n\<close> is what \<open>snprintf\<close> prints for \<open>PRIu64\<close>.\<close>

fun decimal :: "nat \<Rightarrow> bytes" where
  "decimal n = (if n < 10 then [word_of_nat (48 + n)] else decimal (n div 10) @ [word_of_nat (48 + n mod 10)])"

declare decimal.simps [simp del]

lemma decimal_step: "0 < v \<Longrightarrow> d < 10 \<Longrightarrow> decimal (v * 10 + d) = decimal v @ [word_of_nat (48 + d)]"
  by (subst decimal.simps) simp

lemma decimal_digit: "d < 10 \<Longrightarrow> decimal d = [word_of_nat (48 + d)]"
  by (subst decimal.simps) simp

lemma u64_max_div_10: "unat ((- 1 :: u64) div 10) = 1844674407370955161"
  by (simp add: unat_div)

text \<open>One step of the loop of \<open>CBS_get_u64_decimal\<close> in terms of numbers.\<close>

lemma decimal_overflow_arith:
  "d < 10 \<Longrightarrow> (1844674407370955161 < n \<or> 2 ^ 64 - 1 - d < n * 10) \<longleftrightarrow> 2 ^ 64 \<le> n * 10 + (d :: nat)"
  by auto

lemma decimal_overflow_iff:
  assumes "d < 10"
  shows "(v > (- 1) div 10 \<or> v * 10 > (- 1) - word_of_nat d) \<longleftrightarrow> 2 ^ 64 \<le> unat (v :: u64) * 10 + d"
proof (cases "1844674407370955161 < unat v")
  case True
  then show ?thesis
    by (simp add: word_less_nat_alt u64_max_div_10)
next
  case False
  have "unat (v * 10) = unat v * 10 mod 2 ^ 64"
    by (simp add: unat_word_ariths)
  then have v10: "unat (v * 10) = unat v * 10"
    using False by simp
  have d: "unat (word_of_nat d :: u64) = d"
    using assms by (intro unat_word_of_nat) simp
  have "unat ((- 1 :: u64) - word_of_nat d) = 2 ^ 64 - 1 - d"
  proof -
    have "unat (- 1 :: u64) = 2 ^ 64 - 1"
      by (simp add: unsigned_minus_1_eq_mask mask_eq_exp_minus_1)
    then show ?thesis
      using assms d by (subst unat_sub) (simp_all add: word_le_nat_alt)
  qed
  then show ?thesis
    using decimal_overflow_arith [OF assms, of "unat v"]
    by (simp only: word_less_nat_alt u64_max_div_10 v10)
qed

lemma decimal_loop_step:
  assumes "d < 10"
  shows "get_u64_decimal_loop (word_of_nat (48 + d) # cbs) v seen =
    (if (v = 0 \<and> seen) \<or> 2 ^ 64 \<le> unat v * 10 + d then None
     else get_u64_decimal_loop cbs (word_of_nat (unat v * 10 + d)) True)"
proof -
  define c where "c = (word_of_nat (48 + d) :: u8)"
  have dig: "OPENSSL_isdigit (uint c)"
    unfolding isdigit_iff c_def using assms by blast
  have "unat c = 48 + d"
    unfolding c_def using assms by (intro unat_word_of_nat) simp
  then have "unat (ucast c :: u64) = 48 + d"
    by (simp add: unat_ucast_widen)
  moreover have "unat (word_of_nat (48 + d) :: u64) = 48 + d"
    using assms by (intro unat_word_of_nat) simp
  ultimately have "(ucast c :: u64) = word_of_nat (48 + d)"
    by (simp only: word_unat_eq_iff)
  then have uc: "ucast c - 48 = (word_of_nat d :: u64)"
    by simp
  have eq: "v * 10 + word_of_nat d = word_of_nat (unat v * 10 + d)"
    by simp
  have "get_u64_decimal_loop (c # cbs) v seen =
    (if (v = 0 \<and> seen) \<or> (v > (- 1) div 10 \<or> v * 10 > (- 1) - word_of_nat d) then None
     else get_u64_decimal_loop cbs (v * 10 + word_of_nat d) True)"
    by (simp only: get_u64_decimal_loop.simps dig uc simp_thms if_False if_True)
  then show ?thesis
    by (simp only: decimal_overflow_iff [OF assms] eq c_def)
qed

text \<open>Text that cannot continue a number.\<close>

definition no_digit :: "bytes \<Rightarrow> bool" where
  "no_digit cbs \<longleftrightarrow> (case cbs of [] \<Rightarrow> True | c # _ \<Rightarrow> \<not> OPENSSL_isdigit (uint c))"

lemma decimal_loop_stop: "no_digit cbs \<Longrightarrow> get_u64_decimal_loop cbs v seen = Some (v, seen, cbs)"
  by (cases cbs) (auto simp: no_digit_def)

lemma decimal_loop_sound:
  "get_u64_decimal_loop cbs v seen = Some (w, seen', rest) \<Longrightarrow> (\<not> seen \<Longrightarrow> v = 0) \<Longrightarrow>
     no_digit rest \<and>
     (\<exists>pre. cbs = pre @ rest \<and>
        (if seen then decimal (unat v) else []) @ pre = (if seen' then decimal (unat w) else []))"
proof (induction cbs arbitrary: v seen)
  case Nil
  then show ?case by (simp add: no_digit_def)
next
  case (Cons c cbs)
  show ?case
  proof (cases "OPENSSL_isdigit (uint c)")
    case False
    then show ?thesis
      using Cons.prems by (auto simp: no_digit_def)
  next
    case True
    then obtain d where d: "d < 10" "c = word_of_nat (48 + d)"
      by (auto simp: isdigit_iff)
    define v' where "v' = (word_of_nat (unat v * 10 + d) :: u64)"
    have ok: "\<not> (v = 0 \<and> seen)" "unat v * 10 + d < 2 ^ 64"
      and loop: "get_u64_decimal_loop cbs v' True = Some (w, seen', rest)"
      using Cons.prems(1) unfolding d(2) decimal_loop_step [OF d(1)] by (auto simp: v'_def split: if_splits)
    have v': "unat v' = unat v * 10 + d"
      unfolding v'_def using ok(2) by (intro unat_word_of_nat) simp
    have dec: "decimal (unat v') = (if seen then decimal (unat v) else []) @ [c]"
    proof (cases seen)
      case True
      then have "0 < unat v"
        using ok(1) by (simp add: unat_gt_0)
      then show ?thesis
        using True d by (simp add: v' decimal_step)
    next
      case False
      then show ?thesis
        using Cons.prems(2) d by (simp add: v' decimal_digit)
    qed
    obtain pre where "no_digit rest" "cbs = pre @ rest" "decimal (unat v') @ pre = (if seen' then decimal (unat w) else [])"
      using Cons.IH [OF loop] by auto
    then show ?thesis
      using dec by (intro conjI exI [of _ "c # pre"]) simp_all
  qed
qed

lemma decimal_loop_complete:
  "n < 2 ^ 64 \<Longrightarrow> get_u64_decimal_loop (decimal n @ cbs) 0 False = get_u64_decimal_loop cbs (word_of_nat n) True"
proof (induction n arbitrary: cbs rule: decimal.induct)
  case (1 n)
  show ?case
  proof (cases "n < 10")
    case True
    then show ?thesis
      by (simp only: decimal_digit append_Cons append_Nil decimal_loop_step) simp
  next
    case False
    define q r where "q = n div 10" and "r = n mod 10"
    have n: "n = q * 10 + r" "r < 10" "0 < q"
      using False by (auto simp: q_def r_def div_greater_zero_iff)
    then have q: "unat (word_of_nat q :: u64) = q"
      using "1.prems" by (intro unat_word_of_nat) simp
    then have nz: "(word_of_nat q :: u64) \<noteq> 0"
      using n(3) by (metis unsigned_0 less_irrefl)
    have "get_u64_decimal_loop (decimal n @ cbs) 0 False
        = get_u64_decimal_loop (decimal q @ word_of_nat (48 + r) # cbs) 0 False"
      unfolding n(1) using decimal_step [OF n(3,2)] by simp
    also have "\<dots> = get_u64_decimal_loop (word_of_nat (48 + r) # cbs) (word_of_nat q) True"
      using "1.IH" [OF False] "1.prems" by (simp add: q_def)
    also have "\<dots> = get_u64_decimal_loop cbs (word_of_nat n) True"
      unfolding decimal_loop_step [OF n(2)] using nz "1.prems" n(1) by (simp only: q simp_thms if_False not_le [symmetric])
    finally show ?thesis .
  qed
qed

lemma CBS_get_u64_decimal_iff:
  "CBS_get_u64_decimal cbs = Some (v, rest) \<longleftrightarrow> cbs = decimal (unat v) @ rest \<and> no_digit rest"
proof
  assume "CBS_get_u64_decimal cbs = Some (v, rest)"
  then have "get_u64_decimal_loop cbs 0 False = Some (v, True, rest)"
    by (auto simp: CBS_get_u64_decimal_def bind_eq_Some_iff split: if_splits)
  then show "cbs = decimal (unat v) @ rest \<and> no_digit rest"
    using decimal_loop_sound [of cbs 0 False v True rest] by auto
next
  assume "cbs = decimal (unat v) @ rest \<and> no_digit rest"
  then show "CBS_get_u64_decimal cbs = Some (v, rest)"
    using decimal_loop_complete [of "unat v" rest] unat_less [of v]
    by (simp add: CBS_get_u64_decimal_def decimal_loop_stop)
qed

subsection \<open>Dotted text\<close>

definition parse_dotted_decimal :: "CBS \<Rightarrow> (u64 \<times> CBS) option" where
  "parse_dotted_decimal cbs = do {
     (out, cbs) \<leftarrow> CBS_get_u64_decimal cbs;
     case CBS_get_u8 cbs of
       None \<Rightarrow> Some (out, cbs)
     | Some (dot, cbs) \<Rightarrow> if dot = 46 \<and> length cbs > 0 then Some (out, cbs) else None
   }"

lemma parse_dotted_decimal_iff:
  "parse_dotted_decimal cbs = Some (v, rest) \<longleftrightarrow>
     (if rest = [] then cbs = decimal (unat v) else cbs = decimal (unat v) @ 46 # rest)"
proof -
  have dot: "no_digit (46 # rest)" "no_digit []"
    by (simp_all add: no_digit_def OPENSSL_isdigit_def)
  have "parse_dotted_decimal cbs = Some (v, rest) \<longleftrightarrow>
      (\<exists>r. CBS_get_u64_decimal cbs = Some (v, r) \<and> (r = [] \<and> rest = [] \<or> r = 46 # rest \<and> rest \<noteq> []))"
  proof (cases "CBS_get_u64_decimal cbs")
    case (Some p)
    then show ?thesis
      by (cases p; cases "snd p") (auto simp: parse_dotted_decimal_def)
  qed (simp add: parse_dotted_decimal_def)
  then show ?thesis
    using dot by (auto simp: CBS_get_u64_decimal_iff)
qed

lemma parse_dotted_decimal_shorter: "parse_dotted_decimal cbs = Some (v, rest) \<Longrightarrow> length rest < length cbs"
proof -
  have "decimal (unat v) \<noteq> []"
    by (subst decimal.simps) simp
  then show "parse_dotted_decimal cbs = Some (v, rest) \<Longrightarrow> ?thesis"
    by (auto simp: parse_dotted_decimal_iff split: if_splits)
qed

function oid_from_text_loop :: "ralloc \<Rightarrow> nat \<Rightarrow> CBS \<Rightarrow> CBB \<Rightarrow> bool \<times> CBB" where
  "oid_from_text_loop ralloc d cbs s =
     (if length cbs > 0 then
        case parse_dotted_decimal cbs of
          None \<Rightarrow> (False, s)
        | Some (a, cbs) \<Rightarrow> cbb_and (add_base128_integer ralloc d a s) (oid_from_text_loop ralloc d cbs)
      else (True, s))"
  by pat_completeness auto
termination
  by (relation "measure (\<lambda>(ralloc, d, cbs, s). length cbs)") (auto dest: parse_dotted_decimal_shorter)

declare oid_from_text_loop.simps [simp del]

definition CBB_add_asn1_oid_from_text :: "ralloc \<Rightarrow> nat \<Rightarrow> bytes \<Rightarrow> CBB \<Rightarrow> bool \<times> CBB" where
  "CBB_add_asn1_oid_from_text ralloc d txt s =
     cbb_and (CBB_flush ralloc d s) (\<lambda>s.
       case parse_dotted_decimal txt of
         None \<Rightarrow> (False, s)
       | Some (a, cbs) \<Rightarrow>
           (case parse_dotted_decimal cbs of
              None \<Rightarrow> (False, s)
            | Some (b, cbs) \<Rightarrow>
                if a > 2 \<or> (a < 2 \<and> b > 39) \<or> b > (- 1) - 80 then (False, s)
                else cbb_and (add_base128_integer ralloc d (40 * a + b) s) (oid_from_text_loop ralloc d cbs)))"

definition add_decimal :: "ralloc \<Rightarrow> nat \<Rightarrow> u64 \<Rightarrow> CBB \<Rightarrow> bool \<times> CBB" where
  "add_decimal ralloc d v s = CBB_add_bytes ralloc d (decimal (unat v)) s"

lemma parse_base128_integer_shorter:
  "parse_base128_integer cbs = Some (v, rest) \<Longrightarrow> length rest < length cbs"
  by (auto simp: parse_base128_integer_iff base128_def)

function oid_to_text_loop :: "ralloc \<Rightarrow> CBS \<Rightarrow> CBB \<Rightarrow> bool \<times> CBB" where
  "oid_to_text_loop ralloc copy s =
     (if length copy \<noteq> 0 then
        case parse_base128_integer copy of
          None \<Rightarrow> (False, s)
        | Some (v, copy) \<Rightarrow>
            cbb_and (cbb_and (CBB_add_u8 ralloc 0 46 s) (add_decimal ralloc 0 v)) (oid_to_text_loop ralloc copy)
      else (True, s))"
  by pat_completeness auto
termination
  by (relation "measure (\<lambda>(ralloc, copy, s). length copy)") (auto dest: parse_base128_integer_shorter)

declare oid_to_text_loop.simps [simp del]

definition CBS_asn1_oid_to_text :: "(u64 \<Rightarrow> bytes option) \<Rightarrow> CBS \<Rightarrow> bytes option" where
  "CBS_asn1_oid_to_text malloc cbs = do {
     s \<leftarrow> CBB_init malloc 32;
     let ralloc = realloc_data malloc;
     (v, copy) \<leftarrow> parse_base128_integer cbs;
     let r = (if v \<ge> 80
              then cbb_and (CBB_add_bytes ralloc 0 [50, 46] s) (add_decimal ralloc 0 (v - 80))
              else cbb_and (cbb_and (add_decimal ralloc 0 (v div 40) s) (CBB_add_u8 ralloc 0 46))
                     (add_decimal ralloc 0 (v mod 40)));
     let (ok, s) = cbb_and (cbb_and r (oid_to_text_loop ralloc copy)) (CBB_add_u8 ralloc 0 0);
     if \<not> ok then None
     else case CBB_finish ralloc 0 True s of
            (None, _) \<Rightarrow> None
          | (Some (txt, txt_len), _) \<Rightarrow> Some txt
   }"

text \<open>The reference form of an object identifier with the given arcs.\<close>

definition dotted_tail :: "nat list \<Rightarrow> bytes" where
  "dotted_tail arcs = concat (map (\<lambda>a. 46 # decimal a) arcs)"

definition dotted :: "nat list \<Rightarrow> bytes" where
  "dotted arcs = tl (dotted_tail arcs)"

lemma dotted_Cons: "dotted (a # arcs) = decimal a @ dotted_tail arcs"
  by (simp add: dotted_def dotted_tail_def)

lemma dotted_tail_Cons: "dotted_tail (a # arcs) = 46 # dotted (a # arcs)"
  by (simp add: dotted_def dotted_tail_def)

subsection \<open>What the writers write\<close>

lemma writes_and_in: "writes f d v \<Longrightarrow> writes_in g d w \<Longrightarrow> writes (\<lambda>s. cbb_and (f s) g) d (v @ w)"
proof (rule writesI)
  fix s fs s'
  assume f: "writes f d v" and g: "writes_in g d w" and r: "repr s fs" and "cbb_and (f s) g = (True, s')"
  then obtain s1 where s1: "f s = (True, s1)" and s': "g s1 = (True, s')"
    by (auto simp: cbb_and_True_iff)
  have d: "d < length fs" "repr s1 (append_frames d v fs)"
    using writesD [OF f r s1] by auto
  show "d < length fs \<and> repr s' (append_frames d (v @ w) fs)"
    using writes_inD [OF g d(2) _ s'] d(1) by simp
qed

lemma length_decimal_le: "n < 10 ^ Suc k \<Longrightarrow> length (decimal n) \<le> Suc k"
proof (induction k arbitrary: n)
  case 0
  then show ?case by (simp add: decimal_digit)
next
  case (Suc k)
  show ?case
  proof (cases "n < 10")
    case False
    then have "length (decimal (n div 10)) \<le> Suc k"
      using Suc by (simp add: less_mult_imp_div_less mult.commute)
    then show ?thesis
      using False by (subst decimal.simps) simp
  qed (simp add: decimal_digit)
qed

lemma length_decimal_u64: "length (decimal (unat (v :: u64))) < 2 ^ 64"
proof -
  have "length (decimal (unat v)) \<le> Suc 19"
    using unat_less [of v] by (intro length_decimal_le) simp
  then show ?thesis by simp
qed

context heap_realloc
begin

lemma from_text_loop_ok:
  "oid_from_text_loop ralloc d cbs s = (True, s') \<Longrightarrow> repr s fs \<Longrightarrow> Suc d = length fs \<Longrightarrow>
     \<exists>arcs. (\<forall>a \<in> set arcs. a < 2 ^ 64) \<and> cbs = dotted arcs \<and> repr s' (append_frames d (oid_contents arcs) fs)"
proof (induction "length cbs" arbitrary: cbs s fs rule: less_induct)
  case less
  show ?case
  proof (cases "cbs = []")
    case True
    then show ?thesis
      using less.prems by (intro exI [of _ "[]"])
        (simp add: oid_from_text_loop.simps dotted_def dotted_tail_def oid_contents_def append_frames_innermost)
  next
    case False
    then obtain a cbs' s1 where p: "parse_dotted_decimal cbs = Some (a, cbs')"
      and s1: "add_base128_integer ralloc d a s = (True, s1)"
      and loop: "oid_from_text_loop ralloc d cbs' s1 = (True, s')"
      using less.prems(1)
      by (auto simp: oid_from_text_loop.simps [of ralloc d cbs] cbb_and_True_iff split: option.splits)
    have r1: "repr s1 (append_frames d (base128 (unat a)) fs)"
      using writesD [OF writes_base128 less.prems(2) s1] by simp
    obtain arcs where arcs: "\<forall>a \<in> set arcs. a < 2 ^ 64" "cbs' = dotted arcs"
      "repr s' (append_frames d (oid_contents arcs) (append_frames d (base128 (unat a)) fs))"
      using less.hyps [OF parse_dotted_decimal_shorter [OF p] loop r1] less.prems(3) by auto
    have "cbs = dotted (unat a # arcs)"
    proof (cases arcs)
      case Nil
      then show ?thesis
        using p arcs(2) by (simp add: parse_dotted_decimal_iff dotted_def dotted_tail_def)
    next
      case (Cons b bs)
      then have "cbs' \<noteq> []"
        using arcs(2) decimal.simps [of b] by (auto simp: dotted_Cons)
      then show ?thesis
        using p arcs(2) Cons by (simp add: parse_dotted_decimal_iff dotted_Cons [of "unat a"] dotted_tail_Cons)
    qed
    moreover have "unat a < 2 ^ 64"
      using unat_less [of a] by simp
    ultimately show ?thesis
      using arcs less.prems(3) by (intro exI [of _ "unat a # arcs"]) (simp add: oid_contents_def)
  qed
qed

end

text \<open>The first encoded arc holds the first two components.\<close>

definition oid_head_ok :: "nat \<Rightarrow> nat \<Rightarrow> bool" where
  "oid_head_ok a b \<longleftrightarrow> a \<le> 2 \<and> (a < 2 \<longrightarrow> b \<le> 39) \<and> 40 * a + b < 2 ^ 64"

lemma oid_head_values:
  fixes a b :: u64
  assumes "\<not> (a > 2 \<or> (a < 2 \<and> b > 39) \<or> b > (- 1) - 80)"
  shows "oid_head_ok (unat a) (unat b)" "unat (40 * a + b) = 40 * unat a + unat b"
proof -
  have "(- 1) - (80 :: u64) = 18446744073709551535"
    by simp
  then have h: "unat a \<le> 2" "unat a < 2 \<Longrightarrow> unat b \<le> 39" "unat b \<le> 18446744073709551535"
    using assms by (auto simp: word_less_nat_alt)
  then have lt: "40 * unat a + unat b < 2 ^ 64"
    by simp
  then show "oid_head_ok (unat a) (unat b)"
    using h by (simp add: oid_head_ok_def)
  have "unat (40 * a) = 40 * unat a"
    using h(1) by (simp add: unat_word_ariths)
  then show "unat (40 * a + b) = 40 * unat a + unat b"
    using lt by (simp add: unat_word_ariths)
qed

lemma oid_head_decode:
  assumes "oid_head_ok a b"
  shows "a = (if 80 \<le> 40 * a + b then 2 else (40 * a + b) div 40)"
    and "b = (if 80 \<le> 40 * a + b then 40 * a + b - 80 else (40 * a + b) mod 40)"
proof -
  have "a = 0 \<or> a = 1 \<or> a = 2"
    using assms by (auto simp: oid_head_ok_def)
  then show "a = (if 80 \<le> 40 * a + b then 2 else (40 * a + b) div 40)"
    and "b = (if 80 \<le> 40 * a + b then 40 * a + b - 80 else (40 * a + b) mod 40)"
    using assms by (auto simp: oid_head_ok_def)
qed

context heap_realloc
begin

lemma from_text_ok:
  assumes "CBB_add_asn1_oid_from_text ralloc d txt s = (True, s')" "repr s fs"
  shows "\<exists>a b arcs. oid_head_ok a b \<and> b < 2 ^ 64 \<and> (\<forall>x \<in> set arcs. x < 2 ^ 64) \<and> txt = dotted (a # b # arcs) \<and>
    d < length fs \<and> repr s' (append_frames d (oid_contents ((40 * a + b) # arcs)) fs)"
proof -
  obtain s1 s2 a b cbs cbs' where fl: "CBB_flush ralloc d s = (True, s1)"
    and p1: "parse_dotted_decimal txt = Some (a, cbs)" and p2: "parse_dotted_decimal cbs = Some (b, cbs')"
    and ok: "\<not> (a > 2 \<or> (a < 2 \<and> b > 39) \<or> b > (- 1) - 80)"
    and s2: "add_base128_integer ralloc d (40 * a + b) s1 = (True, s2)"
    and loop: "oid_from_text_loop ralloc d cbs' s2 = (True, s')"
  proof -
    obtain s1 where fl: "CBB_flush ralloc d s = (True, s1)" and *: "(case parse_dotted_decimal txt of
         None \<Rightarrow> (False, s1)
       | Some (a, cbs) \<Rightarrow>
           (case parse_dotted_decimal cbs of
              None \<Rightarrow> (False, s1)
            | Some (b, cbs) \<Rightarrow>
                if a > 2 \<or> (a < 2 \<and> b > 39) \<or> b > (- 1) - 80 then (False, s1)
                else cbb_and (add_base128_integer ralloc d (40 * a + b) s1) (oid_from_text_loop ralloc d cbs)))
        = (True, s')"
      using assms(1) by (auto simp: CBB_add_asn1_oid_from_text_def cbb_and_True_iff)
    then obtain a cbs where p1: "parse_dotted_decimal txt = Some (a, cbs)"
      by (cases "parse_dotted_decimal txt") auto
    with * obtain b cbs' where p2: "parse_dotted_decimal cbs = Some (b, cbs')"
      by (cases "parse_dotted_decimal cbs") auto
    show thesis
      using * that [OF fl p1 p2] by (auto simp: p1 p2 cbb_and_True_iff split: if_splits)
  qed
  note head = oid_head_values [OF ok]
  have d: "d < length fs" and r1: "repr s1 (append_frames d [] fs)"
    using writesD [OF writes_flush assms(2) fl] by auto
  have r2: "repr s2 (append_frames d (base128 (40 * unat a + unat b)) fs)"
    using writesD [OF writes_base128 r1 s2] d by (simp only: head append_frames_append append_Nil)
  obtain arcs where arcs: "\<forall>x \<in> set arcs. x < 2 ^ 64" "cbs' = dotted arcs"
    "repr s' (append_frames d (oid_contents arcs) (append_frames d (base128 (40 * unat a + unat b)) fs))"
    using from_text_loop_ok [OF loop r2] d by auto
  have ne: "decimal n \<noteq> []" for n
    by (subst decimal.simps) simp
  have cbs: "cbs = dotted (unat b # arcs)"
  proof (cases arcs)
    case Nil
    then show ?thesis
      using p2 arcs(2) by (simp add: parse_dotted_decimal_iff dotted_def dotted_tail_def)
  next
    case (Cons x xs)
    then have "cbs' \<noteq> []"
      using arcs(2) ne by (simp add: dotted_Cons)
    then show ?thesis
      using p2 arcs(2) Cons by (simp add: parse_dotted_decimal_iff dotted_Cons [of "unat b"] dotted_tail_Cons)
  qed
  then have "cbs \<noteq> []"
    using ne by (simp add: dotted_Cons)
  then have "txt = dotted (unat a # unat b # arcs)"
    using p1 cbs by (simp add: parse_dotted_decimal_iff dotted_Cons [of "unat a"] dotted_tail_Cons)
  moreover have "unat b < 2 ^ 64"
    using unat_less [of b] by simp
  ultimately show ?thesis
    using head(1) arcs d by (intro exI [of _ "unat a"] exI [of _ "unat b"] exI [of _ arcs]) (simp add: oid_contents_def)
qed

lemma writes_decimal: "writes (add_decimal ralloc d v) d (decimal (unat v))"
  unfolding add_decimal_def [abs_def] by (rule writes_bytes [OF length_decimal_u64])

lemma to_text_loop_ok:
  "oid_to_text_loop ralloc copy s = (True, s') \<Longrightarrow> repr s fs \<Longrightarrow> Suc 0 = length fs \<Longrightarrow>
     \<exists>arcs. (\<forall>a \<in> set arcs. a < 2 ^ 64) \<and> copy = oid_contents arcs \<and> repr s' (append_frames 0 (dotted_tail arcs) fs)"
proof (induction "length copy" arbitrary: copy s fs rule: less_induct)
  case less
  show ?case
  proof (cases "copy = []")
    case True
    then show ?thesis
      using less.prems by (intro exI [of _ "[]"])
        (simp add: oid_to_text_loop.simps dotted_tail_def oid_contents_def append_frames_innermost)
  next
    case False
    then obtain v copy' s1 where p: "parse_base128_integer copy = Some (v, copy')"
      and s1: "cbb_and (CBB_add_u8 ralloc 0 46 s) (add_decimal ralloc 0 v) = (True, s1)"
      and loop: "oid_to_text_loop ralloc copy' s1 = (True, s')"
      using less.prems(1)
      by (auto simp: oid_to_text_loop.simps [of ralloc copy] cbb_and_True_iff split: option.splits)
    have r1: "repr s1 (append_frames 0 ([46] @ decimal (unat v)) fs)"
      using writesD [OF writes_and [OF writes_u8 writes_decimal] less.prems(2) s1] by simp
    obtain arcs where arcs: "\<forall>a \<in> set arcs. a < 2 ^ 64" "copy' = oid_contents arcs"
      "repr s' (append_frames 0 (dotted_tail arcs) (append_frames 0 ([46] @ decimal (unat v)) fs))"
      using less.hyps [OF parse_base128_integer_shorter [OF p] loop r1] less.prems(3) [symmetric] by auto
    have "copy = oid_contents (unat v # arcs)"
      using p arcs(2) by (simp add: parse_base128_integer_iff oid_contents_def)
    moreover have "unat v < 2 ^ 64"
      using unat_less [of v] by simp
    moreover have "repr s' (append_frames 0 (dotted_tail (unat v # arcs)) fs)"
      using arcs(3) less.prems(3) [symmetric] by (simp add: dotted_tail_def)
    ultimately show ?thesis
      using arcs(1) by (intro exI [of _ "unat v # arcs"]) simp
  qed
qed

end

subsection \<open>Text to encoding and back\<close>

lemma base128_prefix_inj:
  assumes "base128 x @ r = base128 y @ r'" "x < 2 ^ 64" "y < 2 ^ 64"
  shows "x = y" "r = r'"
proof -
  have "Some (word_of_nat x :: u64, r) = Some (word_of_nat y, r')"
    using parse_base128_integer_complete [OF assms(2)] parse_base128_integer_complete [OF assms(3)] assms(1)
    by metis
  then have "unat (word_of_nat x :: u64) = unat (word_of_nat y :: u64)" and "r = r'"
    by simp_all
  moreover have "unat (word_of_nat x :: u64) = x" "unat (word_of_nat y :: u64) = y"
    by (rule unat_word_of_nat, use assms(2,3) in simp)+
  ultimately show "x = y" "r = r'"
    by simp_all
qed

lemma oid_contents_Cons: "oid_contents (x # xs) = base128 x @ oid_contents xs"
  by (simp add: oid_contents_def)

lemma oid_contents_Nil_iff: "oid_contents xs = [] \<longleftrightarrow> xs = []"
  by (cases xs) (simp_all add: oid_contents_def base128_def)

lemma oid_contents_inj:
  "oid_contents xs = oid_contents ys \<Longrightarrow> \<forall>x \<in> set xs. x < 2 ^ 64 \<Longrightarrow> \<forall>y \<in> set ys. y < 2 ^ 64 \<Longrightarrow> xs = ys"
proof (induction xs arbitrary: ys)
  case Nil
  then show ?case
    using oid_contents_Nil_iff [of ys] by (simp add: oid_contents_def)
next
  case (Cons x xs)
  then obtain y ys' where ys: "ys = y # ys'"
    using oid_contents_Nil_iff [of "x # xs"] oid_contents_Nil_iff [of ys] by (cases ys) auto
  have eq: "base128 x @ oid_contents xs = base128 y @ oid_contents ys'" and lt: "x < 2 ^ 64" "y < 2 ^ 64"
    using Cons.prems by (simp_all add: ys oid_contents_Cons)
  show ?case
    using base128_prefix_inj [OF eq lt] Cons.IH [of ys'] Cons.prems(2,3) by (simp add: ys)
qed

lemma to_text_ok:
  assumes m: "libc_malloc malloc" and t: "CBS_asn1_oid_to_text malloc cbs = Some txt"
    and cbs: "cbs = oid_contents ((40 * a + b) # arcs)"
    and ab: "oid_head_ok a b" "\<forall>x \<in> set arcs. x < 2 ^ 64"
  shows "\<exists>junk. txt = dotted (a # b # arcs) @ [0] @ junk"
proof -
  define ra where "ra = realloc_data malloc"
  note h = libc_malloc.realloc_heap [OF m, folded ra_def]
  have lt: "40 * a + b < 2 ^ 64"
    using ab by (simp add: oid_head_ok_def)
  define v where "v = (word_of_nat (40 * a + b) :: u64)"
  have v: "unat v = 40 * a + b"
    unfolding v_def using lt by (intro unat_word_of_nat) simp
  have p: "parse_base128_integer cbs = Some (v, oid_contents arcs)"
    using parse_base128_integer_complete [OF lt] by (simp add: cbs oid_contents_def v_def)
  define r where "r = (\<lambda>s. if v \<ge> 80
              then cbb_and (CBB_add_bytes ra 0 [50, 46] s) (add_decimal ra 0 (v - 80))
              else cbb_and (cbb_and (add_decimal ra 0 (v div 40) s) (CBB_add_u8 ra 0 46))
                     (add_decimal ra 0 (v mod 40)))"
  obtain s0 s1 s2 s3 s4 l where init: "CBB_init malloc 32 = Some s0" and s1: "r s0 = (True, s1)"
    and s2: "oid_to_text_loop ra (oid_contents arcs) s1 = (True, s2)" and s3: "CBB_add_u8 ra 0 0 s2 = (True, s3)"
    and fin: "CBB_finish ra 0 True s3 = (Some (txt, l), s4)"
  proof -
    obtain s0 where init: "CBB_init malloc 32 = Some s0"
      using t by (auto simp: CBS_asn1_oid_to_text_def bind_eq_Some_iff)
    obtain ok s3 where w: "cbb_and (cbb_and (r s0) (oid_to_text_loop ra (oid_contents arcs))) (CBB_add_u8 ra 0 0) = (ok, s3)"
      by fastforce
    obtain o4 s4 where f: "CBB_finish ra 0 True s3 = (o4, s4)"
      by fastforce
    have "(if \<not> ok then None else case o4 of None \<Rightarrow> None | Some (txt, txt_len) \<Rightarrow> Some txt) = Some txt"
      using t w f unfolding CBS_asn1_oid_to_text_def r_def init p ra_def [symmetric] Let_def
      by (cases ok) auto
    then obtain l where "ok" "o4 = Some (txt, l)"
      by (auto split: if_splits option.splits)
    then show thesis
      using that [OF init] w f by (auto simp: cbb_and_True_iff)
  qed
  have wr: "writes r 0 (decimal a @ 46 # decimal b)"
  proof (cases "80 \<le> 40 * a + b")
    case True
    have "a = 2" and "unat (v - 80) = b"
      using oid_head_decode [OF ab(1)] True v by (simp_all add: unat_sub word_le_nat_alt)
    moreover have "r = (\<lambda>s. cbb_and (CBB_add_bytes ra 0 [50, 46] s) (add_decimal ra 0 (v - 80)))"
      using True v by (simp add: r_def word_le_nat_alt)
    moreover have "writes (CBB_add_bytes ra 0 [50, 46]) 0 [50, 46]"
      by (rule heap_realloc.writes_bytes [OF h]) simp
    ultimately show ?thesis
      using writes_and [OF _ heap_realloc.writes_decimal [OF h], of "CBB_add_bytes ra 0 [50, 46]" 0 "[50, 46]" "v - 80"]
      by (simp add: decimal_digit)
  next
    case False
    have "unat (v div 40) = a" and "unat (v mod 40) = b"
      using oid_head_decode [OF ab(1)] False v by (simp_all add: unat_div unat_mod)
    moreover have "r = (\<lambda>s. cbb_and (cbb_and (add_decimal ra 0 (v div 40) s) (CBB_add_u8 ra 0 46))
                     (add_decimal ra 0 (v mod 40)))"
      using False v by (simp add: r_def word_le_nat_alt)
    ultimately show ?thesis
      using writes_and [OF writes_and [OF heap_realloc.writes_decimal [OF h] heap_realloc.writes_u8 [OF h]]
          heap_realloc.writes_decimal [OF h], of 0 "v div 40" 46 "v mod 40"]
      by simp
  qed
  have r1: "repr s1 [((0, False), decimal a @ 46 # decimal b)]"
    using writesD [OF wr libc_malloc.repr_init [OF m init] s1] by (simp add: append_frames_def)
  obtain arcs' where arcs': "\<forall>a \<in> set arcs'. a < 2 ^ 64" "oid_contents arcs = oid_contents arcs'"
    "repr s2 (append_frames 0 (dotted_tail arcs') [((0, False), decimal a @ 46 # decimal b)])"
    using heap_realloc.to_text_loop_ok [OF h s2 r1] by auto
  then have "arcs' = arcs"
    using oid_contents_inj ab(2) by blast
  then have "repr s2 [((0, False), dotted (a # b # arcs))]"
    using arcs'(3) by (simp add: append_frames_def dotted_Cons dotted_tail_Cons)
  then have r3: "repr s3 [((0, False), dotted (a # b # arcs) @ [0])]"
    using writesD [OF heap_realloc.writes_u8 [OF h] _ s3] by (fastforce simp: append_frames_def)
  then have "CBB_flush ra 0 s3 = (True, s3)"
    by (subst CBB_flush.simps) (simp add: repr_def)
  then have "txt = buf (base s3)"
    using fin by (auto simp: CBB_finish_def)
  with r3 have "take (unat (len (base s3))) txt = dotted (a # b # arcs) @ [0]"
    by (simp add: repr_def)
  then show ?thesis
    using append_take_drop_id [of "unat (len (base s3))" "txt"] by (metis append_assoc)
qed

subsection \<open>SET OF\<close>

definition compare_set_of_element :: "bytes \<Rightarrow> bytes \<Rightarrow> int" where
  "compare_set_of_element a b =
     (let a_len = length a; b_len = length b;
          min_len = (if a_len < b_len then a_len else b_len);
          ret = memcmp a b min_len
      in if ret \<noteq> 0 then ret
         else if a_len = b_len then 0
         else if a_len < b_len then - 1 else 1)"

text \<open>\<open>qsort\<close>: elements that compare equal here are equal, so the result does not depend on the algorithm.\<close>

fun qsort_insert :: "('a \<Rightarrow> 'a \<Rightarrow> int) \<Rightarrow> 'a \<Rightarrow> 'a list \<Rightarrow> 'a list" where
  "qsort_insert cmp x [] = [x]"
| "qsort_insert cmp x (y # ys) = (if cmp x y \<le> 0 then x # y # ys else y # qsort_insert cmp x ys)"

definition qsort :: "('a \<Rightarrow> 'a \<Rightarrow> int) \<Rightarrow> 'a list \<Rightarrow> 'a list" where
  "qsort cmp xs = foldr (qsort_insert cmp) xs []"

lemma CBS_get_any_asn1_element_shorter:
  "CBS_get_any_asn1_element cbs = Some (out, t, n, rest) \<Longrightarrow> length rest < length cbs"
  using der_length_Cons by (auto simp: CBS_get_any_asn1_element_iff der_element_def der_tag_def)

function split_asn1_elements :: "CBS \<Rightarrow> CBS list option" where
  "split_asn1_elements cbs =
     (if length cbs \<noteq> 0 then
        case CBS_get_any_asn1_element cbs of
          None \<Rightarrow> None
        | Some (out, tag, header_len, cbs) \<Rightarrow>
            (case split_asn1_elements cbs of None \<Rightarrow> None | Some es \<Rightarrow> Some (out # es))
      else Some [])"
  by pat_completeness auto
termination
  by (relation "measure length") (auto dest: CBS_get_any_asn1_element_shorter)

declare split_asn1_elements.simps [simp del]

definition CBB_flush_asn1_set_of :: "(u64 \<Rightarrow> bytes option) \<Rightarrow> nat \<Rightarrow> CBB \<Rightarrow> bool \<times> CBB" where
  "CBB_flush_asn1_set_of malloc d s =
     cbb_and (CBB_flush (realloc_data malloc) d s) (\<lambda>s.
       let data = take (unat (CBB_len d s)) (drop (CBB_data d s) (buf (base s)))
       in case split_asn1_elements data of
            None \<Rightarrow> (False, s)
          | Some es \<Rightarrow>
              let num_children = length es
              in if num_children < 2 then (True, s)
                 else let buf_len = CBB_len d s;
                          copy = OPENSSL_memdup malloc data buf_len;
                          children_mem = OPENSSL_calloc malloc (word_of_nat num_children) 16
                      in case (copy, children_mem) of
                           (Some p, Some _) \<Rightarrow>
                             (case split_asn1_elements (ptr_data p) of
                                None \<Rightarrow> (False, s)
                              | Some cs \<Rightarrow> (True, cbb_write_at (CBB_data d s) (concat (qsort compare_set_of_element cs)) s))
                         | _ \<Rightarrow> (False, s))"

text \<open>The comparison is the lexicographic order of X.690, section 11.6.\<close>

fun lex_less :: "bytes \<Rightarrow> bytes \<Rightarrow> bool" where
  "lex_less as [] = False"
| "lex_less [] (b # bs) = True"
| "lex_less (a # as) (b # bs) = (a < b \<or> a = b \<and> lex_less as bs)"

lemma compare_set_of_element_iff:
  "(compare_set_of_element a b < 0 \<longleftrightarrow> lex_less a b) \<and> (compare_set_of_element a b = 0 \<longleftrightarrow> a = b)"
proof (induction a b rule: lex_less.induct)
  case (3 a as b bs)
  have "compare_set_of_element (a # as) (b # bs) =
      (if a < b then - 1 else if b < a then 1 else compare_set_of_element as bs)"
    by (auto simp: compare_set_of_element_def Let_def)
  then show ?case
    using 3 by auto
qed (auto simp: compare_set_of_element_def Let_def)

lemma lex_less_trans: "lex_less a b \<Longrightarrow> lex_less b c \<Longrightarrow> lex_less a c"
proof (induction a b arbitrary: c rule: lex_less.induct)
  case (2 b bs)
  then show ?case by (cases c) auto
next
  case (3 a as b bs)
  then show ?case by (cases c) auto
qed simp

lemma lex_less_linear: "lex_less a b \<or> a = b \<or> lex_less b a"
  by (induction a b rule: lex_less.induct) (auto, (metis neq_Nil_conv lex_less.simps)+)

definition lex_le :: "bytes \<Rightarrow> bytes \<Rightarrow> bool" where
  "lex_le a b \<longleftrightarrow> a = b \<or> lex_less a b"

lemma compare_le_iff: "compare_set_of_element a b \<le> 0 \<longleftrightarrow> lex_le a b"
  using compare_set_of_element_iff [of a b] by (auto simp: lex_le_def)

lemma lex_le_total: "\<not> lex_le a b \<Longrightarrow> lex_le b a"
  using lex_less_linear [of a b] by (auto simp: lex_le_def)

lemma lex_le_trans: "lex_le a b \<Longrightarrow> lex_le b c \<Longrightarrow> lex_le a c"
  using lex_less_trans by (auto simp: lex_le_def)

lemma mset_qsort_insert: "mset (qsort_insert cmp x ys) = add_mset x (mset ys)"
  by (induction ys) auto

lemma mset_qsort: "mset (qsort cmp xs) = mset xs"
  by (induction xs) (simp_all add: qsort_def mset_qsort_insert)

lemma set_qsort_insert: "set (qsort_insert cmp x ys) = insert x (set ys)"
  by (induction ys) auto

lemma sorted_qsort_insert:
  "sorted_wrt lex_le ys \<Longrightarrow> sorted_wrt lex_le (qsort_insert compare_set_of_element x ys)"
proof (induction ys)
  case (Cons y ys)
  then show ?case
    by (auto simp: compare_le_iff set_qsort_insert intro: lex_le_trans lex_le_total)
qed simp

lemma sorted_qsort: "sorted_wrt lex_le (qsort compare_set_of_element xs)"
  by (induction xs) (simp_all add: qsort_def sorted_qsort_insert)

lemma split_asn1_elements_ok:
  "split_asn1_elements cbs = Some es \<Longrightarrow>
     cbs = concat es \<and> (\<forall>e \<in> set es. \<exists>t body. valid_tag t \<and> length body < 2 ^ 32 \<and> e = der_element t body)"
proof (induction cbs arbitrary: es rule: split_asn1_elements.induct)
  case (1 cbs)
  show ?case
  proof (cases "cbs = []")
    case True
    then show ?thesis using "1.prems" by (simp add: split_asn1_elements.simps)
  next
    case False
    then obtain out t n rest es' where g: "CBS_get_any_asn1_element cbs = Some (out, t, n, rest)"
      and es': "split_asn1_elements rest = Some es'" and es: "es = out # es'"
      using "1.prems" by (auto simp: split_asn1_elements.simps [of cbs] split: option.splits)
    have IH: "rest = concat es' \<and> (\<forall>e \<in> set es'. \<exists>t body. valid_tag t \<and> length body < 2 ^ 32 \<and> e = der_element t body)"
      using "1.IH" [of "(out, t, n, rest)" out "(t, n, rest)" t "(n, rest)" n rest es'] False g es' by simp
    obtain body where "valid_tag t" "length body < 2 ^ 32" "cbs = out @ rest" "out = der_element t body"
      using g by (auto simp: CBS_get_any_asn1_element_iff)
    then show ?thesis
      using IH by (auto simp: es)
  qed
qed

text \<open>Where the contents of the innermost builder lie in the buffer.\<close>

lemma innermost_contents:
  assumes r: "repr s (fs @ [(k, w)])"
  obtains R where "buf (base s) = layout (fs @ [(k, [])]) @ w @ R"
    "CBB_data (length fs) s = length (layout (fs @ [(k, [])]))" "unat (CBB_len (length fs) s) = length w"
proof -
  obtain n a where k: "k = (n, a)" by fastforce
  define P where "P = layout (fs @ [(k, [])])"
  have lay: "layout (fs @ [(k, w)]) = P @ w" and lenP: "length P = length (layout fs) + n"
    by (simp_all add: P_def k layout_append)
  have ok: "buffer_ok (base s)" and D: "take (unat (len (base s))) (buf (base s)) = P @ w"
    using r by (simp_all add: repr_def lay)
  obtain R where R: "buf (base s) = (P @ w) @ R" "length (P @ w) = unat (len (base s))"
    using buffer_split [OF ok D] by metis
  have lt: "length P + length w < 2 ^ 64"
    using R(2) unat_less [of "len (base s)"] by simp
  have "CBB_data (length fs) s = length P \<and> unat (CBB_len (length fs) s) = length w"
  proof (cases fs)
    case Nil
    then have "P = []"
      using r by (simp add: repr_def P_def)
    then show ?thesis
      using R(2) Nil by (simp add: CBB_data_def CBB_len_def)
  next
    case (Cons f fs')
    define c where "c = children s ! length fs'"
    have "c = chain 0 (fs @ [(k, w)]) ! Suc (length fs')"
      unfolding c_def using r by (rule repr_child) (simp add: Cons)
    then have c: "c = \<lparr>offset = word_of_nat (length (layout fs)), pending_len_len = word_of_nat n, pending_is_asn1 = a\<rparr>"
      by (simp add: chain_nth Cons k nth_append)
    have n: "n < 256"
      using r by (simp add: repr_def kind_ok_def k)
    have u: "unat (offset c) = length (layout fs)" "unat (pending_len_len c) = n"
      using lt lenP n by (simp_all add: c unat_word_of_nat)
    then have "unat (offset c + ucast (pending_len_len c)) = length P"
      using lt by (simp add: unat_word_ariths unat_ucast_widen lenP)
    moreover have "unat (len (base s) - offset c - ucast (pending_len_len c)) = length w"
    proof -
      have "unat (len (base s) - offset c) = length w + n"
        using R(2) u(1) lenP by (subst unat_sub) (simp_all add: word_le_nat_alt)
      then show ?thesis
        using u(2) by (subst unat_sub) (simp_all add: word_le_nat_alt unat_ucast_widen)
    qed
    ultimately show ?thesis
      by (simp add: CBB_data_def CBB_len_def Cons c_def)
  qed
  then show thesis
    using that [of R] R(1) by (simp add: P_def)
qed

lemma repr_overwrite:
  assumes r: "repr s (fs @ [(k, w)])" and b: "buf (base s) = layout (fs @ [(k, [])]) @ w @ R"
    and v: "length v = length w"
  shows "repr (cbb_write_at (length (layout (fs @ [(k, [])]))) v s) (fs @ [(k, v)])"
proof -
  define P where "P = layout (fs @ [(k, [])])"
  have lay: "layout (fs @ [(k, x)]) = P @ x" for x
    by (cases k) (simp add: P_def layout_append)
  have ch: "chain 0 (fs @ [(k, v)]) = chain 0 (fs @ [(k, w)])"
    by (cases k) (simp add: chain_append)
  have l: "unat (len (base s)) = length P + length v"
    using repr_len [OF r] v by (simp add: lay)
  define b' where "b' = base (cbb_write_at (length P) v s)"
  have b': "b' = (base s)\<lparr>buf := P @ v @ R\<rparr>" and s': "cbb_write_at (length P) v s = s\<lparr>base := b'\<rparr>"
    using v by (simp_all add: b'_def cbb_write_at_def b P_def [symmetric])
  have "buffer_ok b' \<and> take (unat (len b')) (buf b') = P @ v"
    using r l v by (intro buffer_okI [of _ _ R]) (simp_all add: b' repr_def buffer_ok_def b P_def [symmetric])
  moreover have "fst (hd (fs @ [(k, v)])) = fst (hd (fs @ [(k, w)]))"
    by (cases fs) simp_all
  ultimately show ?thesis
    using r unfolding P_def [symmetric] s' by (simp add: repr_def lay ch b')
qed

lemma CBB_flush_asn1_set_of_ok:
  assumes m: "libc_malloc malloc" and r: "repr s fs"
    and f: "CBB_flush_asn1_set_of malloc d s = (True, s')"
  shows "\<exists>es es'. close (snd (fs ! d)) (drop (Suc d) fs) = concat es \<and>
    (\<forall>e \<in> set es. \<exists>t body. valid_tag t \<and> length body < 2 ^ 32 \<and> e = der_element t body) \<and>
    mset es' = mset es \<and> sorted_wrt lex_le es' \<and> d < length fs \<and>
    repr s' (take d fs @ [(fst (fs ! d), concat es')])"
proof -
  define ra where "ra = realloc_data malloc"
  note h = libc_malloc.realloc_heap [OF m, folded ra_def]
  obtain s1 where fl: "CBB_flush ra d s = (True, s1)"
    using f by (auto simp: CBB_flush_asn1_set_of_def cbb_and_True_iff ra_def)
  define k w where "k = fst (fs ! d)" and "w = close (snd (fs ! d)) (drop (Suc d) fs)"
  have d: "d < length fs" and r1: "repr s1 (take d fs @ [(k, w)])"
    using heap_realloc.CBB_flush_ok [OF h fl r] by (auto simp: flush_frames_def k_def w_def)
  have ld: "length (take d fs) = d"
    using d by simp
  obtain R where R: "buf (base s1) = layout (take d fs @ [(k, [])]) @ w @ R"
    "CBB_data d s1 = length (layout (take d fs @ [(k, [])]))" "unat (CBB_len d s1) = length w"
    using innermost_contents [OF r1] unfolding ld by metis
  have data: "take (unat (CBB_len d s1)) (drop (CBB_data d s1) (buf (base s1))) = w"
    by (simp add: R)
  obtain es where es: "split_asn1_elements w = Some es"
    using f by (auto simp: CBB_flush_asn1_set_of_def ra_def [symmetric] fl cbb_and_def data Let_def split: option.splits)
  note el = split_asn1_elements_ok [OF es]
  show ?thesis
  proof (cases "length es < 2")
    case True
    then have "s' = s1"
      using f by (simp add: CBB_flush_asn1_set_of_def ra_def [symmetric] fl cbb_and_def data es)
    moreover have "sorted_wrt lex_le es"
      using True by (cases es) auto
    ultimately show ?thesis
      using el d r1 by (intro exI [of _ es]) (simp add: k_def w_def)
  next
    case False
    obtain p where p: "OPENSSL_memdup malloc w (CBB_len d s1) = Some p"
      and s': "s' = cbb_write_at (CBB_data d s1) (concat (qsort compare_set_of_element es)) s1"
    proof -
      obtain p where p: "OPENSSL_memdup malloc w (CBB_len d s1) = Some p"
        using f False by (auto simp: CBB_flush_asn1_set_of_def ra_def [symmetric] fl cbb_and_def data es split: option.splits)
      have "ptr_data p = w"
        using libc_malloc.memdup_data [OF m p] R(3) by simp
      then show thesis
        using that [OF p] f False
        by (auto simp: CBB_flush_asn1_set_of_def ra_def [symmetric] fl cbb_and_def data es p split: option.splits)
    qed
    define es' where "es' = qsort compare_set_of_element es"
    have ms: "mset es' = mset es"
      by (simp add: es'_def mset_qsort)
    then have "length (concat es') = length (concat es)"
      by (metis length_concat mset_map sum_mset_sum_list)
    then have l: "length (concat es') = length w"
      using el by simp
    have "repr (cbb_write_at (CBB_data d s1) (concat es') s1) (take d fs @ [(k, concat es')])"
      unfolding R(2) using r1 R(1) l by (rule repr_overwrite)
    then show ?thesis
      using el d ms sorted_qsort [of es] by (intro exI [of _ es] exI [of _ es']) (simp add: k_def w_def es'_def s')
  qed
qed

subsection \<open>Properties\<close>

text \<open>
  C6: An object identifier written from text by \<open>CBB_add_asn1_oid_from_text\<close> is a valid encoding, and
  \<open>CBS_asn1_oid_to_text\<close> prints it back as the same text, NUL-terminated.
\<close>

theorem oid_text_roundtrip:
  assumes "libc_malloc malloc" and "CBB_init malloc n = Some s0"
    and "CBB_add_asn1_oid_from_text (realloc_data malloc) 0 oid s0 = (True, s1)"
    and "CBB_finish (realloc_data malloc) 0 True s1 = (Some (b, l), s2)"
    and "CBS_asn1_oid_to_text malloc (take (unat l) b) = Some out"
  shows "CBS_is_valid_asn1_oid (take (unat l) b) \<and> (\<exists>junk. out = oid @ [0] @ junk)"
proof -
  note h = libc_malloc.realloc_heap [OF assms(1)]
  obtain x y arcs where xy: "oid_head_ok x y" "\<forall>z \<in> set arcs. z < 2 ^ 64" "oid = dotted (x # y # arcs)"
    "repr s1 (append_frames 0 (oid_contents ((40 * x + y) # arcs)) [((0, False), [])])"
    using heap_realloc.from_text_ok [OF h assms(3) libc_malloc.repr_init [OF assms(1,2)]] by auto
  obtain s3 where fl: "CBB_flush (realloc_data malloc) 0 s1 = (True, s3)" and b: "b = buf (base s3)" "l = len (base s3)"
    using assms(4) by (auto simp: CBB_finish_def split: prod.splits if_splits)
  have "repr s3 (append_frames 0 (oid_contents ((40 * x + y) # arcs)) [((0, False), [])])"
    using writesD [OF heap_realloc.writes_flush [OF h] xy(4) fl] by simp
  then have bytes: "take (unat l) b = oid_contents ((40 * x + y) # arcs)"
    by (simp add: repr_def append_frames_def b)
  then show ?thesis
    using to_text_ok [OF assms(1,5) bytes xy(1,2)] xy(3) by (auto simp: CBS_is_valid_asn1_oid_iff)
qed

theorem oid_text_roundtrip_witness:
  "\<exists>junk out. CBS_asn1_oid_to_text (bounded_malloc 64) [42, 3] = Some out \<and> out = [49, 46, 50, 46, 51] @ [0] @ junk"
proof -
  define s0 where "s0 = \<lparr>base = \<lparr>buf = [0, 0], len = 0, cap = 2, can_resize = True, error = False\<rparr>, children = []\<rparr>"
  define s1 where "s1 = \<lparr>base = \<lparr>buf = [42, 3], len = 2, cap = 2, can_resize = True, error = False\<rparr>, children = []\<rparr>"
  have "CBB_init (bounded_malloc 64) 2 = Some s0"
    unfolding s0_def by code_simp
  moreover have "CBB_add_asn1_oid_from_text (realloc_data (bounded_malloc 64)) 0 [49, 46, 50, 46, 51] s0 = (True, s1)"
    unfolding s0_def s1_def by code_simp
  moreover have "CBB_finish (realloc_data (bounded_malloc 64)) 0 True s1 = (Some ([42, 3], 2), s1\<lparr>base := (base s1)\<lparr>buf := []\<rparr>\<rparr>)"
    unfolding s1_def by code_simp
  moreover have "CBS_asn1_oid_to_text (bounded_malloc 64) (take (unat (2 :: u64)) [42, 3]) =
      Some ([49, 46, 50, 46, 51, 0] @ replicate 26 0)"
    by code_simp
  ultimately show ?thesis
    using oid_text_roundtrip [OF bounded.libc_malloc_axioms, of 64 2 s0 "[49, 46, 50, 46, 51]"] by simp
qed

text \<open>
  C7: \<open>CBB_flush_asn1_set_of\<close> leaves a permutation of the DER elements that were written to the
  builder, in the ascending lexicographic order that X.690, section 11.6 requires, and changes nothing
  else in the buffer.
\<close>

theorem CBB_flush_asn1_set_of_sorts:
  assumes "libc_malloc malloc" and "repr s fs" and "CBB_flush_asn1_set_of malloc d s = (True, s')"
  shows "\<exists>es es'. close (snd (fs ! d)) (drop (Suc d) fs) = concat es \<and>
    list_all (\<lambda>e. \<exists>t body. valid_tag t \<and> length body < 2 ^ 32 \<and> e = der_element t body) es \<and>
    mset es' = mset es \<and> sorted_wrt lex_le es' \<and> d < length fs \<and>
    repr s' (take d fs @ [(fst (fs ! d), concat es')])"
  using CBB_flush_asn1_set_of_ok [OF assms] unfolding list_all_iff by blast

theorem CBB_flush_asn1_set_of_sorts_witness:
  "\<exists>es es'. [4, 1, 9, 4, 1, 5] = concat es \<and> mset es' = mset es \<and> sorted_wrt lex_le es' \<and>
     repr (snd (CBB_flush_asn1_set_of (bounded_malloc 64) 0
       \<lparr>base = \<lparr>buf = [4, 1, 9, 4, 1, 5], len = 6, cap = 6, can_resize = True, error = False\<rparr>, children = []\<rparr>))
       [((0, False), concat es')]"
proof -
  define s where "s = \<lparr>base = \<lparr>buf = [4, 1, 9, 4, 1, 5], len = 6, cap = 6, can_resize = True, error = False\<rparr>, children = []\<rparr>"
  have "repr s [((0, False), [4, 1, 9, 4, 1, 5])]"
    by (simp add: repr_def s_def buffer_ok_def kind_ok_def)
  moreover have "CBB_flush_asn1_set_of (bounded_malloc 64) 0 s = (True, snd (CBB_flush_asn1_set_of (bounded_malloc 64) 0 s))"
    unfolding s_def by code_simp
  ultimately show ?thesis
    using CBB_flush_asn1_set_of_sorts [OF bounded.libc_malloc_axioms, of s "[((0, False), [4, 1, 9, 4, 1, 5])]" 64 0]
    by (fastforce simp: s_def)
qed

end
