(* ===== verification/Stack.thy ===== *)
theory Stack
  imports Mem
begin

text \<open>
  The pointer stack of \<open>crypto/stack/stack.cc\<close>. A pointer is a 64-bit word and \<open>NULL\<close> is 0; a
  \<open>OPENSSL_STACK *\<close> is an option, \<^const>\<open>None\<close> for \<open>NULL\<close>. The array \<open>data\<close> has \<open>num_alloc\<close> entries and
  lives in a block of the allocator of \<open>mem.cc\<close>, eight bytes per pointer. The comparison callback is
  \<open>call_cmp_func comp a b\<close> as in the source, with \<open>comp\<close> the function pointer stored in the stack.
  Indices of the loops are natural numbers: a stack has at most \<open>INT_MAX\<close> elements, so that no index
  computation of the source wraps. The callbacks for comparing, testing and copying elements are functions on
  pointers that do not touch the stack.
\<close>

subsection \<open>Arrays of pointers in allocated blocks\<close>

type_synonym ptr = u64

definition ptrs_to_mem :: "ptr list \<Rightarrow> bytes" where
  "ptrs_to_mem ps = concat (map word_to_mem ps)"

fun mem_to_ptrs :: "bytes \<Rightarrow> ptr list" where
  "mem_to_ptrs (a # b # c # d # e # f # g # h # bs) = mem_to_word [a, b, c, d, e, f, g, h] # mem_to_ptrs bs"
| "mem_to_ptrs _ = []"

definition realloc_ptrs :: "(u64 \<Rightarrow> bytes option) \<Rightarrow> ptr list \<Rightarrow> u64 \<Rightarrow> ptr list option" where
  "realloc_ptrs malloc ps alloc_size = map_option mem_to_ptrs (realloc_data malloc (ptrs_to_mem ps) alloc_size)"

subsection \<open>The stack\<close>

record OPENSSL_STACK =
  num :: u64
  data :: "ptr list"
  sorted_flag :: bool
  num_alloc :: u64
  comp :: ptr

type_synonym cmp_func = "ptr \<Rightarrow> ptr \<Rightarrow> ptr \<Rightarrow> int"

definition kMinSize :: u64 where
  "kMinSize = 4"

definition INT_MAX :: u64 where
  "INT_MAX = 0x7fffffff"

definition sizeof_OPENSSL_STACK :: u64 where
  "sizeof_OPENSSL_STACK = 40"

definition OPENSSL_sk_new :: "(u64 \<Rightarrow> bytes option) \<Rightarrow> ptr \<Rightarrow> OPENSSL_STACK option" where
  "OPENSSL_sk_new malloc cmp =
     (case OPENSSL_zalloc malloc sizeof_OPENSSL_STACK of
        None \<Rightarrow> None
      | Some _ \<Rightarrow>
          (case OPENSSL_calloc malloc kMinSize 8 of
             None \<Rightarrow> None
           | Some d \<Rightarrow> Some \<lparr>num = 0, data = mem_to_ptrs (ptr_data d), sorted_flag = False,
                             num_alloc = kMinSize, comp = cmp\<rparr>))"

definition OPENSSL_sk_new_null :: "(u64 \<Rightarrow> bytes option) \<Rightarrow> OPENSSL_STACK option" where
  "OPENSSL_sk_new_null malloc = OPENSSL_sk_new malloc 0"

definition OPENSSL_sk_num :: "OPENSSL_STACK option \<Rightarrow> u64" where
  "OPENSSL_sk_num sk = (case sk of None \<Rightarrow> 0 | Some sk \<Rightarrow> num sk)"

definition OPENSSL_sk_zero :: "OPENSSL_STACK option \<Rightarrow> OPENSSL_STACK option" where
  "OPENSSL_sk_zero sk =
     (case sk of
        None \<Rightarrow> None
      | Some sk \<Rightarrow>
          if num sk = 0 then Some sk
          else Some (sk\<lparr>data := replicate (unat (num sk)) 0 @ drop (unat (num sk)) (data sk),
                        num := 0, sorted_flag := False\<rparr>))"

definition OPENSSL_sk_value :: "OPENSSL_STACK option \<Rightarrow> u64 \<Rightarrow> ptr" where
  "OPENSSL_sk_value sk i =
     (case sk of None \<Rightarrow> 0 | Some sk \<Rightarrow> if i \<ge> num sk then 0 else data sk ! unat i)"

definition OPENSSL_sk_set :: "OPENSSL_STACK option \<Rightarrow> u64 \<Rightarrow> ptr \<Rightarrow> ptr \<times> OPENSSL_STACK option" where
  "OPENSSL_sk_set sk i v =
     (case sk of
        None \<Rightarrow> (0, None)
      | Some sk \<Rightarrow>
          if i \<ge> num sk then (0, Some sk)
          else (v, Some (sk\<lparr>data := (data sk)[unat i := v]\<rparr>)))"

text \<open>The pointers on which \<open>OPENSSL_sk_pop_free_ex\<close> calls the free function, in order.\<close>

definition OPENSSL_sk_pop_free_ex :: "OPENSSL_STACK option \<Rightarrow> ptr list" where
  "OPENSSL_sk_pop_free_ex sk =
     (case sk of None \<Rightarrow> [] | Some sk \<Rightarrow> filter (\<lambda>p. p \<noteq> 0) (take (unat (num sk)) (data sk)))"

definition ptr_memmove :: "ptr list \<Rightarrow> nat \<Rightarrow> nat \<Rightarrow> nat \<Rightarrow> ptr list" where
  "ptr_memmove xs dst src n = take dst xs @ take n (drop src xs) @ drop (dst + n) xs"

text \<open>The growth step of \<open>OPENSSL_sk_insert\<close>: \<^const>\<open>None\<close> is a failure.\<close>

definition sk_grow :: "(u64 \<Rightarrow> bytes option) \<Rightarrow> OPENSSL_STACK \<Rightarrow> OPENSSL_STACK option" where
  "sk_grow malloc sk =
     (if num_alloc sk \<le> num sk + 1 then
        let new_alloc = push_bit 1 (num_alloc sk);
            alloc_size = new_alloc * 8;
            (new_alloc, alloc_size) =
              (if new_alloc < num_alloc sk \<or> alloc_size div 8 \<noteq> new_alloc
               then (num_alloc sk + 1, (num_alloc sk + 1) * 8) else (new_alloc, alloc_size))
        in if new_alloc < num_alloc sk \<or> alloc_size div 8 \<noteq> new_alloc then None
           else case realloc_ptrs malloc (data sk) alloc_size of
                  None \<Rightarrow> None
                | Some d \<Rightarrow> Some (sk\<lparr>data := d, num_alloc := new_alloc\<rparr>)
      else Some sk)"

definition OPENSSL_sk_insert ::
  "(u64 \<Rightarrow> bytes option) \<Rightarrow> OPENSSL_STACK option \<Rightarrow> ptr \<Rightarrow> u64 \<Rightarrow> u64 \<times> OPENSSL_STACK option" where
  "OPENSSL_sk_insert malloc sk p wh =
     (case sk of
        None \<Rightarrow> (0, None)
      | Some sk \<Rightarrow>
          if num sk \<ge> INT_MAX then (0, Some sk)
          else case sk_grow malloc sk of
                 None \<Rightarrow> (0, Some sk)
               | Some sk \<Rightarrow>
                   let d = (if wh \<ge> num sk then (data sk)[unat (num sk) := p]
                            else (ptr_memmove (data sk) (unat wh + 1) (unat wh) (unat (num sk) - unat wh))
                                   [unat wh := p]);
                       sk = sk\<lparr>data := d, num := num sk + 1, sorted_flag := False\<rparr>
                   in (num sk, Some sk))"

definition OPENSSL_sk_delete :: "OPENSSL_STACK option \<Rightarrow> u64 \<Rightarrow> ptr \<times> OPENSSL_STACK option" where
  "OPENSSL_sk_delete sk wh =
     (case sk of
        None \<Rightarrow> (0, None)
      | Some sk \<Rightarrow>
          if wh \<ge> num sk then (0, Some sk)
          else let ret = data sk ! unat wh;
                   d = (if wh \<noteq> num sk - 1
                        then ptr_memmove (data sk) (unat wh) (unat wh + 1) (unat (num sk) - unat wh - 1)
                        else data sk)
               in (ret, Some (sk\<lparr>data := d, num := num sk - 1\<rparr>)))"

text \<open>The \<open>for\<close> loops that look for the first index at which a test holds.\<close>

fun first_index :: "(ptr \<Rightarrow> bool) \<Rightarrow> ptr list \<Rightarrow> nat \<Rightarrow> nat option" where
  "first_index P [] i = None"
| "first_index P (x # xs) i = (if P x then Some i else first_index P xs (Suc i))"

definition OPENSSL_sk_delete_ptr :: "OPENSSL_STACK option \<Rightarrow> ptr \<Rightarrow> ptr \<times> OPENSSL_STACK option" where
  "OPENSSL_sk_delete_ptr sk p =
     (case sk of
        None \<Rightarrow> (0, None)
      | Some sk' \<Rightarrow>
          (case first_index (\<lambda>x. x = p) (take (unat (num sk')) (data sk')) 0 of
             None \<Rightarrow> (0, sk)
           | Some i \<Rightarrow> OPENSSL_sk_delete sk (word_of_nat i)))"

text \<open>The loop of \<open>OPENSSL_sk_delete_if\<close> over \<open>i\<close>, \<open>new_num\<close> and the array.\<close>

fun delete_if_loop :: "(ptr \<Rightarrow> bool) \<Rightarrow> nat \<Rightarrow> nat \<Rightarrow> nat \<Rightarrow> ptr list \<Rightarrow> nat \<times> ptr list" where
  "delete_if_loop f 0 i new_num d = (new_num, d)"
| "delete_if_loop f (Suc n) i new_num d =
     (if \<not> f (d ! i) then delete_if_loop f n (Suc i) (Suc new_num) (d[new_num := d ! i])
      else delete_if_loop f n (Suc i) new_num d)"

definition OPENSSL_sk_delete_if :: "OPENSSL_STACK option \<Rightarrow> (ptr \<Rightarrow> bool) \<Rightarrow> OPENSSL_STACK option" where
  "OPENSSL_sk_delete_if sk f =
     (case sk of
        None \<Rightarrow> None
      | Some sk \<Rightarrow>
          (case delete_if_loop f (unat (num sk)) 0 0 (data sk) of
             (new_num, d) \<Rightarrow> Some (sk\<lparr>data := d, num := word_of_nat new_num\<rparr>)))"

definition OPENSSL_sk_is_sorted :: "OPENSSL_STACK option \<Rightarrow> bool" where
  "OPENSSL_sk_is_sorted sk =
     (case sk of None \<Rightarrow> True | Some sk \<Rightarrow> sorted_flag sk \<or> (comp sk \<noteq> 0 \<and> num sk < 2))"

text \<open>The binary search of \<open>OPENSSL_sk_find\<close>; \<open>cmp i\<close> compares the key with element \<open>i\<close>.\<close>

function sk_bsearch :: "(nat \<Rightarrow> int) \<Rightarrow> nat \<Rightarrow> nat \<Rightarrow> nat option" where
  "sk_bsearch cmp lo hi =
     (if lo < hi then
        let mid = lo + (hi - lo - 1) div 2;
            r = cmp mid
        in if r > 0 then sk_bsearch cmp (mid + 1) hi
           else if r < 0 then sk_bsearch cmp lo mid
           else if hi - lo = 1 then Some mid
           else sk_bsearch cmp lo (mid + 1)
      else None)"
  by pat_completeness auto
termination
  by (relation "measure (\<lambda>(cmp, lo, hi). hi - lo)") (auto simp: less_diff_conv)

declare sk_bsearch.simps [simp del]

definition OPENSSL_sk_find :: "cmp_func \<Rightarrow> OPENSSL_STACK option \<Rightarrow> ptr \<Rightarrow> nat option" where
  "OPENSSL_sk_find call_cmp_func sk p =
     (case sk of
        None \<Rightarrow> None
      | Some sk' \<Rightarrow>
          if comp sk' = 0 then first_index (\<lambda>x. x = p) (take (unat (num sk')) (data sk')) 0
          else if p = 0 then None
          else if \<not> OPENSSL_sk_is_sorted sk
          then first_index (\<lambda>x. call_cmp_func (comp sk') p x = 0) (take (unat (num sk')) (data sk')) 0
          else sk_bsearch (\<lambda>i. call_cmp_func (comp sk') p (data sk' ! i)) 0 (unat (num sk')))"

definition OPENSSL_sk_shift :: "OPENSSL_STACK option \<Rightarrow> ptr \<times> OPENSSL_STACK option" where
  "OPENSSL_sk_shift sk =
     (case sk of None \<Rightarrow> (0, None) | Some sk' \<Rightarrow> if num sk' = 0 then (0, sk) else OPENSSL_sk_delete sk 0)"

definition OPENSSL_sk_push ::
  "(u64 \<Rightarrow> bytes option) \<Rightarrow> OPENSSL_STACK \<Rightarrow> ptr \<Rightarrow> u64 \<times> OPENSSL_STACK option" where
  "OPENSSL_sk_push malloc sk p = OPENSSL_sk_insert malloc (Some sk) p (num sk)"

definition OPENSSL_sk_pop :: "OPENSSL_STACK option \<Rightarrow> ptr \<times> OPENSSL_STACK option" where
  "OPENSSL_sk_pop sk =
     (case sk of None \<Rightarrow> (0, None)
      | Some sk' \<Rightarrow> if num sk' = 0 then (0, sk) else OPENSSL_sk_delete sk (num sk' - 1))"

definition OPENSSL_sk_dup :: "(u64 \<Rightarrow> bytes option) \<Rightarrow> OPENSSL_STACK option \<Rightarrow> OPENSSL_STACK option" where
  "OPENSSL_sk_dup malloc sk =
     (case sk of
        None \<Rightarrow> None
      | Some sk \<Rightarrow>
          (case OPENSSL_zalloc malloc sizeof_OPENSSL_STACK of
             None \<Rightarrow> None
           | Some _ \<Rightarrow>
               (case OPENSSL_memdup malloc (ptrs_to_mem (data sk)) (8 * num_alloc sk) of
                  None \<Rightarrow> None
                | Some d \<Rightarrow> Some (sk\<lparr>data := mem_to_ptrs (ptr_data d)\<rparr>))))"

subsection \<open>Sorting\<close>

definition parent_idx :: "nat \<Rightarrow> nat" where
  "parent_idx i = (i - 1) div 2"

definition left_idx :: "nat \<Rightarrow> nat" where
  "left_idx i = 2 * i + 1"

text \<open>The index \<open>next\<close> chosen by an iteration of \<open>down_heap\<close>, for \<open>left_idx i < n\<close>.\<close>

definition down_heap_next :: "(ptr \<Rightarrow> ptr \<Rightarrow> int) \<Rightarrow> nat \<Rightarrow> nat \<Rightarrow> ptr list \<Rightarrow> nat" where
  "down_heap_next cmp i n d =
     (let left = left_idx i;
          nxt = (if cmp (d ! i) (d ! left) < 0 then left else i);
          right = left + 1
      in if right < n \<and> cmp (d ! nxt) (d ! right) < 0 then right else nxt)"

function down_heap :: "(ptr \<Rightarrow> ptr \<Rightarrow> int) \<Rightarrow> nat \<Rightarrow> nat \<Rightarrow> ptr list \<Rightarrow> ptr list" where
  "down_heap cmp i n d =
     (if left_idx i \<ge> n then d
      else let nxt = down_heap_next cmp i n d
           in if i = nxt then d
              else down_heap cmp nxt n (d[i := d ! nxt, nxt := d ! i]))"
  by pat_completeness auto
termination
  by (relation "measure (\<lambda>(cmp, i, n, d). n - i)")
     (auto simp: down_heap_next_def left_idx_def Let_def split: if_splits)

declare down_heap.simps [simp del]

text \<open>\<open>for (i = parent_idx(num - 1); i < num; i--)\<close>: the index wraps past 0 and ends the loop.\<close>

fun build_heap_loop :: "(ptr \<Rightarrow> ptr \<Rightarrow> int) \<Rightarrow> nat \<Rightarrow> nat \<Rightarrow> ptr list \<Rightarrow> ptr list" where
  "build_heap_loop cmp n 0 d = down_heap cmp 0 n d"
| "build_heap_loop cmp n (Suc i) d = build_heap_loop cmp n i (down_heap cmp (Suc i) n d)"

fun extract_loop :: "(ptr \<Rightarrow> ptr \<Rightarrow> int) \<Rightarrow> nat \<Rightarrow> ptr list \<Rightarrow> ptr list" where
  "extract_loop cmp 0 d = d"
| "extract_loop cmp (Suc i) d =
     extract_loop cmp i (down_heap cmp 0 (Suc i) (d[0 := d ! Suc i, Suc i := d ! 0]))"

definition heap_sort :: "(ptr \<Rightarrow> ptr \<Rightarrow> int) \<Rightarrow> nat \<Rightarrow> ptr list \<Rightarrow> ptr list" where
  "heap_sort cmp n d =
     (if n \<ge> 2 then extract_loop cmp (n - 1) (build_heap_loop cmp n (parent_idx (n - 1)) d) else d)"

definition OPENSSL_sk_sort :: "cmp_func \<Rightarrow> OPENSSL_STACK option \<Rightarrow> OPENSSL_STACK option" where
  "OPENSSL_sk_sort call_cmp_func sk =
     (case sk of
        None \<Rightarrow> None
      | Some sk' \<Rightarrow>
          if comp sk' = 0 \<or> sorted_flag sk' then sk
          else Some (sk'\<lparr>data := heap_sort (call_cmp_func (comp sk')) (unat (num sk')) (data sk'),
                         sorted_flag := True\<rparr>))"

definition OPENSSL_sk_set_cmp_func :: "OPENSSL_STACK \<Rightarrow> ptr \<Rightarrow> ptr \<times> OPENSSL_STACK" where
  "OPENSSL_sk_set_cmp_func sk cmp =
     (comp sk, sk\<lparr>sorted_flag := (if comp sk \<noteq> cmp then False else sorted_flag sk), comp := cmp\<rparr>)"

text \<open>
  The copying loop: \<^const>\<open>Inl\<close> holds the copies freed again after a failed copy, \<^const>\<open>Inr\<close> the array
  of copies.
\<close>

fun deep_copy_loop :: "(ptr \<Rightarrow> ptr) \<Rightarrow> nat \<Rightarrow> nat \<Rightarrow> ptr list \<Rightarrow> ptr list + ptr list" where
  "deep_copy_loop copy 0 i d = Inr d"
| "deep_copy_loop copy (Suc n) i d =
     (if d ! i = 0 then deep_copy_loop copy n (Suc i) d
      else let d = d[i := copy (d ! i)]
           in if d ! i = 0 then Inl (filter (\<lambda>p. p \<noteq> 0) (take i d))
              else deep_copy_loop copy n (Suc i) d)"

definition OPENSSL_sk_deep_copy ::
  "(u64 \<Rightarrow> bytes option) \<Rightarrow> (ptr \<Rightarrow> ptr) \<Rightarrow> OPENSSL_STACK option \<Rightarrow> ptr list + OPENSSL_STACK" where
  "OPENSSL_sk_deep_copy malloc copy sk =
     (case OPENSSL_sk_dup malloc sk of
        None \<Rightarrow> Inl []
      | Some ret \<Rightarrow>
          (case deep_copy_loop copy (unat (num ret)) 0 (data ret) of
             Inl freed \<Rightarrow> Inl freed
           | Inr d \<Rightarrow> Inr (ret\<lparr>data := d\<rparr>)))"

subsection \<open>The stack as a list\<close>

definition sk_ok :: "OPENSSL_STACK \<Rightarrow> bool" where
  "sk_ok sk \<longleftrightarrow> num sk \<le> num_alloc sk \<and> length (data sk) = unat (num_alloc sk) \<and> 1 < num_alloc sk \<and>
     num sk \<le> INT_MAX \<and> unat (num_alloc sk) * 8 < 2 ^ 64"

definition sk_list :: "OPENSSL_STACK \<Rightarrow> ptr list" where
  "sk_list sk = take (unat (num sk)) (data sk)"

lemma sk_ok_num: "sk_ok sk \<Longrightarrow> unat (num sk) \<le> length (data sk)"
  by (simp add: sk_ok_def word_le_nat_alt)

lemma length_sk_list: "sk_ok sk \<Longrightarrow> length (sk_list sk) = unat (num sk)"
  using sk_ok_num by (simp add: sk_list_def)

lemma mem_to_ptrs_word: "mem_to_ptrs (word_to_mem (p :: u64) @ bs) = p # mem_to_ptrs bs"
proof -
  have "length (word_to_mem p) = Suc (Suc (Suc (Suc (Suc (Suc (Suc (Suc 0)))))))"
    by simp
  then obtain a b c d e f g h where w: "word_to_mem p = [a, b, c, d, e, f, g, h]"
    unfolding length_Suc_conv length_0_conv by blast
  have "mem_to_word (word_to_mem p) = p"
    by (simp add: mem_to_word_word_to_mem)
  then show ?thesis by (simp add: w)
qed

lemma mem_to_ptrs_append: "mem_to_ptrs (ptrs_to_mem ps @ bs) = ps @ mem_to_ptrs bs"
  by (induction ps) (simp_all add: ptrs_to_mem_def mem_to_ptrs_word)

lemma length_ptrs_to_mem [simp]: "length (ptrs_to_mem ps) = 8 * length ps"
  by (induction ps) (simp_all add: ptrs_to_mem_def)

lemma length_mem_to_ptrs: "length (mem_to_ptrs bs) = length bs div 8"
  by (induction bs rule: mem_to_ptrs.induct) auto

lemma memmove_opens_gap:
  assumes "w < i" "i < length xs"
  shows "take (Suc i) ((ptr_memmove xs (Suc w) w (i - w))[w := p]) = take w (take i xs) @ p # drop w (take i xs)"
proof -
  obtain k where k: "i = w + Suc k"
    using assms(1) less_iff_Suc_add by auto
  define a b c where "a = take w xs" and "b = take (Suc k) (drop w xs)" and "c = drop (Suc k) (drop w xs)"
  have xs: "xs = a @ b @ c" by (simp add: a_def b_def c_def del: drop_drop)
  have len: "length a = w" "length b = Suc k" "length c > 0"
    using assms by (simp_all add: a_def b_def c_def k)
  obtain y ys where "b = y # ys" using len by (cases b) auto
  moreover obtain z zs where "c = z # zs" using len by (cases c) auto
  ultimately show ?thesis
    using len by (simp add: xs k ptr_memmove_def list_update_append)
qed

text \<open>Growing an array of pointers keeps its contents.\<close>

context libc_malloc
begin

lemma realloc_ptrs_ok:
  assumes "realloc_ptrs malloc ps n = Some ps'" "8 * length ps \<le> unat n"
  shows "length ps' = unat n div 8" "take (length ps) ps' = ps"
proof -
  obtain b where b: "realloc_data malloc (ptrs_to_mem ps) n = Some b" and ps': "ps' = mem_to_ptrs b"
    using assms(1) by (auto simp: realloc_ptrs_def)
  have len: "length b = unat n"
    using ossl.ralloc_length [OF b] .
  then show "length ps' = unat n div 8"
    by (simp add: ps' length_mem_to_ptrs)
  have "take (length (ptrs_to_mem ps)) b = ptrs_to_mem ps"
    using assms(2) by (intro ossl.ralloc_keeps [OF b]) simp
  then have "b = ptrs_to_mem ps @ drop (length (ptrs_to_mem ps)) b"
    by (metis append_take_drop_id)
  then have "ps' = ps @ mem_to_ptrs (drop (length (ptrs_to_mem ps)) b)"
    unfolding ps' by (metis mem_to_ptrs_append)
  then show "take (length ps) ps' = ps"
    by (metis append_eq_conv_conj)
qed

lemma sk_grow_ok:
  assumes "sk_grow malloc sk = Some sk'" "sk_ok sk" "num sk < INT_MAX"
  shows "sk_ok sk'" "sk_list sk' = sk_list sk" "num sk' = num sk" "comp sk' = comp sk" "unat (num sk) + 1 < unat (num_alloc sk')"
proof -
  define n a where "n = unat (num sk)" and "a = unat (num_alloc sk)"
  have na: "n \<le> a" "1 < a" "n < 2 ^ 31" "a * 8 < 2 ^ 64" "length (data sk) = a"
    using assms(2,3) by (simp_all add: n_def a_def sk_ok_def INT_MAX_def word_le_nat_alt word_less_nat_alt)
  have n1: "unat (num sk + 1) = n + 1"
    using na by (simp add: n_def unat_word_ariths)
  have "sk_ok sk' \<and> sk_list sk' = sk_list sk \<and> num sk' = num sk \<and> comp sk' = comp sk \<and>
    unat (num sk) + 1 < unat (num_alloc sk')"
  proof (cases "num_alloc sk \<le> num sk + 1")
    case False
    then have "n + 1 < a" by (simp add: word_le_nat_alt n1 a_def)
    with False assms show ?thesis
      by (auto simp: sk_grow_def n_def a_def)
  next
    case True
    then have le: "a \<le> n + 1" by (simp add: word_le_nat_alt n1 a_def)
    define m where "m = push_bit 1 (num_alloc sk)"
    have m: "unat m = 2 * a"
      using le na by (simp add: m_def push_bit_eq_mult unat_word_ariths a_def)
    have m8: "unat (m * 8) = 16 * a"
      using le na m by (simp add: unat_word_ariths)
    have ok: "\<not> (m < num_alloc sk \<or> m * 8 div 8 \<noteq> m)"
      using m m8 by (simp add: word_less_nat_alt word_unat_eq_iff unat_div a_def)
    obtain d where d: "realloc_ptrs malloc (data sk) (m * 8) = Some d" and sk': "sk' = sk\<lparr>data := d, num_alloc := m\<rparr>"
      using assms(1) unfolding sk_grow_def if_P [OF True] m_def [symmetric] Let_def if_not_P [OF ok] prod.case
      by (auto split: option.splits)
    have len: "length d = 2 * a" "take a d = data sk"
      using realloc_ptrs_ok [OF d] na m8 by simp_all
    have "take n d = take n (take a d)"
      using na by simp
    then have "sk_list sk' = sk_list sk"
      using na len by (simp add: sk' sk_list_def n_def)
    moreover have "sk_ok sk'"
      using na m len le assms(3) by (simp add: sk_ok_def sk' word_le_nat_alt word_less_nat_alt n_def [symmetric] INT_MAX_def)
    ultimately show ?thesis
      using na m le by (simp add: sk' n_def)
  qed
  then show "sk_ok sk'" "sk_list sk' = sk_list sk" "num sk' = num sk" "comp sk' = comp sk"
    "unat (num sk) + 1 < unat (num_alloc sk')"
    by simp_all
qed

lemma sk_insert_ok:
  assumes ins: "OPENSSL_sk_insert malloc (Some sk) p wh = (n, sk2)" and sk: "sk_ok sk"
  shows "(n = 0 \<and> sk2 = Some sk) \<or>
    (\<exists>sk'. sk2 = Some sk' \<and> sk_ok sk' \<and> n = num sk' \<and> num sk' = num sk + 1 \<and> num sk < INT_MAX \<and>
       sk_list sk' = take (unat wh) (sk_list sk) @ p # drop (unat wh) (sk_list sk) \<and>
       comp sk' = comp sk \<and> \<not> sorted_flag sk')"
proof (cases "num sk \<ge> INT_MAX \<or> sk_grow malloc sk = None")
  case True
  then show ?thesis using ins by (auto simp: OPENSSL_sk_insert_def split: if_splits)
next
  case False
  then obtain g where g: "sk_grow malloc sk = Some g" and lt: "num sk < INT_MAX" by auto
  note grown = sk_grow_ok [OF g sk lt]
  define i where "i = unat (num g)"
  have len: "i + 1 < length (data g)" "i < 2 ^ 31 - 1" "length (data g) = unat (num_alloc g)"
    using grown lt by (simp_all add: sk_ok_def i_def word_less_nat_alt INT_MAX_def)
  have i1: "unat (num g + 1) = i + 1"
    using len by (simp add: i_def unat_word_ariths)
  define d where "d = (if wh \<ge> num g then (data g)[i := p]
    else (ptr_memmove (data g) (unat wh + 1) (unat wh) (i - unat wh))[unat wh := p])"
  define sk' where "sk' = g\<lparr>data := d, num := num g + 1, sorted_flag := False\<rparr>"
  have res: "n = num sk'" "sk2 = Some sk'"
    using ins not_le [THEN iffD2, OF lt] g
    by (auto simp: OPENSSL_sk_insert_def Let_def d_def i_def sk'_def split: if_splits)
  have wh: "unat wh \<le> i" if "\<not> wh \<ge> num g"
    using that by (simp add: i_def word_le_nat_alt)
  have ld: "length d = length (data g)"
    using len wh by (cases "wh \<ge> num g") (auto simp: d_def ptr_memmove_def)
  have "take (Suc i) d = take (unat wh) (take i (data g)) @ p # drop (unat wh) (take i (data g))"
  proof (cases "wh \<ge> num g")
    case True
    then show ?thesis
      using len by (simp add: d_def i_def word_le_nat_alt take_Suc_conv_app_nth)
  next
    case False
    then have "unat wh < i" by (simp add: i_def word_le_nat_alt)
    then show ?thesis
      using False len memmove_opens_gap [of "unat wh" i "data g" p] by (simp add: d_def)
  qed
  then have "sk_list sk' = take (unat wh) (sk_list sk) @ p # drop (unat wh) (sk_list sk)"
    using i1 unfolding grown(2) [symmetric] by (simp add: sk'_def sk_list_def i_def)
  moreover have "sk_ok sk'"
    using grown(1) len i1 ld by (simp add: sk_ok_def sk'_def word_le_nat_alt INT_MAX_def)
  ultimately show ?thesis
    using res grown lt by (simp add: sk'_def)
qed

end

lemma sk_delete_ok:
  assumes sk: "sk_ok sk" and wh: "wh < num sk" and del: "OPENSSL_sk_delete (Some sk) wh = (p, sk2)"
  shows "p = sk_list sk ! unat wh \<and>
    (\<exists>sk'. sk2 = Some sk' \<and> sk_ok sk' \<and> num sk' = num sk - 1 \<and>
      sk_list sk' = take (unat wh) (sk_list sk) @ drop (Suc (unat wh)) (sk_list sk) \<and>
      comp sk' = comp sk \<and> sorted_flag sk' = sorted_flag sk)"
proof -
  define i where "i = unat (num sk)"
  define w where "w = unat wh"
  have w: "w < i" "i \<le> length (data sk)"
    using wh sk_ok_num [OF sk] by (simp_all add: w_def i_def word_less_nat_alt)
  have i1: "unat (num sk - 1) = i - 1"
    using w by (simp add: i_def unat_sub word_le_nat_alt)
  define d where "d = (if wh \<noteq> num sk - 1 then ptr_memmove (data sk) w (w + 1) (i - w - 1) else data sk)"
  define sk' where "sk' = sk\<lparr>data := d, num := num sk - 1\<rparr>"
  have res: "p = data sk ! w" "sk2 = Some sk'"
    using del not_le [THEN iffD2, OF wh]
    by (auto simp: OPENSSL_sk_delete_def Let_def w_def i_def d_def sk'_def split: if_splits)
  obtain xs y ys zs where split: "data sk = xs @ y # ys @ zs" "length xs = w" "length ys = i - w - 1"
  proof
    show "data sk = take w (data sk) @ data sk ! w # take (i - w - 1) (drop (Suc w) (data sk)) @
      drop (i - w - 1) (drop (Suc w) (data sk))"
      unfolding append_take_drop_id using w by (simp add: id_take_nth_drop [symmetric])
  qed (use w in auto)
  have last: "wh = num sk - 1 \<longleftrightarrow> w = i - 1"
    using w i1 by (simp add: word_unat_eq_iff w_def)
  have "take (i - 1) d = xs @ ys"
    using split last w by (cases "w = i - 1") (auto simp: d_def ptr_memmove_def)
  moreover have "take i (data sk) = xs @ y # ys"
    using split w by (cases "i - w") auto
  moreover have "length d = length (data sk)"
    using split w by (simp add: d_def ptr_memmove_def)
  ultimately show ?thesis
    using res split sk i1 w
    by (auto simp: sk_list_def sk'_def i_def [symmetric] w_def [symmetric] sk_ok_def word_le_nat_alt nth_append)
qed

end
