(* ===== verification/StackSort.thy ===== *)
theory StackSort
  imports Stack "HOL-Library.Multiset"
begin

text \<open>
  Searching and sorting of the pointer stack: the binary search of \<open>OPENSSL_sk_find\<close> agrees with the
  linear search of the unsorted stack, and the heap sort of \<open>OPENSSL_sk_sort\<close> permutes the elements into
  ascending order. The comparison callback is required to be a total preorder on the elements it is
  given, which is what its callers promise.
\<close>

definition cmp_order :: "ptr set \<Rightarrow> (ptr \<Rightarrow> ptr \<Rightarrow> int) \<Rightarrow> bool" where
  "cmp_order S cmp \<longleftrightarrow>
     (\<forall>a\<in>S. \<forall>b\<in>S. cmp a b < 0 \<longleftrightarrow> cmp b a > 0) \<and>
     (\<forall>a\<in>S. \<forall>b\<in>S. \<forall>c\<in>S. cmp a b \<le> 0 \<longrightarrow> cmp b c \<le> 0 \<longrightarrow> cmp a c \<le> 0)"

lemma cmp_order_mono: "cmp_order S cmp \<Longrightarrow> T \<subseteq> S \<Longrightarrow> cmp_order T cmp"
  unfolding cmp_order_def by blast

lemma cmp_trans: "cmp_order S cmp \<Longrightarrow> cmp a b \<le> 0 \<Longrightarrow> cmp b c \<le> 0 \<Longrightarrow> {a, b, c} \<subseteq> S \<Longrightarrow> cmp a c \<le> 0"
  unfolding cmp_order_def by blast

lemma cmp_swap: "cmp_order S cmp \<Longrightarrow> {a, b} \<subseteq> S \<Longrightarrow> \<not> cmp a b < 0 \<longleftrightarrow> cmp b a \<le> 0"
  unfolding cmp_order_def by (metis insert_subset not_less)

lemma cmp_refl: "cmp_order S cmp \<Longrightarrow> a \<in> S \<Longrightarrow> cmp a a = 0"
  unfolding cmp_order_def by (metis not_less_iff_gr_or_eq)

definition cmp_sorted :: "(ptr \<Rightarrow> ptr \<Rightarrow> int) \<Rightarrow> ptr list \<Rightarrow> bool" where
  "cmp_sorted cmp xs \<longleftrightarrow> sorted_wrt (\<lambda>a b. cmp a b \<le> 0) xs"

subsection \<open>Searching\<close>

definition first_match :: "(nat \<Rightarrow> bool) \<Rightarrow> nat \<Rightarrow> nat \<Rightarrow> nat \<Rightarrow> bool" where
  "first_match P lo hi m \<longleftrightarrow> lo \<le> m \<and> m < hi \<and> P m \<and> (\<forall>i. lo \<le> i \<longrightarrow> i < m \<longrightarrow> \<not> P i)"

lemma first_match_from:
  assumes "lo \<le> k" "\<And>i. lo \<le> i \<Longrightarrow> i < k \<Longrightarrow> \<not> P i"
  shows "first_match P k hi m \<longleftrightarrow> first_match P lo hi m"
  using assms unfolding first_match_def by (meson le_trans not_less)

lemma first_match_upto:
  assumes "k \<le> hi" "\<And>i. k \<le> i \<Longrightarrow> i < hi \<Longrightarrow> \<not> P i"
  shows "first_match P lo k m \<longleftrightarrow> first_match P lo hi m"
  using assms unfolding first_match_def by (meson le_trans not_less)

lemma first_match_before:
  assumes "lo \<le> k" "k < hi" "P k"
  shows "first_match P lo (Suc k) m \<longleftrightarrow> first_match P lo hi m"
  using assms unfolding first_match_def by (auto simp: not_less less_Suc_eq_le)

lemma first_index_iff:
  "first_index P xs k = Some m \<longleftrightarrow> k \<le> m \<and> first_match (\<lambda>i. P (xs ! i)) 0 (length xs) (m - k)"
proof (induction xs arbitrary: k)
  case Nil
  then show ?case by (simp add: first_match_def)
next
  case (Cons x xs)
  have split: "(\<forall>i<Suc n. \<not> P ((x # xs) ! i)) \<longleftrightarrow> \<not> P x \<and> (\<forall>i<n. \<not> P (xs ! i))" for n
    by (auto simp: less_Suc_eq_0_disj)
  show ?case
  proof (cases "P x")
    case True
    then show ?thesis
      by (cases "m - k") (auto simp: first_match_def)
  next
    case False
    show ?thesis
    proof (cases "m - k")
      case 0
      then show ?thesis using False Cons.IH [of "Suc k"] by (auto simp: first_match_def)
    next
      case (Suc n)
      then have "m - Suc k = n" "Suc k \<le> m" by simp_all
      then show ?thesis using False Cons.IH [of "Suc k"] Suc split [of n] by (simp add: first_match_def)
    qed
  qed
qed

lemma sk_bsearch_iff:
  assumes "\<And>i j. lo \<le> i \<Longrightarrow> i \<le> j \<Longrightarrow> j < hi \<Longrightarrow> (cmp j > 0 \<longrightarrow> cmp i > 0) \<and> (cmp i < 0 \<longrightarrow> cmp j < 0)"
  shows "sk_bsearch cmp lo hi = Some m \<longleftrightarrow> first_match (\<lambda>i. cmp i = 0) lo hi m"
  using assms
proof (induction cmp lo hi rule: sk_bsearch.induct)
  case (1 cmp lo hi)
  show ?case
  proof (cases "lo < hi")
    case False
    then show ?thesis by (subst sk_bsearch.simps) (auto simp: first_match_def)
  next
    case lt: True
    define mid where "mid = lo + (hi - lo - 1) div 2"
    have mid: "lo \<le> mid" "mid < hi" using lt by (auto simp: mid_def)
    note mono = "1.prems"
    have step: "sk_bsearch cmp lo hi =
      (if cmp mid > 0 then sk_bsearch cmp (mid + 1) hi else if cmp mid < 0 then sk_bsearch cmp lo mid
       else if hi - lo = 1 then Some mid else sk_bsearch cmp lo (mid + 1))"
      using lt unfolding mid_def by (subst sk_bsearch.simps) (simp only: Let_def if_True)
    consider (low) "cmp mid > 0" | (high) "cmp mid < 0" | (one) "cmp mid = 0" "hi - lo = 1"
      | (more) "cmp mid = 0" "hi - lo \<noteq> 1" by linarith
    then show ?thesis
    proof cases
      case low
      have "cmp i > 0" if "lo \<le> i" "i \<le> mid" for i
        using mono [of i mid] that mid low by blast
      then have "first_match (\<lambda>i. cmp i = 0) (mid + 1) hi m \<longleftrightarrow> first_match (\<lambda>i. cmp i = 0) lo hi m"
        using mid by (intro first_match_from) force+
      moreover have "sk_bsearch cmp (mid + 1) hi = Some m \<longleftrightarrow> first_match (\<lambda>i. cmp i = 0) (mid + 1) hi m"
        by (rule "1.IH"(1) [OF lt mid_def refl low], rule mono) (use mid in simp_all)
      ultimately show ?thesis
        using low by (simp add: step)
    next
      case high
      have "cmp i < 0" if "mid \<le> i" "i < hi" for i
        using mono [of mid i] that mid high by blast
      then have "first_match (\<lambda>i. cmp i = 0) lo mid m \<longleftrightarrow> first_match (\<lambda>i. cmp i = 0) lo hi m"
        using mid by (intro first_match_upto) force+
      moreover have "sk_bsearch cmp lo mid = Some m \<longleftrightarrow> first_match (\<lambda>i. cmp i = 0) lo mid m"
        by (rule "1.IH"(2) [OF lt mid_def refl _ high], use high in simp, rule mono) (use mid in simp_all)
      ultimately show ?thesis
        using high by (simp add: step)
    next
      case one
      then show ?thesis
        using mid by (auto simp: step first_match_def)
    next
      case more
      have "first_match (\<lambda>i. cmp i = 0) lo (mid + 1) m \<longleftrightarrow> first_match (\<lambda>i. cmp i = 0) lo hi m"
        using mid more first_match_before [of lo mid hi "\<lambda>i. cmp i = 0" m] by simp
      moreover have "sk_bsearch cmp lo (mid + 1) = Some m \<longleftrightarrow> first_match (\<lambda>i. cmp i = 0) lo (mid + 1) m"
        by (rule "1.IH"(3) [OF lt mid_def refl _ _ more(2)], use more in simp, use more in simp, rule mono) (use mid in simp_all)
      ultimately show ?thesis
        using more by (simp add: step)
    qed
  qed
qed

lemma sk_bsearch_None: "\<forall>i. lo \<le> i \<and> i < hi \<longrightarrow> cmp i > 0 \<Longrightarrow> sk_bsearch cmp lo hi = None"
proof (rule ccontr)
  assume pos: "\<forall>i. lo \<le> i \<and> i < hi \<longrightarrow> cmp i > 0" and "sk_bsearch cmp lo hi \<noteq> None"
  then obtain m where "sk_bsearch cmp lo hi = Some m" by blast
  moreover have "sk_bsearch cmp lo hi = Some m \<longleftrightarrow> first_match (\<lambda>i. cmp i = 0) lo hi m"
    using pos by (intro sk_bsearch_iff) force
  ultimately show False using pos by (force simp: first_match_def)
qed

lemma sk_bsearch_eq_linear:
  assumes cmp: "cmp_order (insert p (set xs)) cmp" and sorted: "cmp_sorted cmp xs"
    and d: "take (length xs) d = xs"
  shows "sk_bsearch (\<lambda>i. cmp p (d ! i)) 0 (length xs) = first_index (\<lambda>x. cmp p x = 0) xs 0"
proof -
  have nth: "d ! i = xs ! i" if "i < length xs" for i
    using that d by (metis nth_take)
  have le: "cmp (xs ! i) (xs ! j) \<le> 0" if "i \<le> j" "j < length xs" for i j
    using that sorted cmp_refl [OF cmp] by (cases "i = j") (auto simp: cmp_sorted_def sorted_wrt_iff_nth_less)
  have gt: "cmp p (xs ! i) > 0" if "i \<le> j" "j < length xs" "cmp p (xs ! j) > 0" for i j
  proof (rule ccontr)
    have mem: "{p, xs ! i, xs ! j} \<subseteq> insert p (set xs)" using that by auto
    assume "\<not> cmp p (xs ! i) > 0"
    then have "cmp p (xs ! j) \<le> 0"
      by (intro cmp_trans [OF cmp _ le [OF that(1,2)] mem]) simp
    with that show False by simp
  qed
  have lt: "cmp p (xs ! j) < 0" if "i \<le> j" "j < length xs" "cmp p (xs ! i) < 0" for i j
  proof (rule ccontr)
    have mem: "{xs ! i, xs ! j, p} \<subseteq> insert p (set xs)" using that by auto
    assume "\<not> cmp p (xs ! j) < 0"
    then have "cmp (xs ! j) p \<le> 0" using cmp_swap [OF cmp, of p "xs ! j"] mem by simp
    then have "cmp (xs ! i) p \<le> 0" using cmp_trans [OF cmp le [OF that(1,2)] _ mem] by simp
    with that show False using cmp_swap [OF cmp, of p "xs ! i"] mem by simp
  qed
  have "sk_bsearch (\<lambda>i. cmp p (d ! i)) 0 (length xs) = Some m \<longleftrightarrow>
    first_match (\<lambda>i. cmp p (d ! i) = 0) 0 (length xs) m" for m
    by (rule sk_bsearch_iff) (use gt lt nth in force)
  also have "\<dots> m \<longleftrightarrow> first_index (\<lambda>x. cmp p x = 0) xs 0 = Some m" for m
    unfolding first_index_iff first_match_def using nth by auto
  finally show ?thesis
    by (metis option.exhaust)
qed

lemma sk_find_eq_linear:
  assumes sk: "sk_ok sk" and comp: "comp sk \<noteq> 0" "p \<noteq> 0"
    and cmp: "cmp_order (insert p (set (sk_list sk))) (call_cmp_func (comp sk))"
    and sorted: "sorted_flag sk \<Longrightarrow> cmp_sorted (call_cmp_func (comp sk)) (sk_list sk)"
  shows "OPENSSL_sk_find call_cmp_func (Some sk) p =
    first_index (\<lambda>x. call_cmp_func (comp sk) p x = 0) (sk_list sk) 0"
proof (cases "OPENSSL_sk_is_sorted (Some sk)")
  case False
  then show ?thesis using comp by (simp add: OPENSSL_sk_find_def sk_list_def)
next
  case True
  have "cmp_sorted (call_cmp_func (comp sk)) (sk_list sk)"
  proof (cases "sorted_flag sk")
    case False
    then have "length (sk_list sk) < 2"
      using True length_sk_list [OF sk] by (simp add: OPENSSL_sk_is_sorted_def word_less_nat_alt)
    then show ?thesis
      by (cases "sk_list sk") (simp_all add: cmp_sorted_def)
  qed (rule sorted)
  then show ?thesis
    using sk_bsearch_eq_linear [OF cmp, of "data sk"] True comp length_sk_list [OF sk]
    by (simp add: OPENSSL_sk_find_def) (simp add: sk_list_def)
qed

subsection \<open>Sorting\<close>

text \<open>
  \<open>heap_except k i n d\<close>: in the first \<open>n\<close> elements every child below the index \<open>k\<close> is no larger than its
  parent, except that the children of \<open>i\<close> may be larger than \<open>i\<close>; they are still no larger than the
  parent of \<open>i\<close>.
\<close>

definition heap_from :: "(ptr \<Rightarrow> ptr \<Rightarrow> int) \<Rightarrow> nat \<Rightarrow> nat \<Rightarrow> ptr list \<Rightarrow> bool" where
  "heap_from cmp k n d \<longleftrightarrow> (\<forall>j. 0 < j \<and> j < n \<and> k \<le> parent_idx j \<longrightarrow> cmp (d ! j) (d ! parent_idx j) \<le> 0)"

definition heap_except :: "(ptr \<Rightarrow> ptr \<Rightarrow> int) \<Rightarrow> nat \<Rightarrow> nat \<Rightarrow> nat \<Rightarrow> ptr list \<Rightarrow> bool" where
  "heap_except cmp k i n d \<longleftrightarrow>
     (\<forall>j. 0 < j \<and> j < n \<and> k \<le> parent_idx j \<and> parent_idx j \<noteq> i \<longrightarrow> cmp (d ! j) (d ! parent_idx j) \<le> 0) \<and>
     (\<forall>j. 0 < j \<and> j < n \<and> parent_idx j = i \<and> 0 < i \<and> k \<le> parent_idx i \<longrightarrow>
        cmp (d ! j) (d ! parent_idx i) \<le> 0)"

definition swap_at :: "nat \<Rightarrow> nat \<Rightarrow> ptr list \<Rightarrow> ptr list" where
  "swap_at i j d = d[i := d ! j, j := d ! i]"

lemma parent_idx_iff: "0 < j \<Longrightarrow> parent_idx j = i \<longleftrightarrow> j = left_idx i \<or> j = left_idx i + 1"
  unfolding parent_idx_def left_idx_def by presburger

lemma parent_idx_less: "0 < j \<Longrightarrow> parent_idx j < j"
  unfolding parent_idx_def by simp

lemma swap_at_nth:
  "i < length d \<Longrightarrow> j < length d \<Longrightarrow>
     swap_at i j d ! k = (if k = j then d ! i else if k = i then d ! j else d ! k)"
  by (simp add: swap_at_def nth_list_update)

lemma length_swap_at [simp]: "length (swap_at i j d) = length d"
  by (simp add: swap_at_def)

lemma mset_swap_at: "i < length d \<Longrightarrow> j < length d \<Longrightarrow> mset (swap_at i j d) = mset d"
  by (simp add: swap_at_def mset_swap)

text \<open>The child that \<open>down_heap\<close> moves up is larger than the parent and its sibling.\<close>

lemma down_heap_next_max:
  assumes cmp: "cmp_order S cmp" and S: "\<forall>j<n. d ! j \<in> S" and left: "left_idx i < n"
  defines "nxt \<equiv> down_heap_next cmp i n d"
  shows "nxt = i \<or> (0 < nxt \<and> nxt < n \<and> parent_idx nxt = i)"
    and "cmp (d ! i) (d ! nxt) \<le> 0"
    and "0 < j \<Longrightarrow> j < n \<Longrightarrow> parent_idx j = i \<Longrightarrow> cmp (d ! j) (d ! nxt) \<le> 0"
proof -
  define l where "l = left_idx i"
  have l: "i < l" "l < n" using left by (simp_all add: l_def left_idx_def)
  have nxt: "nxt = (let m = (if cmp (d ! i) (d ! l) < 0 then l else i)
    in if l + 1 < n \<and> cmp (d ! m) (d ! (l + 1)) < 0 then l + 1 else m)"
    by (simp add: nxt_def down_heap_next_def l_def Let_def)
  show "nxt = i \<or> (0 < nxt \<and> nxt < n \<and> parent_idx nxt = i)"
    using l parent_idx_iff [of nxt i] by (auto simp: nxt Let_def l_def [symmetric])
  have mem: "d ! i \<in> S" "d ! l \<in> S" and mem': "l + 1 < n \<Longrightarrow> d ! (l + 1) \<in> S"
    using S l by auto
  note swap = cmp_swap [OF cmp] and trans = cmp_trans [OF cmp] and refl = cmp_refl [OF cmp]
  define m where "m = (if cmp (d ! i) (d ! l) < 0 then l else i)"
  have m: "d ! m \<in> S" "cmp (d ! i) (d ! m) \<le> 0" "cmp (d ! l) (d ! m) \<le> 0"
    using mem refl swap [of "d ! i" "d ! l"] by (auto simp: m_def)
  have nm: "nxt = (if l + 1 < n \<and> cmp (d ! m) (d ! (l + 1)) < 0 then l + 1 else m)"
    by (simp add: nxt m_def Let_def)
  have up: "cmp (d ! m) (d ! nxt) \<le> 0" "d ! nxt \<in> S"
    using m mem' refl by (auto simp: nm)
  then show "cmp (d ! i) (d ! nxt) \<le> 0"
    using trans [OF m(2) up(1)] m mem by simp
  have "cmp (d ! l) (d ! nxt) \<le> 0"
    using trans [OF m(3) up(1)] m mem up by simp
  moreover have "l + 1 < n \<Longrightarrow> cmp (d ! (l + 1)) (d ! nxt) \<le> 0"
    using m mem' refl swap [of "d ! m" "d ! (l + 1)"] by (auto simp: nm)
  ultimately show "0 < j \<Longrightarrow> j < n \<Longrightarrow> parent_idx j = i \<Longrightarrow> cmp (d ! j) (d ! nxt) \<le> 0"
    using parent_idx_iff [of j i] by (auto simp: l_def)
qed

lemma heap_except_swap:
  assumes h: "heap_except cmp k i n d" and k: "k \<le> i" and c: "0 < c" "c < n" "parent_idx c = i"
    and n: "n \<le> length d" and up: "cmp (d ! i) (d ! c) \<le> 0"
    and sib: "\<And>j. 0 < j \<Longrightarrow> j < n \<Longrightarrow> parent_idx j = i \<Longrightarrow> cmp (d ! j) (d ! c) \<le> 0"
  shows "heap_except cmp k c n (swap_at i c d)"
proof -
  have ic: "i < c" using parent_idx_less [of c] c by simp
  have nth: "swap_at i c d ! j = (if j = c then d ! i else if j = i then d ! c else d ! j)" for j
    using ic c n by (intro swap_at_nth) auto
  have "cmp (swap_at i c d ! j) (swap_at i c d ! parent_idx j) \<le> 0"
    if j: "0 < j" "j < n" "k \<le> parent_idx j" "parent_idx j \<noteq> c" for j
  proof -
    consider (child) "parent_idx j = i" | (self) "j = i" | (other) "parent_idx j \<noteq> i" "j \<noteq> i" "j \<noteq> c"
      using c by blast
    then show ?thesis
    proof cases
      case child
      then have "j \<noteq> i" using parent_idx_less [OF j(1)] by auto
      then show ?thesis using child sib [OF j(1,2) child] up ic by (simp add: nth)
    next
      case self
      then have "parent_idx i < i" using parent_idx_less j by simp
      then show ?thesis
        using h c j self ic unfolding heap_except_def by (auto simp: nth)
    next
      case other
      then show ?thesis using h j unfolding heap_except_def by (simp add: nth)
    qed
  qed
  moreover have "cmp (swap_at i c d ! j) (swap_at i c d ! parent_idx c) \<le> 0"
    if j: "0 < j" "j < n" "parent_idx j = c" for j
  proof -
    have "c < j" using parent_idx_less [OF j(1)] j by simp
    moreover have "cmp (d ! j) (d ! parent_idx j) \<le> 0"
      using h j ic k unfolding heap_except_def by auto
    ultimately show ?thesis using ic c j by (simp add: nth)
  qed
  ultimately show ?thesis unfolding heap_except_def by blast
qed

lemma down_heap_swap:
  "down_heap cmp i n d =
     (if left_idx i \<ge> n then d
      else if i = down_heap_next cmp i n d then d
      else down_heap cmp (down_heap_next cmp i n d) n (swap_at i (down_heap_next cmp i n d) d))"
  by (subst down_heap.simps) (simp only: Let_def swap_at_def)

lemma down_heap_next_less: "left_idx i < n \<Longrightarrow> down_heap_next cmp i n d < n"
  by (auto simp: down_heap_next_def Let_def left_idx_def)

text \<open>\<open>down_heap\<close> permutes the first \<open>num\<close> elements and leaves the others alone.\<close>

lemma down_heap_permutes:
  "n \<le> length d \<Longrightarrow> mset (down_heap cmp i n d) = mset d \<and> length (down_heap cmp i n d) = length d \<and>
     (\<forall>j\<ge>n. down_heap cmp i n d ! j = d ! j) \<and> (\<forall>j<n. \<exists>j'<n. down_heap cmp i n d ! j = d ! j')"
proof (induction cmp i n d rule: down_heap.induct)
  case (1 cmp i n d)
  define c where "c = down_heap_next cmp i n d"
  show ?case
  proof (cases "left_idx i \<ge> n \<or> i = c")
    case True
    then show ?thesis by (subst (1 2 3 4) down_heap_swap) (auto simp: c_def)
  next
    case False
    then have eq: "down_heap cmp i n d = down_heap cmp c n (swap_at i c d)"
      by (subst down_heap_swap) (simp add: c_def)
    have ic: "i < n" "c < n"
      using False down_heap_next_less [of i n cmp d] by (auto simp: c_def left_idx_def)
    have nth: "swap_at i c d ! j = (if j = c then d ! i else if j = i then d ! c else d ! j)" for j
      using ic 1(2) by (intro swap_at_nth) auto
    have IH: "mset (down_heap cmp c n (swap_at i c d)) = mset (swap_at i c d) \<and>
      length (down_heap cmp c n (swap_at i c d)) = length (swap_at i c d) \<and>
      (\<forall>j\<ge>n. down_heap cmp c n (swap_at i c d) ! j = swap_at i c d ! j) \<and>
      (\<forall>j<n. \<exists>j'<n. down_heap cmp c n (swap_at i c d) ! j = swap_at i c d ! j')"
      unfolding swap_at_def by (rule "1.IH" [OF _ c_def]) (use False 1(2) in simp_all)
    have orig: "\<exists>j'<n. swap_at i c d ! j = d ! j'" if "j < n" for j
      using that ic by (auto simp: nth)
    have "\<exists>j'<n. down_heap cmp c n (swap_at i c d) ! j = d ! j'" if "j < n" for j
      using IH orig that by metis
    then show ?thesis
      unfolding eq using IH ic 1(2) by (simp add: mset_swap_at nth)
  qed
qed

lemma down_heap_heap:
  assumes "cmp_order S cmp" "\<forall>j<n. d ! j \<in> S" "heap_except cmp k i n d" "k \<le> i" "n \<le> length d"
  shows "heap_from cmp k n (down_heap cmp i n d)"
  using assms
proof (induction cmp i n d rule: down_heap.induct)
  case (1 cmp i n d)
  define c where "c = down_heap_next cmp i n d"
  note h = "1.prems"(3)
  show ?case
  proof (cases "left_idx i \<ge> n")
    case True
    then have "parent_idx j \<noteq> i" if "0 < j" "j < n" for j
      using parent_idx_iff [OF that(1), of i] that by auto
    then have "heap_from cmp k n d"
      using h unfolding heap_from_def heap_except_def by blast
    then show ?thesis using True by (subst down_heap_swap) simp
  next
    case False
    then have left: "left_idx i < n" by simp
    note max = down_heap_next_max [OF "1.prems"(1,2) left, folded c_def]
    show ?thesis
    proof (cases "i = c")
      case True
      have "cmp (d ! j) (d ! parent_idx j) \<le> 0" if "0 < j" "j < n" "k \<le> parent_idx j" for j
        using that h max(3) [OF that(1,2)] True unfolding heap_except_def by (cases "parent_idx j = i") simp_all
      then have "heap_from cmp k n d"
        unfolding heap_from_def by blast
      then show ?thesis using True by (subst down_heap_swap) (simp add: c_def)
    next
      case ne: False
      then have c: "0 < c" "c < n" "parent_idx c = i" using max(1) by auto
      have eq: "down_heap cmp i n d = down_heap cmp c n (swap_at i c d)"
        using False ne by (subst down_heap_swap) (simp add: c_def)
      have "i < n" using left by (simp add: left_idx_def)
      then have S: "\<forall>j<n. swap_at i c d ! j \<in> S"
        using "1.prems"(2,5) c by (simp add: swap_at_nth)
      have h': "heap_except cmp k c n (swap_at i c d)"
        by (rule heap_except_swap [OF h "1.prems"(4) c "1.prems"(5) max(2,3)])
      have kc: "k \<le> c" using "1.prems"(4) parent_idx_less [OF c(1)] c by simp
      have len: "n \<le> length (swap_at i c d)" using "1.prems"(5) by simp
      note IH = "1.IH" [OF False c_def ne "1.prems"(1), folded swap_at_def]
      have "heap_from cmp k n (down_heap cmp c n (swap_at i c d))"
        by (rule IH [OF S h' kc len])
      then show ?thesis by (simp only: eq)
    qed
  qed
qed

lemma in_set_after_down_heap:
  assumes "n \<le> length d" "\<forall>j<N. d ! j \<in> S" "n \<le> N"
  shows "\<forall>j<N. down_heap cmp i n d ! j \<in> S"
proof (intro allI impI)
  fix j assume "j < N"
  then show "down_heap cmp i n d ! j \<in> S"
    using down_heap_permutes [OF assms(1), of cmp i] assms(2,3) by (cases "j < n") (fastforce simp: not_less)+
qed

lemma heap_from_except: "heap_from cmp (Suc i) n d \<Longrightarrow> heap_except cmp i i n d"
  unfolding heap_from_def heap_except_def
  by (metis Suc_leI le_neq_implies_less parent_idx_less not_le)

lemma build_heap_loop_heap:
  assumes "cmp_order S cmp" "n \<le> length d" "\<forall>j<n. d ! j \<in> S" "heap_from cmp (Suc i) n d"
  shows "heap_from cmp 0 n (build_heap_loop cmp n i d) \<and> mset (build_heap_loop cmp n i d) = mset d \<and>
    (\<forall>j\<ge>n. build_heap_loop cmp n i d ! j = d ! j) \<and> (\<forall>j<n. build_heap_loop cmp n i d ! j \<in> S)"
  using assms
proof (induction i arbitrary: d)
  case 0
  then show ?case
    using down_heap_heap [OF 0(1,3) heap_from_except [OF 0(4)] order_refl 0(2)]
      down_heap_permutes [OF 0(2), of cmp 0] in_set_after_down_heap [OF 0(2,3) order_refl, of cmp 0] by simp
next
  case (Suc i)
  define d' where "d' = down_heap cmp (Suc i) n d"
  have "heap_from cmp (Suc i) n d'"
    unfolding d'_def by (rule down_heap_heap [OF Suc.prems(1,3) heap_from_except [OF Suc.prems(4)] order_refl Suc.prems(2)])
  moreover have "\<forall>j<n. d' ! j \<in> S"
    unfolding d'_def by (rule in_set_after_down_heap [OF Suc.prems(2,3) order_refl])
  moreover have perm: "mset d' = mset d" "length d' = length d" "\<forall>j\<ge>n. d' ! j = d ! j"
    using down_heap_permutes [OF Suc.prems(2), of cmp "Suc i"] by (simp_all add: d'_def)
  ultimately show ?case
    using Suc.IH [OF Suc.prems(1), of d'] Suc.prems(2) by (simp add: d'_def)
qed

lemma heap_root_max:
  assumes "cmp_order S cmp" "\<forall>j<n. d ! j \<in> S" "heap_from cmp 0 n d" "j < n"
  shows "cmp (d ! j) (d ! 0) \<le> 0"
  using assms(4)
proof (induction j rule: less_induct)
  case (less j)
  show ?case
  proof (cases "j = 0")
    case True
    then show ?thesis using cmp_refl [OF assms(1)] assms(2) less.prems by simp
  next
    case False
    then have p: "parent_idx j < j" by (simp add: parent_idx_less)
    then have "cmp (d ! parent_idx j) (d ! 0) \<le> 0" using less by simp
    moreover have "cmp (d ! j) (d ! parent_idx j) \<le> 0"
      using assms(3) False less.prems unfolding heap_from_def by simp
    ultimately show ?thesis
      using cmp_trans [OF assms(1), of "d ! j" "d ! parent_idx j" "d ! 0"] assms(2) less.prems p by auto
  qed
qed

text \<open>
  Between iterations of the second loop the elements above \<open>i\<close> are in place: every element is no
  larger than those above \<open>i\<close> that follow it.
\<close>

definition placed_above :: "(ptr \<Rightarrow> ptr \<Rightarrow> int) \<Rightarrow> nat \<Rightarrow> nat \<Rightarrow> ptr list \<Rightarrow> bool" where
  "placed_above cmp i n d \<longleftrightarrow> (\<forall>a b. i < b \<and> b < n \<and> a \<le> b \<longrightarrow> cmp (d ! a) (d ! b) \<le> 0)"

lemma extract_step:
  assumes cmp: "cmp_order S cmp" and n: "Suc i < n" "n \<le> length d" and S: "\<forall>j<n. d ! j \<in> S"
    and h: "heap_from cmp 0 (Suc (Suc i)) d" and placed: "placed_above cmp (Suc i) n d"
  defines "d' \<equiv> down_heap cmp 0 (Suc i) (swap_at 0 (Suc i) d)"
  shows "heap_from cmp 0 (Suc i) d'" "placed_above cmp i n d'" "mset d' = mset d" "\<forall>j<n. d' ! j \<in> S"
    "\<forall>j\<ge>n. d' ! j = d ! j"
proof -
  define s where "s = swap_at 0 (Suc i) d"
  have nth: "s ! j = (if j = Suc i then d ! 0 else if j = 0 then d ! Suc i else d ! j)" for j
    using n unfolding s_def by (intro swap_at_nth) auto
  have len: "Suc i \<le> length s" "length s = length d" using n by (simp_all add: s_def)
  note perm = down_heap_permutes [OF len(1), of cmp 0, folded d'_def [folded s_def]]
  have Ss: "\<forall>j<n. s ! j \<in> S" using S n by (simp add: nth)
  have "cmp (s ! j) (s ! parent_idx j) \<le> 0" if "0 < j" "j < Suc i" "parent_idx j \<noteq> 0" for j
    using h that parent_idx_less [of j] unfolding heap_from_def by (simp add: nth)
  then have "heap_except cmp 0 0 (Suc i) s"
    unfolding heap_except_def by simp
  then show "heap_from cmp 0 (Suc i) d'"
    unfolding d'_def s_def [symmetric] using Ss n len by (intro down_heap_heap [OF cmp]) auto
  show "mset d' = mset d"
    using perm n mset_swap_at [of 0 d "Suc i"] by (cases d) (simp_all add: s_def)
  show "\<forall>j<n. d' ! j \<in> S"
    unfolding d'_def s_def [symmetric] using Ss n len by (intro in_set_after_down_heap) auto
  show "\<forall>j\<ge>n. d' ! j = d ! j" using perm n by (simp add: nth)
  have low: "\<exists>j\<le>Suc i. d' ! a = d ! j" if a: "a \<le> Suc i" for a
  proof (cases "a = Suc i")
    case True
    then show ?thesis using perm by (auto simp: nth)
  next
    case False
    then have "a < Suc i" using a by simp
    then obtain j where "j < Suc i" "d' ! a = s ! j" using perm by blast
    then show ?thesis by (cases "j = 0") (auto simp: nth intro: exI [of _ j])
  qed
  have high: "d' ! b = d ! b" if "Suc i < b" for b using perm that by (simp add: nth)
  show "placed_above cmp i n d'"
    unfolding placed_above_def
  proof (intro allI impI)
    fix a b assume ab: "i < b \<and> b < n \<and> a \<le> b"
    show "cmp (d' ! a) (d' ! b) \<le> 0"
    proof (cases "b = Suc i")
      case True
      then obtain j where "j \<le> Suc i" "d' ! a = d ! j" using low [of a] ab by auto
      moreover have "d' ! b = d ! 0" using perm True by (simp add: nth)
      ultimately show ?thesis
        using heap_root_max [OF cmp _ h, of j] S n by simp
    next
      case False
      then have b: "Suc i < b" using ab by simp
      obtain j where "j \<le> b" "d' ! a = d ! j"
      proof (cases "a \<le> Suc i")
        case True
        then obtain j where "j \<le> Suc i" "d' ! a = d ! j" using low by blast
        then show ?thesis using that [of j] b by simp
      next
        case False
        then show ?thesis using that [of a] high [of a] ab by simp
      qed
      then show ?thesis
        using placed ab b high [OF b] unfolding placed_above_def by simp
    qed
  qed
qed

lemma extract_loop_sorts:
  assumes "cmp_order S cmp" "i < n" "n \<le> length d" "\<forall>j<n. d ! j \<in> S" "heap_from cmp 0 (Suc i) d"
    "placed_above cmp i n d"
  shows "placed_above cmp 0 n (extract_loop cmp i d) \<and> mset (extract_loop cmp i d) = mset d \<and>
    (\<forall>j\<ge>n. extract_loop cmp i d ! j = d ! j)"
  using assms
proof (induction i arbitrary: d)
  case 0
  then show ?case by simp
next
  case (Suc i)
  define d' where "d' = down_heap cmp 0 (Suc i) (swap_at 0 (Suc i) d)"
  note step = extract_step [OF Suc.prems(1-6), folded d'_def]
  have "length d' = length d" using step(3) by (metis size_mset)
  moreover have "extract_loop cmp (Suc i) d = extract_loop cmp i d'"
    by (simp add: d'_def swap_at_def)
  ultimately show ?case
    using Suc.IH [OF Suc.prems(1) _ _ step(4,1,2)] Suc.prems(2,3) step(3,5) by simp
qed

lemma take_mset_eq:
  assumes "mset xs = mset ys" "\<forall>j\<ge>n. xs ! j = ys ! j"
  shows "mset (take n xs) = mset (take n ys)"
proof -
  have "length xs = length ys" using assms(1) by (metis size_mset)
  then have "drop n xs = drop n ys" using assms(2) by (intro nth_equalityI) auto
  moreover have "mset (take n xs) + mset (drop n xs) = mset (take n ys) + mset (drop n ys)"
    using assms(1) by (metis append_take_drop_id mset_append)
  ultimately show ?thesis by simp
qed

lemma heap_sort_sorts:
  assumes cmp: "cmp_order (set (take n d)) cmp" and n: "n \<le> length d"
  shows "cmp_sorted cmp (take n (heap_sort cmp n d))" "mset (take n (heap_sort cmp n d)) = mset (take n d)"
    "length (heap_sort cmp n d) = length d"
proof -
  define S where "S = set (take n d)"
  have S: "\<forall>j<n. d ! j \<in> S"
    using n unfolding S_def by (metis length_take min.absorb2 nth_mem nth_take)
  have "cmp_sorted cmp (take n (heap_sort cmp n d)) \<and> mset (heap_sort cmp n d) = mset d \<and>
    (\<forall>j\<ge>n. heap_sort cmp n d ! j = d ! j)"
  proof (cases "n \<ge> 2")
    case False
    then have "length (take n d) \<le> 1" by simp
    then have "cmp_sorted cmp (take n d)" unfolding cmp_sorted_def by (cases "take n d") auto
    then show ?thesis using False by (simp add: heap_sort_def)
  next
    case True
    define b where "b = build_heap_loop cmp n (parent_idx (n - 1)) d"
    have "\<not> Suc (parent_idx (n - 1)) \<le> parent_idx j" if "j < n" for j
      using that by (auto simp: parent_idx_def intro: div_le_mono)
    then have "heap_from cmp (Suc (parent_idx (n - 1))) n d"
      unfolding heap_from_def by blast
    note b = build_heap_loop_heap [OF cmp [folded S_def] n S this, folded b_def]
    have len: "length b = length d" using b by (metis size_mset)
    have e: "heap_sort cmp n d = extract_loop cmp (n - 1) b" using True by (simp add: heap_sort_def b_def)
    have "placed_above cmp 0 n (extract_loop cmp (n - 1) b) \<and> mset (extract_loop cmp (n - 1) b) = mset b \<and>
      (\<forall>j\<ge>n. extract_loop cmp (n - 1) b ! j = b ! j)"
      by (rule extract_loop_sorts [OF cmp [folded S_def]]) (use True n b len in \<open>auto simp: placed_above_def\<close>)
    then show ?thesis
      using b unfolding e cmp_sorted_def sorted_wrt_iff_nth_less placed_above_def by auto
  qed
  then show "cmp_sorted cmp (take n (heap_sort cmp n d))" "mset (take n (heap_sort cmp n d)) = mset (take n d)"
    "length (heap_sort cmp n d) = length d"
    by (auto intro: take_mset_eq dest: mset_eq_length)
qed

text \<open>Whatever the callback answers, sorting only permutes the elements.\<close>

lemma build_heap_loop_permutes:
  "n \<le> length d \<Longrightarrow> mset (build_heap_loop cmp n i d) = mset d \<and> (\<forall>j\<ge>n. build_heap_loop cmp n i d ! j = d ! j)"
proof (induction i arbitrary: d)
  case 0
  then show ?case using down_heap_permutes [of n d cmp 0] by simp
next
  case (Suc i)
  then show ?case
    using down_heap_permutes [of n d cmp "Suc i"] Suc.IH [of "down_heap cmp (Suc i) n d"] by simp
qed

lemma extract_loop_permutes:
  "i < n \<Longrightarrow> n \<le> length d \<Longrightarrow>
     mset (extract_loop cmp i d) = mset d \<and> (\<forall>j\<ge>n. extract_loop cmp i d ! j = d ! j)"
proof (induction i arbitrary: d)
  case 0
  then show ?case by simp
next
  case (Suc i)
  define s where "s = swap_at 0 (Suc i) d"
  have s: "mset s = mset d" "length s = length d" "\<forall>j\<ge>n. s ! j = d ! j"
    using Suc.prems mset_swap_at [of 0 d "Suc i"] swap_at_nth [of 0 d "Suc i"]
    by (cases d; simp add: s_def)+
  have "extract_loop cmp (Suc i) d = extract_loop cmp i (down_heap cmp 0 (Suc i) s)"
    by (simp add: s_def swap_at_def)
  then show ?case
    using down_heap_permutes [of "Suc i" s cmp 0] Suc.IH [of "down_heap cmp 0 (Suc i) s"] Suc.prems s by simp
qed

lemma heap_sort_permutes:
  "n \<le> length d \<Longrightarrow> mset (take n (heap_sort cmp n d)) = mset (take n d) \<and> length (heap_sort cmp n d) = length d"
proof (cases "n \<ge> 2")
  case True
  define b where "b = build_heap_loop cmp n (parent_idx (n - 1)) d"
  assume n: "n \<le> length d"
  note b = build_heap_loop_permutes [OF n, of cmp "parent_idx (n - 1)", folded b_def]
  then have len: "length b = length d" by (metis size_mset)
  have e: "heap_sort cmp n d = extract_loop cmp (n - 1) b" using True by (simp add: heap_sort_def b_def)
  have "mset (heap_sort cmp n d) = mset d \<and> (\<forall>j\<ge>n. heap_sort cmp n d ! j = d ! j)"
    unfolding e using extract_loop_permutes [of "n - 1" n b cmp] b len n True by simp
  then show ?thesis by (auto intro: take_mset_eq dest: mset_eq_length)
qed (simp add: heap_sort_def)

subsection \<open>Sequences of operations\<close>

text \<open>
  The operations that change a stack, their effect on the stack and on the list it represents, and what
  they return (0 where the C function returns nothing). Sorting is specified by its result, a sorted
  permutation, rather than by a function on lists.
\<close>

datatype sk_op =
  Insert ptr u64 | Push ptr | Delete u64 | DeletePtr ptr | DeleteIf "ptr \<Rightarrow> bool" | Pop | Shift | Zero
  | SetAt u64 ptr | Sort | SetCmp ptr

fun sk_exec :: "(u64 \<Rightarrow> bytes option) \<Rightarrow> cmp_func \<Rightarrow> sk_op \<Rightarrow> OPENSSL_STACK \<Rightarrow> OPENSSL_STACK" where
  "sk_exec malloc call (Insert p wh) sk = the (snd (OPENSSL_sk_insert malloc (Some sk) p wh))"
| "sk_exec malloc call (Push p) sk = the (snd (OPENSSL_sk_push malloc sk p))"
| "sk_exec malloc call (Delete wh) sk = the (snd (OPENSSL_sk_delete (Some sk) wh))"
| "sk_exec malloc call (DeletePtr p) sk = the (snd (OPENSSL_sk_delete_ptr (Some sk) p))"
| "sk_exec malloc call (DeleteIf f) sk = the (OPENSSL_sk_delete_if (Some sk) f)"
| "sk_exec malloc call Pop sk = the (snd (OPENSSL_sk_pop (Some sk)))"
| "sk_exec malloc call Shift sk = the (snd (OPENSSL_sk_shift (Some sk)))"
| "sk_exec malloc call Zero sk = the (OPENSSL_sk_zero (Some sk))"
| "sk_exec malloc call (SetAt i v) sk = the (snd (OPENSSL_sk_set (Some sk) i v))"
| "sk_exec malloc call Sort sk = the (OPENSSL_sk_sort call (Some sk))"
| "sk_exec malloc call (SetCmp c) sk = snd (OPENSSL_sk_set_cmp_func sk c)"

fun sk_ret :: "(u64 \<Rightarrow> bytes option) \<Rightarrow> sk_op \<Rightarrow> OPENSSL_STACK \<Rightarrow> u64" where
  "sk_ret malloc (Insert p wh) sk = fst (OPENSSL_sk_insert malloc (Some sk) p wh)"
| "sk_ret malloc (Push p) sk = fst (OPENSSL_sk_push malloc sk p)"
| "sk_ret malloc (Delete wh) sk = fst (OPENSSL_sk_delete (Some sk) wh)"
| "sk_ret malloc (DeletePtr p) sk = fst (OPENSSL_sk_delete_ptr (Some sk) p)"
| "sk_ret malloc Pop sk = fst (OPENSSL_sk_pop (Some sk))"
| "sk_ret malloc Shift sk = fst (OPENSSL_sk_shift (Some sk))"
| "sk_ret malloc (SetAt i v) sk = fst (OPENSSL_sk_set (Some sk) i v)"
| "sk_ret malloc (SetCmp c) sk = fst (OPENSSL_sk_set_cmp_func sk c)"
| "sk_ret malloc _ sk = 0"

definition delete_nth :: "nat \<Rightarrow> ptr list \<Rightarrow> ptr list" where
  "delete_nth i xs = take i xs @ drop (Suc i) xs"

fun list_exec :: "sk_op \<Rightarrow> ptr list \<Rightarrow> ptr list" where
  "list_exec (Insert p wh) xs = take (unat wh) xs @ p # drop (unat wh) xs"
| "list_exec (Push p) xs = xs @ [p]"
| "list_exec (Delete wh) xs = delete_nth (unat wh) xs"
| "list_exec (DeletePtr p) xs = remove1 p xs"
| "list_exec (DeleteIf f) xs = filter (\<lambda>x. \<not> f x) xs"
| "list_exec Pop xs = butlast xs"
| "list_exec Shift xs = tl xs"
| "list_exec Zero xs = []"
| "list_exec (SetAt i v) xs = xs[unat i := v]"
| "list_exec Sort xs = xs"
| "list_exec (SetCmp c) xs = xs"

text \<open>The results on the list; \<open>old\<close> is the comparison function before the operation.\<close>

fun list_ret :: "ptr \<Rightarrow> sk_op \<Rightarrow> ptr list \<Rightarrow> u64" where
  "list_ret old (Insert p wh) xs = word_of_nat (Suc (length xs))"
| "list_ret old (Push p) xs = word_of_nat (Suc (length xs))"
| "list_ret old (Delete wh) xs = (if unat wh < length xs then xs ! unat wh else 0)"
| "list_ret old (DeletePtr p) xs = (if p \<in> set xs then p else 0)"
| "list_ret old Pop xs = (if xs = [] then 0 else last xs)"
| "list_ret old Shift xs = (if xs = [] then 0 else hd xs)"
| "list_ret old (SetAt i v) xs = (if unat i < length xs then v else 0)"
| "list_ret old (SetCmp c) xs = old"
| "list_ret old _ xs = 0"

fun cmp_after :: "ptr \<Rightarrow> sk_op \<Rightarrow> ptr" where
  "cmp_after old (SetCmp c) = c"
| "cmp_after old _ = old"

fun is_insertion :: "sk_op \<Rightarrow> bool" where
  "is_insertion (Insert p wh) = True"
| "is_insertion (Push p) = True"
| "is_insertion _ = False"

lemma delete_if_loop_filter:
  assumes "delete_if_loop f n i m d = (m', d')" "m \<le> i" "i + n \<le> length d"
  shows "length d' = length d \<and> m' \<le> i + n \<and>
    take m' d' = take m d @ filter (\<lambda>x. \<not> f x) (take n (drop i d))"
  using assms
proof (induction n arbitrary: i m d)
  case 0
  then show ?case by simp
next
  case (Suc n)
  have d: "take (Suc n) (drop i d) = d ! i # take n (drop (Suc i) d)"
    using Suc.prems(3) by (simp add: Cons_nth_drop_Suc [symmetric])
  show ?case
  proof (cases "f (d ! i)")
    case True
    then show ?thesis using Suc.IH [of "Suc i" m d] Suc.prems d by simp
  next
    case False
    define d1 where "d1 = d[m := d ! i]"
    have "take (Suc m) d1 = take m d @ [d ! i]" "drop (Suc i) d1 = drop (Suc i) d"
      using Suc.prems by (simp_all add: d1_def take_Suc_conv_app_nth)
    then show ?thesis
      using False Suc.IH [of "Suc i" "Suc m" d1] Suc.prems d by (simp add: d1_def)
  qed
qed

lemma sk_delete_if_ok:
  assumes "sk_ok sk"
  shows "\<exists>sk'. OPENSSL_sk_delete_if (Some sk) f = Some sk' \<and> sk_ok sk' \<and>
    sk_list sk' = filter (\<lambda>x. \<not> f x) (sk_list sk) \<and> comp sk' = comp sk \<and> sorted_flag sk' = sorted_flag sk"
proof -
  obtain m' d' where loop: "delete_if_loop f (unat (num sk)) 0 0 (data sk) = (m', d')" by fastforce
  have res: "length d' = length (data sk)" "m' \<le> unat (num sk)"
    "take m' d' = filter (\<lambda>x. \<not> f x) (sk_list sk)"
    using delete_if_loop_filter [OF loop] sk_ok_num [OF assms] by (simp_all add: sk_list_def)
  moreover from res(2) have "unat (word_of_nat m' :: u64) = m'"
    by (metis le_unat_uoi)
  ultimately show ?thesis
    using assms by (auto simp: OPENSSL_sk_delete_if_def loop sk_ok_def sk_list_def word_le_nat_alt)
qed

lemma remove1_first_match:
  assumes "first_match (\<lambda>i. xs ! i = p) 0 (length xs) m"
  shows "remove1 p xs = delete_nth m xs"
proof -
  have m: "m < length xs" "xs ! m = p" and "p \<notin> set (take m xs)"
    using assms by (auto simp: first_match_def in_set_conv_nth)
  then have "remove1 p (take m xs @ p # drop (Suc m) xs) = take m xs @ drop (Suc m) xs"
    by (simp add: remove1_append)
  then show ?thesis using m id_take_nth_drop [of m xs] by (simp add: delete_nth_def)
qed

lemma first_index_None: "first_index P xs k = None \<longleftrightarrow> (\<forall>x\<in>set xs. \<not> P x)"
  by (induction xs arbitrary: k) auto

lemma sk_delete_list:
  assumes "sk_ok sk"
  shows "\<exists>sk'. OPENSSL_sk_delete (Some sk) wh = (list_ret c (Delete wh) (sk_list sk), Some sk') \<and> sk_ok sk' \<and>
    sk_list sk' = delete_nth (unat wh) (sk_list sk) \<and> comp sk' = comp sk \<and> sorted_flag sk' = sorted_flag sk"
proof (cases "wh < num sk")
  case True
  obtain p sk2 where "OPENSSL_sk_delete (Some sk) wh = (p, sk2)" by fastforce
  then show ?thesis
    using sk_delete_ok [OF assms True] True length_sk_list [OF assms]
    by (auto simp: delete_nth_def word_less_nat_alt)
next
  case False
  then have "length (sk_list sk) \<le> unat wh"
    using length_sk_list [OF assms] by (simp add: word_less_nat_alt)
  then show ?thesis
    using not_less [THEN iffD1, OF False] assms by (simp add: OPENSSL_sk_delete_def delete_nth_def)
qed

text \<open>
  A stack is truthful when its flag \<open>sorted\<close> is set only if a comparison function is set and the
  elements are in ascending order, as the comment on the field promises.
\<close>

definition sk_truthful :: "cmp_func \<Rightarrow> OPENSSL_STACK \<Rightarrow> bool" where
  "sk_truthful call sk \<longleftrightarrow> (sorted_flag sk \<longrightarrow> comp sk \<noteq> 0 \<and> cmp_sorted (call (comp sk)) (sk_list sk))"

lemma sk_delete_ptr_list:
  assumes "sk_ok sk"
  shows "\<exists>sk'. OPENSSL_sk_delete_ptr (Some sk) p = (list_ret c (DeletePtr p) (sk_list sk), Some sk') \<and> sk_ok sk' \<and>
    sk_list sk' = remove1 p (sk_list sk) \<and> comp sk' = comp sk \<and> sorted_flag sk' = sorted_flag sk"
proof (cases "first_index (\<lambda>x. x = p) (sk_list sk) 0")
  case None
  then have "p \<notin> set (sk_list sk)" by (auto simp: first_index_None)
  then show ?thesis
    using None assms by (simp add: OPENSSL_sk_delete_ptr_def sk_list_def [symmetric] remove1_idem)
next
  case (Some i)
  then have i: "first_match (\<lambda>i. sk_list sk ! i = p) 0 (length (sk_list sk)) i"
    by (simp add: first_index_iff)
  then have "i \<le> unat (num sk)" using length_sk_list [OF assms] by (simp add: first_match_def)
  then have "unat (word_of_nat i :: u64) = i" by (metis le_unat_uoi)
  then show ?thesis
    using Some sk_delete_list [OF assms, of "word_of_nat i" c] remove1_first_match [OF i] i nth_mem [of i "sk_list sk"]
    by (auto simp: OPENSSL_sk_delete_ptr_def first_match_def simp flip: sk_list_def)
qed

lemma delete_nth_last: "xs \<noteq> [] \<Longrightarrow> delete_nth (length xs - 1) xs = butlast xs"
  by (simp add: delete_nth_def butlast_conv_take)

lemma sk_pop_list:
  assumes "sk_ok sk"
  shows "\<exists>sk'. OPENSSL_sk_pop (Some sk) = (list_ret c Pop (sk_list sk), Some sk') \<and> sk_ok sk' \<and>
    sk_list sk' = butlast (sk_list sk) \<and> comp sk' = comp sk \<and> sorted_flag sk' = sorted_flag sk"
proof (cases "num sk = 0")
  case True
  then show ?thesis using assms by (simp add: OPENSSL_sk_pop_def sk_list_def)
next
  case False
  then have n: "unat (num sk - 1) = length (sk_list sk) - 1"
    using length_sk_list [OF assms] by (simp add: unat_minus_one)
  have "sk_list sk \<noteq> []" using False length_sk_list [OF assms] by (metis list.size(3) unat_eq_zero)
  then show ?thesis
    using False sk_delete_list [OF assms, of "num sk - 1" c] delete_nth_last
    by (auto simp: OPENSSL_sk_pop_def n last_conv_nth)
qed

lemma sk_shift_list:
  assumes "sk_ok sk"
  shows "\<exists>sk'. OPENSSL_sk_shift (Some sk) = (list_ret c Shift (sk_list sk), Some sk') \<and> sk_ok sk' \<and>
    sk_list sk' = tl (sk_list sk) \<and> comp sk' = comp sk \<and> sorted_flag sk' = sorted_flag sk"
proof (cases "num sk = 0")
  case True
  then show ?thesis using assms by (simp add: OPENSSL_sk_shift_def sk_list_def)
next
  case False
  then have "sk_list sk \<noteq> []" using length_sk_list [OF assms] by (metis list.size(3) unat_eq_zero)
  then show ?thesis
    using False sk_delete_list [OF assms, of 0 c]
    by (auto simp: OPENSSL_sk_shift_def delete_nth_def drop_Suc hd_conv_nth)
qed

lemma sk_zero_list:
  assumes "sk_ok sk"
  shows "\<exists>sk'. OPENSSL_sk_zero (Some sk) = Some sk' \<and> sk_ok sk' \<and> sk_list sk' = [] \<and> comp sk' = comp sk \<and>
    (sorted_flag sk' \<longrightarrow> sorted_flag sk)"
  using assms sk_ok_num [OF assms]
  by (auto simp: OPENSSL_sk_zero_def sk_list_def sk_ok_def)

lemma sk_set_list:
  assumes "sk_ok sk"
  shows "\<exists>sk'. OPENSSL_sk_set (Some sk) i v = (list_ret c (SetAt i v) (sk_list sk), Some sk') \<and> sk_ok sk' \<and>
    sk_list sk' = (sk_list sk)[unat i := v] \<and> comp sk' = comp sk \<and> sorted_flag sk' = sorted_flag sk"
proof (cases "num sk \<le> i")
  case True
  then have "length (sk_list sk) \<le> unat i" using length_sk_list [OF assms] by (simp add: word_le_nat_alt)
  then show ?thesis using True assms by (simp add: OPENSSL_sk_set_def list_update_beyond)
next
  case False
  then have "unat i < length (sk_list sk)" using length_sk_list [OF assms] by (simp add: word_le_nat_alt)
  then show ?thesis
    using False assms by (simp add: OPENSSL_sk_set_def sk_ok_def sk_list_def take_update_swap)
qed

lemma sk_sort_list:
  assumes "sk_ok sk"
  shows "\<exists>sk'. OPENSSL_sk_sort call (Some sk) = Some sk' \<and> sk_ok sk' \<and> num sk' = num sk \<and>
    mset (sk_list sk') = mset (sk_list sk) \<and> comp sk' = comp sk"
  using assms heap_sort_permutes [OF sk_ok_num [OF assms], of "call (comp sk)"]
  by (auto simp: OPENSSL_sk_sort_def sk_ok_def sk_list_def)

lemma sk_sort_sorted:
  assumes "sk_ok sk" "comp sk \<noteq> 0" "cmp_order (set (sk_list sk)) (call (comp sk))" "sk_truthful call sk"
    "OPENSSL_sk_sort call (Some sk) = Some sk'"
  shows "cmp_sorted (call (comp sk)) (sk_list sk')"
  using assms heap_sort_sorts [OF assms(3) [unfolded sk_list_def] sk_ok_num [OF assms(1)]]
  by (auto simp: OPENSSL_sk_sort_def sk_list_def sk_truthful_def split: if_splits)

fun is_set :: "sk_op \<Rightarrow> bool" where
  "is_set (SetAt i v) = True"
| "is_set _ = False"

lemma cmp_sorted_sublist:
  "cmp_sorted cmp xs \<Longrightarrow> cmp_sorted cmp (delete_nth i xs)"
  "cmp_sorted cmp xs \<Longrightarrow> cmp_sorted cmp (remove1 p xs)"
  "cmp_sorted cmp xs \<Longrightarrow> cmp_sorted cmp (filter P xs)"
  "cmp_sorted cmp xs \<Longrightarrow> cmp_sorted cmp (butlast xs)"
  "cmp_sorted cmp xs \<Longrightarrow> cmp_sorted cmp (tl xs)"
proof -
  assume xs: "cmp_sorted cmp xs"
  show "cmp_sorted cmp (delete_nth i xs)"
  proof (cases "i < length xs")
    case True
    have "sorted_wrt (\<lambda>a b. cmp a b \<le> 0) (take i xs @ xs ! i # drop (Suc i) xs)"
      using xs id_take_nth_drop [OF True] by (simp add: cmp_sorted_def)
    then show ?thesis by (simp add: cmp_sorted_def delete_nth_def sorted_wrt_append)
  qed (use xs in \<open>simp add: delete_nth_def\<close>)
  show "cmp_sorted cmp (remove1 p xs)"
    using xs unfolding cmp_sorted_def by (induction xs) (auto dest: notin_set_remove1 [rotated] intro: ccontr)
  show "cmp_sorted cmp (filter P xs)" "cmp_sorted cmp (butlast xs)"
    using xs by (simp_all add: cmp_sorted_def sorted_wrt_filter butlast_conv_take sorted_wrt_take)
  show "cmp_sorted cmp (tl xs)"
    using xs by (cases xs) (simp_all add: cmp_sorted_def)
qed

text \<open>An insertion fails only at the largest count or when the array cannot be doubled.\<close>

definition cannot_insert :: "(u64 \<Rightarrow> bytes option) \<Rightarrow> OPENSSL_STACK \<Rightarrow> bool" where
  "cannot_insert malloc sk \<longleftrightarrow> num sk = INT_MAX \<or>
     num_alloc sk \<le> num sk + 1 \<and> realloc_ptrs malloc (data sk) (num_alloc sk * 16) = None"

context libc_malloc
begin

lemma sk_grow_fails:
  assumes "sk_ok sk" "num sk < INT_MAX" "sk_grow malloc sk = None"
  shows "num_alloc sk \<le> num sk + 1 \<and> realloc_ptrs malloc (data sk) (num_alloc sk * 16) = None"
proof -
  have grow: "num_alloc sk \<le> num sk + 1"
    using assms(3) by (auto simp: sk_grow_def split: if_splits)
  have "unat (num sk) < 2 ^ 31 - 1" "unat (num sk + 1) = unat (num sk) + 1"
    using assms(2) by (auto simp: INT_MAX_def word_less_nat_alt unat_word_ariths)
  then have a: "unat (num_alloc sk) < 2 ^ 31" using grow by (simp add: word_le_nat_alt)
  define m where "m = push_bit 1 (num_alloc sk)"
  have m: "m = num_alloc sk * 2" "unat m = 2 * unat (num_alloc sk)"
    using a by (simp_all add: m_def push_bit_eq_mult unat_word_ariths)
  then have "unat (m * 8) = 16 * unat (num_alloc sk)" using a by (simp add: unat_word_ariths)
  then have ok: "\<not> (m < num_alloc sk \<or> m * 8 div 8 \<noteq> m)"
    using m(2) by (simp add: word_less_nat_alt word_unat_eq_iff unat_div)
  have "realloc_ptrs malloc (data sk) (m * 8) = None"
    using assms(3) unfolding sk_grow_def if_P [OF grow] m_def [symmetric] Let_def if_not_P [OF ok] prod.case
    by (auto split: option.splits)
  then show ?thesis using grow by (simp add: m mult.assoc)
qed

lemma sk_exec_insert:
  assumes "sk_ok sk"
  shows "let sk' = sk_exec malloc call (Insert p wh) sk; r = sk_ret malloc (Insert p wh) sk in
    if r = 0 then sk' = sk \<and> cannot_insert malloc sk
    else r = list_ret c (Insert p wh) (sk_list sk) \<and> sk_ok sk' \<and>
      sk_list sk' = list_exec (Insert p wh) (sk_list sk) \<and> comp sk' = comp sk \<and> \<not> sorted_flag sk'"
proof -
  obtain n sk2 where ins: "OPENSSL_sk_insert malloc (Some sk) p wh = (n, sk2)" by fastforce
  show ?thesis
  proof (cases "num sk \<ge> INT_MAX \<or> sk_grow malloc sk = None")
    case True
    then have "n = 0" "sk2 = Some sk" using ins by (auto simp: OPENSSL_sk_insert_def split: if_splits)
    moreover have "cannot_insert malloc sk"
      using True sk_grow_fails [OF assms] assms by (cases "num sk < INT_MAX") (auto simp: cannot_insert_def sk_ok_def)
    ultimately show ?thesis using ins by simp
  next
    case False
    then obtain g where g: "sk_grow malloc sk = Some g" and lt: "num sk < INT_MAX" by auto
    then have "n = num sk + 1"
      using ins sk_grow_ok(3) [OF g assms lt] by (auto simp: OPENSSL_sk_insert_def Let_def split: if_splits)
    moreover have "unat (num sk + 1) = Suc (unat (num sk))" using lt by (auto simp: INT_MAX_def word_less_nat_alt unat_word_ariths)
    ultimately have "n \<noteq> 0" "n = word_of_nat (Suc (length (sk_list sk)))"
      using length_sk_list [OF assms] by (auto simp: word_unat_eq_iff add.commute)
    then show ?thesis using sk_insert_ok [OF ins assms] ins by auto
  qed
qed

lemma sk_exec_push:
  assumes "sk_ok sk"
  shows "let sk' = sk_exec malloc call (Push p) sk; r = sk_ret malloc (Push p) sk in
    if r = 0 then sk' = sk \<and> cannot_insert malloc sk
    else r = list_ret c (Push p) (sk_list sk) \<and> sk_ok sk' \<and>
      sk_list sk' = list_exec (Push p) (sk_list sk) \<and> comp sk' = comp sk \<and> \<not> sorted_flag sk'"
  using sk_exec_insert [OF assms, of call p "num sk" c] length_sk_list [OF assms]
  by (auto simp: OPENSSL_sk_push_def Let_def split: if_splits)

lemma sk_exec_refines:
  assumes "sk_ok sk"
  shows "let sk' = sk_exec malloc call op sk; r = sk_ret malloc op sk in
    sk_ok sk' \<and>
    (if is_insertion op \<and> r = 0 then sk' = sk \<and> cannot_insert malloc sk
     else r = list_ret (comp sk) op (sk_list sk) \<and> comp sk' = cmp_after (comp sk) op \<and>
       (if op = Sort then mset (sk_list sk') = mset (sk_list sk) else sk_list sk' = list_exec op (sk_list sk)))"
proof (cases op)
  case (Insert p wh)
  then show ?thesis using sk_exec_insert [OF assms, of call p wh "comp sk"] assms by (auto simp: Let_def)
next
  case (Push p)
  then show ?thesis using sk_exec_push [OF assms, of call p "comp sk"] assms by (auto simp: Let_def)
next
  case (Delete wh)
  then show ?thesis using sk_delete_list [OF assms, of wh "comp sk"] by auto
next
  case (DeletePtr p)
  then show ?thesis using sk_delete_ptr_list [OF assms, of p "comp sk"] by auto
next
  case (DeleteIf f)
  then show ?thesis using sk_delete_if_ok [OF assms, of f] by auto
next
  case Pop
  then show ?thesis using sk_pop_list [OF assms, of "comp sk"] by auto
next
  case Shift
  then show ?thesis using sk_shift_list [OF assms, of "comp sk"] by auto
next
  case Zero
  then show ?thesis using sk_zero_list [OF assms] by auto
next
  case (SetAt i v)
  then show ?thesis using sk_set_list [OF assms, of i v "comp sk"] by auto
next
  case Sort
  then show ?thesis using sk_sort_list [OF assms, of call] by auto
next
  case (SetCmp c)
  then show ?thesis using assms by (simp add: OPENSSL_sk_set_cmp_func_def sk_ok_def sk_list_def)
qed

lemma sk_exec_truthful:
  assumes "sk_ok sk" "sk_truthful call sk" "\<not> is_set op" "\<And>c. c \<noteq> 0 \<Longrightarrow> cmp_order UNIV (call c)"
  shows "sk_truthful call (sk_exec malloc call op sk)"
proof (cases op)
  case (Insert p wh)
  then show ?thesis
    using sk_exec_insert [OF assms(1), of call p wh 0] assms by (auto simp: Let_def sk_truthful_def split: if_splits)
next
  case (Push p)
  then show ?thesis
    using sk_exec_push [OF assms(1), of call p 0] assms by (auto simp: Let_def sk_truthful_def split: if_splits)
next
  case (Delete wh)
  then show ?thesis
    using sk_delete_list [OF assms(1), of wh 0] assms(2) by (auto simp: sk_truthful_def cmp_sorted_sublist)
next
  case (DeletePtr p)
  then show ?thesis
    using sk_delete_ptr_list [OF assms(1), of p 0] assms(2) by (auto simp: sk_truthful_def cmp_sorted_sublist)
next
  case (DeleteIf f)
  then show ?thesis
    using sk_delete_if_ok [OF assms(1), of f] assms(2) by (auto simp: sk_truthful_def cmp_sorted_sublist)
next
  case Pop
  then show ?thesis
    using sk_pop_list [OF assms(1), of 0] assms(2) by (auto simp: sk_truthful_def cmp_sorted_sublist)
next
  case Shift
  then show ?thesis
    using sk_shift_list [OF assms(1), of 0] assms(2) by (auto simp: sk_truthful_def cmp_sorted_sublist)
next
  case Zero
  then show ?thesis
    using sk_zero_list [OF assms(1)] assms(2) by (auto simp: sk_truthful_def cmp_sorted_def)
next
  case (SetAt i v)
  then show ?thesis using assms(3) by simp
next
  case Sort
  then show ?thesis
    using sk_sort_list [OF assms(1), of call] sk_sort_sorted [OF assms(1), of call] assms(2)
      cmp_order_mono [OF assms(4) subset_UNIV]
    by (cases "comp sk = 0") (auto simp: sk_truthful_def OPENSSL_sk_sort_def)
next
  case (SetCmp c)
  then show ?thesis
    using assms(2) by (auto simp: OPENSSL_sk_set_cmp_func_def sk_list_def sk_truthful_def)
qed

end

text \<open>A run of operations on a stack.\<close>

fun sk_run :: "(u64 \<Rightarrow> bytes option) \<Rightarrow> cmp_func \<Rightarrow> sk_op list \<Rightarrow> OPENSSL_STACK \<Rightarrow> OPENSSL_STACK" where
  "sk_run malloc call [] sk = sk"
| "sk_run malloc call (op # ops) sk = sk_run malloc call ops (sk_exec malloc call op sk)"

lemma sk_run_snoc: "sk_run malloc call (ops @ [op]) sk = sk_exec malloc call op (sk_run malloc call ops sk)"
  by (induction ops arbitrary: sk) simp_all

context libc_malloc
begin

lemma sk_new_ok:
  assumes "OPENSSL_sk_new malloc c = Some sk"
  shows "sk_ok sk" "sk_list sk = []" "comp sk = c" "\<not> sorted_flag sk"
proof -
  obtain d where d: "OPENSSL_calloc malloc kMinSize 8 = Some d"
    and sk: "sk = \<lparr>num = 0, data = mem_to_ptrs (ptr_data d), sorted_flag = False, num_alloc = kMinSize, comp = c\<rparr>"
    using assms by (auto simp: OPENSSL_sk_new_def split: option.splits)
  obtain p where p: "OPENSSL_malloc malloc 32 = Some p" and dp: "d = memcpy_data p (replicate 32 0) 32"
    using d by (auto simp: OPENSSL_calloc_def OPENSSL_zalloc_def kMinSize_def split: if_splits option.splits)
  have "length (ptr_data d) = 32"
    using malloc_SomeD [OF p] by (simp add: dp memcpy_data_def ptr_data_def)
  then show "sk_ok sk" "sk_list sk = []" "comp sk = c" "\<not> sorted_flag sk"
    by (simp_all add: sk sk_ok_def sk_list_def kMinSize_def length_mem_to_ptrs INT_MAX_def)
qed

lemma sk_run_inv:
  assumes "sk_ok sk" "sk_truthful call sk" "\<And>c. c \<noteq> 0 \<Longrightarrow> cmp_order UNIV (call c)" "\<not> list_ex is_set ops"
  shows "sk_ok (sk_run malloc call ops sk) \<and> sk_truthful call (sk_run malloc call ops sk)"
  using assms
proof (induction ops arbitrary: sk)
  case Nil
  then show ?case by simp
next
  case (Cons op ops)
  then show ?case
    using sk_exec_refines [OF Cons.prems(1), of call op] sk_exec_truthful [OF Cons.prems(1,2) _ Cons.prems(3), of op]
    by (simp add: Let_def)
qed

end

subsection \<open>Copies\<close>

definition copy_or_null :: "(ptr \<Rightarrow> ptr) \<Rightarrow> ptr \<Rightarrow> ptr" where
  "copy_or_null copy p = (if p = 0 then 0 else copy p)"

lemma first_index_Suc: "first_index P xs (Suc k) = map_option Suc (first_index P xs k)"
  by (induction xs arbitrary: k) auto

lemma deep_copy_loop_copies:
  "i + n \<le> length d \<Longrightarrow>
   deep_copy_loop copy n i d =
     (case first_index (\<lambda>p. p \<noteq> 0 \<and> copy p = 0) (take n (drop i d)) 0 of
        None \<Rightarrow> Inr (take i d @ map (copy_or_null copy) (take n (drop i d)) @ drop (i + n) d)
      | Some m \<Rightarrow> Inl (filter (\<lambda>p. p \<noteq> 0) (take i d @ map (copy_or_null copy) (take m (drop i d)))))"
proof (induction n arbitrary: i d)
  case 0
  then show ?case by simp
next
  case (Suc n)
  define x rest where "x = d ! i" and "rest = take n (drop (Suc i) d)"
  have i: "i < length d" using Suc.prems by simp
  have d: "take (Suc n) (drop i d) = x # rest" "drop i d = x # drop (Suc i) d"
    using i by (simp_all add: Cons_nth_drop_Suc [symmetric] x_def rest_def)
  define d1 where "d1 = d[i := copy_or_null copy x]"
  have d1: "take (Suc i) d1 = take i d @ [copy_or_null copy x]" "drop (Suc i) d1 = drop (Suc i) d"
    "drop (Suc i + n) d1 = drop (i + Suc n) d" "length d1 = length d"
    using i by (simp_all add: d1_def take_Suc_conv_app_nth)
  show ?case
  proof (cases "x \<noteq> 0 \<and> copy x = 0")
    case True
    then show ?thesis using d i by (simp add: x_def)
  next
    case False
    then have "deep_copy_loop copy (Suc n) i d = deep_copy_loop copy n (Suc i) d1"
      using i list_update_id [of d i] by (cases "x = 0") (auto simp: x_def d1_def copy_or_null_def simp del: list_update_id)
    also have "\<dots> = (case first_index (\<lambda>p. p \<noteq> 0 \<and> copy p = 0) rest 0 of
        None \<Rightarrow> Inr (take (Suc i) d1 @ map (copy_or_null copy) rest @ drop (Suc i + n) d1)
      | Some m \<Rightarrow> Inl (filter (\<lambda>p. p \<noteq> 0) (take (Suc i) d1 @ map (copy_or_null copy) (take m (drop (Suc i) d)))))"
      using Suc.IH [of "Suc i" d1] Suc.prems by (simp only: d1 rest_def)
    finally show ?thesis
      using False unfolding d d1
      by (auto simp add: first_index_Suc rest_def simp del: deep_copy_loop.simps split: option.split)
  qed
qed

context libc_malloc
begin

lemma sk_dup_eq:
  assumes "OPENSSL_sk_dup malloc (Some sk) = Some sk'" "sk_ok sk"
  shows "sk' = sk"
proof -
  have sz: "unat (8 * num_alloc sk) = 8 * unat (num_alloc sk)"
    using assms(2) by (simp add: sk_ok_def unat_word_ariths)
  obtain d where d: "OPENSSL_memdup malloc (ptrs_to_mem (data sk)) (8 * num_alloc sk) = Some d"
    and sk': "sk' = sk\<lparr>data := mem_to_ptrs (ptr_data d)\<rparr>"
    using assms(1) by (auto simp: OPENSSL_sk_dup_def split: option.splits)
  obtain p where p: "OPENSSL_malloc malloc (8 * num_alloc sk) = Some p"
    and dp: "d = memcpy_data p (ptrs_to_mem (data sk)) (unat (8 * num_alloc sk))"
    using d by (auto simp: OPENSSL_memdup_def split: if_splits option.splits)
  have "ptr_data d = ptrs_to_mem (data sk)"
    using malloc_SomeD [OF p] sz assms(2) by (simp add: dp memcpy_data_def ptr_data_def sk_ok_def)
  then show ?thesis
    using mem_to_ptrs_append [of "data sk" "[]"] by (simp add: sk')
qed

end

subsection \<open>Properties\<close>

text \<open>C14: Every operation that changes a stack keeps its invariant (the array has the recorded capacity,
  the count fits and stays below \<open>INT_MAX\<close>), does to the represented list what its name says and returns
  what it promises: the new count, the removed or stored element (\<open>NULL\<close> if there is none), the old
  comparison function. The exception is an insertion that returns 0, which leaves the stack as it was;
  it does so only when the stack is full or the array has to be doubled and the memory is missing.
  Sorting permutes.\<close>

theorem sk_operations_refine_lists:
  assumes "libc_malloc malloc" "sk_ok sk"
  shows "let sk' = sk_exec malloc call op sk; r = sk_ret malloc op sk in
    sk_ok sk' \<and>
    (if is_insertion op \<and> r = 0 then sk' = sk \<and> cannot_insert malloc sk
     else r = list_ret (comp sk) op (sk_list sk) \<and> comp sk' = cmp_after (comp sk) op \<and>
       (if op = Sort then mset (sk_list sk') = mset (sk_list sk) else sk_list sk' = list_exec op (sk_list sk)))"
  by (rule libc_malloc.sk_exec_refines [OF assms])

theorem sk_operations_refine_lists_witness:
  "sk_list (sk_exec (bounded_malloc 100) (\<lambda>c a b. 0) (Insert 9 1)
     \<lparr>num = 3, data = [5, 6, 7, 0], sorted_flag = False, num_alloc = 4, comp = 0\<rparr>) = [5, 9, 6, 7]"
proof -
  let ?sk = "\<lparr>num = 3, data = [5, 6, 7, 0], sorted_flag = False, num_alloc = 4, comp = 0\<rparr> :: OPENSSL_STACK"
  have "sk_ok ?sk" by (simp add: sk_ok_def INT_MAX_def)
  moreover have "sk_ret (bounded_malloc 100) (Insert 9 1) ?sk \<noteq> 0" "list_exec (Insert 9 1) (sk_list ?sk) = [5, 9, 6, 7]"
    by code_simp+
  ultimately show ?thesis
    using sk_operations_refine_lists [OF bounded.libc_malloc_axioms, of ?sk 100 "\<lambda>c a b. 0" "Insert 9 1"]
    unfolding Let_def by (simp del: sk_exec.simps sk_ret.simps list_exec.simps list_ret.simps)
qed

text \<open>C15: After any sequence of operations on a fresh stack that does not overwrite elements in place,
  \<open>OPENSSL_sk_find\<close> returns the first element that matches the key, whether it searches linearly or,
  because the stack is marked as sorted, by bisection.\<close>

theorem sk_find_first_match:
  assumes "libc_malloc malloc" "\<And>c. c \<noteq> 0 \<Longrightarrow> cmp_order UNIV (call c)" "OPENSSL_sk_new malloc c = Some sk0"
    "\<not> list_ex is_set ops" "sk = sk_run malloc call ops sk0" "p \<noteq> 0"
  shows "OPENSSL_sk_find call (Some sk) p = Some m \<longleftrightarrow>
    first_match (\<lambda>i. if comp sk = 0 then sk_list sk ! i = p else call (comp sk) p (sk_list sk ! i) = 0)
      0 (length (sk_list sk)) m"
proof -
  note new = libc_malloc.sk_new_ok [OF assms(1,3)]
  have "sk_ok sk \<and> sk_truthful call sk"
    unfolding assms(5) using new assms(4)
    by (intro libc_malloc.sk_run_inv [OF assms(1) _ _ assms(2)]) (simp_all add: sk_truthful_def)
  then have inv: "sk_ok sk" "sorted_flag sk \<Longrightarrow> cmp_sorted (call (comp sk)) (sk_list sk)"
    by (auto simp: sk_truthful_def)
  show ?thesis
  proof (cases "comp sk = 0")
    case True
    then show ?thesis by (simp add: OPENSSL_sk_find_def sk_list_def [symmetric] first_index_iff)
  next
    case False
    then show ?thesis
      using sk_find_eq_linear [where call_cmp_func = call, OF inv(1) False assms(6) _ inv(2)]
        cmp_order_mono [OF assms(2) [OF False] subset_UNIV] by (simp add: first_index_iff)
  qed
qed

text \<open>A concrete comparison callback: pointers compared as numbers.\<close>

definition cmp_ptr :: cmp_func where
  "cmp_ptr c a b = uint a - uint b"

lemma cmp_order_ptr: "cmp_order S (cmp_ptr c)"
  by (auto simp: cmp_order_def cmp_ptr_def)

theorem sk_find_first_match_witness:
  "\<exists>sk0. OPENSSL_sk_new (bounded_malloc 1000) 1 = Some sk0 \<and>
     OPENSSL_sk_find cmp_ptr (Some (sk_run (bounded_malloc 1000) cmp_ptr [Push 7, Push 5, Push 6, Push 5, Sort] sk0)) 6 = Some 2"
proof -
  define ops where "ops = [Push 7, Push 5, Push 6, Push 5, Sort]"
  define sk0 :: OPENSSL_STACK where
    "sk0 = \<lparr>num = 0, data = [0, 0, 0, 0], sorted_flag = False, num_alloc = 4, comp = 1\<rparr>"
  define sk where "sk = sk_run (bounded_malloc 1000) cmp_ptr ops sk0"
  have new: "OPENSSL_sk_new (bounded_malloc 1000) 1 = Some sk0"
    unfolding sk0_def by code_simp
  have "sk_list sk = [5, 5, 6, 7]" "comp sk = 1"
    unfolding sk_def ops_def sk0_def by code_simp+
  then have "first_match (\<lambda>i. if comp sk = 0 then sk_list sk ! i = 6 else cmp_ptr (comp sk) 6 (sk_list sk ! i) = 0)
      0 (length (sk_list sk)) 2"
    by (auto simp: first_match_def cmp_ptr_def less_2_cases_iff)
  then have "OPENSSL_sk_find cmp_ptr (Some sk) 6 = Some 2"
    using sk_find_first_match [OF bounded.libc_malloc_axioms cmp_order_ptr new _ sk_def, of 6 2]
    by (simp add: ops_def)
  then show ?thesis using new by (auto simp: sk_def ops_def)
qed

text \<open>C16: \<open>OPENSSL_sk_sort\<close> leaves the elements in ascending order of the comparison function and marks the
  stack as sorted; the result is a permutation of the elements.\<close>

theorem OPENSSL_sk_sort_sorts:
  assumes "sk_ok sk" "comp sk \<noteq> 0" "\<not> sorted_flag sk" "cmp_order (set (sk_list sk)) (call (comp sk))"
  shows "\<exists>sk'. OPENSSL_sk_sort call (Some sk) = Some sk' \<and> sk_ok sk' \<and> sorted_flag sk' \<and>
    cmp_sorted (call (comp sk)) (sk_list sk') \<and> mset (sk_list sk') = mset (sk_list sk)"
proof -
  obtain sk' where sk': "OPENSSL_sk_sort call (Some sk) = Some sk'" "sk_ok sk'"
    "mset (sk_list sk') = mset (sk_list sk)"
    using sk_sort_list [OF assms(1), of call] by blast
  moreover have "cmp_sorted (call (comp sk)) (sk_list sk')"
    using assms sk'(1) by (intro sk_sort_sorted) (simp_all add: sk_truthful_def)
  moreover have "sorted_flag sk'" using sk'(1) assms by (auto simp: OPENSSL_sk_sort_def)
  ultimately show ?thesis by blast
qed

theorem OPENSSL_sk_sort_sorts_witness:
  "\<exists>sk'. OPENSSL_sk_sort cmp_ptr (Some \<lparr>num = 3, data = [7, 5, 6, 9], sorted_flag = False, num_alloc = 4, comp = 1\<rparr>) =
      Some sk' \<and> sorted_flag sk' \<and> cmp_sorted (cmp_ptr 1) (sk_list sk') \<and> mset (sk_list sk') = {#5, 6, 7#}"
proof -
  let ?sk = "\<lparr>num = 3, data = [7, 5, 6, 9], sorted_flag = False, num_alloc = 4, comp = 1\<rparr> :: OPENSSL_STACK"
  have "sk_ok ?sk" by (simp add: sk_ok_def INT_MAX_def)
  moreover have "mset (sk_list ?sk) = {#5, 6, 7#}" by code_simp
  ultimately show ?thesis
    using OPENSSL_sk_sort_sorts [of ?sk cmp_ptr] cmp_order_ptr by (auto simp del: One_nat_def)
qed

text \<open>C18: \<open>OPENSSL_sk_set\<close> keeps the flag \<open>sorted\<close> although the element it stores may be out of order. In any
  strictly ascending stack that is marked as sorted, overwriting the middle element with one that is
  greater than some element \<open>p\<close> to its right makes \<open>OPENSSL_sk_find\<close> miss \<open>p\<close>, which is still in the stack.\<close>

theorem OPENSSL_sk_set_loses_element:
  assumes "sk_ok sk" "sorted_flag sk" "comp sk \<noteq> 0" "sorted_wrt (\<lambda>a b. call (comp sk) b a > 0) (sk_list sk)"
    "mid = (length (sk_list sk) - 1) div 2" "mid < k" "k < length (sk_list sk)" "p = sk_list sk ! k" "p \<noteq> 0"
    "call (comp sk) p v < 0"
  shows "\<exists>sk'. OPENSSL_sk_set (Some sk) (word_of_nat mid) v = (v, Some sk') \<and> sorted_flag sk' \<and>
    p \<in> set (sk_list sk') \<and> OPENSSL_sk_find call (Some sk') p = None"
proof -
  define cmp where "cmp i = call (comp sk) p ((data sk)[mid := v] ! i)" for i
  note len = length_sk_list [OF assms(1)]
  have "mid \<le> unat (num sk)" using assms(6,7) len by simp
  then have mid: "unat (word_of_nat mid :: u64) = mid" by (metis le_unat_uoi)
  then have lt: "\<not> num sk \<le> word_of_nat mid" using assms(6,7) len by (simp add: word_le_nat_alt)
  obtain sk' where sk': "OPENSSL_sk_set (Some sk) (word_of_nat mid) v = (v, Some sk')"
    "sk_list sk' = (sk_list sk)[mid := v]" "comp sk' = comp sk" "sorted_flag sk'"
    using sk_set_list [OF assms(1), of "word_of_nat mid" v 0] mid lt len assms(2,6,7) by auto
  have d: "data sk' = (data sk)[mid := v]" "num sk' = num sk"
    using sk'(1) lt mid by (auto simp: OPENSSL_sk_set_def)
  have "p \<in> set ((sk_list sk)[mid := v])"
    using assms(6-8) nth_mem [of k "(sk_list sk)[mid := v]"] by simp
  moreover have "sk_bsearch cmp 0 mid = None"
  proof (rule sk_bsearch_None)
    show "\<forall>i. 0 \<le> i \<and> i < mid \<longrightarrow> cmp i > 0"
      using sorted_wrt_nth_less [OF assms(4)] assms(6-8) by (auto simp: cmp_def sk_list_def)
  qed
  moreover have "cmp mid < 0" using assms(6,7,10) len sk_ok_num [OF assms(1)] by (simp add: cmp_def)
  ultimately have "sk_bsearch cmp 0 (unat (num sk)) = None"
    using assms(5-7) len by (subst sk_bsearch.simps) simp
  then have "OPENSSL_sk_find call (Some sk') p = None"
    using assms(3,9) sk' by (simp add: OPENSSL_sk_find_def OPENSSL_sk_is_sorted_def d cmp_def [abs_def])
  then show ?thesis using sk' \<open>p \<in> set _\<close> by auto
qed

theorem OPENSSL_sk_set_loses_element_witness:
  "\<exists>sk'. OPENSSL_sk_set (Some \<lparr>num = 3, data = [5, 6, 7, 0], sorted_flag = True, num_alloc = 4, comp = 1\<rparr>) 1 9 =
     (9, Some sk') \<and> 7 \<in> set (sk_list sk') \<and> OPENSSL_sk_find cmp_ptr (Some sk') 7 = None"
proof -
  let ?sk = "\<lparr>num = 3, data = [5, 6, 7, 0], sorted_flag = True, num_alloc = 4, comp = 1\<rparr> :: OPENSSL_STACK"
  have "sk_ok ?sk" "sk_list ?sk = [5, 6, 7]" by (simp_all add: sk_ok_def sk_list_def INT_MAX_def)
  then show ?thesis
    using OPENSSL_sk_set_loses_element [of ?sk cmp_ptr 1 2 7 9] by (auto simp: cmp_ptr_def)
qed

text \<open>C17: \<open>OPENSSL_sk_deep_copy\<close> returns a stack of the copies of the elements, keeping \<open>NULL\<close> pointers. When
  a copy fails it returns no stack and has freed exactly the copies made before the first failure.\<close>

theorem OPENSSL_sk_deep_copy_all_or_nothing:
  assumes "libc_malloc malloc" "sk_ok sk"
  shows "case OPENSSL_sk_deep_copy malloc copy (Some sk) of
      Inr ret \<Rightarrow> sk_ok ret \<and> sk_list ret = map (copy_or_null copy) (sk_list sk) \<and>
        \<not> list_ex (\<lambda>p. p \<noteq> 0 \<and> copy p = 0) (sk_list sk)
    | Inl freed \<Rightarrow> freed = [] \<and> OPENSSL_sk_dup malloc (Some sk) = None \<or>
        (\<exists>m. first_index (\<lambda>p. p \<noteq> 0 \<and> copy p = 0) (sk_list sk) 0 = Some m \<and>
          freed = filter (\<lambda>p. p \<noteq> 0) (map (copy_or_null copy) (take m (sk_list sk))))"
proof (cases "OPENSSL_sk_dup malloc (Some sk)")
  case None
  then show ?thesis by (simp add: OPENSSL_sk_deep_copy_def)
next
  case (Some ret)
  have ret: "ret = sk" by (rule libc_malloc.sk_dup_eq [OF assms(1) Some assms(2)])
  note n = sk_ok_num [OF assms(2)]
  have loop: "deep_copy_loop copy (unat (num sk)) 0 (data sk) =
     (case first_index (\<lambda>p. p \<noteq> 0 \<and> copy p = 0) (sk_list sk) 0 of
        None \<Rightarrow> Inr (map (copy_or_null copy) (sk_list sk) @ drop (unat (num sk)) (data sk))
      | Some m \<Rightarrow> Inl (filter (\<lambda>p. p \<noteq> 0) (map (copy_or_null copy) (take m (data sk)))))"
    using n by (simp add: deep_copy_loop_copies sk_list_def split: option.split)
  show ?thesis
  proof (cases "first_index (\<lambda>p. p \<noteq> 0 \<and> copy p = 0) (sk_list sk) 0")
    case None
    then have "\<not> list_ex (\<lambda>p. p \<noteq> 0 \<and> copy p = 0) (sk_list sk)"
      unfolding first_index_None list_ex_iff by blast
    then show ?thesis
      using None Some loop ret n assms(2) length_sk_list [OF assms(2)]
      by (simp add: OPENSSL_sk_deep_copy_def) (simp add: sk_ok_def sk_list_def)
  next
    case (Some m)
    then have "m < length (sk_list sk)" by (simp add: first_index_iff first_match_def)
    then have "take m (data sk) = take m (sk_list sk)"
      using length_sk_list [OF assms(2)] by (simp add: sk_list_def min_def)
    then show ?thesis
      using Some \<open>OPENSSL_sk_dup malloc (Some sk) = Some ret\<close> loop ret by (simp add: OPENSSL_sk_deep_copy_def)
  qed
qed

theorem OPENSSL_sk_deep_copy_all_or_nothing_witness:
  "OPENSSL_sk_deep_copy (bounded_malloc 100) (\<lambda>p. if p = 7 then 0 else p + 1)
     (Some \<lparr>num = 4, data = [5, 0, 7, 6], sorted_flag = False, num_alloc = 4, comp = 0\<rparr>) = Inl [6]"
proof -
  let ?sk = "\<lparr>num = 4, data = [5, 0, 7, 6], sorted_flag = False, num_alloc = 4, comp = 0\<rparr> :: OPENSSL_STACK"
  let ?copy = "\<lambda>p :: ptr. if p = 7 then 0 else p + 1"
  have "sk_ok ?sk" by (simp add: sk_ok_def INT_MAX_def)
  note copy = OPENSSL_sk_deep_copy_all_or_nothing [OF bounded.libc_malloc_axioms this, of 100 ?copy]
  have "OPENSSL_sk_dup (bounded_malloc 100) (Some ?sk) \<noteq> None"
    "first_index (\<lambda>p. p \<noteq> 0 \<and> ?copy p = 0) (sk_list ?sk) 0 = Some 2"
    "filter (\<lambda>p. p \<noteq> 0) (map (copy_or_null ?copy) (take 2 (sk_list ?sk))) = [6]"
    "list_ex (\<lambda>p. p \<noteq> 0 \<and> ?copy p = 0) (sk_list ?sk)"
    by code_simp+
  with copy show ?thesis by (auto split: sum.splits)
qed

end
