(* ===== verification/PosixTime.thy ===== *)
theory PosixTime
  imports Prelude "HOL-Library.Signed_Division"
begin

text \<open>
  Conversion between POSIX time and calendar time, \<open>crypto/asn1/posix_time.cc\<close>. The source computes in
  \<open>int64_t\<close>; values are integers here, division and remainder are those of C, which truncate towards
  zero (\<^const>\<open>signed_divide\<close> and \<^const>\<open>signed_modulo\<close>). A \<open>struct tm\<close> has all fields of the C library, since the
  functions leave some of them alone. The only arithmetic on unvalidated values is in
  \<open>OPENSSL_gmtime_adj\<close>: there each operation is checked against the range of \<open>int64_t\<close>, and leaving the
  range, which is undefined behaviour in C, is the explicit outcome \<open>Overflow\<close>. The other functions
  compute only after validation has bounded their operands far below that range. The proofs compare the arithmetic with a calendar that counts
  the days of years and months one by one.
\<close>

subsection \<open>The program\<close>

record tm =
  tm_sec :: int
  tm_min :: int
  tm_hour :: int
  tm_mday :: int
  tm_mon :: int
  tm_year :: int
  tm_wday :: int
  tm_yday :: int
  tm_isdst :: int

definition SECS_PER_HOUR :: int where
  "SECS_PER_HOUR = 60 * 60"

definition SECS_PER_DAY :: int where
  "SECS_PER_DAY = 24 * SECS_PER_HOUR"

definition is_valid_date :: "int \<Rightarrow> int \<Rightarrow> int \<Rightarrow> bool" where
  "is_valid_date year month day =
     (if day < 1 \<or> month < 1 \<or> year < 0 \<or> year > 9999 then False
      else if month \<in> {1, 3, 5, 7, 8, 10, 12} then day > 0 \<and> day \<le> 31
      else if month \<in> {4, 6, 9, 11} then day > 0 \<and> day \<le> 30
      else if month = 2 then
        (if (year smod 4 = 0 \<and> year smod 100 \<noteq> 0) \<or> year smod 400 = 0 then day > 0 \<and> day \<le> 29
         else day > 0 \<and> day \<le> 28)
      else False)"

definition is_valid_time :: "int \<Rightarrow> int \<Rightarrow> int \<Rightarrow> bool" where
  "is_valid_time hours minutes seconds \<longleftrightarrow>
     \<not> (hours < 0 \<or> minutes < 0 \<or> seconds < 0 \<or> hours > 23 \<or> minutes > 59 \<or> seconds > 59)"

definition MIN_POSIX_TIME :: int where
  "MIN_POSIX_TIME = - 62167219200"

definition MAX_POSIX_TIME :: int where
  "MAX_POSIX_TIME = 253402300799"

definition is_valid_posix_time :: "int \<Rightarrow> bool" where
  "is_valid_posix_time time \<longleftrightarrow> MIN_POSIX_TIME \<le> time \<and> time \<le> MAX_POSIX_TIME"

definition posix_time_from_utc :: "int \<Rightarrow> int \<Rightarrow> int \<Rightarrow> int \<Rightarrow> int \<Rightarrow> int \<Rightarrow> int option" where
  "posix_time_from_utc year month day hours minutes seconds =
     (if \<not> is_valid_date year month day \<or> \<not> is_valid_time hours minutes seconds then None
      else let year = (if month \<le> 2 then year - 1 else year);
               era = (if year \<ge> 0 then year else year - 399) sdiv 400;
               year_of_era = year - era * 400;
               day_of_year = (153 * (if month > 2 then month - 3 else month + 9) + 2) sdiv 5 + day - 1;
               day_of_era = year_of_era * 365 + year_of_era sdiv 4 - year_of_era sdiv 100 + day_of_year;
               posix_days = era * 146097 + day_of_era - 719468
           in Some (posix_days * SECS_PER_DAY + hours * SECS_PER_HOUR + minutes * 60 + seconds))"

definition utc_from_posix_time :: "int \<Rightarrow> (int \<times> int \<times> int \<times> int \<times> int \<times> int) option" where
  "utc_from_posix_time time =
     (if \<not> is_valid_posix_time time then None
      else let days = time sdiv SECS_PER_DAY;
               leftover_seconds = time smod SECS_PER_DAY;
               (days, leftover_seconds) =
                 (if leftover_seconds < 0 then (days - 1, leftover_seconds + SECS_PER_DAY)
                  else (days, leftover_seconds));
               days = days + 719468;
               era = (if days > 0 then days else days - 146096) sdiv 146097;
               day_of_era = days - era * 146097;
               year_of_era = (day_of_era - day_of_era sdiv 1460 + day_of_era sdiv 36524 -
                              day_of_era sdiv 146096) sdiv 365;
               out_year = year_of_era + era * 400;
               day_of_year = day_of_era - (365 * year_of_era + year_of_era sdiv 4 - year_of_era sdiv 100);
               month_of_year = (5 * day_of_year + 2) sdiv 153;
               out_month = (if month_of_year < 10 then month_of_year + 3 else month_of_year - 9);
               out_year = (if out_month \<le> 2 then out_year + 1 else out_year);
               out_day = day_of_year - (153 * month_of_year + 2) sdiv 5 + 1;
               out_hours = leftover_seconds sdiv SECS_PER_HOUR;
               leftover_seconds = leftover_seconds smod SECS_PER_HOUR
           in Some (out_year, out_month, out_day, out_hours, leftover_seconds sdiv 60, leftover_seconds smod 60))"

definition OPENSSL_tm_to_posix :: "tm \<Rightarrow> int option" where
  "OPENSSL_tm_to_posix tm =
     posix_time_from_utc (tm_year tm + 1900) (tm_mon tm + 1) (tm_mday tm) (tm_hour tm) (tm_min tm) (tm_sec tm)"

definition tm_zero :: tm where
  "tm_zero = \<lparr>tm_sec = 0, tm_min = 0, tm_hour = 0, tm_mday = 0, tm_mon = 0, tm_year = 0,
     tm_wday = 0, tm_yday = 0, tm_isdst = 0\<rparr>"

definition OPENSSL_posix_to_tm :: "int \<Rightarrow> tm option" where
  "OPENSSL_posix_to_tm time =
     (case utc_from_posix_time time of
        None \<Rightarrow> None
      | Some (year, month, day, hours, minutes, seconds) \<Rightarrow>
          Some (tm_zero\<lparr>tm_year := year - 1900, tm_mon := month - 1, tm_mday := day, tm_hour := hours,
                        tm_min := minutes, tm_sec := seconds\<rparr>))"

text \<open>\<open>sizeof_time_t\<close> is 4 or 8, as the assertion of the source requires.\<close>

definition OPENSSL_timegm :: "nat \<Rightarrow> tm \<Rightarrow> int option" where
  "OPENSSL_timegm sizeof_time_t tm =
     (case OPENSSL_tm_to_posix tm of
        None \<Rightarrow> None
      | Some posix_time \<Rightarrow>
          if sizeof_time_t = 4 \<and> (posix_time > 2 ^ 31 - 1 \<or> posix_time < - (2 ^ 31)) then None
          else Some posix_time)"

definition OPENSSL_gmtime :: "int \<Rightarrow> tm option" where
  "OPENSSL_gmtime time = OPENSSL_posix_to_tm time"

definition INT64_MAX :: int where
  "INT64_MAX = 2 ^ 63 - 1"

definition INT64_MIN :: int where
  "INT64_MIN = - (2 ^ 63)"

text \<open>
  The outcome of signed 64-bit arithmetic: a value, or overflow. \<open>i64\<close> checks the exact result of one
  operation, \<open>c_bind\<close> continues with it.
\<close>

datatype 'a c_int = Value 'a | Overflow

definition i64 :: "int \<Rightarrow> int c_int" where
  "i64 x = (if INT64_MIN \<le> x \<and> x \<le> INT64_MAX then Value x else Overflow)"

fun c_bind :: "'a c_int \<Rightarrow> ('a \<Rightarrow> 'b c_int) \<Rightarrow> 'b c_int" where
  "c_bind (Value x) f = f x"
| "c_bind Overflow f = Overflow"

text \<open>The right operand of \<open>&&\<close> in the two guards is evaluated only if the left one holds.\<close>

definition OPENSSL_gmtime_adj :: "tm \<Rightarrow> int \<Rightarrow> int \<Rightarrow> tm option c_int" where
  "OPENSSL_gmtime_adj tm offset_day offset_sec =
     (case OPENSSL_tm_to_posix tm of
        None \<Rightarrow> Value None
      | Some posix_time \<Rightarrow>
          c_bind (i64 (offset_day * SECS_PER_DAY)) (\<lambda>day_secs.
          c_bind (i64 (posix_time + day_secs)) (\<lambda>posix_time.
          c_bind (if posix_time > 0
                  then c_bind (i64 (INT64_MAX - posix_time)) (\<lambda>room. Value (offset_sec > room))
                  else Value False) (\<lambda>above.
          if above then Value None
          else
          c_bind (if posix_time < 0
                  then c_bind (i64 (INT64_MIN - posix_time)) (\<lambda>room. Value (offset_sec < room))
                  else Value False) (\<lambda>below.
          if below then Value None
          else
          c_bind (i64 (posix_time + offset_sec)) (\<lambda>posix_time.
          Value (OPENSSL_posix_to_tm posix_time)))))))"

definition OPENSSL_gmtime_diff :: "tm \<Rightarrow> tm \<Rightarrow> (int \<times> int) option" where
  "OPENSSL_gmtime_diff from to =
     (case OPENSSL_tm_to_posix to of
        None \<Rightarrow> None
      | Some time_to \<Rightarrow>
          (case OPENSSL_tm_to_posix from of
             None \<Rightarrow> None
           | Some time_from \<Rightarrow>
               let timediff = time_to - time_from;
                   daydiff = timediff sdiv SECS_PER_DAY
               in Some (daydiff, timediff smod SECS_PER_DAY)))"

subsection \<open>The calendar\<close>

definition leap :: "nat \<Rightarrow> bool" where
  "leap y \<longleftrightarrow> (4 dvd y \<and> \<not> 100 dvd y) \<or> 400 dvd y"

definition year_length :: "nat \<Rightarrow> nat" where
  "year_length y = (if leap y then 366 else 365)"

definition month_length :: "nat \<Rightarrow> nat \<Rightarrow> nat" where
  "month_length y m = (if m \<in> {4, 6, 9, 11} then 30 else if m = 2 then (if leap y then 29 else 28) else 31)"

text \<open>The number of days before year \<open>y\<close> since the start of year 0, and in the first \<open>k\<close> months of it.\<close>

fun days_before_year :: "nat \<Rightarrow> nat" where
  "days_before_year 0 = 0"
| "days_before_year (Suc y) = days_before_year y + year_length y"

fun days_in_months :: "nat \<Rightarrow> nat \<Rightarrow> nat" where
  "days_in_months y 0 = 0"
| "days_in_months y (Suc k) = days_in_months y k + month_length y (Suc k)"

definition calendar_day :: "nat \<Rightarrow> nat \<Rightarrow> nat \<Rightarrow> nat" where
  "calendar_day y m d = days_before_year y + days_in_months y (m - 1) + (d - 1)"

text \<open>1970-01-01 is day 719528 of this calendar.\<close>

definition epoch_day :: int where
  "epoch_day = 719528"

lemma sdiv_nonneg [simp]: "0 \<le> k \<Longrightarrow> 0 < l \<Longrightarrow> k sdiv l = k div (l :: int)"
  by (simp add: signed_divide_int_def sgn_if)

lemma smod_nonneg [simp]: "0 \<le> k \<Longrightarrow> 0 < l \<Longrightarrow> k smod l = k mod (l :: int)"
  by (cases "k = 0") (simp_all add: signed_modulo_int_def sgn_if)

lemma div_pred:
  fixes k l :: int
  assumes l: "0 < l"
  shows "(k - 1) div l = k div l - (if l dvd k then 1 else 0)"
proof -
  define q r where "q = k div l" and "r = k mod l"
  have k: "k = l * q + r" "0 \<le> r" "r < l" using l by (simp_all add: q_def r_def)
  show ?thesis
  proof (cases "r = 0")
    case True
    then have "k - 1 = l * (q - 1) + (l - 1)" using k by (simp add: algebra_simps)
    then have "(k - 1) div l = q - 1" by (rule int_div_pos_eq) (use l in auto)
    then show ?thesis using True by (simp add: q_def r_def dvd_eq_mod_eq_0)
  next
    case False
    then have "(k - 1) div l = q" using k by (intro int_div_pos_eq [of _ _ _ "r - 1"]) auto
    then show ?thesis using False by (simp add: q_def r_def dvd_eq_mod_eq_0)
  qed
qed

definition leap_days :: "int \<Rightarrow> int" where
  "leap_days y = y div 4 - y div 100 + y div 400"

lemma leap_days_pred: "leap_days (int y - 1) = leap_days (int y) - (if leap y then 1 else 0)"
proof -
  have "4 dvd y" if "100 dvd y" using that dvd_trans [of 4 100 y] by simp
  moreover have "100 dvd y" if "400 dvd y" using that dvd_trans [of 100 400 y] by simp
  moreover have "numeral k dvd int y \<longleftrightarrow> numeral k dvd y" for k
    by (metis int_dvd_int_iff of_nat_numeral)
  ultimately show ?thesis by (auto simp: leap_days_def leap_def div_pred)
qed

lemma days_before_year_int: "int (days_before_year y) = 365 * int y + leap_days (int y - 1) + 1"
proof (induction y)
  case (Suc y)
  then show ?case using leap_days_pred [of y] by (simp add: year_length_def)
qed (simp add: leap_days_def)

definition date_ok :: "nat \<Rightarrow> nat \<Rightarrow> nat \<Rightarrow> bool" where
  "date_ok y m d \<longleftrightarrow> y \<le> 9999 \<and> 1 \<le> m \<and> m \<le> 12 \<and> 1 \<le> d \<and> d \<le> month_length y m"

lemma month_cases:
  assumes "1 \<le> m" "m \<le> (12 :: nat)"
  shows "m \<in> {1, 2, 3, 4, 5, 6, 7, 8, 9, 10, 11, 12}"
  using assms by (simp; presburger)

lemma leap_smod: "(int y smod 4 = 0 \<and> int y smod 100 \<noteq> 0) \<or> int y smod 400 = 0 \<longleftrightarrow> leap y"
proof -
  have "int y mod numeral k = 0 \<longleftrightarrow> numeral k dvd y" for k
    by (metis dvd_eq_mod_eq_0 int_dvd_int_iff of_nat_numeral)
  then show ?thesis by (simp add: leap_def)
qed

lemma is_valid_date_int: "is_valid_date (int y) (int m) (int d) \<longleftrightarrow> date_ok y m d"
proof (cases "1 \<le> m \<and> m \<le> 12")
  case True
  then have "m \<in> {1, 2, 3, 4, 5, 6, 7, 8, 9, 10, 11, 12}" using month_cases by blast
  then show ?thesis
    unfolding is_valid_date_def leap_smod date_ok_def month_length_def by auto
next
  case False
  then have "m = 0 \<or> m > 12" by auto
  then show ?thesis by (auto simp: is_valid_date_def date_ok_def)
qed

lemma is_valid_date_nonneg: "is_valid_date year month day \<Longrightarrow> 0 \<le> year \<and> 0 \<le> month \<and> 0 \<le> day"
  by (auto simp: is_valid_date_def split: if_splits)

text \<open>Years that start in March: the day number of the start of the year.\<close>

definition march_days :: "int \<Rightarrow> int" where
  "march_days y = 365 * y + leap_days y"

lemma era_div:
  assumes y: "year = yoe + era * (400 :: int)"
  shows "year div 4 = era * 100 + yoe div 4" "year div 100 = era * 4 + yoe div 100" "year div 400 = era + yoe div 400"
proof -
  have "year = yoe + (era * 100) * 4" "year = yoe + (era * 4) * 100" using y by simp_all
  then show "year div 4 = era * 100 + yoe div 4" "year div 100 = era * 4 + yoe div 100" "year div 400 = era + yoe div 400"
    using y by (simp_all only: div_mult_self1)
qed

lemma era_days:
  fixes year :: int
  defines "era \<equiv> year div 400"
  defines "yoe \<equiv> year - era * 400"
  shows "era * 146097 + (yoe * 365 + yoe div 4 - yoe div 100) = march_days year"
    and "0 \<le> yoe" "yoe < 400"
proof -
  have y: "year = yoe + era * 400" by (simp add: yoe_def)
  have m: "yoe = year mod 400" by (simp add: yoe_def era_def minus_div_mult_eq_mod)
  then show "0 \<le> yoe" "yoe < 400" by simp_all
  then have "yoe div 400 = 0" by simp
  have "year div 4 = era * 100 + yoe div 4" "year div 100 = era * 4 + yoe div 100" "year div 400 = era + yoe div 400"
    using era_div [OF y] by simp_all
  then show "era * 146097 + (yoe * 365 + yoe div 4 - yoe div 100) = march_days year"
    using \<open>yoe div 400 = 0\<close> y unfolding march_days_def leap_days_def by linarith
qed

lemma days_in_months_march:
  assumes "1 \<le> m" "m \<le> 12"
  shows "int (days_in_months y (m - 1)) =
    (if m \<le> 2 then (153 * (int m + 9) + 2) div 5 - 306
     else (153 * (int m - 3) + 2) div 5 + 59 + (if leap y then 1 else 0))"
proof -
  have "m \<in> {1, 2, 3, 4, 5, 6, 7, 8, 9, 10, 11, 12}" using assms month_cases by blast
  then show ?thesis by (auto simp: month_length_def numeral_eq_Suc)
qed

lemma calendar_day_march:
  assumes "date_ok y m d"
  shows "int (calendar_day y m d) - epoch_day =
    (let year = (if m \<le> 2 then int y - 1 else int y); mp = (if m \<le> 2 then int m + 9 else int m - 3)
     in march_days year + (153 * mp + 2) div 5 + int d - 1 - 719468)"
proof -
  have "1 \<le> m" "m \<le> 12" "1 \<le> d" using assms by (simp_all add: date_ok_def)
  then show ?thesis
    using days_in_months_march [of m y] leap_days_pred [of y]
    by (simp add: calendar_day_def days_before_year_int epoch_day_def march_days_def Let_def)
qed

subsection \<open>From calendar time to POSIX time\<close>

definition second_of_day :: "int \<Rightarrow> int \<Rightarrow> int \<Rightarrow> int" where
  "second_of_day h m s = h * 3600 + m * 60 + s"

definition calendar_time :: "nat \<Rightarrow> nat \<Rightarrow> nat \<Rightarrow> int \<Rightarrow> int \<Rightarrow> int \<Rightarrow> int" where
  "calendar_time y m d hours minutes seconds =
     (int (calendar_day y m d) - epoch_day) * 86400 + second_of_day hours minutes seconds"

lemma era_of_year: "- 1 \<le> year \<Longrightarrow> (if year \<ge> 0 then year else year - 399) sdiv 400 = year div (400 :: int)"
proof (cases "year \<ge> 0")
  case False
  moreover assume "- 1 \<le> year"
  ultimately have "year = - 1" by simp
  then show ?thesis by (simp add: signed_divide_int_def)
qed simp

lemma posix_time_from_utc_int:
  assumes "date_ok y m d" "is_valid_time h mi s"
  shows "posix_time_from_utc (int y) (int m) (int d) h mi s = Some (calendar_time y m d h mi s)"
proof -
  define year where "year = (if int m \<le> 2 then int y - 1 else int y)"
  define mp where "mp = (if int m > 2 then int m - 3 else int m + 9)"
  define era where "era = year div 400"
  define yoe where "yoe = year - era * 400"
  have year: "- 1 \<le> year" by (simp add: year_def)
  note era = era_days [of year, folded era_def, folded yoe_def]
  have mp: "0 \<le> mp" using assms(1) by (simp add: mp_def date_ok_def)
  have "era * 146097 + (yoe * 365 + yoe sdiv 4 - yoe sdiv 100 + ((153 * mp + 2) sdiv 5 + int d - 1)) - 719468 =
    march_days year + (153 * mp + 2) div 5 + int d - 1 - 719468"
    using era mp by simp
  also have "\<dots> = int (calendar_day y m d) - epoch_day"
    using calendar_day_march [OF assms(1)] by (auto simp: year_def mp_def Let_def)
  finally have days: "era * 146097 + (yoe * 365 + yoe sdiv 4 - yoe sdiv 100 + ((153 * mp + 2) sdiv 5 + int d - 1)) - 719468 =
    int (calendar_day y m d) - epoch_day" .
  have "posix_time_from_utc (int y) (int m) (int d) h mi s =
    Some ((era * 146097 + (yoe * 365 + yoe sdiv 4 - yoe sdiv 100 + ((153 * mp + 2) sdiv 5 + int d - 1)) - 719468) *
      SECS_PER_DAY + h * SECS_PER_HOUR + mi * 60 + s)"
    unfolding posix_time_from_utc_def Let_def year_def [symmetric] mp_def [symmetric] era_of_year [OF year]
      era_def [symmetric] yoe_def [symmetric]
    using assms by (simp add: is_valid_date_int)
  then show ?thesis
    unfolding days by (simp add: calendar_time_def second_of_day_def SECS_PER_DAY_def SECS_PER_HOUR_def)
qed

lemma posix_time_from_utc_iff:
  "posix_time_from_utc year month day h mi s = Some t \<longleftrightarrow>
     (\<exists>y m d. year = int y \<and> month = int m \<and> day = int d \<and> date_ok y m d \<and> is_valid_time h mi s \<and>
        t = calendar_time y m d h mi s)"
proof
  assume t: "posix_time_from_utc year month day h mi s = Some t"
  then have v: "is_valid_date year month day" "is_valid_time h mi s"
    by (auto simp: posix_time_from_utc_def split: if_splits)
  then obtain y m d where ymd: "year = int y" "month = int m" "day = int d"
    using is_valid_date_nonneg by (metis nonneg_int_cases)
  then show "\<exists>y m d. year = int y \<and> month = int m \<and> day = int d \<and> date_ok y m d \<and> is_valid_time h mi s \<and>
        t = calendar_time y m d h mi s"
    using t v by (auto simp: is_valid_date_int posix_time_from_utc_int)
qed (auto simp: posix_time_from_utc_int)

subsection \<open>From POSIX time to calendar time\<close>

lemma floor_div_mod:
  fixes k l :: int
  assumes l: "0 < l"
  shows "(if k smod l < 0 then (k sdiv l - 1, k smod l + l) else (k sdiv l, k smod l)) = (k div l, k mod l)"
proof (cases "0 \<le> k")
  case True
  then show ?thesis using l by (simp add: not_less)
next
  case False
  define q r where "q = - k div l" and "r = - k mod l"
  have qr: "- k = l * q + r" "0 \<le> r" "r < l" using l by (simp_all add: q_def r_def)
  have sdiv: "k sdiv l = - q" using False l by (simp add: signed_divide_int_def sgn_if q_def)
  have smod: "k smod l = - r" using False l by (simp add: signed_modulo_int_def sgn_if r_def)
  show ?thesis
  proof (cases "r = 0")
    case True
    then have "k = l * - q + 0" using qr by simp
    then have "k div l = - q" "k mod l = 0"
      using int_div_pos_eq [of k l "- q" 0] int_mod_pos_eq [of k l "- q" 0] l by simp_all
    then show ?thesis using True sdiv smod by simp
  next
    case ne: False
    then have "k = l * (- q - 1) + (l - r)" using qr by (simp add: algebra_simps)
    from int_div_pos_eq [OF this] int_mod_pos_eq [OF this] have "k div l = - q - 1" "k mod l = l - r"
      using qr ne by simp_all
    then show ?thesis using ne sdiv smod qr by simp
  qed
qed

lemma era_of_day:
  fixes days :: int
  shows "(if days > 0 then days else days - 146096) sdiv 146097 = days div 146097"
proof (cases "days > 0")
  case False
  define q r where "q = days div 146097" and "r = days mod 146097"
  have qr: "days = 146097 * q + r" "0 \<le> r" "r < 146097" by (simp_all add: q_def r_def)
  have "146096 - days = 146097 * - q + (146096 - r)" using qr by simp
  then have "(146096 - days) div 146097 = - q" by (rule int_div_pos_eq) (use qr in auto)
  then show ?thesis using False by (simp add: signed_divide_int_def sgn_if q_def)
qed simp

lemma year_of_era:
  fixes yoe doy doe :: int
  assumes yoe: "0 \<le> yoe" "yoe < 400" and doy: "0 \<le> doy" "doy \<le> 365"
    and last: "doy = 365 \<Longrightarrow> 4 dvd yoe + 1 \<and> (100 dvd yoe + 1 \<longrightarrow> 400 dvd yoe + 1)"
    and doe: "doe = yoe * 365 + yoe div 4 - yoe div 100 + doy"
  shows "(doe - doe div 1460 + doe div 36524 - doe div 146096) div 365 = yoe" "0 \<le> doe" "doe < 146097"
proof -
  define c r q s where "c = yoe div 100" and "r = yoe mod 100" and "q = r div 4" and "s = r mod 4"
  have r: "yoe = 100 * c + r" "0 \<le> r" "r < 100" by (simp_all add: c_def r_def)
  have qs: "r = 4 * q + s" "0 \<le> s" "s < 4" by (simp_all add: q_def s_def)
  have c: "0 \<le> c" "c \<le> 3" "0 \<le> q" "q \<le> 24" using yoe r qs by linarith+
  have "yoe = 4 * (25 * c + q) + s" using r qs by simp
  then have "yoe div 4 = 25 * c + q" by (rule int_div_pos_eq) (use qs in auto)
  then have doe': "doe = 36524 * c + 1461 * q + 365 * s + doy" using doe r qs by (simp add: c_def [symmetric])
  show "0 \<le> doe" using doe' c qs doy by linarith
  have end_of_4: "s = 3" "q = 24 \<Longrightarrow> c = 3" if "doy = 365"
  proof -
    have "yoe + 1 = 4 * (25 * c + q) + (s + 1)" using \<open>yoe = 4 * (25 * c + q) + s\<close> by simp
    then have "4 dvd 4 * (25 * c + q) + (s + 1)" using last [OF that] by metis
    then have "4 dvd s + 1" using dvd_add_right_iff [of 4 "4 * (25 * c + q)" "s + 1"] dvd_triv_left by blast
    moreover have "s = 0 \<or> s = 1 \<or> s = 2 \<or> s = 3" using qs by linarith
    ultimately show "s = 3" by auto
    assume "q = 24"
    then have "yoe + 1 = 100 * (c + 1)" using \<open>s = 3\<close> r qs by simp
    then have "400 dvd 100 * (c + 1)" using last [OF that] by (metis dvd_triv_left)
    moreover have "c = 0 \<or> c = 1 \<or> c = 2 \<or> c = 3" using c by linarith
    ultimately show "c = 3" by auto
  qed
  define f :: int where "f = (if 24 * c + q + 365 * s + doy \<ge> 1460 then 1 else 0)"
  have f: "0 \<le> doy - f" "doy - f < 365"
    using doy c qs end_of_4 unfolding f_def by (cases "doy = 365"; simp)+
  have "0 \<le> 24 * c + q + 365 * s + doy - 1460 * f" "24 * c + q + 365 * s + doy - 1460 * f < 1460"
    using c qs doy unfolding f_def by (simp_all split: if_split)
  then have d1: "doe div 1460 = 25 * c + q + f"
    using doe' by (intro int_div_pos_eq [of _ _ _ "24 * c + q + 365 * s + doy - 1460 * f"]) simp_all
  have d2: "doe div 36524 - doe div 146096 = c"
  proof (cases "1461 * q + 365 * s + doy < 36524")
    case True
    then have "doe div 36524 = c" by (intro int_div_pos_eq [of _ _ _ "1461 * q + 365 * s + doy"]) (use doe' c qs doy in auto)
    moreover have "doe div 146096 = 0" using True doe' c qs doy by (intro div_pos_pos_trivial) auto
    ultimately show ?thesis by simp
  next
    case False
    then have "doy = 365" "q = 24" "s = 3" using c qs doy by linarith+
    then have "c = 3" using end_of_4 by simp
    then show ?thesis using doe' \<open>doy = 365\<close> \<open>q = 24\<close> \<open>s = 3\<close> by simp
  qed
  show "doe < 146097" using doe' c qs doy end_of_4 by (cases "doy = 365") auto
  have "doe - doe div 1460 + doe div 36524 - doe div 146096 = 365 * yoe + (doy - f)"
    using d1 d2 doe' r qs by simp
  then show "(doe - doe div 1460 + doe div 36524 - doe div 146096) div 365 = yoe"
    using f by (intro int_div_pos_eq) auto
qed

lemma month_of_year:
  assumes "date_ok y m d"
  defines "mp \<equiv> (if int m \<le> 2 then int m + 9 else int m - 3)"
  defines "doy \<equiv> (153 * mp + 2) div 5 + int d - 1"
  shows "(5 * doy + 2) div 153 = mp" "0 \<le> mp" "mp < 12" "0 \<le> doy" "doy \<le> 365" "doy = 365 \<Longrightarrow> m = 2 \<and> leap y"
proof -
  have m: "1 \<le> m" "m \<le> 12" and d: "1 \<le> d" "d \<le> month_length y m" using assms(1) by (simp_all add: date_ok_def)
  show "0 \<le> mp" "mp < 12" using m by (auto simp: mp_def)
  have bounds: "153 * mp \<le> 5 * doy + 2 \<and> 5 * doy + 2 < 153 * mp + 153 \<and> 0 \<le> doy \<and> doy \<le> 365 \<and>
    (doy = 365 \<longrightarrow> m = 2 \<and> leap y)"
    using month_cases [OF m] d unfolding mp_def doy_def month_length_def
    by (elim insertE) (auto split: if_splits)
  then show "0 \<le> doy" "doy \<le> 365" "doy = 365 \<Longrightarrow> m = 2 \<and> leap y" by simp_all
  show "(5 * doy + 2) div 153 = mp"
    by (rule int_div_pos_eq [of _ _ _ "5 * doy + 2 - 153 * mp"]) (use bounds in auto)
qed

lemma days_in_year: "days_in_months y 12 = year_length y"
  by (simp add: month_length_def year_length_def numeral_eq_Suc)

lemma days_in_months_mono: "k \<le> k' \<Longrightarrow> days_in_months y k \<le> days_in_months y k'"
  by (induction k' rule: nat_induct_at_least) auto

lemma days_before_year_mono: "k \<le> k' \<Longrightarrow> days_before_year k \<le> days_before_year k'"
  by (induction k' rule: nat_induct_at_least) auto

lemma days_before_10000: "days_before_year 10000 = 3652425"
proof -
  have "int (days_before_year 10000) = int 3652425"
    unfolding days_before_year_int by (simp add: leap_days_def)
  then show ?thesis by (simp only: of_nat_eq_iff)
qed

lemma calendar_day_less:
  assumes "date_ok y m d"
  shows "calendar_day y m d < 3652425"
proof -
  have "days_in_months y (m - 1) + (d - 1) < days_in_months y (Suc (m - 1))"
    using assms by (cases m) (auto simp: date_ok_def)
  also have "\<dots> \<le> days_in_months y 12"
    using assms by (intro days_in_months_mono) (auto simp: date_ok_def)
  finally have "calendar_day y m d < days_before_year (Suc y)"
    by (simp add: calendar_day_def days_in_year)
  also have "\<dots> \<le> days_before_year 10000"
    using assms by (intro days_before_year_mono) (simp add: date_ok_def)
  finally show ?thesis by (simp add: days_before_10000)
qed

lemma second_of_day_range: "is_valid_time h mi s \<Longrightarrow> 0 \<le> second_of_day h mi s \<and> second_of_day h mi s < 86400"
  unfolding is_valid_time_def second_of_day_def by linarith

lemma calendar_time_valid:
  "date_ok y m d \<Longrightarrow> is_valid_time h mi s \<Longrightarrow> is_valid_posix_time (calendar_time y m d h mi s)"
  using calendar_day_less [of y m d] second_of_day_range [of h mi s]
  unfolding is_valid_posix_time_def calendar_time_def MIN_POSIX_TIME_def MAX_POSIX_TIME_def epoch_day_def by auto

lemma leap_of_era:
  assumes "leap y" "year = int y - 1"
  shows "4 dvd (year - year div 400 * 400) + 1 \<and>
    (100 dvd (year - year div 400 * 400) + 1 \<longrightarrow> 400 dvd (year - year div 400 * 400) + 1)"
proof -
  define e where "e = year div 400"
  have eq: "year - year div 400 * 400 + 1 = int y - e * 400" using assms(2) by (simp add: e_def)
  have "numeral k dvd int y \<longleftrightarrow> numeral k dvd y" for k
    by (metis int_dvd_int_iff of_nat_numeral)
  then have "4 dvd int y - e * 400 \<longleftrightarrow> 4 dvd y" "100 dvd int y - e * 400 \<longleftrightarrow> 100 dvd y"
    "400 dvd int y - e * 400 \<longleftrightarrow> 400 dvd y"
    by (simp_all add: dvd_diff_left_iff)
  moreover have "4 dvd y" using assms(1) dvd_trans [of 4 400 y] by (auto simp: leap_def)
  ultimately show ?thesis unfolding eq using assms(1) by (auto simp: leap_def)
qed

text \<open>Splitting a day number into the year that starts in March and the day of that year.\<close>

lemma march_day_split:
  assumes "date_ok y m d"
  defines "year \<equiv> (if int m \<le> 2 then int y - 1 else int y)"
  defines "mp \<equiv> (if int m \<le> 2 then int m + 9 else int m - 3)"
  defines "doy \<equiv> (153 * mp + 2) div 5 + int d - 1"
  defines "days \<equiv> march_days year + doy"
  defines "doe \<equiv> days - days div 146097 * 146097"
  shows "days div 146097 = year div 400"
    and "(doe - doe div 1460 + doe div 36524 - doe div 146096) div 365 = year - year div 400 * 400"
    and "0 \<le> doe"
    and "doe = (year - year div 400 * 400) * 365 + (year - year div 400 * 400) div 4 -
      (year - year div 400 * 400) div 100 + doy"
    and "0 \<le> year - year div 400 * 400"
proof -
  define yoe where "yoe = year - year div 400 * 400"
  define x where "x = yoe * 365 + yoe div 4 - yoe div 100 + doy"
  note month = month_of_year [OF assms(1), folded mp_def, folded doy_def]
  note era = era_days [of year, folded yoe_def]
  have last: "4 dvd yoe + 1 \<and> (100 dvd yoe + 1 \<longrightarrow> 400 dvd yoe + 1)" if "doy = 365"
    using leap_of_era [of y year] month(6) [OF that] by (simp add: year_def yoe_def)
  note ye = year_of_era [OF era(2,3) month(4,5) last x_def]
  have "days = 146097 * (year div 400) + x"
    using era(1) by (simp add: days_def x_def)
  from int_div_pos_eq [OF this ye(2,3)] show div: "days div 146097 = year div 400" .
  have doe: "doe = x" unfolding doe_def div using \<open>days = 146097 * (year div 400) + x\<close> by linarith
  show "(doe - doe div 1460 + doe div 36524 - doe div 146096) div 365 = year - year div 400 * 400"
    using ye(1) by (simp add: doe yoe_def)
  show "0 \<le> doe" using ye(2) by (simp add: doe)
  show "doe = (year - year div 400 * 400) * 365 + (year - year div 400 * 400) div 4 -
      (year - year div 400 * 400) div 100 + doy" by (simp add: doe x_def yoe_def)
  show "0 \<le> year - year div 400 * 400" using era(2) by (simp add: yoe_def)
qed

lemma second_of_day_split:
  assumes "is_valid_time h mi s"
  shows "second_of_day h mi s div 3600 = h" "second_of_day h mi s mod 3600 div 60 = mi"
    "second_of_day h mi s mod 3600 mod 60 = s"
proof -
  have v: "0 \<le> h" "h \<le> 23" "0 \<le> mi" "mi \<le> 59" "0 \<le> s" "s \<le> 59" using assms by (auto simp: is_valid_time_def)
  have sod: "second_of_day h mi s = 3600 * h + (mi * 60 + s)" by (simp add: second_of_day_def)
  show "second_of_day h mi s div 3600 = h" by (rule int_div_pos_eq [OF sod]) (use v in auto)
  have m: "second_of_day h mi s mod 3600 = 60 * mi + s"
    using int_mod_pos_eq [OF sod] v by simp
  show "second_of_day h mi s mod 3600 div 60 = mi" by (rule int_div_pos_eq [OF m]) (use v in auto)
  show "second_of_day h mi s mod 3600 mod 60 = s" by (rule int_mod_pos_eq [OF m]) (use v in auto)
qed

lemma SECS_PER_DAY_eq: "SECS_PER_DAY = 86400" and SECS_PER_HOUR_eq: "SECS_PER_HOUR = 3600"
  by (simp_all add: SECS_PER_DAY_def SECS_PER_HOUR_def)

lemma utc_from_posix_time_calendar:
  assumes date: "date_ok y m d" and time: "is_valid_time h mi s"
  shows "utc_from_posix_time (calendar_time y m d h mi s) = Some (int y, int m, int d, h, mi, s)"
proof -
  define t where "t = calendar_time y m d h mi s"
  define sod where "sod = second_of_day h mi s"
  define year mp doy days doe yoe where "year = (if int m \<le> 2 then int y - 1 else int y)"
    and "mp = (if int m \<le> 2 then int m + 9 else int m - 3)"
    and "doy = (153 * mp + 2) div 5 + int d - 1" and "days = march_days year + doy"
    and "doe = days - days div 146097 * 146097" and "yoe = year - year div 400 * 400"
  note split = march_day_split [OF date, folded year_def mp_def, folded doy_def, folded days_def, folded doe_def yoe_def]
  note month = month_of_year [OF date, folded mp_def, folded doy_def]
  have t: "t = 86400 * (int (calendar_day y m d) - epoch_day) + sod" by (simp add: t_def calendar_time_def sod_def)
  have sod: "0 \<le> sod" "sod < 86400" using second_of_day_range [OF time] by (simp_all add: sod_def)
  have tdiv: "t div 86400 = int (calendar_day y m d) - epoch_day" "t mod 86400 = sod"
    using int_div_pos_eq [OF t sod] int_mod_pos_eq [OF t sod] by simp_all
  have "int (calendar_day y m d) - epoch_day + 719468 = days"
    using calendar_day_march [OF date] by (auto simp: year_def mp_def doy_def days_def Let_def)
  then have tdays: "t div 86400 + 719468 = days" using tdiv by simp
  have doy: "doe - (365 * yoe + yoe div 4 - yoe div 100) = doy" using split(4) by simp
  have quot: "0 \<le> doe - doe div 1460 + doe div 36524 - doe div 146096"
    using split(2,5) div_neg_pos_less0 [of "doe - doe div 1460 + doe div 36524 - doe div 146096" 365] by linarith
  have yoe: "(doe - doe sdiv 1460 + doe sdiv 36524 - doe sdiv 146096) sdiv 365 = yoe"
    using split(2,3) quot by simp
  have doy': "doe - (365 * yoe + yoe sdiv 4 - yoe sdiv 100) = doy" using doy split(5) by simp
  have mp: "(5 * doy + 2) sdiv 153 = mp" using month by simp
  have day: "doy - (153 * mp + 2) sdiv 5 + 1 = int d" using month(2) by (simp add: doy_def)
  have mon: "(if mp < 10 then mp + 3 else mp - 9) = int m"
    using date by (auto simp: mp_def date_ok_def)
  have yr: "(if int m \<le> 2 then yoe + year div 400 * 400 + 1 else yoe + year div 400 * 400) = int y"
    by (simp add: yoe_def year_def)
  have "is_valid_posix_time t" unfolding t_def by (rule calendar_time_valid [OF date time])
  then have "utc_from_posix_time t = Some (int y, int m, int d, sod sdiv 3600, (sod smod 3600) sdiv 60, (sod smod 3600) smod 60)"
    unfolding utc_from_posix_time_def Let_def SECS_PER_DAY_eq SECS_PER_HOUR_eq floor_div_mod [OF zero_less_numeral]
      prod.case tdiv(2) tdays era_of_day doe_def [symmetric]
    unfolding yoe split(1) doy' mp mon yr day
    by simp
  then show ?thesis
    using sod second_of_day_split [OF time] by (simp add: t_def sod_def)
qed

lemma prefix_sum_locate:
  fixes f :: "nat \<Rightarrow> nat"
  assumes "n < f N" "f 0 \<le> n"
  shows "\<exists>k<N. f k \<le> n \<and> n < f (Suc k)"
  using assms(1)
proof (induction N)
  case 0
  then show ?case using assms(2) by simp
next
  case (Suc N)
  then show ?case by (cases "n < f N") (auto intro: less_SucI simp: not_less)
qed

text \<open>Every day up to the end of year 9999 has a date.\<close>

lemma calendar_day_exists:
  assumes "n < 3652425"
  obtains y m d where "date_ok y m d" "calendar_day y m d = n"
proof -
  obtain y where y: "y < 10000" "days_before_year y \<le> n" "n < days_before_year (Suc y)"
    using prefix_sum_locate [of n days_before_year 10000] assms by (auto simp: days_before_10000)
  define r where "r = n - days_before_year y"
  have r: "r < days_in_months y 12" using y by (simp add: r_def days_in_year)
  obtain k where k: "k < 12" "days_in_months y k \<le> r" "r < days_in_months y (Suc k)"
    using prefix_sum_locate [of r "days_in_months y" 12] r by auto
  have "date_ok y (Suc k) (Suc (r - days_in_months y k))"
    using y k by (auto simp: date_ok_def)
  moreover have "calendar_day y (Suc k) (Suc (r - days_in_months y k)) = n"
    using y k by (simp add: calendar_day_def r_def)
  ultimately show ?thesis using that by blast
qed

lemma valid_posix_time_exists:
  assumes "is_valid_posix_time t"
  obtains y m d h mi s where "date_ok y m d" "is_valid_time h mi s" "t = calendar_time y m d h mi s"
proof -
  define n where "n = nat (t div 86400 + epoch_day)"
  define sod where "sod = t mod 86400"
  have t: "t = t div 86400 * 86400 + sod" "0 \<le> sod" "sod < 86400" by (simp_all add: sod_def)
  have n: "int n = t div 86400 + epoch_day" "n < 3652425"
    using assms t unfolding n_def is_valid_posix_time_def MIN_POSIX_TIME_def MAX_POSIX_TIME_def epoch_day_def by linarith+
  obtain y m d where ymd: "date_ok y m d" "calendar_day y m d = n" using calendar_day_exists [OF n(2)] .
  define h mi s where "h = sod div 3600" and "mi = sod mod 3600 div 60" and "s = sod mod 3600 mod 60"
  have "sod = h * 3600 + (mi * 60 + s)" "0 \<le> s" "s < 60" "0 \<le> mi * 60 + s" "mi * 60 + s < 3600"
    by (simp_all add: h_def mi_def s_def)
  then have "is_valid_time h mi s" "second_of_day h mi s = sod"
    using t unfolding is_valid_time_def second_of_day_def by linarith+
  moreover from this have "t = calendar_time y m d h mi s"
    using ymd n t(1) by (simp add: calendar_time_def)
  ultimately show ?thesis using that ymd by blast
qed

subsection \<open>Times as structures\<close>

definition tm_of :: "nat \<Rightarrow> nat \<Rightarrow> nat \<Rightarrow> int \<Rightarrow> int \<Rightarrow> int \<Rightarrow> tm" where
  "tm_of y m d h mi s = tm_zero\<lparr>tm_year := int y - 1900, tm_mon := int m - 1, tm_mday := int d, tm_hour := h,
     tm_min := mi, tm_sec := s\<rparr>"

lemma tm_to_posix_iff:
  "OPENSSL_tm_to_posix tm = Some t \<longleftrightarrow>
     (\<exists>y m d. tm_year tm = int y - 1900 \<and> tm_mon tm = int m - 1 \<and> tm_mday tm = int d \<and> date_ok y m d \<and>
        is_valid_time (tm_hour tm) (tm_min tm) (tm_sec tm) \<and>
        t = calendar_time y m d (tm_hour tm) (tm_min tm) (tm_sec tm))"
  unfolding OPENSSL_tm_to_posix_def posix_time_from_utc_iff by (simp add: eq_diff_eq)

lemma posix_to_tm_calendar:
  "date_ok y m d \<Longrightarrow> is_valid_time h mi s \<Longrightarrow>
     OPENSSL_posix_to_tm (calendar_time y m d h mi s) = Some (tm_of y m d h mi s)"
  by (simp add: OPENSSL_posix_to_tm_def utc_from_posix_time_calendar tm_of_def)

lemma posix_to_tm_None: "OPENSSL_posix_to_tm t = None \<longleftrightarrow> \<not> is_valid_posix_time t"
proof (cases "is_valid_posix_time t")
  case True
  then show ?thesis by (auto elim!: valid_posix_time_exists simp: posix_to_tm_calendar)
qed (simp add: OPENSSL_posix_to_tm_def utc_from_posix_time_def)

lemma posix_to_tm_to_posix:
  assumes "is_valid_posix_time t"
  shows "\<exists>tm. OPENSSL_posix_to_tm t = Some tm \<and> OPENSSL_tm_to_posix tm = Some t"
proof -
  obtain y m d h mi s where t: "date_ok y m d" "is_valid_time h mi s" "t = calendar_time y m d h mi s"
    using valid_posix_time_exists [OF assms] .
  moreover have "OPENSSL_tm_to_posix (tm_of y m d h mi s) = Some t"
    unfolding tm_to_posix_iff using t by (auto simp: tm_of_def)
  ultimately show ?thesis by (auto simp: posix_to_tm_calendar)
qed

lemma tm_to_posix_to_tm:
  fixes tm :: tm
  assumes "OPENSSL_tm_to_posix tm = Some t"
  shows "OPENSSL_posix_to_tm t = Some (tm\<lparr>tm_wday := 0, tm_yday := 0, tm_isdst := 0\<rparr>)"
proof -
  obtain y m d where "tm_year tm = int y - 1900" "tm_mon tm = int m - 1" "tm_mday tm = int d" "date_ok y m d"
    "is_valid_time (tm_hour tm) (tm_min tm) (tm_sec tm)" "t = calendar_time y m d (tm_hour tm) (tm_min tm) (tm_sec tm)"
    using assms by (auto simp: tm_to_posix_iff)
  then show ?thesis by (simp add: posix_to_tm_calendar tm_of_def tm_zero_def)
qed

lemma tm_to_posix_valid: "OPENSSL_tm_to_posix tm = Some t \<Longrightarrow> is_valid_posix_time t"
  by (auto simp: tm_to_posix_iff calendar_time_valid)

text \<open>Within the ranges of the C types no operation of \<open>OPENSSL_gmtime_adj\<close> overflows, and its guards reject
  only sums outside the supported range.\<close>

lemma gmtime_adj_eq:
  assumes "OPENSSL_tm_to_posix tm = Some t" "- (2 ^ 31) \<le> offset_day" "offset_day < 2 ^ 31"
    "INT64_MIN \<le> offset_sec" "offset_sec \<le> INT64_MAX"
  shows "OPENSSL_gmtime_adj tm offset_day offset_sec =
    Value (OPENSSL_posix_to_tm (t + offset_day * SECS_PER_DAY + offset_sec))"
proof -
  define p where "p = t + offset_day * SECS_PER_DAY"
  have "- 62167219200 \<le> t" "t \<le> 253402300799"
    using tm_to_posix_valid [OF assms(1)] by (simp_all add: is_valid_posix_time_def MIN_POSIX_TIME_def MAX_POSIX_TIME_def)
  then have i64s: "i64 (offset_day * SECS_PER_DAY) = Value (offset_day * SECS_PER_DAY)"
    "i64 (t + offset_day * SECS_PER_DAY) = Value p"
    using assms(2,3) by (auto simp: i64_def INT64_MIN_def INT64_MAX_def SECS_PER_DAY_eq p_def)
  have room: "p > 0 \<Longrightarrow> p \<le> INT64_MAX \<Longrightarrow> i64 (INT64_MAX - p) = Value (INT64_MAX - p)"
    "p < 0 \<Longrightarrow> INT64_MIN \<le> p \<Longrightarrow> i64 (INT64_MIN - p) = Value (INT64_MIN - p)"
    by (auto simp: i64_def INT64_MIN_def INT64_MAX_def)
  have p: "INT64_MIN \<le> p" "p \<le> INT64_MAX"
    using i64s(2) by (auto simp: i64_def p_def split: if_splits)
  then have ip: "i64 p = Value p" by (simp add: i64_def)
  have out: "OPENSSL_posix_to_tm x = None" if "x < INT64_MIN \<or> x > INT64_MAX" for x
    using that unfolding posix_to_tm_None is_valid_posix_time_def MIN_POSIX_TIME_def MAX_POSIX_TIME_def
      INT64_MIN_def INT64_MAX_def by auto
  consider "p > 0" "offset_sec > INT64_MAX - p" | "p < 0" "offset_sec < INT64_MIN - p"
    | "\<not> (p > 0 \<and> offset_sec > INT64_MAX - p)" "\<not> (p < 0 \<and> offset_sec < INT64_MIN - p)" by blast
  then show ?thesis
  proof cases
    case 3
    then have "INT64_MIN \<le> p + offset_sec \<and> p + offset_sec \<le> INT64_MAX"
      using assms(4,5) by (cases "p > 0"; cases "p < 0") (auto simp: INT64_MIN_def INT64_MAX_def)
    then have "i64 (p + offset_sec) = Value (p + offset_sec)" by (simp add: i64_def)
    then show ?thesis
      using 3 p room ip by (cases "p > 0"; cases "p < 0") (simp_all add: OPENSSL_gmtime_adj_def assms(1) i64s(1) ip flip: p_def)
  qed (use p room out [of "p + offset_sec"] in \<open>simp_all add: OPENSSL_gmtime_adj_def assms(1) i64s(1) ip flip: p_def\<close>)
qed

lemma gmtime_adj_adds:
  assumes "OPENSSL_gmtime_adj tm offset_day offset_sec = Value (Some tm')" "OPENSSL_tm_to_posix tm = Some t"
  shows "OPENSSL_tm_to_posix tm' = Some (t + offset_day * 86400 + offset_sec)"
proof -
  have bind: "c_bind x f = Value y \<longleftrightarrow> (\<exists>v. x = Value v \<and> f v = Value y)" for x :: "'b c_int" and f and y :: "tm option"
    by (cases x) auto
  have to: "OPENSSL_posix_to_tm (t + offset_day * 86400 + offset_sec) = Some tm'"
    using assms by (auto simp: OPENSSL_gmtime_adj_def i64_def SECS_PER_DAY_eq bind split: if_splits)
  then have "is_valid_posix_time (t + offset_day * 86400 + offset_sec)"
    using posix_to_tm_None by (metis option.distinct(1))
  then show ?thesis using posix_to_tm_to_posix to by fastforce
qed

subsection \<open>Properties\<close>

text \<open>C19: \<open>OPENSSL_tm_to_posix\<close> accepts exactly the dates of the proleptic Gregorian calendar from year 0 to 9999
  with a time of day, and returns the number of seconds since 1970 that counting the days of all years
  and months one by one gives.\<close>

theorem OPENSSL_tm_to_posix_counts_days:
  "OPENSSL_tm_to_posix tm = Some t \<longleftrightarrow>
     (\<exists>y m d. tm_year tm = int y - 1900 \<and> tm_mon tm = int m - 1 \<and> tm_mday tm = int d \<and>
        y \<le> 9999 \<and> 1 \<le> m \<and> m \<le> 12 \<and> 1 \<le> d \<and> d \<le> month_length y m \<and>
        0 \<le> tm_hour tm \<and> tm_hour tm \<le> 23 \<and> 0 \<le> tm_min tm \<and> tm_min tm \<le> 59 \<and>
        0 \<le> tm_sec tm \<and> tm_sec tm \<le> 59 \<and>
        t = (int (days_before_year y + days_in_months y (m - 1) + (d - 1)) - int (days_before_year 1970)) * 86400 +
          tm_hour tm * 3600 + tm_min tm * 60 + tm_sec tm)"
proof -
  have "int (days_before_year 1970) = epoch_day"
    unfolding days_before_year_int by (simp add: leap_days_def epoch_day_def)
  then show ?thesis
    unfolding tm_to_posix_iff calendar_time_def calendar_day_def second_of_day_def date_ok_def is_valid_time_def
    by (intro iff_exI) (auto simp: not_less)
qed

text \<open>C20: Converting a calendar time to POSIX time and back gives the same date and time; every POSIX time
  in the supported range converts to a calendar time and back, and no other does.\<close>

theorem OPENSSL_posix_time_roundtrip:
  "(OPENSSL_tm_to_posix tm = Some t \<longrightarrow>
     OPENSSL_posix_to_tm t = Some (tm\<lparr>tm_wday := 0, tm_yday := 0, tm_isdst := 0\<rparr>)) \<and>
   (if MIN_POSIX_TIME \<le> t \<and> t \<le> MAX_POSIX_TIME
    then \<exists>tm'. OPENSSL_posix_to_tm t = Some tm' \<and> OPENSSL_tm_to_posix tm' = Some t
    else OPENSSL_posix_to_tm t = None)"
proof (intro conjI impI)
  show "if MIN_POSIX_TIME \<le> t \<and> t \<le> MAX_POSIX_TIME
    then \<exists>tm'. OPENSSL_posix_to_tm t = Some tm' \<and> OPENSSL_tm_to_posix tm' = Some t
    else OPENSSL_posix_to_tm t = None"
    using posix_to_tm_to_posix [of t] posix_to_tm_None [of t] by (auto simp: is_valid_posix_time_def)
qed (rule tm_to_posix_to_tm)

theorem OPENSSL_posix_time_roundtrip_witness:
  "OPENSSL_tm_to_posix (tm_of 2024 2 29 23 59 58) = Some 1709251198 \<and>
   OPENSSL_posix_to_tm 1709251198 = Some (tm_of 2024 2 29 23 59 58)"
proof -
  have "OPENSSL_tm_to_posix (tm_of 2024 2 29 23 59 58) = Some 1709251198" by code_simp
  then show ?thesis
    using OPENSSL_posix_time_roundtrip [of "tm_of 2024 2 29 23 59 58" 1709251198] by (simp add: tm_of_def tm_zero_def)
qed

text \<open>C21: For any \<open>int\<close> number of days and \<open>int64_t\<close> number of seconds \<open>OPENSSL_gmtime_adj\<close> adds the offsets exactly,
  and none of its signed operations, those of its guards included, overflows: it succeeds with the exact
  sum if that is in the supported range of times, and fails otherwise.\<close>

theorem OPENSSL_gmtime_adj_exact:
  assumes "OPENSSL_tm_to_posix tm = Some t"
    "- (2 ^ 31) \<le> offset_day" "offset_day < 2 ^ 31" "INT64_MIN \<le> offset_sec" "offset_sec \<le> INT64_MAX"
  shows "if is_valid_posix_time (t + offset_day * SECS_PER_DAY + offset_sec)
    then \<exists>tm'. OPENSSL_gmtime_adj tm offset_day offset_sec = Value (Some tm') \<and>
      OPENSSL_tm_to_posix tm' = Some (t + offset_day * SECS_PER_DAY + offset_sec)
    else OPENSSL_gmtime_adj tm offset_day offset_sec = Value None"
  using gmtime_adj_eq [OF assms] posix_to_tm_None posix_to_tm_to_posix by auto

theorem OPENSSL_gmtime_adj_exact_witness:
  "(\<exists>tm'. OPENSSL_gmtime_adj (tm_of 1999 12 31 23 59 59) 60 1 = Value (Some tm') \<and> OPENSSL_tm_to_posix tm' = Some 951868800) \<and>
   OPENSSL_gmtime_adj (tm_of 1999 12 31 23 59 59) 60 INT64_MAX = Value None"
proof -
  have t: "OPENSSL_tm_to_posix (tm_of 1999 12 31 23 59 59) = Some 946684799" by code_simp
  show ?thesis
    using OPENSSL_gmtime_adj_exact [OF t, of 60 1] OPENSSL_gmtime_adj_exact [OF t, of 60 INT64_MAX]
    by (simp add: is_valid_posix_time_def MIN_POSIX_TIME_def MAX_POSIX_TIME_def SECS_PER_DAY_eq INT64_MIN_def INT64_MAX_def)
qed

text \<open>C22: \<open>OPENSSL_gmtime_diff\<close> returns the days and seconds that lead from one time to the other: adding them to
  the first time with \<open>OPENSSL_gmtime_adj\<close> gives the second, and the seconds are less than a day.\<close>

theorem OPENSSL_gmtime_diff_adj:
  assumes "OPENSSL_gmtime_diff from to = Some (days, secs)"
  shows "OPENSSL_gmtime_adj from days secs = Value (Some (to\<lparr>tm_wday := 0, tm_yday := 0, tm_isdst := 0\<rparr>)) \<and>
    \<bar>secs\<bar> < SECS_PER_DAY"
proof -
  obtain t_to t_from where t: "OPENSSL_tm_to_posix to = Some t_to" "OPENSSL_tm_to_posix from = Some t_from"
    and d: "days = (t_to - t_from) sdiv SECS_PER_DAY" "secs = (t_to - t_from) smod SECS_PER_DAY"
    using assms by (auto simp: OPENSSL_gmtime_diff_def Let_def split: option.splits)
  have sum: "t_from + days * SECS_PER_DAY + secs = t_to"
    using sdiv_mult_smod_eq [of "t_to - t_from" SECS_PER_DAY] by (simp add: d)
  have secs: "\<bar>secs\<bar> < SECS_PER_DAY"
    by (simp add: d SECS_PER_DAY_eq signed_modulo_int_def abs_mult sgn_if)
  moreover have "- (2 ^ 31) \<le> days" "days < 2 ^ 31" "INT64_MIN \<le> secs" "secs \<le> INT64_MAX"
    using tm_to_posix_valid [OF t(1)] tm_to_posix_valid [OF t(2)] secs sum
    unfolding is_valid_posix_time_def MIN_POSIX_TIME_def MAX_POSIX_TIME_def INT64_MIN_def INT64_MAX_def SECS_PER_DAY_eq
    by (simp_all, linarith+)
  then have "OPENSSL_gmtime_adj from days secs = Value (OPENSSL_posix_to_tm t_to)"
    using gmtime_adj_eq [OF t(2), of days secs] sum by simp
  moreover have "OPENSSL_posix_to_tm t_to = Some (to\<lparr>tm_wday := 0, tm_yday := 0, tm_isdst := 0\<rparr>)"
    by (rule tm_to_posix_to_tm [OF t(1)])
  ultimately show ?thesis by simp
qed

theorem OPENSSL_gmtime_diff_adj_witness:
  "OPENSSL_gmtime_diff (tm_of 2000 3 1 0 0 0) (tm_of 2000 2 28 12 0 0) = Some (- 1, - 43200) \<and>
   OPENSSL_gmtime_adj (tm_of 2000 3 1 0 0 0) (- 1) (- 43200) = Value (Some (tm_of 2000 2 28 12 0 0))"
proof -
  have d: "OPENSSL_gmtime_diff (tm_of 2000 3 1 0 0 0) (tm_of 2000 2 28 12 0 0) = Some (- 1, - 43200)" by code_simp
  then show ?thesis using OPENSSL_gmtime_diff_adj [OF d] by (simp add: tm_of_def tm_zero_def)
qed

end
