(* ===== verification/CbsTime.thy ===== *)
theory CbsTime
  imports Der PosixTime
begin

text \<open>
  Parsing of ASN.1 times, the last part of \<open>crypto/bytestring/cbs.cc\<close>. The parser returns whether it
  succeeded and the value of \<open>*out_tm\<close> afterwards; \<^const>\<open>None\<close> is a \<open>NULL\<close> pointer. \<^const>\<open>Overflow\<close> can only
  come from \<open>OPENSSL_gmtime_adj\<close>.
\<close>

definition cbs_get_two_digits :: "CBS \<Rightarrow> (int \<times> CBS) option" where
  "cbs_get_two_digits cbs = do {
     (first_digit, cbs) \<leftarrow> CBS_get_u8 cbs;
     if \<not> OPENSSL_isdigit (uint first_digit) then None
     else do {
       (second_digit, cbs) \<leftarrow> CBS_get_u8 cbs;
       if \<not> OPENSSL_isdigit (uint second_digit) then None
       else Some ((uint first_digit - 48) * 10 + (uint second_digit - 48), cbs)
     }
   }"

definition is_valid_day :: "int \<Rightarrow> int \<Rightarrow> int \<Rightarrow> bool" where
  "is_valid_day year month day =
     (if day < 1 then False
      else if month \<in> {1, 3, 5, 7, 8, 10, 12} then day \<le> 31
      else if month \<in> {4, 6, 9, 11} then day \<le> 30
      else if month = 2 then
        (if (year smod 4 = 0 \<and> year smod 100 \<noteq> 0) \<or> year smod 400 = 0 then day \<le> 29 else day \<le> 28)
      else False)"

definition require :: "bool \<Rightarrow> unit option" where
  "require b = (if b then Some () else None)"

text \<open>The three parts of \<open>CBS_parse_rfc5280_time_internal\<close>: the year, the zone, and all fields.\<close>

definition parse_time_year :: "bool \<Rightarrow> CBS \<Rightarrow> (int \<times> CBS) option" where
  "parse_time_year is_gentime copy =
     (if is_gentime then do {
        (tmp, copy) \<leftarrow> cbs_get_two_digits copy;
        let year = tmp * 100;
        (tmp, copy) \<leftarrow> cbs_get_two_digits copy;
        Some (year + tmp, copy)
      } else do {
        (tmp, copy) \<leftarrow> cbs_get_two_digits copy;
        let year = 1900 + tmp;
        let year = (if year < 1950 then year + 100 else year);
        if year \<ge> 2050 then None else Some (year, copy)
      })"

definition parse_time_zone :: "bool \<Rightarrow> CBS \<Rightarrow> (int \<times> CBS) option" where
  "parse_time_zone allow_timezone_offset copy = do {
     (tz, copy) \<leftarrow> CBS_get_u8 copy;
     offset_sign \<leftarrow> (if tz = 0x5a then Some 0 else if tz = 0x2b then Some 1 else if tz = 0x2d then Some (- 1) else None);
     if offset_sign \<noteq> 0 then do {
       _ \<leftarrow> require allow_timezone_offset;
       (offset_hours, copy) \<leftarrow> cbs_get_two_digits copy;
       _ \<leftarrow> require (\<not> offset_hours > 23);
       (offset_minutes, copy) \<leftarrow> cbs_get_two_digits copy;
       _ \<leftarrow> require (\<not> offset_minutes > 59);
       Some (offset_sign * (offset_hours * 3600 + offset_minutes * 60), copy)
     } else Some (0, copy)
   }"

definition parse_time_fields :: "bool \<Rightarrow> bool \<Rightarrow> CBS \<Rightarrow> (int \<times> int \<times> int \<times> int \<times> int \<times> int \<times> int) option" where
  "parse_time_fields is_gentime allow_timezone_offset copy = do {
     (year, copy) \<leftarrow> parse_time_year is_gentime copy;
     (month, copy) \<leftarrow> cbs_get_two_digits copy;
     _ \<leftarrow> require (\<not> (month < 1 \<or> month > 12));
     (day, copy) \<leftarrow> cbs_get_two_digits copy;
     _ \<leftarrow> require (is_valid_day year month day);
     (hour, copy) \<leftarrow> cbs_get_two_digits copy;
     _ \<leftarrow> require (\<not> hour > 23);
     (minute, copy) \<leftarrow> cbs_get_two_digits copy;
     _ \<leftarrow> require (\<not> minute > 59);
     (sec, copy) \<leftarrow> cbs_get_two_digits copy;
     _ \<leftarrow> require (\<not> sec > 59);
     (offset_seconds, copy) \<leftarrow> parse_time_zone allow_timezone_offset copy;
     _ \<leftarrow> require (length copy = 0);
     Some (year, month, day, hour, minute, sec, offset_seconds)
   }"

definition CBS_parse_rfc5280_time_internal ::
  "CBS \<Rightarrow> bool \<Rightarrow> bool \<Rightarrow> tm option \<Rightarrow> (bool \<times> tm option) c_int" where
  "CBS_parse_rfc5280_time_internal cbs is_gentime allow_timezone_offset out_tm =
     (case parse_time_fields is_gentime allow_timezone_offset cbs of
        None \<Rightarrow> Value (False, out_tm)
      | Some (year, month, day, hour, minute, sec, offset_seconds) \<Rightarrow>
          (case out_tm of
             None \<Rightarrow> Value (True, None)
           | Some tm \<Rightarrow>
               let tm = tm\<lparr>tm_year := year - 1900, tm_mon := month - 1, tm_mday := day, tm_hour := hour,
                           tm_min := minute, tm_sec := sec\<rparr>
               in if offset_seconds \<noteq> 0 then
                    (case OPENSSL_gmtime_adj tm 0 offset_seconds of
                       Overflow \<Rightarrow> Overflow
                     | Value None \<Rightarrow> Value (False, Some tm)
                     | Value (Some tm) \<Rightarrow> Value (True, Some tm))
                  else Value (True, Some tm)))"

definition CBS_parse_generalized_time :: "CBS \<Rightarrow> tm option \<Rightarrow> bool \<Rightarrow> (bool \<times> tm option) c_int" where
  "CBS_parse_generalized_time cbs out_tm allow_timezone_offset =
     CBS_parse_rfc5280_time_internal cbs True allow_timezone_offset out_tm"

definition CBS_parse_utc_time :: "CBS \<Rightarrow> tm option \<Rightarrow> bool \<Rightarrow> (bool \<times> tm option) c_int" where
  "CBS_parse_utc_time cbs out_tm allow_timezone_offset =
     CBS_parse_rfc5280_time_internal cbs False allow_timezone_offset out_tm"

subsection \<open>The text of a time\<close>

definition two_digits :: "nat \<Rightarrow> bytes" where
  "two_digits n = [word_of_nat (48 + n div 10), word_of_nat (48 + n mod 10)]"

definition year_text :: "bool \<Rightarrow> nat \<Rightarrow> bytes" where
  "year_text is_gentime y = (if is_gentime then two_digits (y div 100) else []) @ two_digits (y mod 100)"

definition zone_text :: "(bool \<times> nat \<times> nat) option \<Rightarrow> bytes" where
  "zone_text z = (case z of None \<Rightarrow> [0x5a]
     | Some (ahead, h, m) \<Rightarrow> (if ahead then 0x2b else 0x2d) # two_digits h @ two_digits m)"

definition time_text :: "bool \<Rightarrow> nat \<Rightarrow> nat \<Rightarrow> nat \<Rightarrow> nat \<Rightarrow> nat \<Rightarrow> nat \<Rightarrow> (bool \<times> nat \<times> nat) option \<Rightarrow> bytes" where
  "time_text is_gentime y m d h mi s z =
     year_text is_gentime y @ two_digits m @ two_digits d @ two_digits h @ two_digits mi @ two_digits s @ zone_text z"

lemma isdigit_uint: "n < 10 \<Longrightarrow> uint (word_of_nat (48 + n) :: u8) = 48 + int n"
  by (simp only: uint_nat) (subst unat_word_of_nat, simp_all)

lemma int_div_mod: "int (n div numeral k) * numeral k + int (n mod numeral k) = int n"
  by (metis div_mult_mod_eq of_nat_add of_nat_mult of_nat_numeral)

lemma get_two_digits_text [simp]: "n < 100 \<Longrightarrow> cbs_get_two_digits (two_digits n @ cbs) = Some (int n, cbs)"
proof -
  assume n: "n < 100"
  have "n div 10 < 10" "n mod 10 < 10" "n mod 10 \<le> 9" "int (n div 10) * 10 + int (n mod 10) = int n"
    using n int_div_mod by auto
  then show ?thesis
    using isdigit_uint [of "n div 10"] isdigit_uint [of "n mod 10"]
    by (simp add: cbs_get_two_digits_def two_digits_def OPENSSL_isdigit_def del: of_nat_add)
qed

lemma get_two_digits_iff:
  "cbs_get_two_digits cbs = Some (v, cbs') \<longleftrightarrow> (\<exists>n<100. v = int n \<and> cbs = two_digits n @ cbs')"
proof
  assume "cbs_get_two_digits cbs = Some (v, cbs')"
  then obtain a b where cbs: "cbs = a # b # cbs'" and ab: "OPENSSL_isdigit (uint a)" "OPENSSL_isdigit (uint b)"
    and v: "v = (uint a - 48) * 10 + (uint b - 48)"
    by (auto simp: cbs_get_two_digits_def CBS_get_u8_Some_iff bind_eq_Some_iff split: if_splits)
  obtain m n where mn: "m < 10" "a = word_of_nat (48 + m)" "n < 10" "b = word_of_nat (48 + n)"
    using ab unfolding isdigit_iff by blast
  have "v = int (10 * m + n)" unfolding v mn isdigit_uint [OF mn(1)] isdigit_uint [OF mn(3)] by simp
  moreover have "cbs = two_digits (10 * m + n) @ cbs'"
    using mn by (simp add: cbs two_digits_def del: of_nat_add)
  ultimately show "\<exists>n<100. v = int n \<and> cbs = two_digits n @ cbs'"
    using mn by (intro exI [of _ "10 * m + n"]) simp
qed auto

lemma require_iff [simp]: "require b = Some u \<longleftrightarrow> b" "Option.bind (require b) f = (if b then f () else None)"
  by (simp_all add: require_def)

lemma parse_time_year_iff:
  "parse_time_year g cbs = Some (year, cbs') \<longleftrightarrow>
     (\<exists>y. year = int y \<and> (if g then y \<le> 9999 else 1950 \<le> y \<and> y < 2050) \<and> cbs = year_text g y @ cbs')"
proof (cases g)
  case True
  show ?thesis
  proof
    assume "parse_time_year g cbs = Some (year, cbs')"
    then obtain a b where "a < 100" "b < 100" "year = int (100 * a + b)" "cbs = two_digits a @ two_digits b @ cbs'"
      using True by (auto simp: parse_time_year_def bind_eq_Some_iff get_two_digits_iff)
    then show "\<exists>y. year = int y \<and> (if g then y \<le> 9999 else 1950 \<le> y \<and> y < 2050) \<and> cbs = year_text g y @ cbs'"
      using True by (intro exI [of _ "100 * a + b"]) (simp add: year_text_def)
  next
    assume "\<exists>y. year = int y \<and> (if g then y \<le> 9999 else 1950 \<le> y \<and> y < 2050) \<and> cbs = year_text g y @ cbs'"
    then obtain y where y: "year = int y" "y \<le> 9999" "cbs = two_digits (y div 100) @ two_digits (y mod 100) @ cbs'"
      using True by (auto simp: year_text_def)
    moreover have "y div 100 < 100" "y mod 100 < 100" "int (y div 100) * 100 + int (y mod 100) = int y"
      using y int_div_mod by auto
    ultimately show "parse_time_year g cbs = Some (year, cbs')"
      using True by (simp add: parse_time_year_def)
  qed
next
  case False
  show ?thesis
  proof
    assume year: "parse_time_year g cbs = Some (year, cbs')"
    then obtain v c where v: "cbs_get_two_digits cbs = Some (v, c)"
      using False by (auto simp: parse_time_year_def bind_eq_Some_iff)
    then obtain a where a: "a < 100" "v = int a" "cbs = two_digits a @ c" using get_two_digits_iff by blast
    have "year = (if a < 50 then 2000 else 1900) + int a" "c = cbs'"
      using year False v a by (auto simp: parse_time_year_def Let_def split: if_splits)
    with a show "\<exists>y. year = int y \<and> (if g then y \<le> 9999 else 1950 \<le> y \<and> y < 2050) \<and> cbs = year_text g y @ cbs'"
      using False mod_mult_self4 [of 100 20 a] mod_mult_self4 [of 100 19 a]
      by (intro exI [of _ "(if a < 50 then 2000 else 1900) + a"]) (simp add: year_text_def)
  next
    assume "\<exists>y. year = int y \<and> (if g then y \<le> 9999 else 1950 \<le> y \<and> y < 2050) \<and> cbs = year_text g y @ cbs'"
    then obtain y where y: "year = int y" "1950 \<le> y" "y < 2050" "cbs = two_digits (y mod 100) @ cbs'"
      using False by (auto simp: year_text_def)
    moreover have "y = 100 * (if y < 2000 then 19 else 20) + (if y < 2000 then y - 1900 else y - 2000)" using y by simp
    then have "y mod 100 = (if y < 2000 then y - 1900 else y - 2000) mod 100" by (metis mod_mult_self4)
    then have "y mod 100 = (if y < 2000 then y - 1900 else y - 2000)" using y by (auto simp: mod_less)
    then have "y mod 100 < 100" "int (y mod 100) = (if y < 2000 then int y - 1900 else int y - 2000)"
      using y by auto
    ultimately show "parse_time_year g cbs = Some (year, cbs')"
      using False by (simp add: parse_time_year_def Let_def)
  qed
qed

definition zone_ok :: "bool \<Rightarrow> (bool \<times> nat \<times> nat) option \<Rightarrow> bool" where
  "zone_ok allow z \<longleftrightarrow> (case z of None \<Rightarrow> True | Some (ahead, h, m) \<Rightarrow> allow \<and> h \<le> 23 \<and> m \<le> 59)"

definition zone_seconds :: "(bool \<times> nat \<times> nat) option \<Rightarrow> int" where
  "zone_seconds z = (case z of None \<Rightarrow> 0 | Some (ahead, h, m) \<Rightarrow> (if ahead then 1 else - 1) * int (h * 3600 + m * 60))"

lemma parse_time_zone_iff:
  "parse_time_zone allow cbs = Some (off, cbs') \<longleftrightarrow>
     (\<exists>z. zone_ok allow z \<and> off = zone_seconds z \<and> cbs = zone_text z @ cbs')"
proof
  assume "parse_time_zone allow cbs = Some (off, cbs')"
  then obtain tz rest where cbs: "cbs = tz # rest" and parse: "parse_time_zone allow (tz # rest) = Some (off, cbs')"
    by (cases cbs) (auto simp: parse_time_zone_def)
  show "\<exists>z. zone_ok allow z \<and> off = zone_seconds z \<and> cbs = zone_text z @ cbs'"
  proof (cases "tz = 0x5a")
    case True
    then show ?thesis using parse
      by (intro exI [of _ None]) (simp add: zone_ok_def zone_seconds_def zone_text_def cbs parse_time_zone_def)
  next
    case False
    then obtain h m where hm: "h \<le> 23" "m \<le> 59" "rest = two_digits h @ two_digits m @ cbs'" "allow"
      "off = (if tz = 0x2b then 1 else - 1) * (int h * 3600 + int m * 60)" "tz = 0x2b \<or> tz = 0x2d"
      using parse by (auto simp: parse_time_zone_def bind_eq_Some_iff get_two_digits_iff not_less split: if_splits)
    then show ?thesis
      by (intro exI [of _ "Some (tz = 0x2b, h, m)"]) (auto simp: zone_ok_def zone_seconds_def zone_text_def cbs)
  qed
next
  assume "\<exists>z. zone_ok allow z \<and> off = zone_seconds z \<and> cbs = zone_text z @ cbs'"
  then show "parse_time_zone allow cbs = Some (off, cbs')"
    by (auto simp: zone_ok_def zone_seconds_def zone_text_def parse_time_zone_def split: option.splits)
qed

lemma is_valid_day_int: "y \<le> 9999 \<Longrightarrow> 1 \<le> m \<Longrightarrow> m \<le> 12 \<Longrightarrow> is_valid_day (int y) (int m) (int d) \<longleftrightarrow> date_ok y m d"
  unfolding is_valid_date_int [symmetric] by (auto simp: is_valid_day_def is_valid_date_def)

lemma if_None_eq_Some: "(if b then x else None) = Some y \<longleftrightarrow> b \<and> x = Some y"
  by simp

lemma parse_time_fields_iff:
  "parse_time_fields g allow cbs = Some (year, month, day, hour, minute, sec, off) \<longleftrightarrow>
     (\<exists>y m d h mi s z. year = int y \<and> month = int m \<and> day = int d \<and> hour = int h \<and> minute = int mi \<and> sec = int s \<and>
        off = zone_seconds z \<and> date_ok y m d \<and> (g \<or> 1950 \<le> y \<and> y < 2050) \<and> h \<le> 23 \<and> mi \<le> 59 \<and> s \<le> 59 \<and>
        zone_ok allow z \<and> cbs = time_text g y m d h mi s z)"
proof
  assume "parse_time_fields g allow cbs = Some (year, month, day, hour, minute, sec, off)"
  then obtain c1 c2 c3 c4 c5 c6 where
    parts: "parse_time_year g cbs = Some (year, c1)" "cbs_get_two_digits c1 = Some (month, c2)"
      "cbs_get_two_digits c2 = Some (day, c3)" "cbs_get_two_digits c3 = Some (hour, c4)"
      "cbs_get_two_digits c4 = Some (minute, c5)" "cbs_get_two_digits c5 = Some (sec, c6)"
      "parse_time_zone allow c6 = Some (off, [])"
    and ok: "1 \<le> month" "month \<le> 12" "is_valid_day year month day" "hour \<le> 23" "minute \<le> 59" "sec \<le> 59"
    unfolding parse_time_fields_def bind_eq_Some_iff split_paired_Ex prod.case require_iff if_None_eq_Some
    by (elim exE conjE) (simp add: not_less)
  obtain y m d h mi s z where f: "year = int y" and g: "if g then y \<le> 9999 else 1950 \<le> y \<and> y < 2050" and f': "cbs = year_text g y @ c1"
    "month = int m" "c1 = two_digits m @ c2" "day = int d" "c2 = two_digits d @ c3" "hour = int h" "c3 = two_digits h @ c4"
    "minute = int mi" "c4 = two_digits mi @ c5" "sec = int s" "c5 = two_digits s @ c6"
    "zone_ok allow z" "off = zone_seconds z" "c6 = zone_text z"
    using parts unfolding parse_time_year_iff get_two_digits_iff parse_time_zone_iff by auto
  have y: "y \<le> 9999" "g \<or> 1950 \<le> y \<and> y < 2050" using g by (auto split: if_splits)
  have "date_ok y m d" using ok is_valid_day_int [of y m d] y(1) by (simp add: f f')
  then show "\<exists>y m d h mi s z. year = int y \<and> month = int m \<and> day = int d \<and> hour = int h \<and> minute = int mi \<and> sec = int s \<and>
        off = zone_seconds z \<and> date_ok y m d \<and> (g \<or> 1950 \<le> y \<and> y < 2050) \<and> h \<le> 23 \<and> mi \<le> 59 \<and> s \<le> 59 \<and>
        zone_ok allow z \<and> cbs = time_text g y m d h mi s z"
    using ok y(2)
    by (intro exI [of _ y] exI [of _ m] exI [of _ d] exI [of _ h] exI [of _ mi] exI [of _ s] exI [of _ z])
      (simp add: time_text_def f f')
next
  assume "\<exists>y m d h mi s z. year = int y \<and> month = int m \<and> day = int d \<and> hour = int h \<and> minute = int mi \<and> sec = int s \<and>
        off = zone_seconds z \<and> date_ok y m d \<and> (g \<or> 1950 \<le> y \<and> y < 2050) \<and> h \<le> 23 \<and> mi \<le> 59 \<and> s \<le> 59 \<and>
        zone_ok allow z \<and> cbs = time_text g y m d h mi s z"
  then obtain y m d h mi s z where f: "year = int y" "month = int m" "day = int d" "hour = int h" "minute = int mi" "sec = int s"
    "off = zone_seconds z" "date_ok y m d" "g \<or> 1950 \<le> y \<and> y < 2050" "h \<le> 23" "mi \<le> 59" "s \<le> 59" "zone_ok allow z"
    "cbs = time_text g y m d h mi s z" by blast
  have md: "1 \<le> m" "m \<le> 12" "d < 100" "y \<le> 9999"
    using f(8) by (auto simp: date_ok_def month_length_def split: if_splits)
  have "parse_time_year g cbs = Some (int y, two_digits m @ two_digits d @ two_digits h @ two_digits mi @ two_digits s @ zone_text z)"
    unfolding parse_time_year_iff using f(9,14) md by (auto simp: time_text_def)
  moreover have "parse_time_zone allow (zone_text z) = Some (zone_seconds z, [])"
    unfolding parse_time_zone_iff using f(13) by auto
  moreover have "is_valid_day (int y) (int m) (int d)" using is_valid_day_int [of y m d] md f(8) by simp
  ultimately show "parse_time_fields g allow cbs = Some (year, month, day, hour, minute, sec, off)"
    using f md by (simp add: parse_time_fields_def)
qed

definition set_time :: "nat \<Rightarrow> nat \<Rightarrow> nat \<Rightarrow> nat \<Rightarrow> nat \<Rightarrow> nat \<Rightarrow> tm \<Rightarrow> tm" where
  "set_time y m d h mi s tm = tm\<lparr>tm_year := int y - 1900, tm_mon := int m - 1, tm_mday := int d, tm_hour := int h,
     tm_min := int mi, tm_sec := int s\<rparr>"

lemma set_time_posix:
  assumes "date_ok y m d" "h \<le> 23" "mi \<le> 59" "s \<le> 59"
  shows "OPENSSL_tm_to_posix (set_time y m d h mi s tm) = Some (calendar_time y m d (int h) (int mi) (int s))"
  unfolding tm_to_posix_iff using assms by (auto simp: set_time_def is_valid_time_def intro!: exI [of _ y] exI [of _ m] exI [of _ d])

text \<open>Times without an offset: success and the fields written.\<close>

definition time_ok :: "bool \<Rightarrow> nat \<Rightarrow> nat \<Rightarrow> nat \<Rightarrow> nat \<Rightarrow> nat \<Rightarrow> nat \<Rightarrow> bool" where
  "time_ok is_gentime y m d h mi s \<longleftrightarrow>
     date_ok y m d \<and> (is_gentime \<or> 1950 \<le> y \<and> y < 2050) \<and> h \<le> 23 \<and> mi \<le> 59 \<and> s \<le> 59"

lemma parse_fields_strict:
  "parse_time_fields g False cbs = Some (year, month, day, hour, minute, sec, off) \<longleftrightarrow>
     (\<exists>y m d h mi s. year = int y \<and> month = int m \<and> day = int d \<and> hour = int h \<and> minute = int mi \<and> sec = int s \<and>
        off = 0 \<and> time_ok g y m d h mi s \<and> cbs = time_text g y m d h mi s None)"
  unfolding parse_time_fields_iff time_ok_def zone_ok_def zone_seconds_def
  by (auto split: option.splits)

lemma parse_strict_iff:
  "CBS_parse_rfc5280_time_internal cbs g False out = Value (True, out') \<longleftrightarrow>
     (\<exists>y m d h mi s. time_ok g y m d h mi s \<and> cbs = time_text g y m d h mi s None \<and>
        out' = map_option (set_time y m d h mi s) out)"
proof (cases "parse_time_fields g False cbs")
  case None
  then have "\<not> (\<exists>y m d h mi s. time_ok g y m d h mi s \<and> cbs = time_text g y m d h mi s None)"
    using parse_fields_strict [of g cbs] by fastforce
  then show ?thesis using None by (simp add: CBS_parse_rfc5280_time_internal_def) blast
next
  case (Some f)
  then obtain year month day hour minute sec off
    where f: "parse_time_fields g False cbs = Some (year, month, day, hour, minute, sec, off)"
    by (metis surj_pair)
  show ?thesis
  proof
    assume p: "CBS_parse_rfc5280_time_internal cbs g False out = Value (True, out')"
    obtain y m d h mi s where t: "time_ok g y m d h mi s" "cbs = time_text g y m d h mi s None"
      "year = int y" "month = int m" "day = int d" "hour = int h" "minute = int mi" "sec = int s" "off = 0"
      using f unfolding parse_fields_strict by blast
    have "out' = map_option (set_time y m d h mi s) out"
      using p f by (auto simp: CBS_parse_rfc5280_time_internal_def set_time_def Let_def t(3-9) split: option.splits)
    then show "\<exists>y m d h mi s. time_ok g y m d h mi s \<and> cbs = time_text g y m d h mi s None \<and>
        out' = map_option (set_time y m d h mi s) out"
      using t by blast
  next
    assume "\<exists>y m d h mi s. time_ok g y m d h mi s \<and> cbs = time_text g y m d h mi s None \<and>
        out' = map_option (set_time y m d h mi s) out"
    then obtain y m d h mi s where t: "time_ok g y m d h mi s" "cbs = time_text g y m d h mi s None"
      "out' = map_option (set_time y m d h mi s) out" by blast
    then have "parse_time_fields g False cbs = Some (int y, int m, int d, int h, int mi, int s, 0)"
      unfolding parse_fields_strict by blast
    then show "CBS_parse_rfc5280_time_internal cbs g False out = Value (True, out')"
      using t by (auto simp: CBS_parse_rfc5280_time_internal_def set_time_def Let_def split: option.splits)
  qed
qed

subsection \<open>Properties\<close>

text \<open>C23: The strict time parsers accept exactly the texts \<open>YYMMDDhhmmssZ\<close> (years 1950 to 2049) and
  \<open>YYYYMMDDhhmmssZ\<close> of a valid date and time. They set the six calendar fields of \<open>*out_tm\<close> to that time,
  which always converts to a POSIX time, and leave the other fields of \<open>*out_tm\<close> as they were.\<close>

theorem CBS_parse_time_accepts_valid_times:
  "CBS_parse_rfc5280_time_internal cbs g False (Some tm) = Value (True, Some tm') \<longleftrightarrow>
     (\<exists>y m d h mi s. y \<le> 9999 \<and> (g \<or> 1950 \<le> y \<and> y < 2050) \<and> 1 \<le> m \<and> m \<le> 12 \<and> 1 \<le> d \<and> d \<le> month_length y m \<and>
        h \<le> 23 \<and> mi \<le> 59 \<and> s \<le> 59 \<and>
        cbs = (if g then two_digits (y div 100) else []) @ two_digits (y mod 100) @ two_digits m @ two_digits d @
          two_digits h @ two_digits mi @ two_digits s @ [0x5a] \<and>
        tm' = tm\<lparr>tm_year := int y - 1900, tm_mon := int m - 1, tm_mday := int d, tm_hour := int h,
          tm_min := int mi, tm_sec := int s\<rparr> \<and>
        OPENSSL_tm_to_posix tm' = Some (calendar_time y m d (int h) (int mi) (int s)))"
  unfolding parse_strict_iff
proof (intro iff_exI)
  fix y m d h mi s
  show "(time_ok g y m d h mi s \<and> cbs = time_text g y m d h mi s None \<and>
      Some tm' = map_option (set_time y m d h mi s) (Some tm)) \<longleftrightarrow>
    (y \<le> 9999 \<and> (g \<or> 1950 \<le> y \<and> y < 2050) \<and> 1 \<le> m \<and> m \<le> 12 \<and> 1 \<le> d \<and> d \<le> month_length y m \<and>
        h \<le> 23 \<and> mi \<le> 59 \<and> s \<le> 59 \<and>
        cbs = (if g then two_digits (y div 100) else []) @ two_digits (y mod 100) @ two_digits m @ two_digits d @
          two_digits h @ two_digits mi @ two_digits s @ [0x5a] \<and>
        tm' = tm\<lparr>tm_year := int y - 1900, tm_mon := int m - 1, tm_mday := int d, tm_hour := int h,
          tm_min := int mi, tm_sec := int s\<rparr> \<and>
        OPENSSL_tm_to_posix tm' = Some (calendar_time y m d (int h) (int mi) (int s)))"
    using set_time_posix [of y m d h mi s tm]
    by (auto simp: time_ok_def date_ok_def time_text_def year_text_def zone_text_def set_time_def)
qed

text \<open>C24: When a four-digit zone offset is allowed and present, the parser adds it, with its sign, to the time
  written in the text. For a zone east of Greenwich (\<open>+hhmm\<close>) the result is therefore later than the
  local time by the offset, not earlier as the corresponding time in UTC is.\<close>

theorem CBS_parse_time_adds_offset:
  assumes "CBS_parse_rfc5280_time_internal (time_text g y m d h mi s (Some (ahead, oh, om))) g True (Some tm) = Value (True, Some tm')"
    "time_ok g y m d h mi s" "oh \<le> 23" "om \<le> 59" "oh + om \<noteq> 0"
  shows "OPENSSL_tm_to_posix tm' =
    Some (calendar_time y m d (int h) (int mi) (int s) + (if ahead then 1 else - 1) * int (oh * 3600 + om * 60))"
proof -
  have f: "parse_time_fields g True (time_text g y m d h mi s (Some (ahead, oh, om))) =
    Some (int y, int m, int d, int h, int mi, int s, zone_seconds (Some (ahead, oh, om)))"
    unfolding parse_time_fields_iff using assms(2-4) by (fastforce simp: time_ok_def zone_ok_def)
  have z: "zone_seconds (Some (ahead, oh, om)) \<noteq> 0" using assms(5) by (simp add: zone_seconds_def) linarith
  have "OPENSSL_gmtime_adj (set_time y m d h mi s tm) 0 (zone_seconds (Some (ahead, oh, om))) = Value (Some tm')"
    using assms(1) z by (auto simp: CBS_parse_rfc5280_time_internal_def f set_time_def Let_def split: option.splits c_int.splits)
  from gmtime_adj_adds [OF this set_time_posix] show ?thesis
    using assms(2) by (simp add: time_ok_def zone_seconds_def)
qed

theorem CBS_parse_time_adds_offset_witness:
  "\<exists>tm'. CBS_parse_utc_time (time_text False 1970 1 1 0 0 0 (Some (False, 4, 0))) (Some tm_zero) True = Value (True, Some tm') \<and>
     OPENSSL_tm_to_posix tm' = Some (- 14400)"
proof -
  obtain tm' where p: "CBS_parse_rfc5280_time_internal (time_text False 1970 1 1 0 0 0 (Some (False, 4, 0))) False True (Some tm_zero) =
    Value (True, Some tm')"
    by (rule that [of "tm_of 1969 12 31 20 0 0"]) code_simp
  have "time_ok False 1970 1 1 0 0 0" by (simp add: time_ok_def date_ok_def month_length_def)
  moreover have "calendar_time 1970 1 1 0 0 0 = 0"
    by (simp add: calendar_time_def calendar_day_def days_before_year_int leap_days_def epoch_day_def second_of_day_def)
  ultimately show ?thesis
    using CBS_parse_time_adds_offset [OF p] p by (simp add: CBS_parse_utc_time_def)
qed

end
