(* ===== verification/Lhash.thy ===== *)
theory Lhash
  imports Mem "HOL-Library.Multiset"
begin

text \<open>
  The chained hash table of \<open>crypto/lhash/lhash.cc\<close>. A chain is the list of its items and the data of an
  item, a \<open>void *\<close> in the source, is a value of any type. \<open>hash d\<close> is \<open>call_hash_func(lh->hash, d)\<close> and
  \<open>cmp a b\<close> is \<open>call_cmp_func(lh->comp, a, b)\<close>; the function pointers never change after \<open>OPENSSL_lh_new\<close>.
  The pointer to a pointer that \<open>get_next_ptr_and_hash\<close> returns is a bucket and a position in its
  chain; the position is the length of the chain when it points to \<open>NULL\<close>.
\<close>

subsection \<open>The program\<close>

definition kMinNumBuckets :: u64 where
  "kMinNumBuckets = 16"

definition kMaxAverageChainLength :: u64 where
  "kMaxAverageChainLength = 2"

definition kMinAverageChainLength :: u64 where
  "kMinAverageChainLength = 1"

record 'a LHASH_ITEM =
  item_data :: 'a
  item_hash :: u32

record 'a LHASH =
  num_items :: u64
  buckets :: "'a LHASH_ITEM list list"
  num_buckets :: u64
  callback_depth :: u32

definition sizeof_LHASH :: u64 where
  "sizeof_LHASH = 48"

definition sizeof_LHASH_ITEM :: u64 where
  "sizeof_LHASH_ITEM = 24"

definition OPENSSL_lh_new :: "(u64 \<Rightarrow> bytes option) \<Rightarrow> 'a LHASH option" where
  "OPENSSL_lh_new malloc =
     (case OPENSSL_zalloc malloc sizeof_LHASH of
        None \<Rightarrow> None
      | Some _ \<Rightarrow>
          (case OPENSSL_calloc malloc kMinNumBuckets 8 of
             None \<Rightarrow> None
           | Some _ \<Rightarrow> Some \<lparr>num_items = 0, buckets = replicate (unat kMinNumBuckets) [],
                             num_buckets = kMinNumBuckets, callback_depth = 0\<rparr>))"

definition OPENSSL_lh_num_items :: "'a LHASH \<Rightarrow> u64" where
  "OPENSSL_lh_num_items lh = num_items lh"

definition bucket_of :: "u32 \<Rightarrow> u64 \<Rightarrow> nat" where
  "bucket_of h n = unat ((ucast h :: u64) mod n)"

fun chain_pos :: "('i \<Rightarrow> bool) \<Rightarrow> 'i list \<Rightarrow> nat" where
  "chain_pos P [] = 0"
| "chain_pos P (cur # rest) = (if P cur then 0 else Suc (chain_pos P rest))"

definition get_next_ptr_and_hash :: "('a \<Rightarrow> u32) \<Rightarrow> ('a \<Rightarrow> 'a \<Rightarrow> int) \<Rightarrow> 'a LHASH \<Rightarrow> 'a \<Rightarrow> (nat \<times> nat) \<times> u32" where
  "get_next_ptr_and_hash hash cmp lh data =
     (let h = hash data;
          b = bucket_of h (num_buckets lh)
      in ((b, chain_pos (\<lambda>cur. cmp (item_data cur) data = 0) (buckets lh ! b)), h))"

definition get_next_ptr_by_key :: "'a LHASH \<Rightarrow> 'k \<Rightarrow> u32 \<Rightarrow> ('k \<Rightarrow> 'a \<Rightarrow> int) \<Rightarrow> nat \<times> nat" where
  "get_next_ptr_by_key lh key key_hash cmp_key =
     (let b = bucket_of key_hash (num_buckets lh)
      in (b, chain_pos (\<lambda>cur. cmp_key key (item_data cur) = 0) (buckets lh ! b)))"

definition deref :: "'a LHASH \<Rightarrow> nat \<times> nat \<Rightarrow> 'a LHASH_ITEM option" where
  "deref lh p = (case p of (b, i) \<Rightarrow> if i < length (buckets lh ! b) then Some (buckets lh ! b ! i) else None)"

definition OPENSSL_lh_retrieve :: "('a \<Rightarrow> u32) \<Rightarrow> ('a \<Rightarrow> 'a \<Rightarrow> int) \<Rightarrow> 'a LHASH \<Rightarrow> 'a \<Rightarrow> 'a option" where
  "OPENSSL_lh_retrieve hash cmp lh data =
     (let (next_ptr, _) = get_next_ptr_and_hash hash cmp lh data
      in map_option item_data (deref lh next_ptr))"

definition OPENSSL_lh_retrieve_key :: "'a LHASH \<Rightarrow> 'k \<Rightarrow> u32 \<Rightarrow> ('k \<Rightarrow> 'a \<Rightarrow> int) \<Rightarrow> 'a option" where
  "OPENSSL_lh_retrieve_key lh key key_hash cmp_key =
     map_option item_data (deref lh (get_next_ptr_by_key lh key key_hash cmp_key))"

text \<open>The loops of \<open>lh_rebucket\<close>: every item is pushed on the chain of its new bucket.\<close>

definition push_item :: "u64 \<Rightarrow> 'a LHASH_ITEM \<Rightarrow> 'a LHASH_ITEM list list \<Rightarrow> 'a LHASH_ITEM list list" where
  "push_item new_num_buckets cur new_buckets =
     (let new_bucket = bucket_of (item_hash cur) new_num_buckets
      in new_buckets[new_bucket := cur # new_buckets ! new_bucket])"

definition lh_rebucket :: "(u64 \<Rightarrow> bytes option) \<Rightarrow> 'a LHASH \<Rightarrow> u64 \<Rightarrow> 'a LHASH" where
  "lh_rebucket malloc lh new_num_buckets =
     (let alloc_size = 8 * new_num_buckets
      in if alloc_size div 8 \<noteq> new_num_buckets then lh
         else case OPENSSL_zalloc malloc alloc_size of
                None \<Rightarrow> lh
              | Some _ \<Rightarrow>
                  let new_buckets = fold (fold (push_item new_num_buckets)) (buckets lh)
                                      (replicate (unat new_num_buckets) [])
                  in lh\<lparr>num_buckets := new_num_buckets, buckets := new_buckets\<rparr>)"

definition lh_maybe_resize :: "(u64 \<Rightarrow> bytes option) \<Rightarrow> 'a LHASH \<Rightarrow> 'a LHASH" where
  "lh_maybe_resize malloc lh =
     (if callback_depth lh > 0 then lh
      else let avg_chain_length = num_items lh div num_buckets lh
           in if avg_chain_length > kMaxAverageChainLength then
                let new_num_buckets = num_buckets lh * 2
                in if new_num_buckets > num_buckets lh then lh_rebucket malloc lh new_num_buckets else lh
              else if avg_chain_length < kMinAverageChainLength \<and> num_buckets lh > kMinNumBuckets then
                let new_num_buckets = num_buckets lh div 2;
                    new_num_buckets = (if new_num_buckets < kMinNumBuckets then kMinNumBuckets else new_num_buckets)
                in lh_rebucket malloc lh new_num_buckets
              else lh)"

text \<open>The result is the return value, \<open>*old_data\<close> and the table.\<close>

definition OPENSSL_lh_insert ::
  "(u64 \<Rightarrow> bytes option) \<Rightarrow> ('a \<Rightarrow> u32) \<Rightarrow> ('a \<Rightarrow> 'a \<Rightarrow> int) \<Rightarrow> 'a LHASH \<Rightarrow> 'a \<Rightarrow> bool \<times> 'a option \<times> 'a LHASH" where
  "OPENSSL_lh_insert malloc hash cmp lh data =
     (let (next_ptr, h) = get_next_ptr_and_hash hash cmp lh data; (b, i) = next_ptr
      in case deref lh next_ptr of
           Some item \<Rightarrow>
             (True, Some (item_data item),
              lh\<lparr>buckets := (buckets lh)[b := (buckets lh ! b)[i := item\<lparr>item_data := data\<rparr>]]\<rparr>)
         | None \<Rightarrow>
             (case OPENSSL_malloc malloc sizeof_LHASH_ITEM of
                None \<Rightarrow> (False, None, lh)
              | Some _ \<Rightarrow>
                  let item = \<lparr>item_data = data, item_hash = h\<rparr>;
                      lh = lh\<lparr>buckets := (buckets lh)[b := buckets lh ! b @ [item]], num_items := num_items lh + 1\<rparr>
                  in (True, None, lh_maybe_resize malloc lh)))"

definition OPENSSL_lh_delete ::
  "(u64 \<Rightarrow> bytes option) \<Rightarrow> ('a \<Rightarrow> u32) \<Rightarrow> ('a \<Rightarrow> 'a \<Rightarrow> int) \<Rightarrow> 'a LHASH \<Rightarrow> 'a \<Rightarrow> 'a option \<times> 'a LHASH" where
  "OPENSSL_lh_delete malloc hash cmp lh data =
     (let (next_ptr, _) = get_next_ptr_and_hash hash cmp lh data; (b, i) = next_ptr
      in case deref lh next_ptr of
           None \<Rightarrow> (None, lh)
         | Some item \<Rightarrow>
             let lh = lh\<lparr>buckets := (buckets lh)[b := take i (buckets lh ! b) @ drop (Suc i) (buckets lh ! b)],
                         num_items := num_items lh - 1\<rparr>
             in (Some (item_data item), lh_maybe_resize malloc lh))"

text \<open>\<open>func\<close> updates the state behind \<open>arg\<close> and does not touch the table.\<close>

definition OPENSSL_lh_doall_arg ::
  "(u64 \<Rightarrow> bytes option) \<Rightarrow> 'a LHASH \<Rightarrow> ('a \<Rightarrow> 's \<Rightarrow> 's) \<Rightarrow> 's \<Rightarrow> 'a LHASH \<times> 's" where
  "OPENSSL_lh_doall_arg malloc lh func arg =
     (let lh = lh\<lparr>callback_depth := (if callback_depth lh < - 1 then callback_depth lh + 1 else callback_depth lh)\<rparr>;
          arg = fold (fold (\<lambda>cur. func (item_data cur))) (buckets lh) arg;
          lh = lh\<lparr>callback_depth := (if callback_depth lh < - 1 then callback_depth lh - 1 else callback_depth lh)\<rparr>
      in (lh_maybe_resize malloc lh, arg))"

subsection \<open>The contract of the callbacks\<close>

text \<open>The comparison decides an equivalence and equal elements have the same hash.\<close>

locale lhash_callbacks =
  fixes hash :: "'a \<Rightarrow> u32" and cmp :: "'a \<Rightarrow> 'a \<Rightarrow> int"
  assumes cmp_refl: "cmp a a = 0"
    and cmp_sym: "cmp a b = 0 \<Longrightarrow> cmp b a = 0"
    and cmp_trans: "cmp a b = 0 \<Longrightarrow> cmp b c = 0 \<Longrightarrow> cmp a c = 0"
    and cmp_hash: "cmp a b = 0 \<Longrightarrow> hash a = hash b"

subsection \<open>The invariant and the elements\<close>

definition lh_elems :: "'a LHASH \<Rightarrow> 'a multiset" where
  "lh_elems lh = mset (map item_data (concat (buckets lh)))"

definition uniq :: "('a \<Rightarrow> 'a \<Rightarrow> int) \<Rightarrow> 'a multiset \<Rightarrow> bool" where
  "uniq cmp M \<longleftrightarrow> (\<forall>x. size (filter_mset (\<lambda>y. cmp y x = 0) M) \<le> 1)"

definition item_ok :: "('a \<Rightarrow> u32) \<Rightarrow> u64 \<Rightarrow> nat \<Rightarrow> 'a LHASH_ITEM \<Rightarrow> bool" where
  "item_ok hash n b x \<longleftrightarrow> item_hash x = hash (item_data x) \<and> bucket_of (item_hash x) n = b"

definition lh_ok :: "('a \<Rightarrow> u32) \<Rightarrow> ('a \<Rightarrow> 'a \<Rightarrow> int) \<Rightarrow> 'a LHASH \<Rightarrow> bool" where
  "lh_ok hash cmp lh \<longleftrightarrow>
     length (buckets lh) = unat (num_buckets lh) \<and> kMinNumBuckets \<le> num_buckets lh \<and>
     unat (num_items lh) = size (lh_elems lh) \<and>
     (\<forall>b<length (buckets lh). \<forall>x\<in>set (buckets lh ! b). item_ok hash (num_buckets lh) b x) \<and>
     uniq cmp (lh_elems lh)"

lemma chain_pos_le: "chain_pos P xs \<le> length xs"
  by (induction xs) auto

lemma chain_pos_length: "\<not> chain_pos P xs < length xs \<longleftrightarrow> (\<forall>x\<in>set xs. \<not> P x)"
  by (induction xs) auto

lemma chain_pos_nth: "chain_pos P xs < length xs \<Longrightarrow> P (xs ! chain_pos P xs)"
  by (induction xs) auto

lemma bucket_of_less: "n \<noteq> 0 \<Longrightarrow> bucket_of h n < unat n"
  unfolding bucket_of_def by (simp add: word_less_nat_alt [symmetric] word_mod_less_divisor word_gt_0)

lemma fold_fold: "fold (fold f) xss = fold f (concat xss)"
  by (induction xss) (auto simp: fun_eq_iff)

lemma mset_concat_update:
  "b < length xss \<Longrightarrow> mset (concat (xss[b := ys])) + mset (xss ! b) = mset (concat xss) + mset ys"
  by (induction xss arbitrary: b) (auto split: nat.split simp: ac_simps)

lemma mset_concat_replace:
  assumes "b < length xss" "i < length (xss ! b)"
  shows "add_mset (xss ! b ! i) (mset (concat (xss[b := (xss ! b)[i := y]]))) = add_mset y (mset (concat xss))"
proof -
  obtain D where D: "mset (xss ! b) = add_mset (xss ! b ! i) D"
    using assms(2) by (metis nth_mem_mset multi_member_split)
  then have "mset ((xss ! b)[i := y]) = add_mset y D"
    using assms(2) by (simp add: mset_update)
  then show ?thesis using mset_concat_update [OF assms(1), of "(xss ! b)[i := y]"] D by simp
qed

lemma mset_concat_remove:
  assumes "b < length xss" "i < length (xss ! b)"
  shows "add_mset (xss ! b ! i) (mset (concat (xss[b := take i (xss ! b) @ drop (Suc i) (xss ! b)]))) = mset (concat xss)"
proof -
  have "mset (xss ! b) = add_mset (xss ! b ! i) (mset (take i (xss ! b) @ drop (Suc i) (xss ! b)))"
    using id_take_nth_drop [OF assms(2)] by (metis mset.simps(2) mset_append union_mset_add_mset_right)
  then show ?thesis using mset_concat_update [OF assms(1), of "take i (xss ! b) @ drop (Suc i) (xss ! b)"] by simp
qed

lemma buckets_update_all:
  assumes "\<forall>b'<length xss. \<forall>x\<in>set (xss ! b'). Q b' x" "\<forall>x\<in>set ys. Q b x"
  shows "\<forall>b'<length (xss[b := ys]). \<forall>x\<in>set (xss[b := ys] ! b'). Q b' x"
  using assms by (cases "b < length xss") (auto simp: nth_list_update split: if_splits)

lemma fold_push_item:
  "length (fold (push_item n) items nb) = length nb \<and>
   (\<forall>j<length nb. fold (push_item n) items nb ! j =
      rev (filter (\<lambda>x. bucket_of (item_hash x) n = j) items) @ nb ! j)"
proof (induction items arbitrary: nb)
  case (Cons x items)
  have "length (push_item n x nb) = length nb"
    by (simp add: push_item_def Let_def)
  then show ?case using Cons.IH [of "push_item n x nb"] by (auto simp: push_item_def Let_def nth_list_update)
qed simp

lemma mset_push_items:
  "(\<And>x. x \<in> set items \<Longrightarrow> bucket_of (item_hash x) n < length nb) \<Longrightarrow>
     mset (concat (fold (push_item n) items nb)) = mset items + mset (concat nb)"
proof (induction items arbitrary: nb)
  case (Cons x items)
  have len: "length (push_item n x nb) = length nb"
    by (simp add: push_item_def Let_def)
  have "mset (concat (push_item n x nb)) = add_mset x (mset (concat nb))"
    using mset_concat_update [of "bucket_of (item_hash x) n" nb "x # nb ! bucket_of (item_hash x) n"] Cons.prems [of x]
    by (simp add: push_item_def Let_def)
  then show ?case using Cons.IH [of "push_item n x nb"] Cons.prems len by simp
qed simp

text \<open>Resizing keeps the elements, the invariant and the number of items.\<close>

lemma lh_rebucket_ok:
  assumes ok: "lh_ok hash cmp lh" and n: "kMinNumBuckets \<le> n"
  shows "lh_ok hash cmp (lh_rebucket malloc lh n) \<and> lh_elems (lh_rebucket malloc lh n) = lh_elems lh \<and>
    callback_depth (lh_rebucket malloc lh n) = callback_depth lh"
proof -
  define items where "items = concat (buckets lh)"
  define nb where "nb = fold (push_item n) items (replicate (unat n) [])"
  define lh' where "lh' = lh\<lparr>num_buckets := n, buckets := nb\<rparr>"
  have n0: "n \<noteq> 0" using n by (auto simp: kMinNumBuckets_def)
  have push: "length nb = unat n" "\<And>j. j < unat n \<Longrightarrow> nb ! j = rev (filter (\<lambda>x. bucket_of (item_hash x) n = j) items)"
    using fold_push_item [of n items "replicate (unat n) []"] by (simp_all add: nb_def)
  have "mset (concat nb) = mset items"
    unfolding nb_def using bucket_of_less [OF n0] by (subst mset_push_items) (simp_all add: concat_replicate_trivial)
  then have elems: "lh_elems lh' = lh_elems lh"
    by (simp add: lh_elems_def lh'_def items_def)
  have "item_hash x = hash (item_data x)" if x: "x \<in> set items" for x
  proof -
    obtain b where "b < length (buckets lh)" "x \<in> set (buckets lh ! b)"
      using x unfolding items_def set_concat by (auto simp: in_set_conv_nth [of _ "buckets lh"])
    then show ?thesis using ok by (auto simp: lh_ok_def item_ok_def)
  qed
  then have "\<forall>b<length nb. \<forall>x\<in>set (nb ! b). item_ok hash n b x"
    using push by (auto simp: item_ok_def)
  then have "lh_ok hash cmp lh'"
    using ok n push(1) elems unfolding lh_ok_def by (simp add: lh'_def)
  moreover have "lh_rebucket malloc lh n = lh \<or> lh_rebucket malloc lh n = lh'"
    by (simp add: lh_rebucket_def Let_def fold_fold lh'_def nb_def items_def split: option.split)
  ultimately show ?thesis using ok elems by (auto simp: lh'_def)
qed

lemma lh_maybe_resize_ok:
  assumes ok: "lh_ok hash cmp lh"
  shows "lh_ok hash cmp (lh_maybe_resize malloc lh) \<and> lh_elems (lh_maybe_resize malloc lh) = lh_elems lh \<and>
    callback_depth (lh_maybe_resize malloc lh) = callback_depth lh"
proof -
  have min: "kMinNumBuckets \<le> num_buckets lh" using ok by (simp add: lh_ok_def)
  define r where "r = num_buckets lh div 2"
  have "kMinNumBuckets \<le> (if r < kMinNumBuckets then kMinNumBuckets else r)" by auto
  note low = lh_rebucket_ok [OF ok this]
  have "kMinNumBuckets \<le> num_buckets lh * 2" if "num_buckets lh * 2 > num_buckets lh" using that min by auto
  note high = lh_rebucket_ok [OF ok this]
  show ?thesis
    unfolding lh_maybe_resize_def Let_def r_def [symmetric] using ok low high by (simp split: if_split)
qed

context lhash_callbacks
begin

lemma item_in_bucket:
  assumes ok: "lh_ok hash cmp lh" and e: "e \<in># lh_elems lh" "cmp e d = 0"
  shows "\<exists>x\<in>set (buckets lh ! bucket_of (hash d) (num_buckets lh)). item_data x = e"
proof -
  obtain b x where x: "b < length (buckets lh)" "x \<in> set (buckets lh ! b)" "item_data x = e"
    using e(1) unfolding lh_elems_def by (auto simp: in_set_conv_nth [of _ "buckets lh"])
  then have "item_ok hash (num_buckets lh) b x" using ok by (simp add: lh_ok_def)
  then have "b = bucket_of (hash d) (num_buckets lh)" using x(3) cmp_hash [OF e(2)] by (auto simp: item_ok_def)
  then show ?thesis using x by auto
qed

lemma bucket_elem:
  fixes d :: 'a
  assumes ok: "lh_ok hash cmp lh"
  defines "b \<equiv> bucket_of (hash d) (num_buckets lh)"
  shows "b < length (buckets lh)" "x \<in> set (buckets lh ! b) \<Longrightarrow> item_data x \<in># lh_elems lh"
proof -
  have "num_buckets lh \<noteq> 0" using ok by (auto simp: lh_ok_def kMinNumBuckets_def)
  then show b: "b < length (buckets lh)" using ok by (simp add: b_def lh_ok_def bucket_of_less)
  show "item_data x \<in># lh_elems lh" if "x \<in> set (buckets lh ! b)"
    using that b by (auto simp: lh_elems_def intro!: imageI bexI [of _ "buckets lh ! b"])
qed

lemma uniq_eq:
  assumes "uniq cmp M" "x \<in># M" "y \<in># M" "cmp x d = 0" "cmp y d = 0"
  shows "x = y"
proof (rule ccontr)
  assume "x \<noteq> y"
  then have "{#x, y#} \<subseteq># filter_mset (\<lambda>z. cmp z d = 0) M"
    using assms by (auto simp: insert_subset_eq_iff in_diff_count)
  then have "2 \<le> size (filter_mset (\<lambda>z. cmp z d = 0) M)"
    using size_mset_mono by fastforce
  moreover have "size (filter_mset (\<lambda>z. cmp z d = 0) M) \<le> 1" using assms(1) by (simp add: uniq_def)
  ultimately show False by simp
qed

text \<open>What the pointer that the search returns points to.\<close>

lemma next_ptr_None:
  assumes ok: "lh_ok hash cmp lh" and p: "get_next_ptr_and_hash hash cmp lh d = ((b, i), h)"
  shows "deref lh (b, i) = None \<longleftrightarrow> (\<forall>e\<in>#lh_elems lh. cmp e d \<noteq> 0)"
proof -
  have b: "b = bucket_of (hash d) (num_buckets lh)" "i = chain_pos (\<lambda>cur. cmp (item_data cur) d = 0) (buckets lh ! b)"
    using p by (auto simp: get_next_ptr_and_hash_def Let_def)
  have "deref lh (b, i) = None \<longleftrightarrow> (\<forall>x\<in>set (buckets lh ! b). cmp (item_data x) d \<noteq> 0)"
    by (simp add: deref_def b(2) chain_pos_length flip: chain_pos_length)
  also have "\<dots> \<longleftrightarrow> (\<forall>e\<in>#lh_elems lh. cmp e d \<noteq> 0)"
    using item_in_bucket [OF ok, of _ d] bucket_elem(2) [OF ok, of _ d] b(1) by auto
  finally show ?thesis .
qed

lemma next_ptr_Some:
  assumes ok: "lh_ok hash cmp lh" and p: "get_next_ptr_and_hash hash cmp lh d = ((b, i), h)"
    and x: "deref lh (b, i) = Some x"
  shows "item_data x \<in># lh_elems lh" "cmp (item_data x) d = 0" "b < length (buckets lh)" "i < length (buckets lh ! b)"
    "buckets lh ! b ! i = x"
proof -
  have b: "b = bucket_of (hash d) (num_buckets lh)" "i = chain_pos (\<lambda>cur. cmp (item_data cur) d = 0) (buckets lh ! b)"
    using p by (auto simp: get_next_ptr_and_hash_def Let_def)
  show i: "i < length (buckets lh ! b)" and ix: "buckets lh ! b ! i = x"
    using x by (auto simp: deref_def split: if_splits)
  show "cmp (item_data x) d = 0" using chain_pos_nth i ix unfolding b(2) by blast
  show "b < length (buckets lh)" using bucket_elem(1) [OF ok, of d] b(1) by simp
  have "x \<in> set (buckets lh ! b)" using i ix by auto
  then show "item_data x \<in># lh_elems lh" using bucket_elem(2) [OF ok, of x d] b(1) by simp
qed

lemma lh_retrieve_iff:
  assumes ok: "lh_ok hash cmp lh"
  shows "OPENSSL_lh_retrieve hash cmp lh d = Some e \<longleftrightarrow> e \<in># lh_elems lh \<and> cmp e d = 0"
proof -
  obtain b i h where p: "get_next_ptr_and_hash hash cmp lh d = ((b, i), h)" by (metis surj_pair)
  show ?thesis
  proof (cases "deref lh (b, i)")
    case None
    then show ?thesis using next_ptr_None [OF ok p] by (auto simp: OPENSSL_lh_retrieve_def p)
  next
    case (Some x)
    have "uniq cmp (lh_elems lh)" using ok by (simp add: lh_ok_def)
    then show ?thesis
      using next_ptr_Some [OF ok p Some] uniq_eq Some by (auto simp: OPENSSL_lh_retrieve_def p)
  qed
qed

end

context lhash_callbacks
begin

lemma uniq_add:
  assumes "uniq cmp M" "\<forall>e\<in>#M. cmp e d \<noteq> 0"
  shows "uniq cmp (add_mset d M)"
  unfolding uniq_def
proof
  fix x
  show "size (filter_mset (\<lambda>y. cmp y x = 0) (add_mset d M)) \<le> 1"
  proof (cases "cmp d x = 0")
    case True
    have "cmp y x \<noteq> 0" if "y \<in># M" for y
      using assms(2) that cmp_trans [of y x d] cmp_sym [OF True] by blast
    then have "filter_mset (\<lambda>y. cmp y x = 0) M = {#}"
      using filter_mset_cong [OF refl, of M "\<lambda>y. cmp y x = 0" "\<lambda>_. False"] by simp
    then show ?thesis using True by simp
  next
    case False
    then show ?thesis using assms(1) by (simp add: uniq_def)
  qed
qed

lemma uniq_remove: "uniq cmp M \<Longrightarrow> uniq cmp (M - {#e#})"
proof -
  have "size (filter_mset P (M - {#e#})) \<le> size (filter_mset P M)" for P
    by (intro size_mset_mono multiset_filter_mono diff_subset_eq_self)
  then show "uniq cmp M \<Longrightarrow> uniq cmp (M - {#e#})" unfolding uniq_def using le_trans by blast
qed

lemma uniq_none_equal:
  assumes "uniq cmp M" "e \<in># M" "cmp e d = 0"
  shows "\<forall>e'\<in>#M - {#e#}. cmp e' d \<noteq> 0"
proof (rule ccontr)
  assume "\<not> (\<forall>e'\<in>#M - {#e#}. cmp e' d \<noteq> 0)"
  then obtain e' where e': "e' \<in># M - {#e#}" "cmp e' d = 0" by auto
  obtain D where D: "M = add_mset e D" using multi_member_split [OF assms(2)] by blast
  have "size (filter_mset (\<lambda>z. cmp z d = 0) M) \<le> 1" using assms(1) by (simp add: uniq_def)
  then have "filter_mset (\<lambda>z. cmp z d = 0) D = {#}" using D assms(3) by simp
  moreover have "e' \<in># filter_mset (\<lambda>z. cmp z d = 0) D" using e' D by simp
  ultimately show False by (metis empty_iff set_mset_empty)
qed

lemma lh_insert_ok:
  assumes ok: "lh_ok hash cmp lh" and fits: "size (lh_elems lh) + 1 < 2 ^ 64"
    and ins: "OPENSSL_lh_insert malloc hash cmp lh d = (r, old, lh')"
  shows "case OPENSSL_lh_retrieve hash cmp lh d of
      Some e \<Rightarrow> r \<and> old = Some e \<and> lh_ok hash cmp lh' \<and> lh_elems lh' = add_mset d (lh_elems lh - {#e#}) \<and>
        num_buckets lh' = num_buckets lh
    | None \<Rightarrow> old = None \<and> (if r then lh_ok hash cmp lh' \<and> lh_elems lh' = add_mset d (lh_elems lh) \<and>
          (\<exists>l. lh_ok hash cmp l \<and> lh_elems l = add_mset d (lh_elems lh) \<and> num_buckets l = num_buckets lh \<and>
             callback_depth l = callback_depth lh \<and> lh' = lh_maybe_resize malloc l)
        else lh' = lh)"
proof -
  obtain b i h where p: "get_next_ptr_and_hash hash cmp lh d = ((b, i), h)" by (metis surj_pair)
  have bh: "b = bucket_of (hash d) (num_buckets lh)" "h = hash d" using p by (auto simp: get_next_ptr_and_hash_def Let_def)
  have blt: "b < length (buckets lh)" using bucket_elem(1) [OF ok, of d] bh by simp
  note inv = ok [unfolded lh_ok_def]
  have items: "\<forall>b<length (buckets lh). \<forall>x\<in>set (buckets lh ! b). item_ok hash (num_buckets lh) b x" using inv by blast
  show ?thesis
  proof (cases "deref lh (b, i)")
    case None
    then have none: "\<forall>e\<in>#lh_elems lh. cmp e d \<noteq> 0" using next_ptr_None [OF ok p] by simp
    then have ret: "OPENSSL_lh_retrieve hash cmp lh d = None"
      using lh_retrieve_iff [OF ok, of d] by (metis not_Some_eq)
    show ?thesis
    proof (cases "OPENSSL_malloc malloc sizeof_LHASH_ITEM")
      case None
      then show ?thesis using ins \<open>deref lh (b, i) = None\<close> ret by (auto simp: OPENSSL_lh_insert_def p)
    next
      case (Some _)
      define item where "item = \<lparr>item_data = d, item_hash = h\<rparr>"
      define l where "l = lh\<lparr>buckets := (buckets lh)[b := buckets lh ! b @ [item]], num_items := num_items lh + 1\<rparr>"
      have res: "r" "old = None" "lh' = lh_maybe_resize malloc l"
        using ins Some \<open>deref lh (b, i) = None\<close> by (auto simp: OPENSSL_lh_insert_def p l_def item_def Let_def)
      have "mset (concat (buckets l)) = add_mset item (mset (concat (buckets lh)))"
        using mset_concat_update [OF blt, of "buckets lh ! b @ [item]"] by (simp add: l_def)
      then have elems: "lh_elems l = add_mset d (lh_elems lh)"
        by (simp add: lh_elems_def item_def)
      have "\<forall>x\<in>set (buckets lh ! b @ [item]). item_ok hash (num_buckets lh) b x"
        using items blt bh item_ok_def [of hash "num_buckets lh" b item] by (auto simp: item_def)
      from buckets_update_all [OF items this]
      have "\<forall>b'<length (buckets l). \<forall>x\<in>set (buckets l ! b'). item_ok hash (num_buckets l) b' x" by (simp add: l_def)
      moreover have "unat (num_items l) = size (lh_elems l)"
        using inv fits elems by (simp add: l_def unat_word_ariths)
      ultimately have "lh_ok hash cmp l"
        using inv elems uniq_add [OF _ none] unfolding lh_ok_def by (simp add: l_def)
      moreover have "num_buckets l = num_buckets lh" "callback_depth l = callback_depth lh" by (simp_all add: l_def)
      ultimately show ?thesis
        using lh_maybe_resize_ok [of hash cmp l malloc] res elems ret by auto
    qed
  next
    case (Some x)
    note x = next_ptr_Some [OF ok p Some]
    define l where "l = lh\<lparr>buckets := (buckets lh)[b := (buckets lh ! b)[i := x\<lparr>item_data := d\<rparr>]]\<rparr>"
    have ret: "OPENSSL_lh_retrieve hash cmp lh d = Some (item_data x)" using lh_retrieve_iff [OF ok] x by simp
    have res: "r" "old = Some (item_data x)" "lh' = l"
      using ins Some by (auto simp: OPENSSL_lh_insert_def p l_def Let_def)
    have "add_mset x (mset (concat (buckets l))) = add_mset (x\<lparr>item_data := d\<rparr>) (mset (concat (buckets lh)))"
      using mset_concat_replace [OF blt x(4)] x(5) by (simp add: l_def)
    then have "image_mset item_data (add_mset x (mset (concat (buckets l)))) =
      image_mset item_data (add_mset (x\<lparr>item_data := d\<rparr>) (mset (concat (buckets lh))))" by simp
    then have "add_mset (item_data x) (lh_elems l) = add_mset d (lh_elems lh)"
      by (simp add: lh_elems_def)
    then have elems: "lh_elems l = add_mset d (lh_elems lh - {#item_data x#})"
      using x(1) by (metis add_mset_commute add_mset_remove_trivial insert_DiffM)
    have u: "uniq cmp (lh_elems lh)" using inv by simp
    have "uniq cmp (lh_elems l)"
      unfolding elems by (rule uniq_add [OF uniq_remove [OF u] uniq_none_equal [OF u x(1,2)]])
    moreover have "item_ok hash (num_buckets lh) b (x\<lparr>item_data := d\<rparr>)"
      using items x(3-5) cmp_hash [OF x(2)] item_ok_def [of hash "num_buckets lh" b] nth_mem [OF x(4)] by auto
    then have "\<forall>y\<in>set ((buckets lh ! b)[i := x\<lparr>item_data := d\<rparr>]). item_ok hash (num_buckets lh) b y"
      using items blt set_update_subset_insert [of "buckets lh ! b" i "x\<lparr>item_data := d\<rparr>"] by blast
    from buckets_update_all [OF items this]
    have "\<forall>b'<length (buckets l). \<forall>y\<in>set (buckets l ! b'). item_ok hash (num_buckets l) b' y" by (simp add: l_def)
    moreover have "size (lh_elems l) = size (lh_elems lh)"
      unfolding elems using x(1) by (metis size_Suc_Diff1 size_add_mset)
    ultimately have "lh_ok hash cmp l" using inv unfolding lh_ok_def by (simp add: l_def)
    then show ?thesis using res ret elems by (simp add: l_def)
  qed
qed

end

context lhash_callbacks
begin

lemma lh_delete_ok:
  assumes ok: "lh_ok hash cmp lh" and del: "OPENSSL_lh_delete malloc hash cmp lh d = (r, lh')"
  shows "r = OPENSSL_lh_retrieve hash cmp lh d \<and> lh_ok hash cmp lh' \<and>
    lh_elems lh' = (case r of None \<Rightarrow> lh_elems lh | Some e \<Rightarrow> lh_elems lh - {#e#})"
proof -
  obtain b i h where p: "get_next_ptr_and_hash hash cmp lh d = ((b, i), h)" by (metis surj_pair)
  have ret: "OPENSSL_lh_retrieve hash cmp lh d = map_option item_data (deref lh (b, i))"
    by (simp add: OPENSSL_lh_retrieve_def p)
  note inv = ok [unfolded lh_ok_def]
  have items: "\<forall>b<length (buckets lh). \<forall>x\<in>set (buckets lh ! b). item_ok hash (num_buckets lh) b x" using inv by blast
  show ?thesis
  proof (cases "deref lh (b, i)")
    case None
    then show ?thesis using del ok ret by (auto simp: OPENSSL_lh_delete_def p)
  next
    case (Some x)
    note x = next_ptr_Some [OF ok p Some]
    define c where "c = take i (buckets lh ! b) @ drop (Suc i) (buckets lh ! b)"
    define l where "l = lh\<lparr>buckets := (buckets lh)[b := c], num_items := num_items lh - 1\<rparr>"
    have res: "r = Some (item_data x)" "lh' = lh_maybe_resize malloc l"
      using del Some by (auto simp: OPENSSL_lh_delete_def p l_def c_def Let_def)
    have "add_mset x (mset (concat (buckets l))) = mset (concat (buckets lh))"
      using mset_concat_remove [OF x(3,4)] x(5) by (simp add: l_def c_def)
    then have "image_mset item_data (add_mset x (mset (concat (buckets l)))) = image_mset item_data (mset (concat (buckets lh)))"
      by simp
    then have add: "add_mset (item_data x) (lh_elems l) = lh_elems lh" by (simp add: lh_elems_def)
    then have elems: "lh_elems l = lh_elems lh - {#item_data x#}" by (metis add_mset_remove_trivial)
    have "set c \<subseteq> set (buckets lh ! b)"
      unfolding c_def using set_take_subset set_drop_subset by fastforce
    then have "\<forall>y\<in>set c. item_ok hash (num_buckets lh) b y" using items x(3) by blast
    from buckets_update_all [OF items this]
    have "\<forall>b'<length (buckets l). \<forall>y\<in>set (buckets l ! b'). item_ok hash (num_buckets l) b' y" by (simp add: l_def)
    moreover have "unat (num_items l) = size (lh_elems l)"
    proof -
      have "unat (num_items lh) = Suc (size (lh_elems l))" using inv add by (metis size_add_mset)
      then show ?thesis by (simp add: l_def unat_sub word_le_nat_alt)
    qed
    moreover have "uniq cmp (lh_elems l)" unfolding elems using inv by (intro uniq_remove) simp
    ultimately have "lh_ok hash cmp l" using inv unfolding lh_ok_def by (simp add: l_def)
    from lh_maybe_resize_ok [OF this, of malloc] show ?thesis using res ret Some elems by simp
  qed
qed

lemma lh_new_ok: "OPENSSL_lh_new malloc = Some lh \<Longrightarrow> lh_ok hash cmp lh \<and> lh_elems lh = {#}"
  by (auto simp: OPENSSL_lh_new_def lh_ok_def lh_elems_def kMinNumBuckets_def uniq_def concat_replicate_trivial
      split: option.splits)

end

lemma saturating_counter:
  fixes x :: u32
  defines "d \<equiv> (if x < - 1 then x + 1 else x)"
  shows "(if d < - 1 then d - 1 else d) = (if x \<ge> - 2 then - 1 else x)"
proof -
  have "unat (- 1 :: u32) = 4294967295" by (simp add: unsigned_minus_1_eq_mask mask_eq_exp_minus_1)
  then have "x \<ge> - 2 \<longleftrightarrow> x = - 2 \<or> x = - 1"
    using unat_less [of x] by (auto simp: word_le_nat_alt word_unat_eq_iff)
  moreover have "y < - 1 \<longleftrightarrow> y \<noteq> - 1" for y :: u32 by (simp add: word_order.not_eq_extremum)
  moreover have "x + 1 = - 1 \<longleftrightarrow> x = - 2" by (simp add: eq_diff_eq [symmetric])
  ultimately show ?thesis by (auto simp: d_def)
qed

lemma lh_doall_ok:
  assumes "lh_ok hash cmp lh" "OPENSSL_lh_doall_arg malloc lh func arg = (lh', arg')"
  shows "lh_ok hash cmp lh' \<and> lh_elems lh' = lh_elems lh \<and>
    arg' = fold func (map item_data (concat (buckets lh))) arg \<and>
    callback_depth lh' = (if callback_depth lh \<ge> - 2 then - 1 else callback_depth lh)"
proof -
  define depth where "depth = (if callback_depth lh < - 1 then callback_depth lh + 1 else callback_depth lh)"
  define depth' where "depth' = (if depth < - 1 then depth - 1 else depth)"
  define l where "l = lh\<lparr>callback_depth := depth'\<rparr>"
  have l: "lh_ok hash cmp l" "lh_elems l = lh_elems lh"
    using assms(1) by (simp_all add: lh_ok_def lh_elems_def l_def)
  have depth': "depth' = (if callback_depth lh \<ge> - 2 then - 1 else callback_depth lh)"
    unfolding depth'_def depth_def by (rule saturating_counter)
  have "lh' = lh_maybe_resize malloc l" "arg' = fold func (map item_data (concat (buckets lh))) arg"
    using assms(2) by (auto simp: OPENSSL_lh_doall_arg_def Let_def fold_fold fold_map l_def depth_def depth'_def comp_def)
  then show ?thesis using lh_maybe_resize_ok [OF l(1), of malloc] l(2) depth' by (simp add: l_def)
qed

subsection \<open>Lookup after insertion and deletion\<close>

lemma option_eqI: "(\<And>e. a = Some e \<longleftrightarrow> b = Some e) \<Longrightarrow> a = b"
  by (cases a; cases b) auto

context lhash_callbacks
begin

lemma retrieve_after_insert:
  assumes ok: "lh_ok hash cmp lh" and ok': "lh_ok hash cmp lh'"
    and elems: "lh_elems lh' = add_mset d (case OPENSSL_lh_retrieve hash cmp lh d of
      None \<Rightarrow> lh_elems lh | Some e \<Rightarrow> lh_elems lh - {#e#})"
  shows "OPENSSL_lh_retrieve hash cmp lh' x = (if cmp d x = 0 then Some d else OPENSSL_lh_retrieve hash cmp lh x)"
proof (cases "cmp d x = 0")
  case True
  then have "OPENSSL_lh_retrieve hash cmp lh' x = Some d"
    using lh_retrieve_iff [OF ok'] elems by simp
  then show ?thesis using True by simp
next
  case False
  have "e \<in># lh_elems lh' \<and> cmp e x = 0 \<longleftrightarrow> e \<in># lh_elems lh \<and> cmp e x = 0" for e
  proof (cases "OPENSSL_lh_retrieve hash cmp lh d")
    case None
    then show ?thesis using elems False by auto
  next
    case (Some e')
    then have e': "e' \<in># lh_elems lh" "cmp e' d = 0" using lh_retrieve_iff [OF ok] by auto
    have "cmp e' x \<noteq> 0" using False cmp_trans [OF cmp_sym [OF e'(2)]] by blast
    then have "e \<in># lh_elems lh - {#e'#} \<longleftrightarrow> e \<in># lh_elems lh" if "cmp e x = 0"
      using that by (auto simp: in_diff_count)
    then show ?thesis using elems Some False by auto
  qed
  then have "OPENSSL_lh_retrieve hash cmp lh' x = Some e \<longleftrightarrow> OPENSSL_lh_retrieve hash cmp lh x = Some e" for e
    using lh_retrieve_iff [OF ok] lh_retrieve_iff [OF ok'] by simp
  then have "OPENSSL_lh_retrieve hash cmp lh' x = OPENSSL_lh_retrieve hash cmp lh x" by (rule option_eqI)
  then show ?thesis using False by simp
qed

lemma retrieve_after_delete:
  assumes ok: "lh_ok hash cmp lh" and ok': "lh_ok hash cmp lh'"
    and elems: "lh_elems lh' = (case OPENSSL_lh_retrieve hash cmp lh d of
      None \<Rightarrow> lh_elems lh | Some e \<Rightarrow> lh_elems lh - {#e#})"
  shows "OPENSSL_lh_retrieve hash cmp lh' x = (if cmp d x = 0 then None else OPENSSL_lh_retrieve hash cmp lh x)"
proof -
  have "e \<in># lh_elems lh' \<and> cmp e x = 0 \<longleftrightarrow> cmp d x \<noteq> 0 \<and> e \<in># lh_elems lh \<and> cmp e x = 0" for e
  proof (cases "OPENSSL_lh_retrieve hash cmp lh d")
    case None
    then have "\<not> (e \<in># lh_elems lh \<and> cmp e d = 0)" using lh_retrieve_iff [OF ok, of d e] by simp
    then have "\<not> (cmp d x = 0 \<and> e \<in># lh_elems lh \<and> cmp e x = 0)"
      using cmp_trans [of e x d] cmp_sym [of d x] by blast
    then show ?thesis using elems None by auto
  next
    case (Some e')
    then have e': "e' \<in># lh_elems lh" "cmp e' d = 0" using lh_retrieve_iff [OF ok] by auto
    have u: "uniq cmp (lh_elems lh)" using ok by (simp add: lh_ok_def)
    show ?thesis
    proof (cases "cmp d x = 0")
      case True
      then have "cmp e' x = 0" by (rule cmp_trans [OF e'(2)])
      then have "\<forall>e\<in>#lh_elems lh - {#e'#}. cmp e x \<noteq> 0" using uniq_none_equal [OF u e'(1)] by blast
      then show ?thesis using elems Some True by auto
    next
      case False
      then have "cmp e' x \<noteq> 0" using cmp_trans [OF cmp_sym [OF e'(2)]] by blast
      then have "e \<in># lh_elems lh - {#e'#} \<longleftrightarrow> e \<in># lh_elems lh" if "cmp e x = 0"
        using that by (auto simp: in_diff_count)
      then show ?thesis using elems Some False by auto
    qed
  qed
  then have "OPENSSL_lh_retrieve hash cmp lh' x = Some e \<longleftrightarrow>
    (if cmp d x = 0 then None else OPENSSL_lh_retrieve hash cmp lh x) = Some e" for e
    using lh_retrieve_iff [OF ok] lh_retrieve_iff [OF ok'] by simp
  then show ?thesis by (rule option_eqI)
qed

lemma lh_insert_retrieve:
  assumes "lh_ok hash cmp lh" "size (lh_elems lh) + 1 < 2 ^ 64" "OPENSSL_lh_insert malloc hash cmp lh d = (r, old, lh')"
  shows "lh_ok hash cmp lh' \<and> old = OPENSSL_lh_retrieve hash cmp lh d \<and> (\<not> r \<longrightarrow> old = None \<and> lh' = lh) \<and>
    OPENSSL_lh_retrieve hash cmp lh' x = (if r \<and> cmp d x = 0 then Some d else OPENSSL_lh_retrieve hash cmp lh x)"
proof (cases r)
  case True
  then have "lh_ok hash cmp lh'" "old = OPENSSL_lh_retrieve hash cmp lh d"
    and elems: "lh_elems lh' = add_mset d (case OPENSSL_lh_retrieve hash cmp lh d of
      None \<Rightarrow> lh_elems lh | Some e \<Rightarrow> lh_elems lh - {#e#})"
    using lh_insert_ok [OF assms] by (simp_all split: option.splits)
  then show ?thesis using retrieve_after_insert [OF assms(1) _ elems] True by simp
next
  case False
  then show ?thesis using lh_insert_ok [OF assms] assms(1) by (auto split: option.splits)
qed

lemma lh_delete_retrieve:
  assumes "lh_ok hash cmp lh" "OPENSSL_lh_delete malloc hash cmp lh d = (r, lh')"
  shows "lh_ok hash cmp lh' \<and> r = OPENSSL_lh_retrieve hash cmp lh d \<and>
    OPENSSL_lh_retrieve hash cmp lh' x = (if cmp d x = 0 then None else OPENSSL_lh_retrieve hash cmp lh x)"
  using lh_delete_ok [OF assms] retrieve_after_delete [OF assms(1), of lh' d x] by simp

end

subsection \<open>The load of the table\<close>

lemma lh_rebucket_num:
  assumes "8 * unat n < 2 ^ 64" "OPENSSL_zalloc malloc (8 * n) \<noteq> None"
  shows "num_buckets (lh_rebucket malloc lh n) = n"
proof -
  have "unat (8 * n) = 8 * unat n" using assms(1) by (simp add: unat_word_ariths)
  then have "8 * n div 8 = n" by (simp add: word_unat_eq_iff unat_div)
  then show ?thesis using assms(2) by (auto simp: lh_rebucket_def Let_def)
qed

definition can_allocate :: "(u64 \<Rightarrow> bytes option) \<Rightarrow> nat \<Rightarrow> bool" where
  "can_allocate malloc limit \<longleftrightarrow> (\<forall>n. unat n \<le> limit \<longrightarrow> OPENSSL_malloc malloc n \<noteq> None)"

lemma zalloc_can_allocate: "can_allocate malloc limit \<Longrightarrow> unat n \<le> limit \<Longrightarrow> OPENSSL_zalloc malloc n \<noteq> None"
  by (auto simp: can_allocate_def OPENSSL_zalloc_def split: option.splits)

lemma lh_maybe_resize_load:
  assumes ok: "lh_ok hash cmp lh" and depth: "callback_depth lh = 0"
    and load: "size (lh_elems lh) \<le> 3 * unat (num_buckets lh)"
    and nb: "16 * unat (num_buckets lh) < 2 ^ 64" and alloc: "can_allocate malloc (16 * unat (num_buckets lh))"
  shows "size (lh_elems lh) < 3 * unat (num_buckets (lh_maybe_resize malloc lh))"
proof -
  define n k where "n = unat (num_buckets lh)" and "k = size (lh_elems lh)"
  have n: "16 \<le> n" using ok by (simp add: lh_ok_def n_def kMinNumBuckets_def word_le_nat_alt)
  have k: "unat (num_items lh) = k" using ok by (simp add: lh_ok_def k_def)
  have avg: "unat (num_items lh div num_buckets lh) = k div n" by (simp add: unat_div n_def k)
  have dbl: "unat (num_buckets lh * 2) = 2 * n" using nb by (simp add: unat_word_ariths n_def)
  consider (grow) "k div n > 2" | (shrink) "k div n < 1" "n > 16" | (keep) "k div n \<le> 2" "k div n \<ge> 1 \<or> n \<le> 16"
    by linarith
  then show ?thesis
  proof cases
    case grow
    have "num_buckets (lh_rebucket malloc lh (num_buckets lh * 2)) = num_buckets lh * 2"
    proof (rule lh_rebucket_num)
      show "8 * unat (num_buckets lh * 2) < 2 ^ 64" using nb by (simp add: dbl n_def)
      have "unat (8 * (num_buckets lh * 2)) = 16 * n" using nb by (simp add: unat_word_ariths n_def)
      then show "OPENSSL_zalloc malloc (8 * (num_buckets lh * 2)) \<noteq> None"
        by (intro zalloc_can_allocate [OF alloc]) (simp add: n_def)
    qed
    moreover have "lh_maybe_resize malloc lh = lh_rebucket malloc lh (num_buckets lh * 2)"
      using grow depth n dbl avg
      by (simp add: lh_maybe_resize_def Let_def kMaxAverageChainLength_def word_less_nat_alt n_def [symmetric])
    ultimately show ?thesis using load dbl n by (simp add: n_def [symmetric] k_def [symmetric])
  next
    case shrink
    define m where "m = (if num_buckets lh div 2 < kMinNumBuckets then kMinNumBuckets else num_buckets lh div 2)"
    have m: "unat m = (if n div 2 < 16 then 16 else n div 2)"
      by (simp add: m_def kMinNumBuckets_def word_less_nat_alt unat_div n_def)
    have "num_buckets (lh_rebucket malloc lh m) = m"
    proof (rule lh_rebucket_num)
      show m8: "8 * unat m < 2 ^ 64" using nb m n by (simp add: n_def [symmetric] split: if_splits)
      then have "unat (8 * m) = 8 * unat m" by (simp add: unat_word_ariths)
      then show "OPENSSL_zalloc malloc (8 * m) \<noteq> None"
        using m n by (intro zalloc_can_allocate [OF alloc]) (auto simp: n_def [symmetric])
    qed
    moreover have "lh_maybe_resize malloc lh = lh_rebucket malloc lh m"
      using shrink depth avg
      by (simp add: lh_maybe_resize_def Let_def kMaxAverageChainLength_def kMinAverageChainLength_def kMinNumBuckets_def
          word_less_nat_alt n_def [symmetric] m_def)
    moreover have "k < n" using shrink(1) n div_less_iff_less_mult [of n k 1] by simp
    ultimately show ?thesis using m n by (auto simp: k_def [symmetric])
  next
    case keep
    then have "lh_maybe_resize malloc lh = lh"
      using depth avg by (auto simp: lh_maybe_resize_def Let_def kMaxAverageChainLength_def kMinAverageChainLength_def
          kMinNumBuckets_def word_less_nat_alt n_def [symmetric])
    moreover have "k < 3 * n" using keep(1) n div_less_iff_less_mult [of n k 3] by simp
    ultimately show ?thesis by (simp add: n_def k_def)
  qed
qed

lemma lh_insert_load:
  assumes cb: "lhash_callbacks hash cmp" and ok: "lh_ok hash cmp lh" and depth: "callback_depth lh = 0"
    and load: "size (lh_elems lh) < 3 * unat (num_buckets lh)"
    and nb: "16 * unat (num_buckets lh) < 2 ^ 64" and alloc: "can_allocate malloc (16 * unat (num_buckets lh))"
    and ins: "OPENSSL_lh_insert malloc hash cmp lh d = (r, old, lh')"
  shows "size (lh_elems lh') < 3 * unat (num_buckets lh')"
proof -
  have "unat (num_buckets lh) < 2 ^ 60" using nb by simp
  then have fits: "size (lh_elems lh) + 1 < 2 ^ 64" using load by simp
  note cases = lhash_callbacks.lh_insert_ok [OF cb ok fits ins]
  show ?thesis
  proof (cases "OPENSSL_lh_retrieve hash cmp lh d")
    case (Some e)
    then have "e \<in># lh_elems lh" using lhash_callbacks.lh_retrieve_iff [OF cb ok] by blast
    then have "size (add_mset d (lh_elems lh - {#e#})) = size (lh_elems lh)"
      by (metis size_Suc_Diff1 size_add_mset)
    then show ?thesis using cases Some load by simp
  next
    case None
    show ?thesis
    proof (cases r)
      case True
      then obtain l where l: "lh_ok hash cmp l" "lh_elems l = add_mset d (lh_elems lh)" "num_buckets l = num_buckets lh"
        "callback_depth l = callback_depth lh" "lh' = lh_maybe_resize malloc l"
        using cases None by auto
      then have "size (lh_elems l) < 3 * unat (num_buckets lh')"
        using lh_maybe_resize_load [OF l(1), of malloc] depth load nb alloc by simp
      then show ?thesis using lh_maybe_resize_ok [OF l(1), of malloc] l(5) by simp
    qed (use cases None load in simp)
  qed
qed

text \<open>C25: \<open>OPENSSL_lh_insert\<close>, \<open>OPENSSL_lh_delete\<close> and \<open>OPENSSL_lh_retrieve\<close> implement a map: for callbacks that
  compare by an equivalence and hash equal elements alike, an insertion returns the element it replaces
  and makes a lookup of any equal key return the new element, a deletion returns the deleted element
  and makes such a lookup fail, no other lookup changes, the invariant of the table (every item in the
  bucket of its hash, no two equal items, exact item count) is kept across resizing, and a failed
  insertion changes nothing.\<close>

theorem OPENSSL_lh_map:
  assumes "lhash_callbacks hash cmp" "lh_ok hash cmp lh" "unat (OPENSSL_lh_num_items lh) + 1 < 2 ^ 64"
  shows "(case OPENSSL_lh_insert malloc hash cmp lh d of (r, old, lh') \<Rightarrow>
      lh_ok hash cmp lh' \<and> old = OPENSSL_lh_retrieve hash cmp lh d \<and> (\<not> r \<longrightarrow> old = None \<and> lh' = lh) \<and>
      OPENSSL_lh_retrieve hash cmp lh' x = (if r \<and> cmp d x = 0 then Some d else OPENSSL_lh_retrieve hash cmp lh x)) \<and>
    (case OPENSSL_lh_delete malloc hash cmp lh d of (r, lh') \<Rightarrow>
      lh_ok hash cmp lh' \<and> r = OPENSSL_lh_retrieve hash cmp lh d \<and>
      OPENSSL_lh_retrieve hash cmp lh' x = (if cmp d x = 0 then None else OPENSSL_lh_retrieve hash cmp lh x))"
proof -
  have "size (lh_elems lh) + 1 < 2 ^ 64"
    using assms(2,3) by (simp add: lh_ok_def OPENSSL_lh_num_items_def)
  note insert = lhash_callbacks.lh_insert_retrieve [OF assms(1,2) this, of malloc d]
  obtain r old lh' where i: "OPENSSL_lh_insert malloc hash cmp lh d = (r, old, lh')" by (metis prod_cases3)
  obtain r2 lh2 where d: "OPENSSL_lh_delete malloc hash cmp lh d = (r2, lh2)" by fastforce
  show ?thesis
    unfolding i d prod.case using insert [OF i] lhash_callbacks.lh_delete_retrieve [OF assms(1,2) d] by blast
qed

end
