(* ===== verification/SipHash.thy ===== *)
theory SipHash
  imports Internal
begin

text \<open>
  SipHash-2-4, \<open>crypto/siphash/siphash.cc\<close>. The state \<open>v[4]\<close> is a tuple; the main loop consumes the input
  in words of eight bytes.
\<close>

unbundle bit_operations_syntax

type_synonym sip_state = "u64 \<times> u64 \<times> u64 \<times> u64"

definition siphash_round :: "sip_state \<Rightarrow> sip_state" where
  "siphash_round v = (case v of (v0, v1, v2, v3) \<Rightarrow>
     let v0 = v0 + v1;
         v2 = v2 + v3;
         v1 = CRYPTO_rotl_u64 v1 13;
         v3 = CRYPTO_rotl_u64 v3 16;
         v1 = v1 XOR v0;
         v3 = v3 XOR v2;
         v0 = CRYPTO_rotl_u64 v0 32;
         v2 = v2 + v1;
         v0 = v0 + v3;
         v1 = CRYPTO_rotl_u64 v1 17;
         v3 = CRYPTO_rotl_u64 v3 21;
         v1 = v1 XOR v2;
         v3 = v3 XOR v0;
         v2 = CRYPTO_rotl_u64 v2 32
     in (v0, v1, v2, v3))"

text \<open>The steps that absorb the word \<open>m\<close>.\<close>

definition siphash_absorb :: "u64 \<Rightarrow> sip_state \<Rightarrow> sip_state" where
  "siphash_absorb m v = (case v of (v0, v1, v2, v3) \<Rightarrow>
     (case siphash_round (siphash_round (v0, v1, v2, v3 XOR m)) of (v0, v1, v2, v3) \<Rightarrow> (v0 XOR m, v1, v2, v3)))"

function siphash_loop :: "sip_state \<Rightarrow> bytes \<Rightarrow> sip_state \<times> bytes" where
  "siphash_loop v inp =
     (if length inp \<ge> 8 then siphash_loop (siphash_absorb (CRYPTO_load_u64_le inp) v) (drop 8 inp) else (v, inp))"
  by pat_completeness auto
termination
  by (relation "measure (\<lambda>(v, inp). length inp)") auto

declare siphash_loop.simps [simp del]

definition SIPHASH_24 :: "u64 \<times> u64 \<Rightarrow> bytes \<Rightarrow> u64" where
  "SIPHASH_24 key inp =
     (let v = (fst key XOR 0x736f6d6570736575, snd key XOR 0x646f72616e646f6d,
               fst key XOR 0x6c7967656e657261, snd key XOR 0x7465646279746573);
          (v, rest) = siphash_loop v inp;
          last_block = (rest @ replicate (8 - length rest) 0)[7 := word_of_nat (length inp) AND 0xff];
          (v0, v1, v2, v3) = siphash_absorb (CRYPTO_load_u64_le last_block) v;
          (v0, v1, v2, v3) =
            siphash_round (siphash_round (siphash_round (siphash_round (v0, v1, v2 XOR 0xff, v3))))
      in v0 XOR v1 XOR v2 XOR v3)"

end
