(* ===== verification/Refcount.thy ===== *)
theory Refcount
  imports Prelude
begin

text \<open>
  Saturating reference counts, \<open>crypto/refcount.cc\<close>. \<open>rc_atomic\<close> is what one call does when nothing
  interferes with it: the specification. The program itself is a compare-and-exchange loop; \<open>rc_step\<close>
  executes one atomic access of one call, any number of calls run on the same counter, and
  \<open>rc_exec\<close> runs a schedule that interleaves them. A weak compare-and-exchange may fail spuriously,
  which the schedule decides.
\<close>

definition CRYPTO_REFCOUNT_MAX :: u32 where
  "CRYPTO_REFCOUNT_MAX = 0xffffffff"

subsection \<open>The calls without interference\<close>

definition CRYPTO_refcount_inc :: "u32 \<Rightarrow> u32" where
  "CRYPTO_refcount_inc count = (if count \<noteq> CRYPTO_REFCOUNT_MAX then count + 1 else count)"

text \<open>\<open>None\<close> is \<open>abort()\<close>.\<close>

definition CRYPTO_refcount_dec_and_test_zero :: "u32 \<Rightarrow> (u32 \<times> bool) option" where
  "CRYPTO_refcount_dec_and_test_zero count =
     (if count = 0 then None
      else if count = CRYPTO_REFCOUNT_MAX then Some (count, False)
      else let new_value = count - 1 in Some (new_value, new_value = 0))"

subsection \<open>The compare-and-exchange loops\<close>

datatype rc_op = Inc | DecAndTestZero

datatype rc_result = RcVoid | RcBool bool | RcAbort

text \<open>Where a call is: before its first load, about to exchange an expected value, or returned.\<close>

datatype rc_pc = Load | Exchange u32 | Done rc_result

text \<open>The branch a call takes on the value it has just read.\<close>

fun rc_branch :: "rc_op \<Rightarrow> u32 \<Rightarrow> rc_pc" where
  "rc_branch Inc expected = (if expected \<noteq> CRYPTO_REFCOUNT_MAX then Exchange expected else Done RcVoid)"
| "rc_branch DecAndTestZero expected =
     (if expected = 0 then Done RcAbort
      else if expected = CRYPTO_REFCOUNT_MAX then Done (RcBool False)
      else Exchange expected)"

text \<open>The value a call exchanges for \<open>expected\<close> and what it returns then.\<close>

fun rc_exchange :: "rc_op \<Rightarrow> u32 \<Rightarrow> u32 \<times> rc_result" where
  "rc_exchange Inc expected = (let new_value = expected + 1 in (new_value, RcVoid))"
| "rc_exchange DecAndTestZero expected = (let new_value = expected - 1 in (new_value, RcBool (new_value = 0)))"

text \<open>
  The counter, the calls by their numbers, and the history of the calls that have taken effect, oldest
  first. The history is not part of the program.
\<close>

record rc_state =
  rc_count :: u32
  rc_calls :: "nat \<Rightarrow> (rc_op \<times> rc_pc) option"
  rc_history :: "(nat \<times> rc_op \<times> rc_result) list"

definition rc_read :: "nat \<Rightarrow> rc_op \<Rightarrow> rc_state \<Rightarrow> rc_state" where
  "rc_read t op s =
     (let pc = rc_branch op (rc_count s); s = s\<lparr>rc_calls := (rc_calls s)(t \<mapsto> (op, pc))\<rparr>
      in case pc of Done r \<Rightarrow> s\<lparr>rc_history := rc_history s @ [(t, op, r)]\<rparr> | _ \<Rightarrow> s)"

definition rc_step :: "nat \<times> bool \<Rightarrow> rc_state \<Rightarrow> rc_state" where
  "rc_step ch s =
     (case ch of (t, spurious) \<Rightarrow>
       (case rc_calls s t of
          Some (op, Load) \<Rightarrow> rc_read t op s
        | Some (op, Exchange expected) \<Rightarrow>
            if rc_count s = expected \<and> \<not> spurious then
              (case rc_exchange op expected of (new_value, r) \<Rightarrow>
                s\<lparr>rc_count := new_value, rc_calls := (rc_calls s)(t \<mapsto> (op, Done r)),
                  rc_history := rc_history s @ [(t, op, r)]\<rparr>)
            else rc_read t op s
        | _ \<Rightarrow> s))"

definition rc_exec :: "(nat \<times> bool) list \<Rightarrow> rc_state \<Rightarrow> rc_state" where
  "rc_exec schedule s = fold rc_step schedule s"

definition rc_init :: "u32 \<Rightarrow> (nat \<Rightarrow> rc_op option) \<Rightarrow> rc_state" where
  "rc_init count ops = \<lparr>rc_count = count, rc_calls = (\<lambda>t. map_option (\<lambda>op. (op, Load)) (ops t)), rc_history = []\<rparr>"

subsection \<open>Linearizability\<close>

fun rc_atomic :: "rc_op \<Rightarrow> u32 \<Rightarrow> u32 \<times> rc_result" where
  "rc_atomic Inc count = (CRYPTO_refcount_inc count, RcVoid)"
| "rc_atomic DecAndTestZero count =
     (case CRYPTO_refcount_dec_and_test_zero count of
        None \<Rightarrow> (count, RcAbort)
      | Some (count', r) \<Rightarrow> (count', RcBool r))"

text \<open>The calls of a history, executed one after the other from \<open>c\<close>, return what it says and leave \<open>c'\<close>.\<close>

fun rc_replay :: "u32 \<Rightarrow> (nat \<times> rc_op \<times> rc_result) list \<Rightarrow> u32 \<Rightarrow> bool" where
  "rc_replay c [] c' \<longleftrightarrow> c = c'"
| "rc_replay c ((_, op, r) # h) c' \<longleftrightarrow> (case rc_atomic op c of (c1, r1) \<Rightarrow> r1 = r \<and> rc_replay c1 h c')"

lemma rc_replay_append: "rc_replay c (h @ [(t, op, r)]) c' \<longleftrightarrow> (\<exists>c1. rc_replay c h c1 \<and> rc_atomic op c1 = (c', r))"
  by (induction c h c' rule: rc_replay.induct) (auto split: prod.splits)

lemma rc_branch_Done: "rc_branch op c = Done r \<Longrightarrow> rc_atomic op c = (c, r)"
  by (cases op) (auto simp: CRYPTO_refcount_inc_def CRYPTO_refcount_dec_and_test_zero_def split: if_splits)

lemma rc_branch_Exchange: "rc_branch op c = Exchange e \<Longrightarrow> e = c \<and> rc_atomic op c = rc_exchange op c"
  by (cases op) (auto simp: CRYPTO_refcount_inc_def CRYPTO_refcount_dec_and_test_zero_def Let_def split: if_splits)

lemma rc_branch_not_Load: "rc_branch op c \<noteq> Load"
  by (cases op) auto

definition rc_inv :: "u32 \<Rightarrow> rc_state \<Rightarrow> bool" where
  "rc_inv c s \<longleftrightarrow>
     rc_replay c (rc_history s) (rc_count s) \<and> distinct (map fst (rc_history s)) \<and>
     (\<forall>t op r. (t, op, r) \<in> set (rc_history s) \<longleftrightarrow> rc_calls s t = Some (op, Done r)) \<and>
     (\<forall>t op e. rc_calls s t = Some (op, Exchange e) \<longrightarrow> rc_branch op e = Exchange e)"

lemma rc_inv_init: "rc_inv c (rc_init c ops)"
  by (auto simp: rc_inv_def rc_init_def)

text \<open>A call that takes effect now, with the counter and result of the atomic call.\<close>

lemma rc_inv_effect:
  assumes inv: "rc_inv c s" and call: "rc_calls s t = Some (op, pc)" "\<forall>r. pc \<noteq> Done r"
    and eff: "rc_atomic op (rc_count s) = (c', r)"
  shows "rc_inv c (s\<lparr>rc_count := c', rc_calls := (rc_calls s)(t \<mapsto> (op, Done r)),
                      rc_history := rc_history s @ [(t, op, r)]\<rparr>)"
proof -
  have "\<forall>op' r'. (t, op', r') \<notin> set (rc_history s)"
    using inv call by (auto simp: rc_inv_def)
  moreover have "rc_replay c (rc_history s @ [(t, op, r)]) c'"
    using inv eff by (auto simp: rc_replay_append rc_inv_def)
  ultimately show ?thesis
    using inv by (force simp: rc_inv_def)
qed

lemma rc_inv_read:
  assumes inv: "rc_inv c s" and call: "rc_calls s t = Some (op, pc)" "\<forall>r. pc \<noteq> Done r"
  shows "rc_inv c (rc_read t op s)"
proof (cases "rc_branch op (rc_count s)")
  case (Done r)
  then show ?thesis
    using rc_inv_effect [OF inv call rc_branch_Done [OF Done]] by (simp add: rc_read_def)
next
  case (Exchange e)
  then show ?thesis
    using inv call rc_branch_Exchange [OF Exchange] by (auto simp: rc_read_def rc_inv_def)
qed (simp add: rc_branch_not_Load)

lemma rc_inv_step:
  assumes inv: "rc_inv c s"
  shows "rc_inv c (rc_step ch s)"
proof -
  obtain t sp where ch: "ch = (t, sp)"
    by (cases ch)
  show ?thesis
  proof (cases "rc_calls s t")
    case (Some call)
    then obtain op pc where call: "rc_calls s t = Some (op, pc)"
      by (cases call) auto
    show ?thesis
    proof (cases pc)
      case (Exchange e)
      then have "rc_branch op e = Exchange e"
        using inv call by (auto simp: rc_inv_def)
      then show ?thesis
        using rc_branch_Exchange [of op e e] rc_inv_effect [OF inv call] rc_inv_read [OF inv call] Exchange
        by (auto simp: rc_step_def ch call split: prod.split)
    qed (use inv rc_inv_read [OF inv call] in \<open>auto simp: rc_step_def ch call\<close>)
  qed (simp add: rc_step_def ch inv)
qed

lemma rc_inv_exec: "rc_inv c s \<Longrightarrow> rc_inv c (rc_exec schedule s)"
  unfolding rc_exec_def by (induction schedule arbitrary: s) (auto intro: rc_inv_step)

lemma rc_step_ops: "map_option fst (rc_calls (rc_step ch s) t) = map_option fst (rc_calls s t)"
  by (auto simp: rc_step_def rc_read_def Let_def split: prod.split option.split rc_pc.split)

lemma rc_exec_ops: "map_option fst (rc_calls (rc_exec schedule s) t) = map_option fst (rc_calls s t)"
  unfolding rc_exec_def by (induction schedule arbitrary: s) (auto simp: rc_step_ops)

lemma rc_init_ops: "map_option fst (rc_calls (rc_init c ops) t) = ops t"
  by (cases "ops t") (auto simp: rc_init_def)

text \<open>C26: whatever the interleaving of the calls and whichever exchanges fail spuriously, the counter and every result
  are those of executing the calls one after the other, atomically, in the order in which they took
  effect: the history replays from the initial count to the current one, holds each returned call once
  with its operation and result, and holds no other call.\<close>

theorem CRYPTO_refcount_linearizable:
  "rc_replay c (rc_history (rc_exec schedule (rc_init c ops))) (rc_count (rc_exec schedule (rc_init c ops))) \<and>
   distinct (map fst (rc_history (rc_exec schedule (rc_init c ops)))) \<and>
   ((t, op, r) \<in> set (rc_history (rc_exec schedule (rc_init c ops))) \<longleftrightarrow>
      rc_calls (rc_exec schedule (rc_init c ops)) t = Some (op, Done r)) \<and>
   map_option fst (rc_calls (rc_exec schedule (rc_init c ops)) t) = ops t"
  using rc_inv_exec [OF rc_inv_init, of c schedule ops] by (auto simp: rc_inv_def rc_exec_ops rc_init_ops)

subsection \<open>Progress\<close>

text \<open>
  \<open>k\<close> is how often \<open>t\<close> has run without a spurious failure. Each failed exchange is paid for by a call that
  took effect in between.
\<close>

definition rc_progress :: "nat \<Rightarrow> nat \<Rightarrow> rc_state \<Rightarrow> bool" where
  "rc_progress t k s \<longleftrightarrow>
     (case rc_calls s t of
        Some (_, Load) \<Rightarrow> k = 0
      | Some (_, Exchange e) \<Rightarrow> k + of_bool (e \<noteq> rc_count s) \<le> length (rc_history s) + 1
      | _ \<Rightarrow> True)"

lemma rc_step_other:
  assumes "fst ch \<noteq> t"
  shows "rc_calls (rc_step ch s) t = rc_calls s t"
    and "rc_step ch s = s \<or> length (rc_history s) \<le> length (rc_history (rc_step ch s)) \<and>
      (rc_count (rc_step ch s) \<noteq> rc_count s \<longrightarrow> length (rc_history s) < length (rc_history (rc_step ch s)))"
  using assms by (auto simp: rc_step_def rc_read_def Let_def split: prod.split option.split rc_pc.split)

lemma rc_progress_other:
  assumes "rc_progress t k s" "fst ch \<noteq> t"
  shows "rc_progress t k (rc_step ch s)"
  using assms(1) rc_step_other [OF assms(2), of s]
  by (auto simp: rc_progress_def of_bool_def split: option.splits rc_pc.splits if_splits)

lemma rc_progress_own:
  assumes "rc_progress t k s"
  shows "rc_progress t (k + of_bool (\<not> spurious)) (rc_step (t, spurious) s)"
  using assms rc_branch_not_Load rc_branch_Exchange
  by (auto simp: rc_progress_def rc_step_def rc_read_def Let_def of_bool_def
      split: option.splits rc_pc.splits if_splits prod.splits)

lemma rc_progress_exec:
  "rc_progress t k s \<Longrightarrow> rc_progress t (k + count_list schedule (t, False)) (rc_exec schedule s)"
proof (induction schedule arbitrary: k s)
  case (Cons ch schedule)
  obtain u spurious where ch: "ch = (u, spurious)"
    by (cases ch)
  have "rc_progress t (k + of_bool (ch = (t, False))) (rc_step ch s)"
    using Cons.prems rc_progress_own [of t k s spurious] rc_progress_other [of t k s ch] by (cases "u = t") (auto simp: ch)
  from Cons.IH [OF this] show ?case
    by (auto simp: rc_exec_def of_bool_def split: if_splits)
qed (simp add: rc_exec_def)

lemma rc_history_short:
  assumes fin: "finite (dom ops)" and op: "ops t = Some op" and pending: "rc_calls s t = Some (op, pc)" "\<forall>r. pc \<noteq> Done r"
    and inv: "rc_inv c s" and ops: "\<And>t. map_option fst (rc_calls s t) = ops t"
  shows "length (rc_history s) < card (dom ops)"
proof -
  have "set (map fst (rc_history s)) \<subseteq> dom ops - {t}"
  proof
    fix u
    assume "u \<in> set (map fst (rc_history s))"
    then obtain op' r where "rc_calls s u = Some (op', Done r)"
      using inv by (auto simp: rc_inv_def)
    then show "u \<in> dom ops - {t}"
      using pending ops [of u, symmetric] by auto
  qed
  then have "card (set (map fst (rc_history s))) \<le> card (dom ops - {t})"
    using fin by (intro card_mono) auto
  moreover have "card (set (map fst (rc_history s))) = length (rc_history s)"
    using inv by (metis rc_inv_def distinct_card length_map)
  moreover have "card (dom ops - {t}) < card (dom ops)"
    using fin op by (intro psubset_card_mono) auto
  ultimately show ?thesis
    by simp
qed

text \<open>C27: a call returns after at most one more of its own steps than there are calls, however the other calls are
  scheduled, not counting its spurious failures.\<close>

theorem CRYPTO_refcount_returns:
  assumes fin: "finite (dom ops)" and op: "ops t = Some op" and runs: "card (dom ops) < count_list schedule (t, False)"
  shows "\<exists>r. rc_calls (rc_exec schedule (rc_init c ops)) t = Some (op, Done r)"
proof (rule ccontr)
  let ?s = "rc_exec schedule (rc_init c ops)"
  assume *: "\<nexists>r. rc_calls ?s t = Some (op, Done r)"
  have ops: "\<And>t. map_option fst (rc_calls ?s t) = ops t"
    by (simp add: rc_exec_ops rc_init_ops)
  then obtain pc where pc: "rc_calls ?s t = Some (op, pc)"
    using op by (metis (no_types, lifting) map_option_eq_Some prod.collapse)
  then have pending: "\<forall>r. pc \<noteq> Done r"
    using * by auto
  have "rc_progress t 0 (rc_init c ops)"
    by (simp add: rc_progress_def rc_init_def op)
  from rc_progress_exec [OF this, of schedule]
  have "rc_progress t (count_list schedule (t, False)) ?s"
    by simp
  moreover have "length (rc_history ?s) < card (dom ops)"
    using rc_history_short [OF fin op pc pending rc_inv_exec [OF rc_inv_init] ops] .
  ultimately show False
    using runs pending by (cases pc) (auto simp: rc_progress_def pc)
qed

theorem CRYPTO_refcount_returns_witness:
  "\<exists>r. rc_calls (rc_exec [(0, False), (1, False), (0, True), (1, False), (0, False), (0, False)]
          (rc_init 1 [0 \<mapsto> DecAndTestZero, 1 \<mapsto> Inc])) 0 = Some (DecAndTestZero, Done r)"
  by (rule CRYPTO_refcount_returns) simp_all

end
