(* ===== verification/Pool.thy ===== *)
theory Pool
  imports Lhash SipHash Refcount
begin

text \<open>
  Reference-counted, deduplicated buffers, \<open>crypto/pool/pool.cc\<close>. A buffer lives in a heap of its own, addressed
  by pointers; one pool is modelled and \<open>buf_pool\<close> says whether a buffer belongs to it. The hash table
  of the pool holds pointers; since the callbacks of the table read \<open>data\<close> and \<open>len\<close> through them, an
  entry of the model is the pointer with the bytes it points to, and the invariant says that they are
  the bytes in the heap. Following a pointer to a freed buffer, or \<open>abort()\<close>, is the result \<open>None\<close>.
  The two critical sections of \<open>crypto_buffer_new\<close> are definitions of their own, because other threads
  run between them.
\<close>

type_synonym buf_ptr = u64

record CRYPTO_BUFFER =
  buf_pool :: bool
  buf_data :: bytes
  references :: u32
  data_is_static :: bool

record CRYPTO_BUFFER_POOL =
  bufs :: "(buf_ptr \<times> bytes) LHASH"
  hash_key :: "u64 \<times> u64"

record buf_world =
  pool :: CRYPTO_BUFFER_POOL
  heap :: "buf_ptr \<Rightarrow> CRYPTO_BUFFER option"

subsection \<open>The program\<close>

definition CRYPTO_BUFFER_hash :: "u64 \<times> u64 \<Rightarrow> buf_ptr \<times> bytes \<Rightarrow> u32" where
  "CRYPTO_BUFFER_hash key buf = ucast (SIPHASH_24 key (snd buf))"

definition CRYPTO_BUFFER_cmp :: "buf_ptr \<times> bytes \<Rightarrow> buf_ptr \<times> bytes \<Rightarrow> int" where
  "CRYPTO_BUFFER_cmp a b =
     (if length (snd a) \<noteq> length (snd b) then 1 else OPENSSL_memcmp (snd a) (snd b) (length (snd a)))"

definition sizeof_CRYPTO_BUFFER_POOL :: u64 where
  "sizeof_CRYPTO_BUFFER_POOL = 80"

text \<open>\<open>rand\<close> is what \<open>RAND_bytes\<close> writes into the key.\<close>

definition CRYPTO_BUFFER_POOL_new :: "(u64 \<Rightarrow> bytes option) \<Rightarrow> u64 \<times> u64 \<Rightarrow> CRYPTO_BUFFER_POOL option" where
  "CRYPTO_BUFFER_POOL_new malloc rand =
     (case OPENSSL_zalloc malloc sizeof_CRYPTO_BUFFER_POOL of
        None \<Rightarrow> None
      | Some _ \<Rightarrow>
          (case OPENSSL_lh_new malloc of
             None \<Rightarrow> None
           | Some lh \<Rightarrow> Some \<lparr>bufs = lh, hash_key = rand\<rparr>))"

text \<open>The assertion of \<open>CRYPTO_BUFFER_POOL_free\<close>.\<close>

definition CRYPTO_BUFFER_POOL_free_assert :: "CRYPTO_BUFFER_POOL \<Rightarrow> bool" where
  "CRYPTO_BUFFER_POOL_free_assert pl \<longleftrightarrow> OPENSSL_lh_num_items (bufs pl) = 0"

definition bufs_retrieve :: "CRYPTO_BUFFER_POOL \<Rightarrow> buf_ptr \<times> bytes \<Rightarrow> (buf_ptr \<times> bytes) option" where
  "bufs_retrieve pl buf = OPENSSL_lh_retrieve (CRYPTO_BUFFER_hash (hash_key pl)) CRYPTO_BUFFER_cmp (bufs pl) buf"

definition crypto_buffer_free_object :: "buf_ptr \<Rightarrow> buf_world \<Rightarrow> buf_world" where
  "crypto_buffer_free_object p w = w\<lparr>heap := (heap w)(p := None)\<rparr>"

definition CRYPTO_BUFFER_up_ref :: "buf_ptr \<Rightarrow> buf_world \<Rightarrow> buf_world option" where
  "CRYPTO_BUFFER_up_ref p w =
     do { b \<leftarrow> heap w p;
          Some (w\<lparr>heap := (heap w)(p \<mapsto> b\<lparr>references := CRYPTO_refcount_inc (references b)\<rparr>)\<rparr>) }"

text \<open>The duplicate of \<open>buf\<close> in the pool, ignored if it would have to be replaced by a static buffer.\<close>

definition find_duplicate :: "bool \<Rightarrow> buf_ptr \<times> bytes \<Rightarrow> buf_world \<Rightarrow> buf_ptr option option" where
  "find_duplicate is_static buf w =
     (case bufs_retrieve (pool w) buf of
        None \<Rightarrow> Some None
      | Some (q, _) \<Rightarrow>
          do { dup \<leftarrow> heap w q;
               Some (if is_static \<and> \<not> data_is_static dup then None else Some q) })"

text \<open>The section under the read lock. The address of \<open>tmp\<close> is never used.\<close>

definition crypto_buffer_lookup :: "bytes \<Rightarrow> bool \<Rightarrow> buf_world \<Rightarrow> (buf_ptr option \<times> buf_world) option" where
  "crypto_buffer_lookup data is_static w =
     do { duplicate \<leftarrow> find_duplicate is_static (0, data) w;
          case duplicate of
            None \<Rightarrow> Some (None, w)
          | Some q \<Rightarrow> do { w \<leftarrow> CRYPTO_BUFFER_up_ref q w; Some (Some q, w) } }"

text \<open>
  The allocation of a buffer, outside of the lock. \<open>addr\<close> is what \<open>OPENSSL_zalloc\<close> returns for the buffer
  itself, \<open>None\<close> on failure.
\<close>

definition crypto_buffer_make ::
  "(u64 \<Rightarrow> bytes option) \<Rightarrow> buf_ptr option \<Rightarrow> bytes \<Rightarrow> bool \<Rightarrow> bool \<Rightarrow> buf_world \<Rightarrow> buf_ptr option \<times> buf_world" where
  "crypto_buffer_make malloc addr data is_static has_pool w =
     (case addr of
        None \<Rightarrow> (None, w)
      | Some p \<Rightarrow>
          let dup = (if is_static then Some data
                     else map_option ptr_data (OPENSSL_memdup malloc data (word_of_nat (length data))))
          in if \<not> is_static \<and> length data \<noteq> 0 \<and> dup = None then (None, w)
             else (Some p, w\<lparr>heap := (heap w)(p \<mapsto> \<lparr>buf_pool = has_pool,
                     buf_data = (case dup of None \<Rightarrow> [] | Some d \<Rightarrow> d), references = 1, data_is_static = is_static\<rparr>)\<rparr>))"

text \<open>The section under the write lock.\<close>

definition crypto_buffer_publish ::
  "(u64 \<Rightarrow> bytes option) \<Rightarrow> buf_ptr \<Rightarrow> bool \<Rightarrow> buf_world \<Rightarrow> (buf_ptr option \<times> buf_world) option" where
  "crypto_buffer_publish malloc p is_static w =
     do { b \<leftarrow> heap w p;
          duplicate \<leftarrow> find_duplicate is_static (p, buf_data b) w;
          case duplicate of
            None \<Rightarrow>
              (case OPENSSL_lh_insert malloc (CRYPTO_BUFFER_hash (hash_key (pool w))) CRYPTO_BUFFER_cmp
                      (bufs (pool w)) (p, buf_data b) of
                 (inserted, _, lh) \<Rightarrow>
                   let w = w\<lparr>pool := (pool w)\<lparr>bufs := lh\<rparr>\<rparr>
                   in if \<not> inserted then Some (None, crypto_buffer_free_object p w) else Some (Some p, w))
          | Some q \<Rightarrow>
              do { w \<leftarrow> CRYPTO_BUFFER_up_ref q w;
                   Some (Some q, crypto_buffer_free_object p w) } }"

definition crypto_buffer_new ::
  "(u64 \<Rightarrow> bytes option) \<Rightarrow> buf_ptr option \<Rightarrow> bytes \<Rightarrow> bool \<Rightarrow> bool \<Rightarrow> buf_world \<Rightarrow>
   (buf_ptr option \<times> buf_world) option" where
  "crypto_buffer_new malloc addr data is_static has_pool w =
     do { (duplicate, w) \<leftarrow> (if has_pool then crypto_buffer_lookup data is_static w else Some (None, w));
          if duplicate \<noteq> None then Some (duplicate, w)
          else
            (case crypto_buffer_make malloc addr data is_static has_pool w of
               (None, w) \<Rightarrow> Some (None, w)
             | (Some p, w) \<Rightarrow>
                 if \<not> has_pool then Some (Some p, w) else crypto_buffer_publish malloc p is_static w) }"

definition CRYPTO_BUFFER_new ::
  "(u64 \<Rightarrow> bytes option) \<Rightarrow> buf_ptr option \<Rightarrow> bytes \<Rightarrow> bool \<Rightarrow> buf_world \<Rightarrow> (buf_ptr option \<times> buf_world) option" where
  "CRYPTO_BUFFER_new malloc addr data has_pool w = crypto_buffer_new malloc addr data False has_pool w"

definition CRYPTO_BUFFER_new_from_CBS ::
  "(u64 \<Rightarrow> bytes option) \<Rightarrow> buf_ptr option \<Rightarrow> bytes \<Rightarrow> bool \<Rightarrow> buf_world \<Rightarrow> (buf_ptr option \<times> buf_world) option" where
  "CRYPTO_BUFFER_new_from_CBS malloc addr cbs has_pool w = CRYPTO_BUFFER_new malloc addr cbs has_pool w"

definition CRYPTO_BUFFER_data :: "buf_ptr \<Rightarrow> buf_world \<Rightarrow> bytes option" where
  "CRYPTO_BUFFER_data p w = map_option buf_data (heap w p)"

definition CRYPTO_BUFFER_len :: "buf_ptr \<Rightarrow> buf_world \<Rightarrow> nat option" where
  "CRYPTO_BUFFER_len p w = map_option (\<lambda>b. length (buf_data b)) (heap w p)"

definition CRYPTO_BUFFER_new_from_static_data_unsafe ::
  "(u64 \<Rightarrow> bytes option) \<Rightarrow> buf_ptr option \<Rightarrow> bytes \<Rightarrow> bool \<Rightarrow> buf_world \<Rightarrow> (buf_ptr option \<times> buf_world) option" where
  "CRYPTO_BUFFER_new_from_static_data_unsafe malloc addr data has_pool w =
     crypto_buffer_new malloc addr data True has_pool w"

text \<open>
  \<open>CRYPTO_BUFFER_alloc\<close> also returns the pointer \<open>*out_data\<close> to the bytes of the new buffer; what the caller
  writes through it, before sharing the buffer, is the caller's and not a step of the model.
\<close>

definition CRYPTO_BUFFER_alloc ::
  "(u64 \<Rightarrow> bytes option) \<Rightarrow> buf_ptr option \<Rightarrow> u64 \<Rightarrow> buf_world \<Rightarrow> buf_ptr option \<times> buf_world" where
  "CRYPTO_BUFFER_alloc malloc addr len w =
     (case addr of
        None \<Rightarrow> (None, w)
      | Some p \<Rightarrow>
          let data = map_option ptr_data (OPENSSL_malloc malloc len)
          in if len \<noteq> 0 \<and> data = None then (None, w)
             else (Some p, w\<lparr>heap := (heap w)(p \<mapsto> \<lparr>buf_pool = False,
                     buf_data = (case data of None \<Rightarrow> [] | Some d \<Rightarrow> d), references = 1, data_is_static = False\<rparr>)\<rparr>))"

text \<open>A failure of the assertion \<open>found == buf\<close> is \<^const>\<open>None\<close>, as \<open>abort()\<close> is.\<close>

definition CRYPTO_BUFFER_free :: "(u64 \<Rightarrow> bytes option) \<Rightarrow> buf_ptr \<Rightarrow> buf_world \<Rightarrow> buf_world option" where
  "CRYPTO_BUFFER_free malloc p w =
     do { b \<leftarrow> heap w p;
          (count, zero) \<leftarrow> CRYPTO_refcount_dec_and_test_zero (references b);
          let w = w\<lparr>heap := (heap w)(p \<mapsto> b\<lparr>references := count\<rparr>)\<rparr>;
          if \<not> zero then Some w
          else if \<not> buf_pool b then Some (crypto_buffer_free_object p w)
          else
            (case bufs_retrieve (pool w) (p, buf_data b) of
               Some (q, _) \<Rightarrow>
                 if q = p then
                   (case OPENSSL_lh_delete malloc (CRYPTO_BUFFER_hash (hash_key (pool w))) CRYPTO_BUFFER_cmp
                           (bufs (pool w)) (p, buf_data b) of
                      (found, lh) \<Rightarrow>
                        if map_option fst found \<noteq> Some p then None
                        else Some (crypto_buffer_free_object p (w\<lparr>pool := (pool w)\<lparr>bufs := lh\<rparr>\<rparr>)))
                 else Some (crypto_buffer_free_object p w)
             | None \<Rightarrow> Some (crypto_buffer_free_object p w)) }"

subsection \<open>The callbacks meet the contract of the table\<close>

lemma CRYPTO_BUFFER_cmp_eq_0: "CRYPTO_BUFFER_cmp a b = 0 \<longleftrightarrow> snd a = snd b"
  using OPENSSL_memcmp_eq_0 [of "snd a" "snd b"] by (auto simp: CRYPTO_BUFFER_cmp_def)

interpretation buf_table: lhash_callbacks "CRYPTO_BUFFER_hash key" CRYPTO_BUFFER_cmp for key
  by unfold_locales (simp_all add: CRYPTO_BUFFER_cmp_eq_0 CRYPTO_BUFFER_hash_def)

subsection \<open>The invariant\<close>

text \<open>
  \<open>h p\<close> is how many references to \<open>p\<close> the callers of the library own. \<open>P\<close> holds the buffers that threads
  inside \<open>crypto_buffer_new\<close> have allocated and not yet published.
\<close>

definition table_inv :: "buf_world \<Rightarrow> buf_ptr set \<Rightarrow> bool" where
  "table_inv w P \<longleftrightarrow>
     lh_ok (CRYPTO_BUFFER_hash (hash_key (pool w))) CRYPTO_BUFFER_cmp (bufs (pool w)) \<and>
     (\<forall>p d. (p, d) \<in># lh_elems (bufs (pool w)) \<longrightarrow>
        p \<notin> P \<and> (\<exists>b. heap w p = Some b \<and> buf_data b = d \<and> buf_pool b))"

definition refs_inv :: "buf_world \<Rightarrow> (buf_ptr \<Rightarrow> nat) \<Rightarrow> buf_ptr set \<Rightarrow> bool" where
  "refs_inv w h P \<longleftrightarrow>
     (\<forall>p b. heap w p = Some b \<longrightarrow> p \<notin> P \<longrightarrow>
        references b \<noteq> 0 \<and> (references b = CRYPTO_REFCOUNT_MAX \<or> unat (references b) = h p)) \<and>
     (\<forall>p. 0 < h p \<longrightarrow> heap w p \<noteq> None \<and> p \<notin> P) \<and>
     (\<forall>p\<in>P. \<exists>b. heap w p = Some b \<and> references b = 1 \<and> buf_pool b) \<and>
     heap w 0 = None"

lemma table_entry:
  "table_inv w P \<Longrightarrow> (p, d) \<in># lh_elems (bufs (pool w)) \<Longrightarrow> map_option buf_data (heap w p) = Some d"
  by (auto simp: table_inv_def)

lemma bufs_retrieve_iff:
  assumes "table_inv w P"
  shows "bufs_retrieve (pool w) (p, d) = Some (q, e) \<longleftrightarrow> e = d \<and> (q, d) \<in># lh_elems (bufs (pool w))"
  using assms buf_table.lh_retrieve_iff [of "hash_key (pool w)" "bufs (pool w)" "(p, d)" "(q, e)"]
  by (auto simp: bufs_retrieve_def table_inv_def CRYPTO_BUFFER_cmp_eq_0)

lemma find_duplicate_ok:
  assumes inv: "table_inv w P"
  obtains "find_duplicate is_static (p, d) w = Some None"
  | q b where "find_duplicate is_static (p, d) w = Some (Some q)" "heap w q = Some b" "buf_data b = d"
      "is_static \<longrightarrow> data_is_static b" "q \<notin> P" "(q, d) \<in># lh_elems (bufs (pool w))"
proof (cases "bufs_retrieve (pool w) (p, d)")
  case None
  then show ?thesis
    by (intro that(1)) (simp add: find_duplicate_def)
next
  case (Some qe)
  obtain q e where qe: "qe = (q, e)"
    by (cases qe)
  have q: "(q, d) \<in># lh_elems (bufs (pool w))"
    using Some bufs_retrieve_iff [OF inv] by (simp add: qe)
  then obtain b where b: "heap w q = Some b" "buf_data b = d" "q \<notin> P"
    using inv by (auto simp: table_inv_def)
  show ?thesis
  proof (cases "is_static \<and> \<not> data_is_static b")
    case True
    then show ?thesis
      by (intro that(1)) (simp add: find_duplicate_def Some qe b)
  next
    case False
    then show ?thesis
      by (intro that(2) [of q b]) (simp_all add: find_duplicate_def Some qe b q)
  qed
qed

text \<open>A step keeps the contents of every buffer outside of \<open>X\<close>, and whether they are static.\<close>

definition contents :: "buf_world \<Rightarrow> buf_ptr \<Rightarrow> (bytes \<times> bool) option" where
  "contents w p = map_option (\<lambda>b. (buf_data b, data_is_static b)) (heap w p)"

definition keeps_contents :: "buf_world \<Rightarrow> buf_world \<Rightarrow> buf_ptr set \<Rightarrow> bool" where
  "keeps_contents w w' X \<longleftrightarrow> (\<forall>p. p \<notin> X \<longrightarrow> contents w' p = contents w p)"

lemma refcount_inc_ok:
  "c \<noteq> 0 \<Longrightarrow> CRYPTO_refcount_inc c \<noteq> 0 \<and>
    (CRYPTO_refcount_inc c = CRYPTO_REFCOUNT_MAX \<or> unat (CRYPTO_refcount_inc c) = unat c + 1)"
  using unat_less [of c] by (auto simp: CRYPTO_refcount_inc_def CRYPTO_REFCOUNT_MAX_def unat_word_ariths word_unat_eq_iff)

lemma up_ref_ok:
  assumes tbl: "table_inv w P" and refs: "refs_inv w h P" and q: "heap w q = Some b" "q \<notin> P"
  shows "\<exists>w' b'. CRYPTO_BUFFER_up_ref q w = Some w' \<and> table_inv w' P \<and> refs_inv w' (h(q := h q + 1)) P \<and>
    pool w' = pool w \<and> keeps_contents w w' {} \<and> heap w' = (heap w)(q \<mapsto> b') \<and> buf_data b' = buf_data b \<and>
    data_is_static b' = data_is_static b"
proof -
  let ?b' = "b\<lparr>references := CRYPTO_refcount_inc (references b)\<rparr>"
  let ?w' = "w\<lparr>heap := (heap w)(q \<mapsto> ?b')\<rparr>"
  have nz: "references b \<noteq> 0" "references b = CRYPTO_REFCOUNT_MAX \<or> unat (references b) = h q"
    using refs q by (auto simp: refs_inv_def)
  then have inc: "references ?b' \<noteq> 0" "references ?b' = CRYPTO_REFCOUNT_MAX \<or> unat (references ?b') = h q + 1"
    using refcount_inc_ok [of "references b"] by (auto simp: CRYPTO_refcount_inc_def)
  have "CRYPTO_BUFFER_up_ref q w = Some ?w'"
    by (simp add: CRYPTO_BUFFER_up_ref_def q)
  moreover have "table_inv ?w' P"
    using tbl q by (fastforce simp: table_inv_def)
  moreover have "refs_inv ?w' (h(q := h q + 1)) P"
    using refs q inc by (auto simp: refs_inv_def)
  ultimately show ?thesis
    by (intro exI [of _ ?w'] exI [of _ ?b']) (simp add: keeps_contents_def contents_def q)
qed

lemma crypto_buffer_lookup_ok:
  assumes tbl: "table_inv w P" and refs: "refs_inv w h P"
  obtains "crypto_buffer_lookup data is_static w = Some (None, w)"
  | q w' b where "crypto_buffer_lookup data is_static w = Some (Some q, w')" "table_inv w' P"
      "refs_inv w' (h(q := h q + 1)) P" "heap w' q = Some b" "buf_data b = data" "is_static \<longrightarrow> data_is_static b"
      "keeps_contents w w' {}" "(q, data) \<in># lh_elems (bufs (pool w'))"
proof (cases rule: find_duplicate_ok [OF tbl, of is_static 0 data])
  case 1
  then show ?thesis
    by (intro that(1)) (simp add: crypto_buffer_lookup_def)
next
  case (2 q b)
  from up_ref_ok [OF tbl refs this(2,5)] obtain w' b' where
    w': "CRYPTO_BUFFER_up_ref q w = Some w'" "table_inv w' P" "refs_inv w' (h(q := h q + 1)) P"
      "keeps_contents w w' {}" "heap w' = (heap w)(q \<mapsto> b')" "buf_data b' = buf_data b" "data_is_static b' = data_is_static b"
      "pool w' = pool w"
    by blast
  show ?thesis
    by (rule that(2) [of q w' b']) (use 2 w' in \<open>simp_all add: crypto_buffer_lookup_def\<close>)
qed

lemma crypto_buffer_make_ok:
  assumes mal: "libc_malloc malloc" and tbl: "table_inv w P" and refs: "refs_inv w h P"
    and len: "length data < 2 ^ 64" and fresh: "heap w p = None" "p \<noteq> 0"
  obtains "crypto_buffer_make malloc (Some p) data is_static has_pool w = (None, w)"
  | w' b where "crypto_buffer_make malloc (Some p) data is_static has_pool w = (Some p, w')"
      "heap w' = (heap w)(p \<mapsto> b)" "buf_data b = data" "data_is_static b = is_static" "p \<notin> P"
      "if has_pool then table_inv w' (insert p P) \<and> refs_inv w' h (insert p P)
       else table_inv w' P \<and> refs_inv w' (h(p := h p + 1)) P"
proof -
  let ?dup = "if is_static then Some data else map_option ptr_data (OPENSSL_memdup malloc data (word_of_nat (length data)))"
  let ?b = "\<lparr>buf_pool = has_pool, buf_data = (case ?dup of None \<Rightarrow> [] | Some d \<Rightarrow> d), references = 1, data_is_static = is_static\<rparr>"
  let ?w' = "w\<lparr>heap := (heap w)(p \<mapsto> ?b)\<rparr>"
  have p: "p \<notin> P" "h p = 0"
    using refs fresh by (force simp: refs_inv_def)+
  show ?thesis
  proof (cases "\<not> is_static \<and> length data \<noteq> 0 \<and> ?dup = None")
    case True
    then show ?thesis
      by (intro that(1)) (auto simp: crypto_buffer_make_def)
  next
    case False
    then have make: "crypto_buffer_make malloc (Some p) data is_static has_pool w = (Some p, ?w')"
      by (auto simp: crypto_buffer_make_def Let_def)
    have data: "buf_data ?b = data"
      using False libc_malloc.memdup_data [OF mal] len by (auto simp: unat_of_nat split: option.split)
    have "table_inv ?w' (if has_pool then insert p P else P)"
      using tbl fresh by (fastforce simp: table_inv_def)
    moreover have "if has_pool then refs_inv ?w' h (insert p P) else refs_inv ?w' (h(p := h p + 1)) P"
      using refs fresh p by (auto simp: refs_inv_def)
    ultimately show ?thesis
      by (intro that(2) [OF make _ data]) (use p in \<open>auto split: if_splits\<close>)
  qed
qed

lemma table_once:
  assumes "table_inv w P"
  shows "count (lh_elems (bufs (pool w))) x \<le> 1"
proof -
  let ?M = "lh_elems (bufs (pool w))"
  have "count ?M x = count (filter_mset (\<lambda>y. CRYPTO_BUFFER_cmp y x = 0) ?M) x"
    by (simp add: CRYPTO_BUFFER_cmp_eq_0)
  then have "count ?M x \<le> size (filter_mset (\<lambda>y. CRYPTO_BUFFER_cmp y x = 0) ?M)"
    using count_le_size [of "filter_mset (\<lambda>y. CRYPTO_BUFFER_cmp y x = 0) ?M" x] by linarith
  moreover have "uniq CRYPTO_BUFFER_cmp ?M"
    using assms by (simp add: table_inv_def lh_ok_def)
  then have "size (filter_mset (\<lambda>y. CRYPTO_BUFFER_cmp y x = 0) ?M) \<le> 1"
    unfolding uniq_def by blast
  ultimately show ?thesis
    by linarith
qed

text \<open>Distinct buffers have distinct addresses, so the number of entries cannot overflow.\<close>

lemma table_size:
  assumes inv: "table_inv w P" and p: "p \<in> P" "p \<noteq> 0" and null: "heap w 0 = None"
  shows "size (lh_elems (bufs (pool w))) + 1 < 2 ^ 64"
proof -
  let ?M = "lh_elems (bufs (pool w))"
  have "size ?M \<le> (\<Sum>x\<in>set_mset ?M. 1)"
    unfolding size_multiset_overloaded_eq by (intro sum_mono table_once [OF inv])
  moreover have inj: "inj_on fst (set_mset ?M)"
  proof (rule inj_onI, clarsimp)
    fix a b c
    assume "(a, b) \<in># ?M" "(a, c) \<in># ?M"
    then show "b = c"
      using table_entry [OF inv, of a b] table_entry [OF inv, of a c] by simp
  qed
  moreover have "card (fst ` set_mset ?M) \<le> card (UNIV - {0, p})"
  proof (rule card_mono)
    show "fst ` set_mset ?M \<subseteq> UNIV - {0, p}"
      using inv p null by (fastforce simp: table_inv_def)
  qed simp
  moreover have "card (UNIV - {0, p}) = 2 ^ 64 - 2"
    using p by (subst card_Diff_subset) (simp_all add: card_word)
  ultimately show ?thesis
    by (simp add: card_image)
qed

lemma bufs_insert_ok:
  assumes inv: "table_inv w P" and bound: "size (lh_elems (bufs (pool w))) + 1 < 2 ^ 64"
    and ins: "OPENSSL_lh_insert malloc (CRYPTO_BUFFER_hash (hash_key (pool w))) CRYPTO_BUFFER_cmp (bufs (pool w)) x
      = (r, old, lh)"
  shows "lh_ok (CRYPTO_BUFFER_hash (hash_key (pool w))) CRYPTO_BUFFER_cmp lh \<and>
    (if r then x \<in># lh_elems lh \<and> set_mset (lh_elems lh) \<subseteq> insert x (set_mset (lh_elems (bufs (pool w))))
     else lh = bufs (pool w))"
proof -
  have ok: "lh_ok (CRYPTO_BUFFER_hash (hash_key (pool w))) CRYPTO_BUFFER_cmp (bufs (pool w))"
    using inv by (simp add: table_inv_def)
  from buf_table.lh_insert_ok [OF this bound ins] ok show ?thesis
    by (auto split: option.splits if_splits dest: in_diffD)
qed

definition owned :: "(buf_ptr \<Rightarrow> nat) \<Rightarrow> buf_ptr option \<Rightarrow> buf_ptr \<Rightarrow> nat" where
  "owned h r = (case r of None \<Rightarrow> h | Some q \<Rightarrow> h(q := h q + 1))"

lemma free_private:
  assumes "table_inv w (insert p P)" "refs_inv w h (insert p P)" "p \<notin> P"
  shows "table_inv (crypto_buffer_free_object p w) P \<and> refs_inv (crypto_buffer_free_object p w) h P"
proof -
  have "h p = 0"
    using assms(2) by (auto simp: refs_inv_def)
  then show ?thesis
    using assms by (auto simp: table_inv_def refs_inv_def crypto_buffer_free_object_def)
qed

lemma publish_private:
  assumes tbl: "table_inv w (insert p P)" and refs: "refs_inv w h (insert p P)" and p: "p \<notin> P" "heap w p = Some b"
    and lh: "lh_ok (CRYPTO_BUFFER_hash (hash_key (pool w))) CRYPTO_BUFFER_cmp lh"
      "set_mset (lh_elems lh) \<subseteq> insert (p, buf_data b) (set_mset (lh_elems (bufs (pool w))))"
  shows "table_inv (w\<lparr>pool := (pool w)\<lparr>bufs := lh\<rparr>\<rparr>) P \<and> refs_inv (w\<lparr>pool := (pool w)\<lparr>bufs := lh\<rparr>\<rparr>) (h(p := h p + 1)) P"
proof
  have b: "references b = 1" "buf_pool b" "h p = 0"
    using refs p by (auto simp: refs_inv_def)
  show "table_inv (w\<lparr>pool := (pool w)\<lparr>bufs := lh\<rparr>\<rparr>) P"
    using tbl p b lh by (fastforce simp: table_inv_def)
  show "refs_inv (w\<lparr>pool := (pool w)\<lparr>bufs := lh\<rparr>\<rparr>) (h(p := h p + 1)) P"
    using refs p b by (auto simp: refs_inv_def)
qed

lemma crypto_buffer_publish_ok:
  assumes tbl: "table_inv w (insert p P)" and refs: "refs_inv w h (insert p P)" and p: "p \<notin> P"
    and b: "heap w p = Some b" "data_is_static b = is_static"
  obtains r w' where "crypto_buffer_publish malloc p is_static w = Some (r, w')" "table_inv w' P"
    "refs_inv w' (owned h r) P" "keeps_contents w w' {p}"
    "\<forall>q. r = Some q \<longrightarrow> (q, buf_data b) \<in># lh_elems (bufs (pool w')) \<and>
       (\<exists>b'. heap w' q = Some b' \<and> buf_data b' = buf_data b \<and> (is_static \<longrightarrow> data_is_static b'))"
proof (cases rule: find_duplicate_ok [OF tbl, of is_static p "buf_data b"])
  case 1
  obtain r old lh where ins: "OPENSSL_lh_insert malloc (CRYPTO_BUFFER_hash (hash_key (pool w))) CRYPTO_BUFFER_cmp
    (bufs (pool w)) (p, buf_data b) = (r, old, lh)"
    by (cases "OPENSSL_lh_insert malloc (CRYPTO_BUFFER_hash (hash_key (pool w))) CRYPTO_BUFFER_cmp
      (bufs (pool w)) (p, buf_data b)")
  have "heap w 0 = None" "p \<noteq> 0"
    using refs b by (auto simp: refs_inv_def)
  then have "size (lh_elems (bufs (pool w))) + 1 < 2 ^ 64"
    using table_size [OF tbl, of p] by simp
  from bufs_insert_ok [OF tbl this ins]
  have lh: "lh_ok (CRYPTO_BUFFER_hash (hash_key (pool w))) CRYPTO_BUFFER_cmp lh"
    "if r then (p, buf_data b) \<in># lh_elems lh \<and>
         set_mset (lh_elems lh) \<subseteq> insert (p, buf_data b) (set_mset (lh_elems (bufs (pool w))))
     else lh = bufs (pool w)"
    by auto
  show ?thesis
  proof (cases r)
    case True
    then have "crypto_buffer_publish malloc p is_static w = Some (Some p, w\<lparr>pool := (pool w)\<lparr>bufs := lh\<rparr>\<rparr>)"
      by (simp add: crypto_buffer_publish_def b 1 ins)
    then show ?thesis
      by (rule that) (use True lh b publish_private [OF tbl refs p b(1)] in \<open>simp_all add: owned_def keeps_contents_def contents_def\<close>)
  next
    case False
    then have "crypto_buffer_publish malloc p is_static w = Some (None, crypto_buffer_free_object p w)"
      using lh by (simp add: crypto_buffer_publish_def b 1 ins)
    then show ?thesis
      by (rule that) (use free_private [OF tbl refs p] in \<open>simp_all add: owned_def keeps_contents_def contents_def crypto_buffer_free_object_def\<close>)
  qed
next
  case (2 q c)
  from up_ref_ok [OF tbl refs 2(2,5)] obtain w' c' where w': "CRYPTO_BUFFER_up_ref q w = Some w'"
    "table_inv w' (insert p P)" "refs_inv w' (h(q := h q + 1)) (insert p P)" "heap w' = (heap w)(q \<mapsto> c')" "keeps_contents w w' {}"
    "buf_data c' = buf_data c" "data_is_static c' = data_is_static c" "pool w' = pool w"
    by blast
  then have "crypto_buffer_publish malloc p is_static w = Some (Some q, crypto_buffer_free_object p w')"
    using 2 by (simp add: crypto_buffer_publish_def b)
  then show ?thesis
    by (rule that) (use 2 w' free_private [OF w'(2,3) p] in
        \<open>auto simp: owned_def keeps_contents_def contents_def crypto_buffer_free_object_def\<close>)
qed

lemma refcount_dec_ok:
  assumes "c \<noteq> 0"
  shows "c = CRYPTO_REFCOUNT_MAX \<and> CRYPTO_refcount_dec_and_test_zero c = Some (c, False) \<or>
    c \<noteq> CRYPTO_REFCOUNT_MAX \<and> CRYPTO_refcount_dec_and_test_zero c = Some (c - 1, c - 1 = 0) \<and>
      (c - 1 = 0 \<longleftrightarrow> unat c = 1) \<and> unat (c - 1) = unat c - 1"
proof -
  have "unat (c - 1) = unat c - 1"
    using assms by (simp add: unat_sub word_le_nat_alt unat_gt_0 Suc_leI)
  moreover have "c - 1 = 0 \<longleftrightarrow> unat c = 1"
    using word_unat_eq_iff [of c 1] by simp
  ultimately show ?thesis
    using assms by (auto simp: CRYPTO_refcount_dec_and_test_zero_def Let_def)
qed

text \<open>The last reference goes: the buffer leaves the table, if it is there, and the heap.\<close>

lemma free_last:
  assumes tbl: "table_inv w P" and refs: "refs_inv w h P" and p: "p \<notin> P"
    and lh: "lh_ok (CRYPTO_BUFFER_hash (hash_key (pool w))) CRYPTO_BUFFER_cmp lh"
      "set_mset (lh_elems lh) \<subseteq> set_mset (lh_elems (bufs (pool w)))" "\<And>d. (p, d) \<notin># lh_elems lh"
  shows "table_inv (crypto_buffer_free_object p (w\<lparr>pool := (pool w)\<lparr>bufs := lh\<rparr>\<rparr>)) P \<and>
    refs_inv (crypto_buffer_free_object p (w\<lparr>pool := (pool w)\<lparr>bufs := lh\<rparr>\<rparr>)) (h(p := 0)) P"
proof
  show "table_inv (crypto_buffer_free_object p (w\<lparr>pool := (pool w)\<lparr>bufs := lh\<rparr>\<rparr>)) P"
    using tbl lh by (fastforce simp: table_inv_def crypto_buffer_free_object_def)
  show "refs_inv (crypto_buffer_free_object p (w\<lparr>pool := (pool w)\<lparr>bufs := lh\<rparr>\<rparr>)) (h(p := 0)) P"
    using refs p by (auto simp: refs_inv_def crypto_buffer_free_object_def)
qed

lemma bufs_delete_ok:
  assumes tbl: "table_inv w P" and b: "heap w p = Some b" and found: "(p, buf_data b) \<in># lh_elems (bufs (pool w))"
    and del: "OPENSSL_lh_delete malloc (CRYPTO_BUFFER_hash (hash_key (pool w))) CRYPTO_BUFFER_cmp (bufs (pool w))
      (p, buf_data b) = (r, lh)"
  shows "lh_ok (CRYPTO_BUFFER_hash (hash_key (pool w))) CRYPTO_BUFFER_cmp lh \<and>
    set_mset (lh_elems lh) \<subseteq> set_mset (lh_elems (bufs (pool w))) \<and> (\<forall>d. (p, d) \<notin># lh_elems lh) \<and> r = Some (p, buf_data b)"
proof -
  have "bufs_retrieve (pool w) (p, buf_data b) = Some (p, buf_data b)"
    using bufs_retrieve_iff [OF tbl] found by simp
  then have r: "lh_ok (CRYPTO_BUFFER_hash (hash_key (pool w))) CRYPTO_BUFFER_cmp lh"
    "lh_elems lh = lh_elems (bufs (pool w)) - {#(p, buf_data b)#}" "r = Some (p, buf_data b)"
    using buf_table.lh_delete_ok [OF _ del] tbl by (auto simp: table_inv_def bufs_retrieve_def)
  have "(p, d) \<notin># lh_elems lh" for d
  proof
    assume d: "(p, d) \<in># lh_elems lh"
    then have "(p, d) \<in># lh_elems (bufs (pool w))"
      by (auto simp: r dest: in_diffD)
    then have "d = buf_data b"
      using table_entry [OF tbl] b by fastforce
    then show False
      using d table_once [OF tbl, of "(p, buf_data b)"] by (simp add: r in_diff_count)
  qed
  then show ?thesis
    using r by (auto dest: in_diffD)
qed

lemma free_world_id: "w\<lparr>pool := (pool w)\<lparr>bufs := bufs (pool w)\<rparr>\<rparr> = w"
  by simp

lemma CRYPTO_BUFFER_free_zero:
  assumes tbl: "table_inv w P" and refs: "refs_inv w h P" and p: "p \<notin> P" and b: "heap w p = Some b"
    and dec: "CRYPTO_refcount_dec_and_test_zero (references b) = Some (c, True)"
  obtains w' where "CRYPTO_BUFFER_free malloc p w = Some w'" "table_inv w' P" "refs_inv w' (h(p := 0)) P" "keeps_contents w w' {p}"
proof (cases "buf_pool b \<and> (p, buf_data b) \<in># lh_elems (bufs (pool w))")
  case True
  obtain r lh where del: "OPENSSL_lh_delete malloc (CRYPTO_BUFFER_hash (hash_key (pool w))) CRYPTO_BUFFER_cmp
      (bufs (pool w)) (p, buf_data b) = (r, lh)"
    by (cases "OPENSSL_lh_delete malloc (CRYPTO_BUFFER_hash (hash_key (pool w))) CRYPTO_BUFFER_cmp
      (bufs (pool w)) (p, buf_data b)")
  have "bufs_retrieve (pool w) (p, buf_data b) = Some (p, buf_data b)"
    using bufs_retrieve_iff [OF tbl] True by simp
  then have "CRYPTO_BUFFER_free malloc p w = Some (crypto_buffer_free_object p (w\<lparr>pool := (pool w)\<lparr>bufs := lh\<rparr>\<rparr>))"
    using True bufs_delete_ok [OF tbl b _ del] by (simp add: CRYPTO_BUFFER_free_def b dec del crypto_buffer_free_object_def)
  then show ?thesis
    by (rule that) (use free_last [OF tbl refs p] bufs_delete_ok [OF tbl b _ del] True in
        \<open>auto simp: keeps_contents_def contents_def crypto_buffer_free_object_def\<close>)
next
  case False
  have none: "(p, d) \<notin># lh_elems (bufs (pool w))" for d
  proof
    assume "(p, d) \<in># lh_elems (bufs (pool w))"
    then have "\<exists>b'. heap w p = Some b' \<and> buf_data b' = d \<and> buf_pool b'"
      using tbl by (simp add: table_inv_def)
    then show False
      using False b \<open>(p, d) \<in># lh_elems (bufs (pool w))\<close> by simp
  qed
  then have "bufs_retrieve (pool w) (p, buf_data b) \<noteq> Some (p, e)" for e
    using bufs_retrieve_iff [OF tbl] by simp
  then have "CRYPTO_BUFFER_free malloc p w = Some (crypto_buffer_free_object p w)"
    by (auto simp: CRYPTO_BUFFER_free_def b dec crypto_buffer_free_object_def Let_def split: option.split)
  moreover have "lh_ok (CRYPTO_BUFFER_hash (hash_key (pool w))) CRYPTO_BUFFER_cmp (bufs (pool w))"
    using tbl by (simp add: table_inv_def)
  from free_last [OF tbl refs p this _ none]
  have "table_inv (crypto_buffer_free_object p w) P" "refs_inv (crypto_buffer_free_object p w) (h(p := 0)) P"
    by (simp_all add: free_world_id)
  ultimately show ?thesis
    by (rule that) (simp add: keeps_contents_def contents_def crypto_buffer_free_object_def)
qed

lemma CRYPTO_BUFFER_free_ok:
  assumes tbl: "table_inv w P" and refs: "refs_inv w h P" and own: "0 < h p"
  obtains w' where "CRYPTO_BUFFER_free malloc p w = Some w'" "table_inv w' P" "refs_inv w' (h(p := h p - 1)) P"
    "keeps_contents w w' {p}" "1 < h p \<longrightarrow> contents w' p = contents w p"
proof -
  obtain b where b: "heap w p = Some b" "p \<notin> P"
    using refs own by (fastforce simp: refs_inv_def)
  then have cnt: "references b \<noteq> 0" "references b = CRYPTO_REFCOUNT_MAX \<or> unat (references b) = h p"
    using refs by (auto simp: refs_inv_def)
  let ?w' = "\<lambda>c. w\<lparr>heap := (heap w)(p \<mapsto> b\<lparr>references := c\<rparr>)\<rparr>"
  have keep: "table_inv (?w' c) P" "keeps_contents w (?w' c) {p}" for c
    using tbl b by (fastforce simp: table_inv_def keeps_contents_def contents_def)+
  consider "references b = CRYPTO_REFCOUNT_MAX"
      "CRYPTO_refcount_dec_and_test_zero (references b) = Some (references b, False)"
    | "CRYPTO_refcount_dec_and_test_zero (references b) = Some (references b - 1, True)" "h p = 1"
    | "CRYPTO_refcount_dec_and_test_zero (references b) = Some (references b - 1, False)"
      "references b - 1 \<noteq> 0" "unat (references b - 1) = h p - 1"
    using refcount_dec_ok [OF cnt(1)] cnt own by (cases "references b - 1 = 0") auto
  then show ?thesis
  proof cases
    case 1
    then have "CRYPTO_BUFFER_free malloc p w = Some (?w' (references b))"
      by (simp add: CRYPTO_BUFFER_free_def b)
    then show ?thesis
      by (rule that) (use 1 keep b cnt refs in \<open>auto simp: refs_inv_def contents_def\<close>)
  next
    case 2
    from CRYPTO_BUFFER_free_zero [OF tbl refs b(2,1) 2(1)] show ?thesis
      using that 2(2) by auto
  next
    case 3
    then have "CRYPTO_BUFFER_free malloc p w = Some (?w' (references b - 1))"
      by (simp add: CRYPTO_BUFFER_free_def b)
    then show ?thesis
      by (rule that) (use 3 keep b refs in \<open>auto simp: refs_inv_def contents_def\<close>)
  qed
qed

lemma CRYPTO_BUFFER_alloc_ok:
  assumes tbl: "table_inv w P" and refs: "refs_inv w h P" and fresh: "heap w p = None" "p \<noteq> 0"
    and alloc: "CRYPTO_BUFFER_alloc malloc (Some p) len w = (r, w')"
  shows "table_inv w' P \<and> refs_inv w' (owned h r) P \<and> keeps_contents w w' {p}"
proof (cases r)
  case None
  then show ?thesis
    using alloc tbl refs
    by (auto simp: CRYPTO_BUFFER_alloc_def owned_def keeps_contents_def Let_def split: if_splits)
next
  case (Some q)
  have p: "p \<notin> P" "h p = 0"
    using refs fresh by (force simp: refs_inv_def)+
  from alloc Some obtain b where w': "q = p" "w' = w\<lparr>heap := (heap w)(p \<mapsto> b)\<rparr>" "references b = 1"
    by (auto simp: CRYPTO_BUFFER_alloc_def Let_def split: if_splits)
  have "table_inv w' P"
    using tbl fresh by (fastforce simp: table_inv_def w')
  moreover have "refs_inv w' (h(p := h p + 1)) P"
    using refs fresh p by (auto simp: refs_inv_def w')
  ultimately show ?thesis
    by (simp add: owned_def Some w' keeps_contents_def contents_def)
qed

subsection \<open>Threads\<close>

text \<open>
  A thread is outside of \<open>crypto_buffer_new\<close>, has missed its lookup, or has allocated a buffer and waits for the
  write lock. Each step is one critical section or one allocation; the allocator chooses any unused
  address.
\<close>

datatype buf_thread = Idle | Missed bytes bool | Private buf_ptr bool

record buf_system =
  world :: buf_world
  threads :: "nat \<Rightarrow> buf_thread"
  handles :: "buf_ptr \<Rightarrow> nat"

inductive buf_step :: "(u64 \<Rightarrow> bytes option) \<Rightarrow> buf_system \<Rightarrow> buf_system \<Rightarrow> bool" for malloc where
  lookup_hit: "threads s t = Idle \<Longrightarrow> length data < 2 ^ 64 \<Longrightarrow>
    crypto_buffer_lookup data is_static (world s) = Some (Some q, w) \<Longrightarrow>
    buf_step malloc s (s\<lparr>world := w, handles := owned (handles s) (Some q)\<rparr>)"
| lookup_miss: "threads s t = Idle \<Longrightarrow> length data < 2 ^ 64 \<Longrightarrow>
    crypto_buffer_lookup data is_static (world s) = Some (None, w) \<Longrightarrow>
    buf_step malloc s (s\<lparr>world := w, threads := (threads s)(t := Missed data is_static)\<rparr>)"
| make: "threads s t = Missed data is_static \<Longrightarrow> heap (world s) p = None \<Longrightarrow> p \<noteq> 0 \<Longrightarrow>
    crypto_buffer_make malloc (Some p) data is_static True (world s) = (Some p, w) \<Longrightarrow>
    buf_step malloc s (s\<lparr>world := w, threads := (threads s)(t := Private p is_static)\<rparr>)"
| make_fails: "threads s t = Missed data is_static \<Longrightarrow> heap (world s) p = None \<Longrightarrow> p \<noteq> 0 \<Longrightarrow>
    crypto_buffer_make malloc addr data is_static True (world s) = (None, w) \<Longrightarrow> addr = None \<or> addr = Some p \<Longrightarrow>
    buf_step malloc s (s\<lparr>world := w, threads := (threads s)(t := Idle)\<rparr>)"
| publish: "threads s t = Private p is_static \<Longrightarrow>
    crypto_buffer_publish malloc p is_static (world s) = Some (r, w) \<Longrightarrow>
    buf_step malloc s (s\<lparr>world := w, threads := (threads s)(t := Idle), handles := owned (handles s) r\<rparr>)"
| new_without_pool: "heap (world s) p = None \<Longrightarrow> p \<noteq> 0 \<Longrightarrow> length data < 2 ^ 64 \<Longrightarrow>
    crypto_buffer_new malloc (Some p) data is_static False (world s) = Some (r, w) \<Longrightarrow>
    buf_step malloc s (s\<lparr>world := w, handles := owned (handles s) r\<rparr>)"
| alloc: "heap (world s) p = None \<Longrightarrow> p \<noteq> 0 \<Longrightarrow> CRYPTO_BUFFER_alloc malloc (Some p) len (world s) = (r, w) \<Longrightarrow>
    buf_step malloc s (s\<lparr>world := w, handles := owned (handles s) r\<rparr>)"
| up_ref: "0 < handles s p \<Longrightarrow> CRYPTO_BUFFER_up_ref p (world s) = Some w \<Longrightarrow>
    buf_step malloc s (s\<lparr>world := w, handles := owned (handles s) (Some p)\<rparr>)"
| free: "0 < handles s p \<Longrightarrow> CRYPTO_BUFFER_free malloc p (world s) = Some w \<Longrightarrow>
    buf_step malloc s (s\<lparr>world := w, handles := (handles s)(p := handles s p - 1)\<rparr>)"

inductive buf_reachable :: "(u64 \<Rightarrow> bytes option) \<Rightarrow> buf_system \<Rightarrow> bool" for malloc where
  start: "CRYPTO_BUFFER_POOL_new malloc rand = Some pl \<Longrightarrow>
    buf_reachable malloc \<lparr>world = \<lparr>pool = pl, heap = (\<lambda>_. None)\<rparr>, threads = (\<lambda>_. Idle), handles = (\<lambda>_. 0)\<rparr>"
| next_step: "buf_reachable malloc s \<Longrightarrow> buf_step malloc s s' \<Longrightarrow> buf_reachable malloc s'"

definition private_of :: "(nat \<Rightarrow> buf_thread) \<Rightarrow> buf_ptr set" where
  "private_of ts = {p. \<exists>t is_static. ts t = Private p is_static}"

definition buf_inv :: "buf_system \<Rightarrow> bool" where
  "buf_inv s \<longleftrightarrow>
     table_inv (world s) (private_of (threads s)) \<and> refs_inv (world s) (handles s) (private_of (threads s)) \<and>
     (\<forall>t data is_static. threads s t = Missed data is_static \<longrightarrow> length data < 2 ^ 64) \<and>
     (\<forall>t p is_static. threads s t = Private p is_static \<longrightarrow>
        map_option snd (contents (world s) p) = Some is_static \<and>
        (\<forall>u st. threads s u = Private p st \<longrightarrow> u = t))"

definition not_private :: "buf_thread \<Rightarrow> bool" where
  "not_private x \<longleftrightarrow> (\<forall>p is_static. x \<noteq> Private p is_static)"

lemma private_of_same: "not_private (ts t) \<Longrightarrow> not_private x \<Longrightarrow> private_of (ts(t := x)) = private_of ts"
  by (auto simp: private_of_def not_private_def split: if_splits) metis

lemma private_of_add: "not_private (ts t) \<Longrightarrow> private_of (ts(t := Private p is_static)) = insert p (private_of ts)"
  by (auto simp: private_of_def not_private_def split: if_splits) metis+

lemma private_of_remove:
  assumes "ts t = Private p is_static" "\<forall>u st. ts u = Private p st \<longrightarrow> u = t"
  shows "private_of ts = insert p (private_of (ts(t := Idle))) \<and> p \<notin> private_of (ts(t := Idle))"
  using assms by (auto simp: private_of_def split: if_splits) (metis buf_thread.inject(2))

text \<open>A step that changes neither a private buffer nor the set of them.\<close>

lemma buf_inv_world:
  assumes "buf_inv s" "table_inv w (private_of (threads s))" "refs_inv w h (private_of (threads s))"
    "keeps_contents (world s) w X" "X \<inter> private_of (threads s) = {}"
  shows "buf_inv (s\<lparr>world := w, handles := h\<rparr>)"
proof -
  have "contents w p = contents (world s) p" if "threads s t = Private p is_static" for t p is_static
  proof -
    have "p \<in> private_of (threads s)"
      using that by (auto simp: private_of_def)
    then show ?thesis
      using assms by (auto simp: keeps_contents_def)
  qed
  then show ?thesis
    using assms by (auto simp: buf_inv_def)
qed

lemma buf_inv_thread:
  assumes inv: "buf_inv s" and t: "not_private (threads s t)" "not_private x" "\<forall>data st. x = Missed data st \<longrightarrow> length data < 2 ^ 64"
  shows "buf_inv (s\<lparr>threads := (threads s)(t := x)\<rparr>)"
  using inv t by (auto simp: buf_inv_def private_of_same) (auto simp: not_private_def)

lemma buf_inv_make:
  assumes mal: "libc_malloc malloc" and inv: "buf_inv s" and t: "threads s t = Missed data is_static"
    and fresh: "heap (world s) p = None" "p \<noteq> 0"
    and mk: "crypto_buffer_make malloc (Some p) data is_static True (world s) = (Some p, w)"
  shows "buf_inv (s\<lparr>world := w, threads := (threads s)(t := Private p is_static)\<rparr>)"
proof -
  let ?P = "private_of (threads s)"
  have tbl: "table_inv (world s) ?P" "refs_inv (world s) (handles s) ?P" "length data < 2 ^ 64"
    using inv t by (auto simp: buf_inv_def)
  from crypto_buffer_make_ok [OF mal tbl fresh, of is_static True] mk
  obtain b where w: "heap w = (heap (world s))(p \<mapsto> b)" "data_is_static b = is_static" "p \<notin> ?P"
    "table_inv w (insert p ?P)" "refs_inv w (handles s) (insert p ?P)"
    by (auto split: if_splits)
  have P: "private_of ((threads s)(t := Private p is_static)) = insert p ?P"
    using t by (intro private_of_add) (simp add: not_private_def)
  have "threads s u \<noteq> Private p st" for u st
    using w(3) by (auto simp: private_of_def)
  then show ?thesis
    using inv w P by (auto simp: buf_inv_def contents_def)
qed

lemma buf_invD:
  assumes "buf_inv s"
  shows "table_inv (world s) (private_of (threads s))"
    and "refs_inv (world s) (handles s) (private_of (threads s))"
    and "threads s t = Private p is_static \<Longrightarrow> map_option snd (contents (world s) p) = Some is_static"
    and "threads s t = Private p is_static \<Longrightarrow> threads s u = Private p st \<Longrightarrow> u = t"
  using assms unfolding buf_inv_def by blast+

lemma private_publishable:
  assumes inv: "buf_inv s" and t: "threads s t = Private p is_static"
  obtains r w P b where "P = private_of ((threads s)(t := Idle))" "private_of (threads s) = insert p P" "p \<notin> P"
    "crypto_buffer_publish malloc p is_static (world s) = Some (r, w)" "table_inv w P"
    "refs_inv w (owned (handles s) r) P" "keeps_contents (world s) w {p}"
proof -
  let ?P = "private_of ((threads s)(t := Idle))"
  have P: "private_of (threads s) = insert p ?P" "p \<notin> ?P"
    using private_of_remove [of "threads s" t p is_static, OF t] buf_invD(4) [OF inv t] by blast+
  have tbl: "table_inv (world s) (insert p ?P)" "refs_inv (world s) (handles s) (insert p ?P)"
    using buf_invD(1,2) [OF inv] unfolding P(1) .
  obtain b where b: "heap (world s) p = Some b" "data_is_static b = is_static"
    using buf_invD(3) [OF inv t] by (auto simp: contents_def)
  show ?thesis
    by (rule crypto_buffer_publish_ok [OF tbl P(2) b, of malloc]) (rule that [OF refl P])
qed

lemma buf_inv_publish:
  assumes inv: "buf_inv s" and t: "threads s t = Private p is_static"
    and pub: "crypto_buffer_publish malloc p is_static (world s) = Some (r, w)"
  shows "buf_inv (s\<lparr>world := w, threads := (threads s)(t := Idle), handles := owned (handles s) r\<rparr>)"
proof -
  let ?P = "private_of ((threads s)(t := Idle))"
  have w: "table_inv w ?P \<and> refs_inv w (owned (handles s) r) ?P \<and> keeps_contents (world s) w {p} \<and> p \<notin> ?P"
    by (rule private_publishable [OF inv t, of malloc]) (use pub in simp)
  have keep: "contents w q = contents (world s) q" if "((threads s)(t := Idle)) u = Private q st" for u q st
  proof -
    have "q \<in> ?P"
      using that unfolding private_of_def by blast
    then have "q \<noteq> p"
      using w by blast
    then show ?thesis
      using w by (simp add: keeps_contents_def)
  qed
  have "map_option snd (contents w q) = Some st" "((threads s)(t := Idle)) v = Private q st' \<Longrightarrow> v = u"
    if "((threads s)(t := Idle)) u = Private q st" for u q st v st'
    using that keep [OF that] buf_invD(3) [OF inv, of u q st] buf_invD(4) [OF inv, of u q st v st'] by (auto split: if_splits)
  moreover have "length data < 2 ^ 64" if "((threads s)(t := Idle)) u = Missed data st" for u data st
    using that inv by (auto simp: buf_inv_def split: if_splits)
  ultimately show ?thesis
    unfolding buf_inv_def using w by simp
qed

lemma new_without_pool_ok:
  assumes mal: "libc_malloc malloc" and tbl: "table_inv w P" and refs: "refs_inv w h P" and len: "length data < 2 ^ 64"
    and fresh: "heap w p = None" "p \<noteq> 0"
    and nw: "crypto_buffer_new malloc (Some p) data is_static False w = Some (r, w')"
  shows "table_inv w' P \<and> refs_inv w' (owned h r) P \<and> keeps_contents w w' {p}"
proof (cases rule: crypto_buffer_make_ok [OF mal tbl refs len fresh, of is_static False])
  case 1
  then have "r = None" "w' = w"
    using nw by (auto simp: crypto_buffer_new_def)
  then show ?thesis
    using tbl refs by (simp add: owned_def keeps_contents_def)
next
  case (2 w1 b)
  then have "r = Some p" "w' = w1"
    using nw by (auto simp: crypto_buffer_new_def)
  then show ?thesis
    using 2 by (simp add: owned_def keeps_contents_def contents_def)
qed

lemma fresh_not_private:
  "buf_inv s \<Longrightarrow> heap (world s) p = None \<Longrightarrow> {p} \<inter> private_of (threads s) = {}"
  by (fastforce simp: buf_inv_def refs_inv_def)

lemma owned_not_private: "buf_inv s \<Longrightarrow> 0 < handles s p \<Longrightarrow> {p} \<inter> private_of (threads s) = {}"
  by (auto simp: buf_inv_def refs_inv_def)

lemma buf_inv_step:
  assumes mal: "libc_malloc malloc" and inv: "buf_inv s" and step: "buf_step malloc s s'"
  shows "buf_inv s'"
proof -
  have tbl: "table_inv (world s) (private_of (threads s))" and refs: "refs_inv (world s) (handles s) (private_of (threads s))"
    using buf_invD(1,2) [OF inv] .
  from step show ?thesis
  proof cases
    case (lookup_hit t data is_static q w)
    have "table_inv w (private_of (threads s)) \<and> refs_inv w (owned (handles s) (Some q)) (private_of (threads s)) \<and>
        keeps_contents (world s) w {}"
      by (rule crypto_buffer_lookup_ok [OF tbl refs, of data is_static]) (use lookup_hit(4) in \<open>simp_all add: owned_def\<close>)
    then show ?thesis
      unfolding lookup_hit(1) by (intro buf_inv_world [OF inv, where X = "{}"]) simp_all
  next
    case (lookup_miss t data is_static w)
    have "w = world s"
      by (rule crypto_buffer_lookup_ok [OF tbl refs, of data is_static]) (use lookup_miss(4) in simp_all)
    then show ?thesis
      using buf_inv_thread [OF inv, of t "Missed data is_static"] lookup_miss by (simp add: not_private_def)
  next
    case (make t data is_static p w)
    show ?thesis
      unfolding make(1) using make by (intro buf_inv_make [OF mal inv])
  next
    case (make_fails t data is_static p addr w)
    then have "w = world s"
      by (auto simp: crypto_buffer_make_def Let_def split: if_splits)
    then show ?thesis
      using buf_inv_thread [OF inv, of t Idle] make_fails by (simp add: not_private_def)
  next
    case (publish t p is_static r w)
    show ?thesis
      unfolding publish(1) using publish by (intro buf_inv_publish [OF inv])
  next
    case (new_without_pool p data is_static r w)
    show ?thesis
      unfolding new_without_pool(1)
      using new_without_pool_ok [OF mal tbl refs new_without_pool(4,2,3,5)] fresh_not_private [OF inv, of p] new_without_pool(2)
      by (intro buf_inv_world [OF inv, where X = "{p}"]) simp_all
  next
    case (alloc p len r w)
    show ?thesis
      unfolding alloc(1)
      using CRYPTO_BUFFER_alloc_ok [OF tbl refs alloc(2-4)] fresh_not_private [OF inv, of p] alloc(2)
      by (intro buf_inv_world [OF inv, where X = "{p}"]) simp_all
  next
    case (up_ref p w)
    obtain b where "heap (world s) p = Some b" "p \<notin> private_of (threads s)"
      using refs up_ref by (fastforce simp: refs_inv_def)
    from up_ref_ok [OF tbl refs this] up_ref(3) show ?thesis
      unfolding up_ref(1) by (intro buf_inv_world [OF inv, where X = "{}"]) (auto simp: owned_def)
  next
    case (free p w)
    have "table_inv w (private_of (threads s)) \<and>
        refs_inv w ((handles s)(p := handles s p - 1)) (private_of (threads s)) \<and> keeps_contents (world s) w {p}"
      by (rule CRYPTO_BUFFER_free_ok [OF tbl refs free(2), of malloc]) (use free(3) in simp_all)
    then show ?thesis
      unfolding free(1) using owned_not_private [OF inv free(2)]
      by (intro buf_inv_world [OF inv, where X = "{p}"]) simp_all
  qed
qed

lemma buf_inv_reachable:
  assumes "libc_malloc malloc" "buf_reachable malloc s"
  shows "buf_inv s"
  using assms(2)
proof induction
  case (start rand pl)
  then have "lh_ok (CRYPTO_BUFFER_hash (hash_key pl)) CRYPTO_BUFFER_cmp (bufs pl) \<and> lh_elems (bufs pl) = {#}"
    using buf_table.lh_new_ok [where key = rand] by (auto simp: CRYPTO_BUFFER_POOL_new_def split: option.splits)
  then show ?case
    by (auto simp: buf_inv_def table_inv_def refs_inv_def private_of_def)
next
  case (next_step s s')
  then show ?case
    using buf_inv_step [OF assms(1)] by blast
qed

lemma owned_live:
  assumes "refs_inv w h P" "0 < h p"
  shows "\<exists>b. heap w p = Some b \<and> references b \<noteq> 0 \<and> p \<notin> P"
proof -
  have "heap w p \<noteq> None \<and> p \<notin> P"
    using assms unfolding refs_inv_def by blast
  then obtain b where b: "heap w p = Some b" "p \<notin> P"
    by blast
  then have "references b \<noteq> 0"
    using assms(1) unfolding refs_inv_def by blast
  with b show ?thesis
    by blast
qed

text \<open>C28: however the threads interleave, a buffer that a caller holds a reference to is allocated and its count is
  not zero, and no operation the callers may run follows a pointer to a freed buffer or aborts: not a
  lookup of any contents, not the publication of a buffer a thread has allocated, not taking another
  reference and not releasing one.\<close>

theorem CRYPTO_BUFFER_no_dangling:
  assumes "libc_malloc malloc" "buf_reachable malloc s"
  shows "(0 < handles s p \<longrightarrow> (\<exists>b. heap (world s) p = Some b \<and> references b \<noteq> 0) \<and>
      CRYPTO_BUFFER_up_ref p (world s) \<noteq> None \<and> CRYPTO_BUFFER_free malloc p (world s) \<noteq> None) \<and>
    crypto_buffer_lookup data is_static (world s) \<noteq> None \<and>
    (threads s t = Private q is_static \<longrightarrow> crypto_buffer_publish malloc q is_static (world s) \<noteq> None)"
proof -
  have inv: "buf_inv s"
    using buf_inv_reachable [OF assms] .
  note parts = buf_invD(1,2) [OF inv]
  have "CRYPTO_BUFFER_free malloc p (world s) \<noteq> None" if "0 < handles s p"
    by (rule CRYPTO_BUFFER_free_ok [OF parts that, of malloc]) simp
  moreover have "crypto_buffer_lookup data is_static (world s) \<noteq> None"
    by (rule crypto_buffer_lookup_ok [OF parts, of data is_static]) simp_all
  moreover have "crypto_buffer_publish malloc q is_static (world s) \<noteq> None" if "threads s t = Private q is_static"
    by (rule private_publishable [OF inv that, of malloc]) simp
  ultimately show ?thesis
    using owned_live [OF parts(2), of p] by (auto simp: CRYPTO_BUFFER_up_ref_def)
qed

lemma step_keeps_contents:
  assumes mal: "libc_malloc malloc" and inv: "buf_inv s" and step: "buf_step malloc s s'"
    and own: "0 < handles s p" "0 < handles s' p"
  shows "contents (world s') p = contents (world s) p"
proof -
  note parts = buf_invD(1,2) [OF inv]
  obtain b where b: "heap (world s) p = Some b" "p \<notin> private_of (threads s)"
    using owned_live [OF parts(2) own(1)] by blast
  from step show ?thesis
  proof cases
    case (lookup_hit t data is_static q w)
    have "keeps_contents (world s) w {}"
      by (rule crypto_buffer_lookup_ok [OF parts, of data is_static]) (use lookup_hit(4) in simp_all)
    then show ?thesis
      using lookup_hit(1) by (simp add: keeps_contents_def)
  next
    case (lookup_miss t data is_static w)
    have "w = world s"
      by (rule crypto_buffer_lookup_ok [OF parts, of data is_static]) (use lookup_miss(4) in simp_all)
    then show ?thesis
      using lookup_miss(1) by simp
  next
    case (make t data is_static q w)
    then show ?thesis
      using b by (auto simp: crypto_buffer_make_def contents_def Let_def split: if_splits)
  next
    case (make_fails t data is_static q addr w)
    then show ?thesis
      by (auto simp: crypto_buffer_make_def Let_def split: if_splits)
  next
    case (publish t q is_static r w)
    have "keeps_contents (world s) w {q} \<and> q \<in> private_of (threads s)"
      by (rule private_publishable [OF inv publish(2), of malloc]) (use publish(3) in simp)
    then show ?thesis
      using publish(1) b(2) by (auto simp: keeps_contents_def)
  next
    case (new_without_pool q data is_static r w)
    then have "p \<noteq> q"
      using b by auto
    then show ?thesis
      using new_without_pool_ok [OF mal parts new_without_pool(4,2,3,5)] new_without_pool(1)
      by (simp add: keeps_contents_def)
  next
    case (alloc q len r w)
    then have "p \<noteq> q"
      using b by auto
    then show ?thesis
      using CRYPTO_BUFFER_alloc_ok [OF parts alloc(2-4)] alloc(1) by (simp add: keeps_contents_def)
  next
    case (up_ref q w)
    then show ?thesis
      using b by (auto simp: CRYPTO_BUFFER_up_ref_def contents_def bind_eq_Some_conv)
  next
    case (free q w)
    have "keeps_contents (world s) w {q} \<and> (1 < handles s q \<longrightarrow> contents w q = contents (world s) q)"
      by (rule CRYPTO_BUFFER_free_ok [OF parts free(2), of malloc]) (use free(3) in simp)
    then show ?thesis
      using free(1) own by (cases "p = q") (auto simp: keeps_contents_def)
  qed
qed

text \<open>C29: the bytes of a buffer, and whether they are static, stay the same as long as a caller holds a reference to
  it, whatever the other threads do.\<close>

theorem CRYPTO_BUFFER_immutable:
  assumes "libc_malloc malloc" "buf_reachable malloc s" "buf_step malloc s s'" "0 < handles s p" "0 < handles s' p"
  shows "contents (world s') p = contents (world s) p"
  using step_keeps_contents [OF assms(1) buf_inv_reachable [OF assms(1,2)] assms(3-5)] .

text \<open>C30: when every reference has been released and no thread is inside \<open>crypto_buffer_new\<close>, no buffer is leaked
  and the pool is empty, which is what \<open>CRYPTO_BUFFER_POOL_free\<close> asserts. A buffer whose count has
  saturated is the exception: it is never freed.\<close>

theorem CRYPTO_BUFFER_POOL_free_empty:
  assumes "libc_malloc malloc" "buf_reachable malloc s"
    and "\<forall>p. handles s p = 0" "\<forall>t. threads s t = Idle"
    and "\<forall>p b. heap (world s) p = Some b \<longrightarrow> references b \<noteq> CRYPTO_REFCOUNT_MAX"
  shows "heap (world s) = (\<lambda>_. None) \<and> CRYPTO_BUFFER_POOL_free_assert (pool (world s))"
proof -
  have P: "private_of (threads s) = {}"
    using assms(4) by (simp add: private_of_def)
  have tbl: "table_inv (world s) {}" and refs: "refs_inv (world s) (handles s) {}"
    using buf_invD(1,2) [OF buf_inv_reachable [OF assms(1,2)]] by (simp_all add: P)
  have heap: "heap (world s) p = None" for p
  proof (cases "heap (world s) p")
    case (Some b)
    then have "references b \<noteq> 0 \<and> unat (references b) = handles s p"
      using refs assms(5) by (auto simp: refs_inv_def)
    then show ?thesis
      using assms(3) by (simp add: unat_eq_zero)
  qed
  have "x \<notin># lh_elems (bufs (pool (world s)))" for x
    using table_entry [OF tbl, of "fst x" "snd x"] heap by auto
  then have "lh_elems (bufs (pool (world s))) = {#}"
    by (simp add: multiset_eq_iff not_in_iff)
  then have "unat (num_items (bufs (pool (world s)))) = 0"
    using tbl by (simp add: table_inv_def lh_ok_def)
  then show ?thesis
    using heap by (auto simp: CRYPTO_BUFFER_POOL_free_assert_def OPENSSL_lh_num_items_def unat_eq_zero)
qed

lemma lookup_shared:
  assumes tbl: "table_inv w P" and q: "(q, data) \<in># lh_elems (bufs (pool w))" "heap w q = Some b" "is_static \<longrightarrow> data_is_static b"
  shows "\<exists>w'. crypto_buffer_lookup data is_static w = Some (Some q, w')"
proof -
  have "bufs_retrieve (pool w) (0, data) = Some (q, data)"
    using bufs_retrieve_iff [OF tbl] q by simp
  then show ?thesis
    using q by (simp add: crypto_buffer_lookup_def find_duplicate_def CRYPTO_BUFFER_up_ref_def)
qed

text \<open>A request on a pool leaves the invariant, and the pool holds the buffer it returns.\<close>

lemma new_pooled_ok:
  assumes mal: "libc_malloc malloc" and tbl: "table_inv w P" and refs: "refs_inv w h P" and len: "length data < 2 ^ 64"
    and fresh: "heap w p = None" "p \<noteq> 0"
    and nw: "crypto_buffer_new malloc (Some p) data is_static True w = Some (r, w')"
  shows "table_inv w' P \<and> refs_inv w' (owned h r) P \<and>
    (\<forall>q. r = Some q \<longrightarrow> (q, data) \<in># lh_elems (bufs (pool w')) \<and>
       (\<exists>b. heap w' q = Some b \<and> buf_data b = data \<and> (is_static \<longrightarrow> data_is_static b)))"
proof (cases rule: crypto_buffer_lookup_ok [OF tbl refs, of data is_static])
  case miss: 1
  show ?thesis
  proof (cases rule: crypto_buffer_make_ok [OF mal tbl refs len fresh, of is_static True])
    case 1
    then show ?thesis
      using nw miss tbl refs by (auto simp: crypto_buffer_new_def owned_def)
  next
    case (2 w1 b)
    then have pub: "crypto_buffer_publish malloc p is_static w1 = Some (r, w')"
      using nw miss by (simp add: crypto_buffer_new_def)
    have w1: "table_inv w1 (insert p P)" "refs_inv w1 h (insert p P)" "heap w1 p = Some b"
      using 2 by simp_all
    show ?thesis
      by (rule crypto_buffer_publish_ok [OF w1(1,2) 2(5) w1(3) 2(4), of malloc]) (use pub 2(3) in auto)
  qed
next
  case (2 q' w1 b)
  then show ?thesis
    using nw by (auto simp: crypto_buffer_new_def owned_def)
qed

text \<open>A request for static data ignores an entry that is not static: it returns its own buffer or fails.\<close>

lemma publish_unmatched:
  assumes "heap w p = Some b" "find_duplicate is_static (p, buf_data b) w = Some None"
  shows "\<exists>r w'. crypto_buffer_publish malloc p is_static w = Some (r, w') \<and> (r = None \<or> r = Some p)"
  using assms by (auto simp: crypto_buffer_publish_def Let_def split: prod.splits)

lemma new_replaces:
  assumes tbl: "table_inv w P" and refs: "refs_inv w h P"
    and q: "(q, data) \<in># lh_elems (bufs (pool w))" "heap w q = Some b" "\<not> data_is_static b"
    and fresh: "heap w p = None" "p \<noteq> 0"
  shows "\<exists>r w'. crypto_buffer_new malloc (Some p) data True True w = Some (r, w') \<and> (r = None \<or> r = Some p)"
proof -
  let ?b = "\<lparr>buf_pool = True, buf_data = data, references = 1, data_is_static = True\<rparr>"
  let ?w = "w\<lparr>heap := (heap w)(p \<mapsto> ?b)\<rparr>"
  have ret: "bufs_retrieve (pool w) (x, data) = Some (q, data)" for x
    using bufs_retrieve_iff [OF tbl] q by simp
  have miss: "crypto_buffer_lookup data True w = Some (None, w)"
    using q by (simp add: crypto_buffer_lookup_def find_duplicate_def ret)
  have mk: "crypto_buffer_make malloc (Some p) data True True w = (Some p, ?w)"
    by (simp add: crypto_buffer_make_def)
  have "q \<noteq> p" using q fresh by auto
  then have "find_duplicate True (p, buf_data ?b) ?w = Some None"
    using q by (simp add: find_duplicate_def ret)
  then show ?thesis
    using publish_unmatched [of ?w p ?b True malloc] by (simp add: crypto_buffer_new_def miss mk)
qed

text \<open>C31: a buffer \<open>q\<close> that \<open>crypto_buffer_new\<close> returns for a pool holds the requested bytes, static ones if static data
  was requested. The next request for the same bytes gets the same buffer, unless it asks for static data
  and \<open>q\<close> is not static. Such a request returns another buffer of static data, which takes the place of
  \<open>q\<close> in the pool, or fails.\<close>

theorem crypto_buffer_new_shares:
  assumes mal: "libc_malloc malloc" and reach: "buf_reachable malloc s" and len: "length data < 2 ^ 64"
    and fresh: "heap (world s) p = None" "p \<noteq> 0"
    and nw: "crypto_buffer_new malloc (Some p) data is_static True (world s) = Some (Some q, w')"
    and fresh': "heap w' p' = None" "p' \<noteq> 0"
  shows "\<exists>st r w''. contents w' q = Some (data, st) \<and> (is_static \<longrightarrow> st) \<and>
    crypto_buffer_new malloc (Some p') data again True w' = Some (r, w'') \<and>
    (if again \<and> \<not> st
     then r \<noteq> Some q \<and> (\<forall>q'. r = Some q' \<longrightarrow> contents w'' q' = Some (data, True) \<and>
       (\<exists>w3. crypto_buffer_lookup data again' w'' = Some (Some q', w3)))
     else r = Some q)"
proof -
  let ?P = "private_of (threads s)"
  note parts = buf_invD(1,2) [OF buf_inv_reachable [OF mal reach]]
  obtain b where w': "table_inv w' ?P" "refs_inv w' (owned (handles s) (Some q)) ?P"
    "(q, data) \<in># lh_elems (bufs (pool w'))" "heap w' q = Some b" "buf_data b = data" "is_static \<longrightarrow> data_is_static b"
    using new_pooled_ok [OF mal parts len fresh nw] by blast
  have q: "contents w' q = Some (data, data_is_static b)"
    using w' by (simp add: contents_def)
  show ?thesis
  proof (cases "again \<and> \<not> data_is_static b")
    case True
    obtain r w'' where r: "crypto_buffer_new malloc (Some p') data True True w' = Some (r, w'')" "r = None \<or> r = Some p'"
      using new_replaces [OF w'(1-4) _ fresh', of malloc] True by blast
    note after = new_pooled_ok [OF mal w'(1,2) len fresh' r(1)]
    have "contents w'' q' = Some (data, True) \<and> (\<exists>w3. crypto_buffer_lookup data again' w'' = Some (Some q', w3))"
      if "r = Some q'" for q'
      using after that lookup_shared [of w'' ?P q' data _ again'] by (force simp: contents_def)
    moreover have "r \<noteq> Some q" using r(2) w'(4) fresh' by auto
    ultimately show ?thesis using q w'(6) r(1) True by auto
  next
    case False
    then obtain w'' where "crypto_buffer_lookup data again w' = Some (Some q, w'')"
      using lookup_shared [OF w'(1,3,4), of again] by blast
    then have "crypto_buffer_new malloc (Some p') data again True w' = Some (Some q, w'')"
      by (simp add: crypto_buffer_new_def)
    then show ?thesis using q w'(6) False by auto
  qed
qed

subsection \<open>A run\<close>

text \<open>A fresh pool, and one buffer of static data that belongs to no pool.\<close>

definition demo_start :: buf_system where
  "demo_start = \<lparr>world = \<lparr>pool = the (CRYPTO_BUFFER_POOL_new (bounded_malloc 4096) (1, 2)), heap = (\<lambda>_. None)\<rparr>,
     threads = (\<lambda>_. Idle), handles = (\<lambda>_. 0)\<rparr>"

definition demo_buffer :: CRYPTO_BUFFER where
  "demo_buffer = \<lparr>buf_pool = False, buf_data = [1, 2, 3], references = 1, data_is_static = True\<rparr>"

definition demo_held :: buf_system where
  "demo_held = demo_start\<lparr>world := (world demo_start)\<lparr>heap := [16 \<mapsto> demo_buffer]\<rparr>, handles := (\<lambda>_. 0)(16 := 1)\<rparr>"

definition demo_shared :: buf_system where
  "demo_shared = demo_start\<lparr>world := (world demo_start)\<lparr>heap := [16 \<mapsto> demo_buffer\<lparr>references := 2\<rparr>]\<rparr>,
     handles := (\<lambda>_. 0)(16 := 2)\<rparr>"

lemma demo_pool: "\<exists>pl. CRYPTO_BUFFER_POOL_new (bounded_malloc 4096) (1, 2) = Some pl"
  by (simp add: CRYPTO_BUFFER_POOL_new_def OPENSSL_lh_new_def OPENSSL_zalloc_def OPENSSL_calloc_def OPENSSL_malloc_def
      bounded_malloc_def OPENSSL_MALLOC_PREFIX_def sizeof_CRYPTO_BUFFER_POOL_def sizeof_LHASH_def kMinNumBuckets_def)

lemma demo_start_reachable: "buf_reachable (bounded_malloc 4096) demo_start"
  using demo_pool unfolding demo_start_def by (auto intro: buf_reachable.start)

lemma demo_held_step: "buf_step (bounded_malloc 4096) demo_start demo_held"
proof -
  have "buf_step (bounded_malloc 4096) demo_start
      (demo_start\<lparr>world := (world demo_start)\<lparr>heap := [16 \<mapsto> demo_buffer]\<rparr>,
         handles := owned (handles demo_start) (Some 16)\<rparr>)"
    by (rule buf_step.new_without_pool [where data = "[1, 2, 3]" and is_static = True])
      (simp_all add: demo_start_def crypto_buffer_new_def crypto_buffer_make_def demo_buffer_def)
  then show ?thesis
    by (simp add: demo_held_def owned_def demo_start_def)
qed

lemma demo_held_reachable: "buf_reachable (bounded_malloc 4096) demo_held"
  by (rule buf_reachable.next_step [OF demo_start_reachable demo_held_step])

lemma demo_shared_step: "buf_step (bounded_malloc 4096) demo_held demo_shared"
proof -
  have "buf_step (bounded_malloc 4096) demo_held
      (demo_held\<lparr>world := (world demo_start)\<lparr>heap := [16 \<mapsto> demo_buffer\<lparr>references := 2\<rparr>]\<rparr>,
         handles := owned (handles demo_held) (Some 16)\<rparr>)"
    by (rule buf_step.up_ref)
      (simp_all add: demo_held_def CRYPTO_BUFFER_up_ref_def demo_buffer_def CRYPTO_refcount_inc_def CRYPTO_REFCOUNT_MAX_def)
  then show ?thesis
    by (simp add: demo_held_def demo_shared_def owned_def demo_start_def numeral_2_eq_2)
qed

theorem CRYPTO_BUFFER_no_dangling_witness:
  "(\<exists>b. heap (world demo_held) 16 = Some b \<and> references b \<noteq> 0) \<and>
    CRYPTO_BUFFER_free (bounded_malloc 4096) 16 (world demo_held) \<noteq> None"
  using CRYPTO_BUFFER_no_dangling [OF bounded.libc_malloc_axioms demo_held_reachable, of 16]
  by (simp add: demo_held_def)

theorem CRYPTO_BUFFER_immutable_witness:
  "contents (world demo_shared) 16 = contents (world demo_held) 16 \<and> contents (world demo_held) 16 = Some ([1, 2, 3], True)"
  using CRYPTO_BUFFER_immutable [OF bounded.libc_malloc_axioms demo_held_reachable demo_shared_step, of 16]
  by (simp add: demo_held_def demo_shared_def contents_def demo_buffer_def)

theorem CRYPTO_BUFFER_POOL_free_empty_witness:
  "buf_reachable (bounded_malloc 4096) demo_start \<and> CRYPTO_BUFFER_POOL_free_assert (pool (world demo_start))"
  using CRYPTO_BUFFER_POOL_free_empty [OF bounded.libc_malloc_axioms demo_start_reachable] demo_start_reachable
  by (simp add: demo_start_def)

lemma demo_new:
  "\<exists>w. crypto_buffer_new (bounded_malloc 4096) (Some 16) [1, 2, 3] True True (world demo_start) = Some (Some 16, w) \<and>
     heap w 32 = None"
proof -
  note parts = buf_invD(1,2) [OF buf_inv_reachable [OF bounded.libc_malloc_axioms demo_start_reachable]]
  let ?w = "(world demo_start)\<lparr>heap := [16 \<mapsto> demo_buffer\<lparr>buf_pool := True\<rparr>]\<rparr>"
  have empty: "lh_elems (bufs (pool (world demo_start))) = {#}"
    using demo_pool buf_table.lh_new_ok by (auto simp: demo_start_def CRYPTO_BUFFER_POOL_new_def split: option.splits)
  then have none: "bufs_retrieve (pool (world demo_start)) (r, d) = None" for r d
    using bufs_retrieve_iff [OF parts(1), of r d] by (cases "bufs_retrieve (pool (world demo_start)) (r, d)") auto
  then have "OPENSSL_lh_retrieve (CRYPTO_BUFFER_hash (hash_key (pool ?w))) CRYPTO_BUFFER_cmp (bufs (pool ?w)) (16, [1, 2, 3]) = None"
    by (simp add: bufs_retrieve_def)
  then have "fst (OPENSSL_lh_insert (bounded_malloc 4096) (CRYPTO_BUFFER_hash (hash_key (pool ?w))) CRYPTO_BUFFER_cmp
      (bufs (pool ?w)) (16, [1, 2, 3]))"
    by (auto simp: OPENSSL_lh_insert_def OPENSSL_lh_retrieve_def OPENSSL_malloc_def bounded_malloc_def sizeof_LHASH_ITEM_def
        OPENSSL_MALLOC_PREFIX_def Let_def split: prod.splits option.splits)
  then have "\<exists>w. crypto_buffer_publish (bounded_malloc 4096) 16 True ?w = Some (Some 16, w) \<and> heap w 32 = None"
    using none by (auto simp: crypto_buffer_publish_def find_duplicate_def demo_buffer_def Let_def split: prod.splits)
  moreover have "heap (world demo_start) = (\<lambda>_. None)"
    by (simp add: demo_start_def)
  ultimately show ?thesis
    using none by (simp add: crypto_buffer_new_def crypto_buffer_lookup_def find_duplicate_def crypto_buffer_make_def demo_buffer_def)
qed

theorem crypto_buffer_new_shares_witness:
  "\<exists>w w'. crypto_buffer_new (bounded_malloc 4096) (Some 16) [1, 2, 3] True True (world demo_start) = Some (Some 16, w) \<and>
     contents w 16 = Some ([1, 2, 3], True) \<and>
     crypto_buffer_new (bounded_malloc 4096) (Some 32) [1, 2, 3] False True w = Some (Some 16, w')"
proof -
  obtain w where w: "crypto_buffer_new (bounded_malloc 4096) (Some 16) [1, 2, 3] True True (world demo_start) = Some (Some 16, w)"
    "heap w 32 = None"
    using demo_new by blast
  show ?thesis
    using crypto_buffer_new_shares [OF bounded.libc_malloc_axioms demo_start_reachable _ _ _ w(1), of 32 False] w
    by (auto simp: demo_start_def)
qed

text \<open>The table of the fresh pool.\<close>

lemma demo_table:
  "lh_ok (CRYPTO_BUFFER_hash (1, 2)) CRYPTO_BUFFER_cmp (bufs (pool (world demo_start))) \<and>
   OPENSSL_lh_num_items (bufs (pool (world demo_start))) = 0"
proof -
  obtain pl where pl: "CRYPTO_BUFFER_POOL_new (bounded_malloc 4096) (1, 2) = Some pl"
    using demo_pool by blast
  then have new: "OPENSSL_lh_new (bounded_malloc 4096) = Some (bufs pl)"
    by (auto simp: CRYPTO_BUFFER_POOL_new_def split: option.splits)
  then have "lh_ok (CRYPTO_BUFFER_hash (1, 2)) CRYPTO_BUFFER_cmp (bufs pl)" "lh_elems (bufs pl) = {#}"
    using buf_table.lh_new_ok [OF new, of "(1, 2)"] by simp_all
  then show ?thesis
    by (simp add: demo_start_def pl OPENSSL_lh_num_items_def lh_ok_def unat_eq_zero)
qed

theorem OPENSSL_lh_map_witness:
  "case OPENSSL_lh_insert (bounded_malloc 4096) (CRYPTO_BUFFER_hash (1, 2)) CRYPTO_BUFFER_cmp
      (bufs (pool (world demo_start))) (16, [1, 2, 3]) of (r, old, lh') \<Rightarrow>
    lh_ok (CRYPTO_BUFFER_hash (1, 2)) CRYPTO_BUFFER_cmp lh' \<and>
    (r \<longrightarrow> OPENSSL_lh_retrieve (CRYPTO_BUFFER_hash (1, 2)) CRYPTO_BUFFER_cmp lh' (32, [1, 2, 3]) = Some (16, [1, 2, 3]))"
  using OPENSSL_lh_map [where hash = "CRYPTO_BUFFER_hash (1, 2)" and cmp = CRYPTO_BUFFER_cmp
      and lh = "bufs (pool (world demo_start))" and malloc = "bounded_malloc 4096"
      and d = "(16, [1, 2, 3])" and x = "(32, [1, 2, 3])"] buf_table.lhash_callbacks_axioms [of "(1, 2)"] demo_table
  by (simp add: CRYPTO_BUFFER_cmp_eq_0 split: prod.splits)

end
