(* ===== verification/Unicode.thy ===== *)
theory Unicode
  imports CbbDer
begin

text \<open>
  Code points and their encodings, \<open>crypto/bytestring/unicode.cc\<close>. The reference is the table of the UTF-8 form
  in the Unicode standard, on numbers.
\<close>

unbundle bit_operations_syntax

subsection \<open>The program\<close>

definition is_valid_code_point :: "u32 \<Rightarrow> bool" where
  "is_valid_code_point v \<longleftrightarrow>
     \<not> (v > 0x10ffff \<or> v AND 0xfffe = 0xfffe \<or> (v \<ge> 0xfdd0 \<and> v \<le> 0xfdef) \<or> (v \<ge> 0xd800 \<and> v \<le> 0xdfff))"

definition BOTTOM_BITS :: "nat \<Rightarrow> u8" where
  "BOTTOM_BITS n = ucast (push_bit n (1 :: u32) - 1)"

definition TOP_BITS :: "nat \<Rightarrow> u8" where
  "TOP_BITS n = NOT (BOTTOM_BITS (8 - n))"

fun get_utf8_loop :: "nat \<Rightarrow> u32 \<Rightarrow> CBS \<Rightarrow> (u32 \<times> CBS) option" where
  "get_utf8_loop 0 v cbs = Some (v, cbs)"
| "get_utf8_loop (Suc i) v cbs = do {
     (c, cbs) \<leftarrow> CBS_get_u8 cbs;
     if c AND TOP_BITS 2 \<noteq> TOP_BITS 1 then None
     else get_utf8_loop i (push_bit 6 v OR ucast (c AND BOTTOM_BITS 6)) cbs
   }"

definition CBS_get_utf8 :: "CBS \<Rightarrow> (u32 \<times> CBS) option" where
  "CBS_get_utf8 cbs = do {
     (c, cbs) \<leftarrow> CBS_get_u8 cbs;
     if c \<le> 0x7f then Some (ucast c, cbs)
     else do {
       (v, len, lower_bound) \<leftarrow>
         (if c AND TOP_BITS 3 = TOP_BITS 2 then Some (ucast (c AND BOTTOM_BITS 5), 1, 0x80)
          else if c AND TOP_BITS 4 = TOP_BITS 3 then Some (ucast (c AND BOTTOM_BITS 4), 2, 0x800)
          else if c AND TOP_BITS 5 = TOP_BITS 4 then Some (ucast (c AND BOTTOM_BITS 3), 3, 0x10000)
          else None);
       (v, cbs) \<leftarrow> get_utf8_loop len v cbs;
       if \<not> is_valid_code_point v \<or> v < lower_bound then None else Some (v, cbs)
     }
   }"

definition CBS_get_latin1 :: "CBS \<Rightarrow> (u32 \<times> CBS) option" where
  "CBS_get_latin1 cbs = do { (c, cbs) \<leftarrow> CBS_get_u8 cbs; Some (ucast c, cbs) }"

definition CBS_get_ucs2_be :: "CBS \<Rightarrow> (u32 \<times> CBS) option" where
  "CBS_get_ucs2_be cbs = do {
     (c, cbs) \<leftarrow> CBS_get_u16 cbs;
     if \<not> is_valid_code_point (ucast c) then None else Some (ucast c, cbs)
   }"

definition CBS_get_utf32_be :: "CBS \<Rightarrow> (u32 \<times> CBS) option" where
  "CBS_get_utf32_be cbs = do {
     (out, cbs) \<leftarrow> CBS_get_u32 cbs;
     if is_valid_code_point out then Some (out, cbs) else None
   }"

definition CBB_get_utf8_len :: "u32 \<Rightarrow> nat" where
  "CBB_get_utf8_len u = (if u \<le> 0x7f then 1 else if u \<le> 0x7ff then 2 else if u \<le> 0xffff then 3 else 4)"

definition CBB_add_utf8 :: "ralloc \<Rightarrow> nat \<Rightarrow> u32 \<Rightarrow> CBB \<Rightarrow> bool \<times> CBB" where
  "CBB_add_utf8 ralloc d u s =
     (if \<not> is_valid_code_point u then (False, s)
      else if u \<le> 0x7f then CBB_add_u8 ralloc d (ucast u) s
      else if u \<le> 0x7ff then
        cbb_and (CBB_add_u8 ralloc d (ucast (ucast (TOP_BITS 2) OR drop_bit 6 u)) s)
          (CBB_add_u8 ralloc d (ucast (ucast (TOP_BITS 1) OR (u AND ucast (BOTTOM_BITS 6)))))
      else if u \<le> 0xffff then
        cbb_and (CBB_add_u8 ralloc d (ucast (ucast (TOP_BITS 3) OR drop_bit 12 u)) s) (\<lambda>s.
        cbb_and (CBB_add_u8 ralloc d (ucast (ucast (TOP_BITS 1) OR (drop_bit 6 u AND ucast (BOTTOM_BITS 6)))) s)
          (CBB_add_u8 ralloc d (ucast (ucast (TOP_BITS 1) OR (u AND ucast (BOTTOM_BITS 6))))))
      else if u \<le> 0x10ffff then
        cbb_and (CBB_add_u8 ralloc d (ucast (ucast (TOP_BITS 4) OR drop_bit 18 u)) s) (\<lambda>s.
        cbb_and (CBB_add_u8 ralloc d (ucast (ucast (TOP_BITS 1) OR (drop_bit 12 u AND ucast (BOTTOM_BITS 6)))) s) (\<lambda>s.
        cbb_and (CBB_add_u8 ralloc d (ucast (ucast (TOP_BITS 1) OR (drop_bit 6 u AND ucast (BOTTOM_BITS 6)))) s)
          (CBB_add_u8 ralloc d (ucast (ucast (TOP_BITS 1) OR (u AND ucast (BOTTOM_BITS 6)))))))
      else (False, s))"

definition CBB_add_latin1 :: "ralloc \<Rightarrow> nat \<Rightarrow> u32 \<Rightarrow> CBB \<Rightarrow> bool \<times> CBB" where
  "CBB_add_latin1 ralloc d u s = (if u \<le> 0xff then CBB_add_u8 ralloc d (ucast u) s else (False, s))"

definition CBB_add_ucs2_be :: "ralloc \<Rightarrow> nat \<Rightarrow> u32 \<Rightarrow> CBB \<Rightarrow> bool \<times> CBB" where
  "CBB_add_ucs2_be ralloc d u s =
     (if u \<le> 0xffff \<and> is_valid_code_point u then CBB_add_u16 ralloc d (ucast u) s else (False, s))"

definition CBB_add_utf32_be :: "ralloc \<Rightarrow> nat \<Rightarrow> u32 \<Rightarrow> CBB \<Rightarrow> bool \<times> CBB" where
  "CBB_add_utf32_be ralloc d u s = (if is_valid_code_point u then CBB_add_u32 ralloc d u s else (False, s))"

subsection \<open>The reference\<close>

text \<open>A Unicode scalar value that is not a noncharacter.\<close>

definition code_point :: "nat \<Rightarrow> bool" where
  "code_point n \<longleftrightarrow>
     n \<le> 0x10ffff \<and> n mod 0x10000 < 0xfffe \<and> \<not> (0xfdd0 \<le> n \<and> n \<le> 0xfdef) \<and> \<not> (0xd800 \<le> n \<and> n \<le> 0xdfff)"

definition utf8 :: "nat \<Rightarrow> bytes" where
  "utf8 n =
     (if n < 0x80 then [word_of_nat n]
      else if n < 0x800 then [word_of_nat (0xc0 + n div 64), word_of_nat (0x80 + n mod 64)]
      else if n < 0x10000 then
        [word_of_nat (0xe0 + n div 4096), word_of_nat (0x80 + n div 64 mod 64), word_of_nat (0x80 + n mod 64)]
      else
        [word_of_nat (0xf0 + n div 262144), word_of_nat (0x80 + n div 4096 mod 64),
         word_of_nat (0x80 + n div 64 mod 64), word_of_nat (0x80 + n mod 64)])"

subsection \<open>The proofs\<close>

lemma BOTTOM_BITS_mask: "n \<le> 8 \<Longrightarrow> BOTTOM_BITS n = mask n"
  by (auto simp: BOTTOM_BITS_def bit_eq_iff bit_ucast_iff bit_mask_iff mask_eq_decr_exp [symmetric] push_bit_eq_mult)

lemma unat_BOTTOM_BITS: "n \<le> 8 \<Longrightarrow> unat (c AND BOTTOM_BITS n) = unat c mod 2 ^ n"
proof -
  assume "n \<le> 8"
  then have "unat (c AND BOTTOM_BITS n) = unat (take_bit n c)"
    by (simp only: BOTTOM_BITS_mask take_bit_eq_mask)
  then show ?thesis
    by (simp only: unat_take_bit)
qed

lemma and_TOP_BITS: "n \<le> 8 \<Longrightarrow> c AND TOP_BITS n = push_bit (8 - n) (drop_bit (8 - n) c)" for c :: u8
  by (auto simp: TOP_BITS_def BOTTOM_BITS_mask bit_eq_iff bit_and_iff bit_not_iff bit_mask_iff bit_push_bit_iff bit_drop_bit_eq)

lemma unat_TOP_BITS: "n \<le> 8 \<Longrightarrow> unat (c AND TOP_BITS n) = unat c div 2 ^ (8 - n) * 2 ^ (8 - n)"
proof -
  assume n: "n \<le> 8"
  have "unat c div 2 ^ (8 - n) * 2 ^ (8 - n) \<le> unat c"
    by (rule div_times_less_eq_dividend)
  then have "unat c div 2 ^ (8 - n) * 2 ^ (8 - n) < 256"
    using unat_lt_256 [of c] by linarith
  then show ?thesis
    by (simp add: and_TOP_BITS [OF n] unat_push_bit_small unat_drop_bit)
qed

lemma TOP_BITS_simps: "TOP_BITS 1 = 0x80" "TOP_BITS 2 = 0xc0" "TOP_BITS 3 = 0xe0" "TOP_BITS 4 = 0xf0"
  by code_simp+

lemmas TOP_BITS_values = TOP_BITS_simps TOP_BITS_simps(1) [unfolded One_nat_def]

lemma lead_iff:
  "c AND TOP_BITS 2 = TOP_BITS 1 \<longleftrightarrow> unat c div 64 = 2" "c AND TOP_BITS 3 = TOP_BITS 2 \<longleftrightarrow> unat c div 32 = 6"
  "c AND TOP_BITS 4 = TOP_BITS 3 \<longleftrightarrow> unat c div 16 = 14" "c AND TOP_BITS 5 = TOP_BITS 4 \<longleftrightarrow> unat c div 8 = 30"
  using unat_TOP_BITS [of 2 c] unat_TOP_BITS [of 3 c] unat_TOP_BITS [of 4 c] unat_TOP_BITS [of 5 c]
  by (auto simp: word_unat_eq_iff TOP_BITS_values)

lemmas lead_iffs = lead_iff lead_iff(1) [unfolded One_nat_def]

text \<open>The value of the continuation bytes.\<close>

definition digits64 :: "nat \<Rightarrow> nat list \<Rightarrow> nat" where
  "digits64 a ds = foldl (\<lambda>a d. a * 64 + d) a ds"

definition cont_bytes :: "nat list \<Rightarrow> bytes" where
  "cont_bytes ds = map (\<lambda>d. word_of_nat (0x80 + d)) ds"

lemma digits64_Cons: "digits64 a (d # ds) = digits64 (a * 64 + d) ds"
  by (simp add: digits64_def)

lemma cont_bytes_Cons: "cont_bytes (d # ds) = word_of_nat (0x80 + d) # cont_bytes ds"
  by (simp add: cont_bytes_def)

lemma digits64_le: "\<forall>d\<in>set ds. d < 64 \<Longrightarrow> digits64 a ds < (a + 1) * 64 ^ length ds"
proof (induction ds arbitrary: a)
  case (Cons d ds)
  have "digits64 (a * 64 + d) ds < (a * 64 + d + 1) * 64 ^ length ds"
    using Cons by simp
  also have "\<dots> \<le> ((a + 1) * 64) * 64 ^ length ds"
    using Cons.prems by (intro mult_right_mono) auto
  finally show ?case
    by (simp add: digits64_def algebra_simps)
qed (simp add: digits64_def)

lemma unat_cont_byte: "d < 64 \<Longrightarrow> unat (word_of_nat (0x80 + d) :: u8) = 0x80 + d"
  by (rule unat_word_of_nat) simp

lemma cont_byte: "unat c div 64 = 2 \<longleftrightarrow> (\<exists>d<64. c = word_of_nat (0x80 + d))" for c :: u8
proof
  assume "unat c div 64 = 2"
  then have *: "unat c = 0x80 + unat c mod 64"
    using div_mult_mod_eq [of "unat c" 64] by linarith
  show "\<exists>d<64. c = word_of_nat (0x80 + d)"
  proof (intro exI conjI)
    show "c = word_of_nat (0x80 + unat c mod 64)"
      unfolding * [symmetric] by simp
  qed simp
next
  assume "\<exists>d<64. c = word_of_nat (0x80 + d)"
  then obtain d where "d < 64" "unat c = 0x80 + d"
    using unat_cont_byte by blast
  then show "unat c div 64 = 2"
    by simp
qed

lemma get_utf8_digit:
  assumes "unat v < 2 ^ 26" "d < 64"
  shows "unat (push_bit 6 v OR ucast ((word_of_nat (0x80 + d) :: u8) AND BOTTOM_BITS 6) :: u32) = unat v * 64 + d"
proof -
  have "unat ((word_of_nat (0x80 + d) :: u8) AND BOTTOM_BITS 6) = (0x80 + d) mod 2 ^ 6"
    by (subst unat_BOTTOM_BITS) (simp_all only: unat_cont_byte [OF assms(2)])
  also have "\<dots> = d"
    using assms(2) by (simp add: mod_add_left_eq [symmetric])
  finally have d: "unat (ucast ((word_of_nat (0x80 + d) :: u8) AND BOTTOM_BITS 6) :: u32) = d"
    by (subst unat_ucast_widen) simp_all
  have "unat (push_bit 6 v OR ucast ((word_of_nat (0x80 + d) :: u8) AND BOTTOM_BITS 6) :: u32) = unat v * 2 ^ 6 + d"
    by (subst push_bit_or_small; simp only: d) (use assms in simp_all)
  then show ?thesis
    by simp
qed

lemma get_utf8_loop_iff:
  "(unat v + 1) * 64 ^ n \<le> 2 ^ 32 \<Longrightarrow> get_utf8_loop n v cbs = Some (v', rest) \<longleftrightarrow>
    (\<exists>ds. length ds = n \<and> (\<forall>d\<in>set ds. d < 64) \<and> cbs = cont_bytes ds @ rest \<and> unat v' = digits64 (unat v) ds)"
proof (induction n v cbs rule: get_utf8_loop.induct)
  case (1 v cbs)
  then show ?case
    by (auto simp: cont_bytes_def digits64_def word_unat_eq_iff)
next
  case (2 i v cbs)
  show ?case
  proof (cases cbs)
    case Nil
    then show ?thesis
      by (auto simp: cont_bytes_def length_Suc_conv)
  next
    case (Cons c cs)
    have v: "unat v < 2 ^ 26"
    proof -
      have "(unat v + 1) * 64 ^ 1 \<le> (unat v + 1) * 64 ^ Suc i"
        by (intro mult_left_mono power_increasing) simp_all
      from order_trans [OF this "2.prems"] show ?thesis
        by simp
    qed
    let ?w = "push_bit 6 v OR ucast (c AND BOTTOM_BITS 6)"
    show ?thesis
    proof (cases "unat c div 64 = 2")
      case False
      then show ?thesis
        using cont_byte [of c] by (auto simp: Cons lead_iffs cont_bytes_def length_Suc_conv)
    next
      case True
      then obtain d where d: "d < 64" "c = word_of_nat (0x80 + d)"
        using cont_byte by blast
      have w: "unat ?w = unat v * 64 + d"
        unfolding d(2) by (rule get_utf8_digit [OF v d(1)])
      have "(unat ?w + 1) * 64 ^ i \<le> ((unat v + 1) * 64) * 64 ^ i"
        unfolding w using d(1) by (intro mult_right_mono) auto
      also have "\<dots> = (unat v + 1) * 64 ^ Suc i"
        by (simp only: power_Suc mult.assoc)
      also note "2.prems"
      finally have "(unat ?w + 1) * 64 ^ i \<le> 2 ^ 32" .
      then have IH: "get_utf8_loop i ?w cs = Some (v', rest) \<longleftrightarrow>
          (\<exists>ds. length ds = i \<and> (\<forall>d\<in>set ds. d < 64) \<and> cs = cont_bytes ds @ rest \<and> unat v' = digits64 (unat v * 64 + d) ds)"
        using "2.IH" [of "(c, cs)" c cs] True by (simp add: Cons lead_iffs w)
      have inj: "e = d" if "e < 64" "c = word_of_nat (0x80 + e)" for e
      proof -
        have "unat c = 0x80 + e"
          unfolding that(2) by (rule unat_cont_byte [OF that(1)])
        moreover have "unat c = 0x80 + d"
          unfolding d(2) by (rule unat_cont_byte [OF d(1)])
        ultimately show ?thesis
          by simp
      qed
      have step: "get_utf8_loop (Suc i) v (c # cs) = get_utf8_loop i ?w cs"
        using True by (simp add: lead_iffs)
      show ?thesis
        unfolding step IH Cons
      proof (intro iffI; elim exE conjE)
        fix ds
        assume "length ds = i" "\<forall>d\<in>set ds. d < 64" "cs = cont_bytes ds @ rest" "unat v' = digits64 (unat v * 64 + d) ds"
        then show "\<exists>ds. length ds = Suc i \<and> (\<forall>d\<in>set ds. d < 64) \<and> c # cs = cont_bytes ds @ rest \<and>
            unat v' = digits64 (unat v) ds"
          using d by (intro exI [of _ "d # ds"]) (simp add: cont_bytes_Cons digits64_Cons del: of_nat_add)
      next
        fix es
        assume es: "length es = Suc i" "\<forall>d\<in>set es. d < 64" "c # cs = cont_bytes es @ rest" "unat v' = digits64 (unat v) es"
        then obtain e ds where eq: "es = e # ds" "length ds = i"
          by (auto simp: length_Suc_conv)
        then have "e < 64" "c = word_of_nat (0x80 + e)" "cs = cont_bytes ds @ rest"
          using es by (simp_all add: cont_bytes_Cons del: of_nat_add)
        then show "\<exists>ds. length ds = i \<and> (\<forall>d\<in>set ds. d < 64) \<and> cs = cont_bytes ds @ rest \<and>
            unat v' = digits64 (unat v * 64 + d) ds"
          using inj [OF \<open>e < 64\<close> \<open>c = word_of_nat (0x80 + e)\<close>] es(2,4) eq by (intro exI [of _ ds]) (simp add: digits64_Cons)
      qed
    qed
  qed
qed

lemma noncharacter_iff: "v AND 0xfffe = 0xfffe \<longleftrightarrow> 0xfffe \<le> unat v mod 0x10000" for v :: u32
proof -
  have "v AND 0xfffe = push_bit 1 (take_bit 15 (drop_bit 1 v))"
  proof (rule bit_word_eqI)
    fix i
    assume "i < LENGTH(32)"
    have "(0xfffe :: u32) = push_bit 1 (mask 15)"
      by (simp add: mask_eq_exp_minus_1 push_bit_eq_mult)
    then show "bit (v AND 0xfffe) i \<longleftrightarrow> bit (push_bit 1 (take_bit 15 (drop_bit 1 v))) i"
      using \<open>i < LENGTH(32)\<close>
      by (simp only: bit_and_iff bit_push_bit_iff bit_take_bit_iff bit_drop_bit_eq bit_mask_iff o_def) auto
  qed
  moreover have t: "unat (take_bit 15 (drop_bit 1 v)) = unat v div 2 mod 2 ^ 15"
    by (simp only: unat_take_bit unat_drop_bit) simp
  moreover have "unat (push_bit 1 (take_bit 15 (drop_bit 1 v))) = unat (take_bit 15 (drop_bit 1 v)) * 2 ^ 1"
    by (rule unat_push_bit_small) (simp only: t, simp)
  ultimately have "unat (v AND 0xfffe) = unat v div 2 mod 2 ^ 15 * 2"
    by (simp only: t) simp
  then have "v AND 0xfffe = 0xfffe \<longleftrightarrow> unat v div 2 mod 32768 = 32767"
    by (simp add: word_unat_eq_iff)
  also have "\<dots> \<longleftrightarrow> 0xfffe \<le> unat v mod 0x10000"
  proof -
    have "unat v mod 0x10000 = 2 * (unat v div 2 mod 32768) + unat v mod 2"
      using mod_mult2_eq [of "unat v" 2 32768] by simp
    then show ?thesis
      by linarith
  qed
  finally show ?thesis .
qed

lemma is_valid_code_point_iff: "is_valid_code_point v \<longleftrightarrow> code_point (unat v)"
  by (auto simp: is_valid_code_point_def code_point_def noncharacter_iff word_le_nat_alt word_less_nat_alt)

lemma digits64_simps:
  "digits64 a [d] = a * 64 + d" "digits64 a [d, e] = (a * 64 + d) * 64 + e"
  "digits64 a [d, e, f] = ((a * 64 + d) * 64 + e) * 64 + f"
  by (simp_all add: digits64_def)

lemma utf8_long:
  "0x80 \<le> n \<Longrightarrow> n < 0x800 \<Longrightarrow> utf8 n = word_of_nat (0xc0 + n div 64) # cont_bytes [n mod 64]"
  "0x800 \<le> n \<Longrightarrow> n < 0x10000 \<Longrightarrow> utf8 n = word_of_nat (0xe0 + n div 64 div 64) # cont_bytes [n div 64 mod 64, n mod 64]"
  "0x10000 \<le> n \<Longrightarrow> utf8 n =
     word_of_nat (0xf0 + n div 64 div 64 div 64) # cont_bytes [n div 64 div 64 mod 64, n div 64 mod 64, n mod 64]"
  by (simp_all add: utf8_def cont_bytes_def div_mult2_eq [symmetric])

text \<open>The digits to the base 64 of a number.\<close>

lemma base64_digit: "y < 64 \<Longrightarrow> (x * 64 + y) div 64 = x" "y < 64 \<Longrightarrow> (x * 64 + y) mod 64 = y" for x y :: nat
  by simp_all

text \<open>A sequence of more than one byte, read from its lead byte on.\<close>

definition utf8_read :: "nat \<Rightarrow> nat \<Rightarrow> u32 \<Rightarrow> u8 \<Rightarrow> CBS \<Rightarrow> (u32 \<times> CBS) option" where
  "utf8_read k n lower_bound c cs = do {
     (v, cs) \<leftarrow> get_utf8_loop n (ucast (c AND BOTTOM_BITS k)) cs;
     if \<not> is_valid_code_point v \<or> v < lower_bound then None else Some (v, cs)
   }"

lemma CBS_get_utf8_Cons:
  "CBS_get_utf8 (c # cs) =
     (if unat c < 0x80 then Some (ucast c, cs)
      else if unat c div 32 = 6 then utf8_read 5 1 0x80 c cs
      else if unat c div 16 = 14 then utf8_read 4 2 0x800 c cs
      else if unat c div 8 = 30 then utf8_read 3 3 0x10000 c cs
      else None)"
proof -
  have "c \<le> 0x7f \<longleftrightarrow> unat c < 0x80"
    by (simp add: word_le_nat_alt) linarith
  then show ?thesis
    by (simp add: CBS_get_utf8_def utf8_read_def lead_iff)
qed

lemma utf8_read_iff:
  assumes "k \<le> 5" "64 ^ n * 2 ^ k \<le> (2 ^ 32 :: nat)"
  shows "utf8_read k n lb c cs = Some (u, rest) \<longleftrightarrow>
    (\<exists>ds. length ds = n \<and> (\<forall>d\<in>set ds. d < 64) \<and> cs = cont_bytes ds @ rest \<and>
       unat u = digits64 (unat c mod 2 ^ k) ds \<and> code_point (unat u) \<and> unat lb \<le> unat u)"
proof -
  have v: "unat (ucast (c AND BOTTOM_BITS k) :: u32) = unat c mod 2 ^ k"
  proof -
    have "unat (ucast (c AND BOTTOM_BITS k) :: u32) = unat (c AND BOTTOM_BITS k)"
      by (rule unat_ucast_widen) simp
    then show ?thesis
      using assms(1) by (simp add: unat_BOTTOM_BITS)
  qed
  have "(unat (ucast (c AND BOTTOM_BITS k) :: u32) + 1) * 64 ^ n \<le> 2 ^ k * 64 ^ n"
    unfolding v by (intro mult_right_mono) (simp_all add: Suc_leI)
  also have "\<dots> = 64 ^ n * 2 ^ k"
    by (rule mult.commute)
  also note assms(2)
  finally have loop: "get_utf8_loop n (ucast (c AND BOTTOM_BITS k)) cs = Some (u, rest) \<longleftrightarrow>
      (\<exists>ds. length ds = n \<and> (\<forall>d\<in>set ds. d < 64) \<and> cs = cont_bytes ds @ rest \<and> unat u = digits64 (unat c mod 2 ^ k) ds)"
    using get_utf8_loop_iff [of "ucast (c AND BOTTOM_BITS k)" n cs u rest] by (simp only: v)
  have "utf8_read k n lb c cs = Some (u, rest) \<longleftrightarrow>
      get_utf8_loop n (ucast (c AND BOTTOM_BITS k)) cs = Some (u, rest) \<and> is_valid_code_point u \<and> \<not> u < lb"
    by (auto simp: utf8_read_def bind_eq_Some_conv split: if_splits)
  also have "\<dots> \<longleftrightarrow> get_utf8_loop n (ucast (c AND BOTTOM_BITS k)) cs = Some (u, rest) \<and> code_point (unat u) \<and> unat lb \<le> unat u"
    by (simp add: is_valid_code_point_iff not_less word_le_nat_alt)
  finally show ?thesis
    unfolding loop by blast
qed

lemma word_of_unat_div: "unat c div m = a \<Longrightarrow> c = word_of_nat (a * m + unat c mod m)" for c :: "'a::len word"
proof -
  assume "unat c div m = a"
  then have "a * m + unat c mod m = unat c"
    using div_mult_mod_eq [of "unat c" m] by simp
  then show ?thesis
    by simp
qed

lemma CBS_get_utf8_sound:
  assumes "CBS_get_utf8 cbs = Some (u, rest)"
  shows "code_point (unat u) \<and> cbs = utf8 (unat u) @ rest"
proof (cases cbs)
  case Nil
  then show ?thesis
    using assms by (simp add: CBS_get_utf8_def)
next
  case (Cons c cs)
  have get: "CBS_get_utf8 (c # cs) = Some (u, rest)"
    using assms by (simp add: Cons)
  consider "unat c < 0x80" "Some (ucast c, cs) = Some (u, rest)"
    | "unat c div 32 = 6" "utf8_read 5 1 0x80 c cs = Some (u, rest)"
    | "unat c div 16 = 14" "utf8_read 4 2 0x800 c cs = Some (u, rest)"
    | "unat c div 8 = 30" "utf8_read 3 3 0x10000 c cs = Some (u, rest)"
    using get unfolding CBS_get_utf8_Cons by (auto split: if_splits)
  then show ?thesis
  proof cases
    case 1
    then have "unat u = unat c"
      by (auto simp: unat_ucast_widen)
    then show ?thesis
      using 1 by (simp add: Cons utf8_def code_point_def)
  next
    case 2
    then obtain d where d: "d < 64" "cs = cont_bytes [d] @ rest" "unat u = unat c mod 32 * 64 + d" "code_point (unat u)"
      "0x80 \<le> unat u"
      by (auto simp: utf8_read_iff length_Suc_conv digits64_simps)
    have "unat u < 0x800"
      using d(1) by (simp add: d(3))
    then have "utf8 (unat u) = word_of_nat (0xc0 + unat u div 64) # cont_bytes [unat u mod 64]"
      by (rule utf8_long(1) [OF d(5)])
    then have "utf8 (unat u) = word_of_nat (6 * 32 + unat c mod 32) # cont_bytes [d]"
      unfolding d(3) base64_digit [OF d(1)] by simp
    then show ?thesis
      using d word_of_unat_div [OF 2(1)] by (simp add: Cons del: of_nat_add)
  next
    case 3
    then obtain ds where ds: "length ds = 2" "\<forall>d\<in>set ds. d < 64" "cs = cont_bytes ds @ rest"
      "unat u = digits64 (unat c mod 16) ds" "code_point (unat u)" "0x800 \<le> unat u"
      by (auto simp: utf8_read_iff)
    then obtain d e where "ds = [d, e]"
      by (auto simp: length_Suc_conv numeral_2_eq_2)
    with ds have d: "d < 64" "e < 64" "cs = cont_bytes [d, e] @ rest" "unat u = (unat c mod 16 * 64 + d) * 64 + e"
      "code_point (unat u)" "0x800 \<le> unat u"
      by (simp_all add: digits64_simps)
    have "unat u < 0x10000"
      using d(1,2) by (simp add: d(4))
    then have "utf8 (unat u) = word_of_nat (0xe0 + unat u div 64 div 64) # cont_bytes [unat u div 64 mod 64, unat u mod 64]"
      by (rule utf8_long(2) [OF d(6)])
    then have "utf8 (unat u) = word_of_nat (14 * 16 + unat c mod 16) # cont_bytes [d, e]"
      unfolding d(4) base64_digit [OF d(1)] base64_digit [OF d(2)] by simp
    then show ?thesis
      using d word_of_unat_div [OF 3(1)] by (simp add: Cons del: of_nat_add)
  next
    case 4
    then obtain ds where ds: "length ds = 3" "\<forall>d\<in>set ds. d < 64" "cs = cont_bytes ds @ rest"
      "unat u = digits64 (unat c mod 8) ds" "code_point (unat u)" "0x10000 \<le> unat u"
      by (auto simp: utf8_read_iff)
    then obtain d e f where "ds = [d, e, f]"
      by (auto simp: length_Suc_conv numeral_3_eq_3)
    with ds have d: "d < 64" "e < 64" "f < 64" "cs = cont_bytes [d, e, f] @ rest"
      "unat u = ((unat c mod 8 * 64 + d) * 64 + e) * 64 + f" "code_point (unat u)" "0x10000 \<le> unat u"
      by (simp_all add: digits64_simps)
    have "utf8 (unat u) = word_of_nat (0xf0 + unat u div 64 div 64 div 64) #
        cont_bytes [unat u div 64 div 64 mod 64, unat u div 64 mod 64, unat u mod 64]"
      by (rule utf8_long(3) [OF d(7)])
    then have "utf8 (unat u) = word_of_nat (30 * 8 + unat c mod 8) # cont_bytes [d, e, f]"
      unfolding d(5) base64_digit [OF d(1)] base64_digit [OF d(2)] base64_digit [OF d(3)] by simp
    then show ?thesis
      using d word_of_unat_div [OF 4(1)] by (simp add: Cons del: of_nat_add)
  qed
qed

lemma base64_digits_of:
  "n = n div 64 * 64 + n mod 64" "n = (n div 64 div 64 * 64 + n div 64 mod 64) * 64 + n mod 64"
  "n = ((n div 64 div 64 div 64 * 64 + n div 64 div 64 mod 64) * 64 + n div 64 mod 64) * 64 + n mod 64" for n :: nat
  by (simp_all only: div_mult_mod_eq)

lemma CBS_get_utf8_complete:
  assumes "code_point (unat u)"
  shows "CBS_get_utf8 (utf8 (unat u) @ rest) = Some (u, rest)"
proof -
  let ?n = "unat u"
  have max: "?n \<le> 0x10ffff"
    using assms by (simp add: code_point_def)
  consider "?n < 0x80" | "0x80 \<le> ?n" "?n < 0x800" | "0x800 \<le> ?n" "?n < 0x10000" | "0x10000 \<le> ?n"
    by linarith
  then show ?thesis
  proof cases
    case 1
    have "unat (word_of_nat ?n :: u8) = ?n"
      using 1 by (intro unat_word_of_nat) simp
    moreover from this have "ucast (word_of_nat ?n :: u8) = u"
      by (simp add: word_unat_eq_iff [of _ u] unat_ucast_widen)
    moreover have "utf8 ?n = [word_of_nat ?n]"
      using 1 by (simp add: utf8_def)
    ultimately show ?thesis
      using 1 by (simp only: append_Cons append_Nil CBS_get_utf8_Cons) simp
  next
    case 2
    let ?a = "?n div 64"
    have a: "?a < 32"
      using 2 by simp
    then have lead: "unat (word_of_nat (0xc0 + ?a) :: u8) = 0xc0 + ?a"
      by (intro unat_word_of_nat) simp
    have m: "(0xc0 + ?a) mod 2 ^ 5 = ?a"
      using a mod_mult_self3 [of 6 32 ?a] by simp
    have "utf8_read 5 1 0x80 (word_of_nat (0xc0 + ?a)) (cont_bytes [?n mod 64] @ rest) = Some (u, rest)"
      using a assms 2 base64_digits_of(1) [of ?n]
      by (subst utf8_read_iff) (simp_all only: lead m, auto simp: digits64_simps intro!: exI [of _ "[?n mod 64]"])
    moreover have "(0xc0 + ?a) div 32 = 6"
      using a by (auto intro: div_nat_eqI)
    ultimately show ?thesis
      by (simp add: utf8_long(1) [OF 2] CBS_get_utf8_Cons lead del: of_nat_add)
  next
    case 3
    let ?a = "?n div 64 div 64"
    have a: "?a < 16"
      using 3 by simp
    then have lead: "unat (word_of_nat (0xe0 + ?a) :: u8) = 0xe0 + ?a"
      by (intro unat_word_of_nat) simp
    have m: "(0xe0 + ?a) mod 2 ^ 4 = ?a"
      using a mod_mult_self3 [of 14 16 ?a] by simp
    have "utf8_read 4 2 0x800 (word_of_nat (0xe0 + ?a)) (cont_bytes [?n div 64 mod 64, ?n mod 64] @ rest) = Some (u, rest)"
      using a assms 3 base64_digits_of(2) [of ?n]
      by (subst utf8_read_iff)
        (simp_all only: lead m, auto simp: digits64_simps intro!: exI [of _ "[?n div 64 mod 64, ?n mod 64]"])
    moreover have "(0xe0 + ?a) div 32 = 7" "(0xe0 + ?a) div 16 = 14"
      using a by (auto intro: div_nat_eqI)
    ultimately show ?thesis
      by (simp add: utf8_long(2) [OF 3] CBS_get_utf8_Cons lead del: of_nat_add)
  next
    case 4
    let ?a = "?n div 64 div 64 div 64"
    have a: "?a < 5"
      using max by simp
    then have lead: "unat (word_of_nat (0xf0 + ?a) :: u8) = 0xf0 + ?a"
      by (intro unat_word_of_nat) simp
    have m: "(0xf0 + ?a) mod 2 ^ 3 = ?a"
      using a mod_mult_self3 [of 30 8 ?a] by simp
    have "utf8_read 3 3 0x10000 (word_of_nat (0xf0 + ?a)) (cont_bytes [?n div 64 div 64 mod 64, ?n div 64 mod 64, ?n mod 64] @ rest)
        = Some (u, rest)"
      using a assms 4 base64_digits_of(3) [of ?n]
      by (subst utf8_read_iff)
        (simp_all only: lead m, auto simp: digits64_simps intro!: exI [of _ "[?n div 64 div 64 mod 64, ?n div 64 mod 64, ?n mod 64]"])
    moreover have "(0xf0 + ?a) div 32 = 7" "(0xf0 + ?a) div 16 = 15" "(0xf0 + ?a) div 8 = 30"
      using a by (auto intro: div_nat_eqI)
    ultimately show ?thesis
      by (simp add: utf8_long(3) [OF 4] CBS_get_utf8_Cons lead del: of_nat_add)
  qed
qed

lemma ucast_or_byte:
  fixes x :: u32
  assumes "unat x < 2 ^ k" "a * 2 ^ k + 2 ^ k \<le> 256"
  shows "(ucast (push_bit k (word_of_nat a) OR x) :: u8) = word_of_nat (a * 2 ^ k + unat x)"
proof -
  have "a * 1 \<le> a * 2 ^ k"
    by (rule mult_left_mono) simp_all
  then have "a \<le> 256"
    using assms(2) by linarith
  then have a: "unat (word_of_nat a :: u32) = a"
    by (intro unat_word_of_nat) simp
  have small: "a * 2 ^ k + unat x < 256"
    using assms by linarith
  have "unat (push_bit k (word_of_nat a) OR x) = a * 2 ^ k + unat x"
    using push_bit_or_small [of x k "word_of_nat a"] assms(1) small by (simp add: a)
  then have "unat (ucast (push_bit k (word_of_nat a) OR x) :: u8) = a * 2 ^ k + unat x"
    using small by (simp add: unat_ucast_mod)
  moreover have "unat (word_of_nat (a * 2 ^ k + unat x) :: u8) = a * 2 ^ k + unat x"
    using small by (intro unat_word_of_nat) simp
  ultimately show ?thesis
    by (simp only: word_unat_eq_iff)
qed

lemma unat_and_BOTTOM_6: "unat (x AND ucast (BOTTOM_BITS 6)) = unat x mod 64" for x :: u32
proof -
  have "(ucast (BOTTOM_BITS 6) :: u32) = mask 6"
    by (simp add: BOTTOM_BITS_mask mask_eq_exp_minus_1)
  then have "unat (x AND ucast (BOTTOM_BITS 6)) = unat (take_bit 6 x)"
    by (simp only: take_bit_eq_mask)
  then show ?thesis
    by (simp add: unat_take_bit)
qed

lemma ucast_top_or:
  fixes x :: u32
  shows "unat x < 64 \<Longrightarrow> (ucast (ucast (TOP_BITS 1) OR x) :: u8) = word_of_nat (0x80 + unat x)"
    and "unat x < 64 \<Longrightarrow> (ucast (ucast (TOP_BITS 2) OR x) :: u8) = word_of_nat (0xc0 + unat x)"
    and "unat x < 32 \<Longrightarrow> (ucast (ucast (TOP_BITS 3) OR x) :: u8) = word_of_nat (0xe0 + unat x)"
    and "unat x < 16 \<Longrightarrow> (ucast (ucast (TOP_BITS 4) OR x) :: u8) = word_of_nat (0xf0 + unat x)"
  using ucast_or_byte [of x 6 2] ucast_or_byte [of x 6 3] ucast_or_byte [of x 5 7] ucast_or_byte [of x 4 15]
  by (simp_all add: TOP_BITS_values del: of_nat_add)

context heap_realloc
begin

lemma writes_utf8: "writes (CBB_add_utf8 ralloc d u) d (utf8 (unat u))"
proof (cases "is_valid_code_point u")
  case False
  then show ?thesis
    by (simp add: writes_def CBB_add_utf8_def)
next
  case True
  let ?n = "unat u"
  have max: "?n \<le> 0x10ffff"
    using True by (simp add: is_valid_code_point_iff code_point_def)
  have le: "u \<le> 0x7f \<longleftrightarrow> ?n < 0x80" "u \<le> 0x7ff \<longleftrightarrow> ?n < 0x800" "u \<le> 0xffff \<longleftrightarrow> ?n < 0x10000" "u \<le> 0x10ffff"
    using max by (auto simp: word_le_nat_alt)
  have last_byte: "writes (CBB_add_u8 ralloc d (ucast (ucast (TOP_BITS 1) OR (drop_bit k u AND ucast (BOTTOM_BITS 6))))) d
      (cont_bytes [?n div 2 ^ k mod 64])" for k
    using writes_u8 by (simp add: ucast_top_or(1) [unfolded One_nat_def] unat_and_BOTTOM_6 unat_drop_bit cont_bytes_def del: of_nat_add)
  have lead: "writes (CBB_add_u8 ralloc d b) d [b]" for b
    by (rule writes_u8)
  consider "?n < 0x80" | "0x80 \<le> ?n" "?n < 0x800" | "0x800 \<le> ?n" "?n < 0x10000" | "0x10000 \<le> ?n"
    by linarith
  then show ?thesis
  proof cases
    case 1
    then show ?thesis
      using True le lead [of "ucast u"] by (simp add: CBB_add_utf8_def [abs_def] utf8_def)
  next
    case 2
    have "ucast (ucast (TOP_BITS 2) OR drop_bit 6 u) = (word_of_nat (0xc0 + ?n div 64) :: u8)"
      using 2 by (subst ucast_top_or(2)) (simp_all add: unat_drop_bit del: of_nat_add)
    then show ?thesis
      using writes_and [OF lead last_byte [of 0]] True le 2
      by (simp add: CBB_add_utf8_def [abs_def] utf8_long(1) cont_bytes_def del: of_nat_add)
  next
    case 3
    have "ucast (ucast (TOP_BITS 3) OR drop_bit 12 u) = (word_of_nat (0xe0 + ?n div 64 div 64) :: u8)"
      using 3 by (subst ucast_top_or(3)) (simp_all add: unat_drop_bit div_mult2_eq [symmetric] del: of_nat_add)
    then show ?thesis
      using writes_and [OF lead writes_and [OF last_byte [of 6] last_byte [of 0]]] True le 3
      by (simp add: CBB_add_utf8_def [abs_def] utf8_long(2) cont_bytes_def del: of_nat_add)
  next
    case 4
    have "ucast (ucast (TOP_BITS 4) OR drop_bit 18 u) = (word_of_nat (0xf0 + ?n div 64 div 64 div 64) :: u8)"
      using max by (subst ucast_top_or(4)) (simp_all add: unat_drop_bit div_mult2_eq [symmetric] del: of_nat_add)
    then show ?thesis
      using writes_and [OF lead writes_and [OF last_byte [of 12] writes_and [OF last_byte [of 6] last_byte [of 0]]]] True le 4
      by (simp add: CBB_add_utf8_def [abs_def] utf8_long(3) cont_bytes_def div_mult2_eq [symmetric] del: of_nat_add)
  qed
qed

end

text \<open>C32: the UTF-8 reader accepts exactly the shortest encodings of the code points that are neither surrogates nor
  noncharacters and returns the code point; the writer, when it succeeds, appends exactly that encoding,
  its length is the announced one, and it refuses every other value.\<close>

theorem utf8_reader_writer:
  assumes "heap_realloc ralloc"
  shows "(CBS_get_utf8 cbs = Some (u, rest) \<longleftrightarrow> code_point (unat u) \<and> cbs = utf8 (unat u) @ rest) \<and>
    writes (CBB_add_utf8 ralloc d u) d (utf8 (unat u)) \<and> length (utf8 (unat u)) = CBB_get_utf8_len u \<and>
    (\<not> code_point (unat u) \<longrightarrow> CBB_add_utf8 ralloc d u s = (False, s))"
proof -
  have "length (utf8 (unat u)) = CBB_get_utf8_len u"
    by (auto simp: utf8_def CBB_get_utf8_len_def word_le_nat_alt)
  then show ?thesis
    using CBS_get_utf8_sound CBS_get_utf8_complete heap_realloc.writes_utf8 [OF assms]
    by (auto simp: CBB_add_utf8_def is_valid_code_point_iff)
qed

theorem utf8_reader_writer_witness:
  "CBS_get_utf8 [0xe2, 0x82, 0xac, 0x41] = Some (0x20ac, [0x41]) \<and>
   writes (CBB_add_utf8 (realloc_data (bounded_malloc 64)) 0 0x20ac) 0 [0xe2, 0x82, 0xac]"
  using utf8_reader_writer [OF heap_realloc_bounded, of "[0xe2, 0x82, 0xac, 0x41]" "0x20ac" "[0x41]" 64 0]
  by (simp add: utf8_def code_point_def)

end
