(* ===== verification/Base64.thy ===== *)
theory Base64
  imports Mem
begin

text \<open>
  Base64, \<open>crypto/base64/base64.cc\<close>. A function that writes to \<open>out\<close> returns the bytes written, without the
  terminating NUL byte, which the returned length does not count either.
\<close>

unbundle bit_operations_syntax

subsection \<open>The program\<close>

definition constant_time_lt_args_8 :: "u8 \<Rightarrow> u8 \<Rightarrow> u8" where
  "constant_time_lt_args_8 a b = ucast (constant_time_msb_w (ucast a - ucast b :: u64))"

definition constant_time_in_range_8 :: "u8 \<Rightarrow> u8 \<Rightarrow> u8 \<Rightarrow> u8" where
  "constant_time_in_range_8 a lo hi = constant_time_lt_args_8 (a - lo) (hi - lo + 1)"

definition conv_bin2ascii :: "u8 \<Rightarrow> u8" where
  "conv_bin2ascii a =
     (let a = a AND 0x3f;
          ret = constant_time_select_8 (ucast (constant_time_eq_8 (ucast a :: u64) 62) :: u64) 0x2b 0x2f;
          ret = constant_time_select_8 (ucast (constant_time_lt_args_8 a 62) :: u64) (a - 52 + 0x30) ret;
          ret = constant_time_select_8 (ucast (constant_time_lt_args_8 a 52) :: u64) (a - 26 + 0x61) ret
      in constant_time_select_8 (ucast (constant_time_lt_args_8 a 26) :: u64) (a + 0x41) ret)"

definition EVP_EncodedLength :: "u64 \<Rightarrow> u64 option" where
  "EVP_EncodedLength len =
     (if len + 2 < len then None
      else let len = (len + 2) div 3
           in if drop_bit 2 (push_bit 2 len) \<noteq> len then None
              else let len = push_bit 2 len
                   in if len + 1 < len then None else Some (len + 1))"

record EVP_ENCODE_CTX =
  data_used :: nat
  data :: bytes
  eof_seen :: bool
  error_encountered :: bool

definition EVP_EncodeInit :: EVP_ENCODE_CTX where
  "EVP_EncodeInit = \<lparr>data_used = 0, data = replicate 48 0, eof_seen = False, error_encountered = False\<rparr>"

text \<open>The body of the loop for a full group and for the last, short one.\<close>

definition encode_quad :: "u8 \<Rightarrow> u8 \<Rightarrow> u8 \<Rightarrow> bytes" where
  "encode_quad x y z =
     (let l = (push_bit 16 (ucast x) OR push_bit 8 (ucast y) OR ucast z :: u32)
      in [conv_bin2ascii (ucast (drop_bit 18 l)), conv_bin2ascii (ucast (drop_bit 12 l)),
          conv_bin2ascii (ucast (drop_bit 6 l)), conv_bin2ascii (ucast l)])"

fun EVP_EncodeBlock :: "bytes \<Rightarrow> bytes" where
  "EVP_EncodeBlock [] = []"
| "EVP_EncodeBlock [x] =
     (let l = (push_bit 16 (ucast x) :: u32)
      in [conv_bin2ascii (ucast (drop_bit 18 l)), conv_bin2ascii (ucast (drop_bit 12 l)), 0x3d, 0x3d])"
| "EVP_EncodeBlock [x, y] =
     (let l = (push_bit 16 (ucast x) OR push_bit 8 (ucast y) :: u32)
      in [conv_bin2ascii (ucast (drop_bit 18 l)), conv_bin2ascii (ucast (drop_bit 12 l)),
          conv_bin2ascii (ucast (drop_bit 6 l)), 0x3d])"
| "EVP_EncodeBlock (x # y # z # src) = encode_quad x y z @ EVP_EncodeBlock src"

text \<open>
  The loop over full blocks: the output, the rest of the input and \<open>total\<close>, which is \<open>None\<close> when it
  overflows and the function returns early.
\<close>

function encode_update_loop :: "bytes \<Rightarrow> u64 \<Rightarrow> bytes \<times> bytes \<times> u64 option" where
  "encode_update_loop inp tot =
     (if length inp \<ge> 48 then
        let encoded = EVP_EncodeBlock (take 48 inp);
            inp = drop 48 inp;
            line = encoded @ [0x0a]
        in if tot + word_of_nat (length encoded) + 1 < tot then (line, inp, None)
           else (case encode_update_loop inp (tot + (word_of_nat (length encoded) + 1)) of
                   (out, inp, tot) \<Rightarrow> (line @ out, inp, tot))
      else ([], inp, Some tot))"
  by pat_completeness auto
termination
  by (relation "measure (\<lambda>(inp, tot). length inp)") auto

declare encode_update_loop.simps [simp del]

definition INT_MAX_u64 :: u64 where
  "INT_MAX_u64 = 0x7fffffff"

text \<open>The context, the bytes written and \<open>*out_len\<close>.\<close>

definition EVP_EncodeUpdate :: "EVP_ENCODE_CTX \<Rightarrow> bytes \<Rightarrow> EVP_ENCODE_CTX \<times> bytes \<times> int" where
  "EVP_EncodeUpdate ctx inp =
     (if length inp = 0 then (ctx, [], 0)
      else if 48 - data_used ctx > length inp then
        (ctx\<lparr>data := take (data_used ctx) (data ctx) @ inp @ drop (data_used ctx + length inp) (data ctx),
             data_used := data_used ctx + length inp\<rparr>, [], 0)
      else
        let (ctx, out, inp, tot) =
              (if data_used ctx \<noteq> 0 then
                 let todo = 48 - data_used ctx;
                     ctx = ctx\<lparr>data := take (data_used ctx) (data ctx) @ take todo inp\<rparr>;
                     encoded = EVP_EncodeBlock (data ctx)
                 in (ctx\<lparr>data_used := 0\<rparr>, encoded @ [0x0a], drop todo inp, word_of_nat (length encoded) + 1)
               else (ctx, [], inp, 0));
            (lines, inp, tot) = encode_update_loop inp tot
        in case tot of
             None \<Rightarrow> (ctx, out @ lines, 0)
           | Some tot \<Rightarrow>
               let ctx = (if length inp \<noteq> 0 then ctx\<lparr>data := inp @ drop (length inp) (data ctx)\<rparr> else ctx);
                   ctx = ctx\<lparr>data_used := length inp\<rparr>;
                   tot = (if tot > INT_MAX_u64 then 0 else tot)
               in (ctx, out @ lines, uint tot))"

definition EVP_EncodeFinal :: "EVP_ENCODE_CTX \<Rightarrow> EVP_ENCODE_CTX \<times> bytes \<times> int" where
  "EVP_EncodeFinal ctx =
     (if data_used ctx = 0 then (ctx, [], 0)
      else let out = EVP_EncodeBlock (take (data_used ctx) (data ctx)) @ [0x0a]
           in (ctx\<lparr>data_used := 0\<rparr>, out, int (length out)))"

definition EVP_DecodedLength :: "u64 \<Rightarrow> u64 option" where
  "EVP_DecodedLength len = (if len mod 4 \<noteq> 0 then None else Some (len div 4 * 3))"

definition EVP_DecodeInit :: EVP_ENCODE_CTX where
  "EVP_DecodeInit = \<lparr>data_used = 0, data = replicate 48 0, eof_seen = False, error_encountered = False\<rparr>"

definition base64_ascii_to_bin :: "u8 \<Rightarrow> u8" where
  "base64_ascii_to_bin a =
     (let is_upper = constant_time_in_range_8 a 0x41 0x5a;
          is_lower = constant_time_in_range_8 a 0x61 0x7a;
          is_digit = constant_time_in_range_8 a 0x30 0x39;
          is_plus = constant_time_eq_8 (ucast a :: u64) 0x2b;
          is_slash = constant_time_eq_8 (ucast a :: u64) 0x2f;
          is_equals = constant_time_eq_8 (ucast a :: u64) 0x3d;
          ret = 0;
          ret = ret OR (is_upper AND (a - 0x41));
          ret = ret OR (is_lower AND (a - 0x61 + 26));
          ret = ret OR (is_digit AND (a - 0x30 + 52));
          ret = ret OR (is_plus AND 62);
          ret = ret OR (is_slash AND 63);
          is_valid = is_upper OR is_lower OR is_digit OR is_plus OR is_slash OR is_equals
      in ret OR NOT is_valid)"

definition base64_decode_quad :: "u8 \<Rightarrow> u8 \<Rightarrow> u8 \<Rightarrow> u8 \<Rightarrow> bytes option" where
  "base64_decode_quad in0 in1 in2 in3 =
     (let a = base64_ascii_to_bin in0;
          b = base64_ascii_to_bin in1;
          c = base64_ascii_to_bin in2;
          d = base64_ascii_to_bin in3
      in if a = 0xff \<or> b = 0xff \<or> c = 0xff \<or> d = 0xff then None
         else
           let v = (push_bit 18 (ucast a) OR push_bit 12 (ucast b) OR push_bit 6 (ucast c) OR ucast d :: u32);
               padding_pattern = (push_bit 3 (of_bool (in0 = 0x3d)) OR push_bit 2 (of_bool (in1 = 0x3d)) OR
                                  push_bit 1 (of_bool (in2 = 0x3d)) OR of_bool (in3 = 0x3d) :: u32)
           in if padding_pattern = 0 then Some [ucast (drop_bit 16 v), ucast (drop_bit 8 v), ucast v]
              else if padding_pattern = 1 then Some [ucast (drop_bit 16 v), ucast (drop_bit 8 v)]
              else if padding_pattern = 3 then Some [ucast (drop_bit 16 v)]
              else None)"

definition is_space :: "u8 \<Rightarrow> bool" where
  "is_space c \<longleftrightarrow> c = 0x20 \<or> c = 0x09 \<or> c = 0x0d \<or> c = 0x0a"

text \<open>The loop of \<open>EVP_DecodeUpdate\<close>: the context, the bytes written, and whether the loop ran to its end.\<close>

fun decode_update_loop :: "EVP_ENCODE_CTX \<Rightarrow> bytes \<Rightarrow> EVP_ENCODE_CTX \<times> bytes \<times> bool" where
  "decode_update_loop ctx [] = (ctx, [], True)"
| "decode_update_loop ctx (c # inp) =
     (if is_space c then decode_update_loop ctx inp
      else if eof_seen ctx then (ctx\<lparr>error_encountered := True\<rparr>, [], False)
      else
        let ctx = ctx\<lparr>data := (data ctx)[data_used ctx := c], data_used := data_used ctx + 1\<rparr>
        in if data_used ctx \<noteq> 4 then decode_update_loop ctx inp
           else (case base64_decode_quad (data ctx ! 0) (data ctx ! 1) (data ctx ! 2) (data ctx ! 3) of
                   None \<Rightarrow> (ctx\<lparr>error_encountered := True\<rparr>, [], False)
                 | Some quad \<Rightarrow>
                     let ctx = ctx\<lparr>data_used := 0\<rparr>;
                         ctx = (if length quad < 3 then ctx\<lparr>eof_seen := True\<rparr> else ctx)
                     in (case decode_update_loop ctx inp of (ctx, out, ok) \<Rightarrow> (ctx, quad @ out, ok))))"

text \<open>The return value, the context, the bytes written and \<open>*out_len\<close>.\<close>

definition EVP_DecodeUpdate :: "EVP_ENCODE_CTX \<Rightarrow> bytes \<Rightarrow> int \<times> EVP_ENCODE_CTX \<times> bytes \<times> int" where
  "EVP_DecodeUpdate ctx inp =
     (if error_encountered ctx then (- 1, ctx, [], 0)
      else
        case decode_update_loop ctx inp of (ctx, out, ok) \<Rightarrow>
          if \<not> ok then (- 1, ctx, out, 0)
          else if int (length out) > 0x7fffffff then (- 1, ctx\<lparr>error_encountered := True\<rparr>, out, 0)
          else (if eof_seen ctx then 0 else 1, ctx, out, int (length out)))"

definition EVP_DecodeFinal :: "EVP_ENCODE_CTX \<Rightarrow> int" where
  "EVP_DecodeFinal ctx = (if error_encountered ctx \<or> data_used ctx \<noteq> 0 then - 1 else 1)"

fun decode_base64_loop :: "bytes \<Rightarrow> bytes option" where
  "decode_base64_loop (a # b # c # d # inp) =
     (case base64_decode_quad a b c d of
        None \<Rightarrow> None
      | Some quad \<Rightarrow>
          if length quad \<noteq> 3 \<and> inp \<noteq> [] then None
          else map_option ((@) quad) (decode_base64_loop inp))"
| "decode_base64_loop inp = Some []"

definition EVP_DecodeBase64 :: "u64 \<Rightarrow> bytes \<Rightarrow> bytes option" where
  "EVP_DecodeBase64 max_out inp =
     (if length inp mod 4 \<noteq> 0 then None
      else case EVP_DecodedLength (word_of_nat (length inp)) of
             None \<Rightarrow> None
           | Some max_len \<Rightarrow> if max_out < max_len then None else decode_base64_loop inp)"

text \<open>The result is the returned length, negative for a failure, and the bytes written if it succeeds.\<close>

definition EVP_DecodeBlock :: "bytes \<Rightarrow> int \<times> bytes" where
  "EVP_DecodeBlock src =
     (let src = dropWhile (\<lambda>c. c = 0x20 \<or> c = 0x09) src;
          src = rev (dropWhile is_space (rev src))
      in case EVP_DecodedLength (word_of_nat (length src)) of
           None \<Rightarrow> (- 1, [])
         | Some dst_len \<Rightarrow>
             if dst_len > INT_MAX_u64 then (- 1, [])
             else (case EVP_DecodeBase64 dst_len src of
                     None \<Rightarrow> (- 1, [])
                   | Some dst \<Rightarrow>
                       let dst = dst @ replicate ((3 - length dst mod 3) mod 3) 0
                       in (int (length dst), dst)))"

subsection \<open>The reference\<close>

definition b64_char :: "nat \<Rightarrow> u8" where
  "b64_char n =
     (if n < 26 then word_of_nat (0x41 + n)
      else if n < 52 then word_of_nat (0x61 + (n - 26))
      else if n < 62 then word_of_nat (0x30 + (n - 52))
      else if n = 62 then 0x2b
      else 0x2f)"

definition b64_digits :: "nat \<Rightarrow> bytes" where
  "b64_digits n = map b64_char [n div 64 div 64 div 64 mod 64, n div 64 div 64 mod 64, n div 64 mod 64, n mod 64]"

text \<open>Groups of three bytes as four digits to the base 64; a short group is filled with zeros and padded.\<close>

fun b64 :: "bytes \<Rightarrow> bytes" where
  "b64 [] = []"
| "b64 [x] = take 2 (b64_digits (be_val [x, 0, 0])) @ [0x3d, 0x3d]"
| "b64 [x, y] = take 3 (b64_digits (be_val [x, y, 0])) @ [0x3d]"
| "b64 (x # y # z # rest) = b64_digits (be_val [x, y, z]) @ b64 rest"

subsection \<open>Characters and digits\<close>

lemma ucast_minus_1: "ucast (- 1 :: u64) = (- 1 :: u8)"
  by (rule bit_word_eqI) (simp add: bit_ucast_iff)

lemma constant_time_lt_args_8_eq: "constant_time_lt_args_8 a b = (if a < b then - 1 else 0)"
proof -
  have u: "uint (ucast a :: u64) = uint a" "uint (ucast b :: u64) = uint b"
    by (simp_all add: uint_up_ucast is_up)
  have p: "(256 :: int) \<le> 2 ^ 63" "(2 :: int) ^ 64 = 2 * 2 ^ 63"
    by simp_all
  have range: "uint a < 256" "uint b < 256" "0 \<le> uint a" "0 \<le> uint b"
    using uint_lt2p [of a] uint_lt2p [of b] by simp_all
  have "2 ^ 63 \<le> uint (ucast a - ucast b :: u64) \<longleftrightarrow> uint a < uint b"
  proof (cases "uint b \<le> uint a")
    case True
    then have "uint (ucast a - ucast b :: u64) = uint a - uint b"
      by (simp add: uint_diff_cases u)
    moreover have "uint a - uint b < 2 ^ 63"
      using range p by linarith
    ultimately show ?thesis
      using True by simp
  next
    case False
    then have "uint (ucast a - ucast b :: u64) = 2 ^ 64 + uint a - uint b"
      by (simp add: uint_diff_cases u)
    moreover have "2 ^ 63 \<le> 2 ^ 64 + uint a - uint b"
      using range p by linarith
    ultimately show ?thesis
      using False by simp
  qed
  then have "bit (ucast a - ucast b :: u64) 63 \<longleftrightarrow> a < b"
    using bit_msb_iff_uint [of "ucast a - ucast b :: u64"] by (simp add: word_less_def)
  then show ?thesis
    by (simp add: constant_time_lt_args_8_def constant_time_msb_w_eq CONSTTIME_TRUE_W_def CONSTTIME_FALSE_W_def ucast_minus_1)
qed

lemma ucast_ucast_byte: "(ucast (ucast m :: u64) :: u8) = m"
  by (rule bit_word_eqI) (simp add: bit_ucast_iff)

lemma constant_time_eq_8_byte:
  "constant_time_eq_8 (ucast a :: u64) 62 = (if a = 62 then - 1 else 0)"
  "constant_time_eq_8 (ucast a :: u64) 0x2b = (if a = 0x2b then - 1 else 0)"
  "constant_time_eq_8 (ucast a :: u64) 0x2f = (if a = 0x2f then - 1 else 0)"
  "constant_time_eq_8 (ucast a :: u64) 0x3d = (if a = 0x3d then - 1 else 0)" for a :: u8
  by (simp_all add: constant_time_eq_8_def constant_time_eq_w_eq CONSTTIME_TRUE_W_def CONSTTIME_FALSE_W_def
      word_unat_eq_iff unat_ucast_widen ucast_minus_1)

lemma select_8_byte: "constant_time_select_8 (ucast (if c then - 1 else 0 :: u8) :: u64) x y = (if c then x else y)"
  by (simp add: constant_time_select_8_def value_barrier_w_def ucast_ucast_byte Let_def)

lemma b64_char_word:
  "b64_char (unat b) =
     (if b < 26 then b + 0x41 else if b < 52 then b - 26 + 0x61 else if b < 62 then b - 52 + 0x30
      else if b = 62 then 0x2b else 0x2f)"
  by (auto simp: b64_char_def word_less_nat_alt of_nat_diff not_less word_unat_eq_iff [of b])

lemma conv_bin2ascii_eq: "conv_bin2ascii a = b64_char (unat a mod 64)"
proof -
  define b where "b = a AND 0x3f"
  have m: "(0x3f :: u8) = mask 6"
    by (simp add: mask_eq_exp_minus_1)
  have "unat b = unat (take_bit 6 a)"
    unfolding b_def m by (simp only: take_bit_eq_mask)
  also have "\<dots> = take_bit 6 (unat a)"
    by (rule unsigned_take_bit_eq)
  finally have b: "unat b = unat a mod 64"
    by (simp add: take_bit_eq_mod)
  have "conv_bin2ascii a = b64_char (unat b)"
    unfolding conv_bin2ascii_def b_def [symmetric] b64_char_word
    by (simp only: Let_def constant_time_eq_8_byte constant_time_lt_args_8_eq select_8_byte)
  then show ?thesis
    by (simp only: b)
qed

lemma in_range_8:
  "constant_time_in_range_8 a 0x41 0x5a = (if 0x41 \<le> unat a \<and> unat a \<le> 0x5a then - 1 else 0)"
  "constant_time_in_range_8 a 0x61 0x7a = (if 0x61 \<le> unat a \<and> unat a \<le> 0x7a then - 1 else 0)"
  "constant_time_in_range_8 a 0x30 0x39 = (if 0x30 \<le> unat a \<and> unat a \<le> 0x39 then - 1 else 0)"
  using unat_lt_256 [of a]
  by (auto simp: constant_time_in_range_8_def constant_time_lt_args_8_eq word_less_nat_alt unat_sub_if')

lemma base64_ascii_to_bin_values:
  "base64_ascii_to_bin 0x3d = 0" "base64_ascii_to_bin 0x2b = 62" "base64_ascii_to_bin 0x2f = 63"
  by code_simp+

lemma base64_ascii_to_bin_char: "n < 64 \<Longrightarrow> base64_ascii_to_bin (b64_char n) = word_of_nat n"
proof -
  assume n: "n < 64"
  let ?b = "b64_char n"
  consider "n < 26" "unat ?b = 0x41 + n" | "26 \<le> n" "n < 52" "unat ?b = 0x61 + (n - 26)"
    | "52 \<le> n" "n < 62" "unat ?b = 0x30 + (n - 52)" | "n = 62" "?b = 0x2b" | "n = 63" "?b = 0x2f"
  proof -
    have "unat (word_of_nat k :: u8) = k" if "k < 256" for k
      using that by (intro unat_word_of_nat) simp
    then show ?thesis
      using n that unfolding b64_char_def by (cases "n < 26"; cases "n < 52"; cases "n < 62"; cases "n = 62")
        (simp_all del: of_nat_add of_nat_diff)
  qed
  then show ?thesis
  proof cases
    case 1
    then have "?b - 0x41 = word_of_nat n"
      by (simp add: b64_char_def)
    then show ?thesis
      using 1 by (simp add: base64_ascii_to_bin_def Let_def in_range_8 constant_time_eq_8_byte word_unat_eq_iff [of ?b])
  next
    case 2
    then have "?b - 0x61 + 26 = word_of_nat n"
      by (simp add: b64_char_def of_nat_diff)
    then show ?thesis
      using 2 by (simp add: base64_ascii_to_bin_def Let_def in_range_8 constant_time_eq_8_byte word_unat_eq_iff [of ?b])
  next
    case 3
    then have "?b - 0x30 + 52 = word_of_nat n"
      by (simp add: b64_char_def of_nat_diff)
    moreover have "\<not> 0x41 \<le> unat ?b" "\<not> 0x61 \<le> unat ?b" "0x30 \<le> unat ?b" "unat ?b \<le> 0x39"
      "unat ?b \<noteq> 0x2b" "unat ?b \<noteq> 0x2f" "unat ?b \<noteq> 0x3d"
      using 3 by simp_all
    ultimately show ?thesis
      by (simp add: base64_ascii_to_bin_def Let_def in_range_8 constant_time_eq_8_byte word_unat_eq_iff [of ?b])
  qed (simp_all add: base64_ascii_to_bin_values)
qed

lemma b64_char_not: "n < 64 \<Longrightarrow> b64_char n \<noteq> 0x3d" "n < 64 \<Longrightarrow> \<not> is_space (b64_char n)"
proof -
  assume n: "n < 64"
  then have "base64_ascii_to_bin (b64_char n) \<noteq> 0xff"
    by (simp add: base64_ascii_to_bin_char word_unat_eq_iff unat_of_nat)
  moreover have "base64_ascii_to_bin c = 0xff" if "is_space c" for c
    using that by (auto simp: is_space_def base64_ascii_to_bin_def Let_def in_range_8 constant_time_eq_8_byte)
  ultimately show "\<not> is_space (b64_char n)"
    by auto
  have "unat (word_of_nat k :: u8) = k" if "k < 256" for k
    using that by (intro unat_word_of_nat) simp
  then show "b64_char n \<noteq> 0x3d"
    using n unfolding b64_char_def word_unat_eq_iff
    by (cases "n < 26"; cases "n < 52"; cases "n < 62"; cases "n = 62") (simp_all del: of_nat_add of_nat_diff)
qed

subsection \<open>Encoding\<close>

lemma conv_shift: "conv_bin2ascii (ucast (drop_bit k l)) = b64_char (unat l div 2 ^ k mod 64)" for l :: u32
proof -
  have "unat (ucast (drop_bit k l) :: u8) = unat l div 2 ^ k mod 256"
    by (simp add: unat_ucast_mod unat_drop_bit)
  then show ?thesis
    by (simp add: conv_bin2ascii_eq mod_mod_cancel)
qed

lemma unat_group:
  "unat (push_bit 16 (ucast x) OR push_bit 8 (ucast y) OR ucast z :: u32) = be_val [x, y, z]"
proof -
  have u: "unat (ucast b :: u32) = unat b" "unat b < 256" for b :: u8
    by (simp_all add: unat_ucast_widen unat_lt_256)
  have "unat (push_bit 8 (ucast x) OR ucast y :: u32) = unat x * 256 + unat y"
    using push_bit_or_small [of "ucast y :: u32" 8 "ucast x"] u(2) [of x] u(2) [of y] by (simp add: u(1))
  then have "unat (push_bit 8 (push_bit 8 (ucast x) OR ucast y) OR ucast z :: u32) = (unat x * 256 + unat y) * 256 + unat z"
    using push_bit_or_small [of "ucast z :: u32" 8 "push_bit 8 (ucast x) OR ucast y"] u(2) [of x] u(2) [of y] u(2) [of z]
    by (simp add: u(1))
  then show ?thesis
    by (simp add: be_val_def push_bit_or push_bit_push_bit or.assoc)
qed

lemma EVP_EncodeBlock_eq: "EVP_EncodeBlock bs = b64 bs"
proof -
  have short: "be_val [x, y, 0] = unat (push_bit 16 (ucast x) OR push_bit 8 (ucast y) :: u32)"
    "be_val [x, 0, 0] = unat (push_bit 16 (ucast x) :: u32)" for x y :: u8
    using unat_group [of x y 0] unat_group [of x 0 0] by simp_all
  have div2: "n div 4096 = n div 64 div 64" "n div 262144 = n div 64 div 64 div 64" for n :: nat
    by (simp_all add: div_mult2_eq [symmetric])
  have last_digit: "conv_bin2ascii (ucast l) = b64_char (unat l mod 64)" for l :: u32
    using conv_shift [of 0 l] by simp
  show ?thesis
    by (induction bs rule: EVP_EncodeBlock.induct)
      (simp_all only: EVP_EncodeBlock.simps b64.simps encode_quad_def b64_digits_def last_digit short unat_group
        unat_drop_bit Let_def, simp_all add: div2)
qed

subsection \<open>Decoding\<close>

lemma unat_quad:
  assumes "a < 64" "b < 64" "c < 64" "d < 64"
  shows "unat (push_bit 18 (ucast (word_of_nat a :: u8)) OR push_bit 12 (ucast (word_of_nat b :: u8)) OR
      push_bit 6 (ucast (word_of_nat c :: u8)) OR ucast (word_of_nat d :: u8) :: u32) = ((a * 64 + b) * 64 + c) * 64 + d"
proof -
  have u: "unat (ucast (word_of_nat n :: u8) :: u32) = n" if "n < 64" for n
    using that by (simp add: unat_ucast_widen unat_of_nat)
  let ?w = "\<lambda>n. ucast (word_of_nat n :: u8) :: u32"
  have 1: "unat (push_bit 6 (?w a) OR ?w b) = a * 64 + b"
    using push_bit_or_small [of "?w b" 6 "?w a"] assms u by simp
  have 2: "unat (push_bit 6 (push_bit 6 (?w a) OR ?w b) OR ?w c) = (a * 64 + b) * 64 + c"
    using push_bit_or_small [of "?w c" 6 "push_bit 6 (?w a) OR ?w b"] assms u 1 by simp
  have "unat (push_bit 6 (push_bit 6 (push_bit 6 (?w a) OR ?w b) OR ?w c) OR ?w d) = ((a * 64 + b) * 64 + c) * 64 + d"
    using push_bit_or_small [of "?w d" 6 "push_bit 6 (push_bit 6 (?w a) OR ?w b) OR ?w c"] assms u 2 by simp
  then show ?thesis
    by (simp add: push_bit_or push_bit_push_bit or.assoc)
qed

lemma ucast_word_of_nat: "(ucast w :: u8) = word_of_nat (unat w)" for w :: u32
  by (simp add: word_unat_eq_iff unat_ucast_mod unat_of_nat)

lemma be_bytes_3: "be_bytes 3 n = [word_of_nat (n div 65536), word_of_nat (n div 256), word_of_nat n]"
  by (simp add: numeral_3_eq_3 div_mult2_eq [symmetric])

lemma pad_patterns:
  "(push_bit 3 (of_bool False) OR push_bit 2 (of_bool False) OR push_bit 1 (of_bool False) OR of_bool False :: u32) = 0"
  "(push_bit 3 (of_bool False) OR push_bit 2 (of_bool False) OR push_bit 1 (of_bool False) OR of_bool True :: u32) = 1"
  "(push_bit 3 (of_bool False) OR push_bit 2 (of_bool False) OR push_bit 1 (of_bool True) OR of_bool True :: u32) = 3"
  "(1 :: u32) \<noteq> 0" "(3 :: u32) \<noteq> 0" "(3 :: u32) \<noteq> 1"
  by simp_all

lemma decode_quad_chars:
  assumes "a < 64" "b < 64" "c < 64" "d < 64"
  shows "base64_decode_quad (b64_char a) (b64_char b) (b64_char c) (b64_char d) =
      Some (be_bytes 3 (((a * 64 + b) * 64 + c) * 64 + d))"
    and "base64_decode_quad (b64_char a) (b64_char b) (b64_char c) 0x3d =
      Some (take 2 (be_bytes 3 (((a * 64 + b) * 64 + c) * 64 + 0)))"
    and "base64_decode_quad (b64_char a) (b64_char b) 0x3d 0x3d =
      Some (take 1 (be_bytes 3 (((a * 64 + b) * 64 + 0) * 64 + 0)))"
proof -
  have n: "((word_of_nat n :: u8) = 0xff) = False" "(b64_char n = 0x3d) = False" if "n < 64" for n
    using that b64_char_not(1) by (simp_all add: word_unat_eq_iff unat_of_nat)
  have zero: "(0 :: u8) = word_of_nat 0" "(0x3d = (0x3d :: u8)) = True" "(0 :: nat) < 64"
    by simp_all
  note simps = base64_decode_quad_def Let_def base64_ascii_to_bin_char base64_ascii_to_bin_values n pad_patterns
    ucast_word_of_nat unat_drop_bit be_bytes_3 unat_quad if_False if_True simp_thms
  show "base64_decode_quad (b64_char a) (b64_char b) (b64_char c) (b64_char d) =
      Some (be_bytes 3 (((a * 64 + b) * 64 + c) * 64 + d))"
    by (simp only: simps assms) simp
  show "base64_decode_quad (b64_char a) (b64_char b) (b64_char c) 0x3d =
      Some (take 2 (be_bytes 3 (((a * 64 + b) * 64 + c) * 64 + 0)))"
    by (simp only: simps assms zero) simp
  show "base64_decode_quad (b64_char a) (b64_char b) 0x3d 0x3d = Some (take 1 (be_bytes 3 (((a * 64 + b) * 64 + 0) * 64 + 0)))"
    by (simp only: simps assms zero) simp
qed

subsection \<open>Groups\<close>

lemma digits_sum:
  "n < 2 ^ 24 \<Longrightarrow>
    ((n div 64 div 64 div 64 mod 64 * 64 + n div 64 div 64 mod 64) * 64 + n div 64 mod 64) * 64 + n mod 64 = n" for n :: nat
proof -
  assume "n < 2 ^ 24"
  then have "n div 64 div 64 div 64 < 64"
    by (simp add: div_mult2_eq [symmetric] less_mult_imp_div_less)
  then show ?thesis
    by (simp only: mod_less div_mult_mod_eq)
qed

lemma be_bytes_3_val: "be_bytes 3 (be_val [x, y, z]) = [x, y, z]"
  using be_bytes_be_val [of "[x, y, z]"] by (simp only: list.size numeral_3_eq_3 add_0_right add_Suc_right)

text \<open>A group of one, two or three bytes is encoded as four characters, which the decoder maps back.\<close>

lemma b64_group:
  assumes "bs \<noteq> []" "length bs \<le> 3"
  obtains p q r s where "b64 bs = [p, q, r, s]" "base64_decode_quad p q r s = Some bs" "\<not> is_space p" "\<not> is_space q"
    "\<not> is_space r" "\<not> is_space s"
proof -
  have pad: "\<not> is_space 0x3d" "\<not> is_space (b64_char (n mod 64))" for n
    using b64_char_not(2) [of "n mod 64"] by (simp_all add: is_space_def)
  have less: "be_val xs < 2 ^ 24" if "length xs = 3" for xs
    using be_val_lt [of xs] that by simp
  let ?d = "\<lambda>n. n div 64 div 64 div 64 mod 64 :: nat"
  consider x where "bs = [x]" | x y where "bs = [x, y]" | x y z where "bs = [x, y, z]"
    using assms by (cases bs; cases "tl bs"; cases "tl (tl bs)") auto
  then show ?thesis
  proof cases
    case (1 x)
    let ?n = "be_val [x, 0, 0]"
    have z: "?n mod 64 = 0" "?n div 64 mod 64 = 0"
      by (simp_all add: be_val_def)
    have "base64_decode_quad (b64_char (?d ?n)) (b64_char (?n div 64 div 64 mod 64)) 0x3d 0x3d = Some (take 1 (be_bytes 3 ?n))"
      using decode_quad_chars(3) [of "?d ?n" "?n div 64 div 64 mod 64" 0 0] digits_sum [OF less, of "[x, 0, 0]"] z by simp
    also have "take 1 (be_bytes 3 ?n) = [x]"
      by (simp add: be_bytes_3_val)
    finally have dec: "base64_decode_quad (b64_char (?d ?n)) (b64_char (?n div 64 div 64 mod 64)) 0x3d 0x3d = Some bs"
      unfolding 1 .
    show ?thesis
      using 1 by (intro that [OF _ dec]) (simp_all add: b64_digits_def pad)
  next
    case (2 x y)
    let ?n = "be_val [x, y, 0]"
    have z: "?n mod 64 = 0"
      by (simp add: be_val_def mod_mult_right_eq)
    have "base64_decode_quad (b64_char (?d ?n)) (b64_char (?n div 64 div 64 mod 64)) (b64_char (?n div 64 mod 64)) 0x3d =
        Some (take 2 (be_bytes 3 ?n))"
      using decode_quad_chars(2) [of "?d ?n" "?n div 64 div 64 mod 64" "?n div 64 mod 64" 0]
        digits_sum [OF less, of "[x, y, 0]"] z
      by simp
    also have "take 2 (be_bytes 3 ?n) = [x, y]"
      by (simp add: be_bytes_3_val)
    finally have dec: "base64_decode_quad (b64_char (?d ?n)) (b64_char (?n div 64 div 64 mod 64)) (b64_char (?n div 64 mod 64)) 0x3d =
        Some bs"
      unfolding 2 .
    show ?thesis
      using 2 by (intro that [OF _ dec]) (simp_all add: b64_digits_def pad)
  next
    case (3 x y z)
    let ?n = "be_val [x, y, z]"
    have "base64_decode_quad (b64_char (?d ?n)) (b64_char (?n div 64 div 64 mod 64)) (b64_char (?n div 64 mod 64))
        (b64_char (?n mod 64)) = Some (be_bytes 3 ?n)"
      using decode_quad_chars(1) [of "?d ?n" "?n div 64 div 64 mod 64" "?n div 64 mod 64" "?n mod 64"]
        digits_sum [OF less, of "[x, y, z]"] by simp
    also have "be_bytes 3 ?n = [x, y, z]"
      by (rule be_bytes_3_val)
    finally have dec: "base64_decode_quad (b64_char (?d ?n)) (b64_char (?n div 64 div 64 mod 64)) (b64_char (?n div 64 mod 64))
        (b64_char (?n mod 64)) = Some bs"
      unfolding 3 .
    show ?thesis
      using 3 by (intro that [OF _ dec]) (simp_all add: b64_digits_def pad)
  qed
qed

lemma b64_append: "length xs mod 3 = 0 \<Longrightarrow> b64 (xs @ ys) = b64 xs @ b64 ys"
proof (induction xs rule: b64.induct)
  case (4 x y z rest)
  then show ?case
    by (simp add: mod_Suc split: if_splits)
qed simp_all

lemma b64_Cons_group: "b64 (x # y # z # rest) = b64 [x, y, z] @ b64 rest"
  by simp

lemma length_b64: "length (b64 bs) = 4 * ((length bs + 2) div 3)"
proof (induction bs rule: b64.induct)
  case (4 x y z rest)
  have "(length (x # y # z # rest) + 2) div 3 = Suc ((length rest + 2) div 3)"
    using div_add_self2 [of 3 "length rest + 2"] by simp
  then show ?case
    using 4 by (simp only: b64.simps length_append) (simp add: b64_digits_def)
qed (simp_all add: b64_digits_def)

lemma b64_Nil_iff: "b64 bs = [] \<longleftrightarrow> bs = []"
  by (cases bs rule: b64.cases) (simp_all add: b64_digits_def)

lemma decode_base64_loop_group:
  assumes "bs \<noteq> []" "length bs \<le> 3" "length bs = 3 \<or> rest = []"
  shows "decode_base64_loop (b64 bs @ rest) = map_option ((@) bs) (decode_base64_loop rest)"
proof -
  obtain p q r s where "b64 bs = [p, q, r, s]" "base64_decode_quad p q r s = Some bs"
    by (rule b64_group [OF assms(1,2)])
  then show ?thesis
    using assms(3) by auto
qed

lemma decode_base64_loop_b64: "decode_base64_loop (b64 bs) = Some bs"
proof (induction bs rule: b64.induct)
  case (2 x)
  then show ?case
    using decode_base64_loop_group [of "[x]" "[]"] by simp
next
  case (3 x y)
  then show ?case
    using decode_base64_loop_group [of "[x, y]" "[]"] by simp
next
  case (4 x y z rest)
  show ?case
    using decode_base64_loop_group [of "[x, y, z]" "b64 rest"] 4 by (subst b64_Cons_group) simp
qed simp

text \<open>The decoder's automaton between two groups.\<close>

definition dec_ok :: "EVP_ENCODE_CTX \<Rightarrow> bool \<Rightarrow> bool" where
  "dec_ok ctx eof \<longleftrightarrow> data_used ctx = 0 \<and> 4 \<le> length (data ctx) \<and> eof_seen ctx = eof \<and> \<not> error_encountered ctx"

lemma decode_loop_append:
  "decode_update_loop ctx (xs @ ys) =
     (case decode_update_loop ctx xs of (ctx1, out, ok) \<Rightarrow>
        if ok then (case decode_update_loop ctx1 ys of (ctx2, out', ok') \<Rightarrow> (ctx2, out @ out', ok')) else (ctx1, out, False))"
proof (induction ctx xs rule: decode_update_loop.induct)
  case (1 ctx)
  then show ?case
    by (simp split: prod.split)
next
  case (2 ctx c inp)
  show ?case
    using 2 by (auto simp: Let_def split: option.split prod.split)
qed

lemma decode_loop_quad:
  assumes "dec_ok ctx False" "\<not> is_space p" "\<not> is_space q" "\<not> is_space r" "\<not> is_space s"
    and "base64_decode_quad p q r s = Some quad"
  obtains ctx' where "decode_update_loop ctx [p, q, r, s] = (ctx', quad, True)" "dec_ok ctx' (length quad < 3)"
proof -
  obtain a b c d rest where data: "data ctx = a # b # c # d # rest"
    using assms(1) by (auto simp: dec_ok_def Suc_le_length_iff numeral_eq_Suc)
  show ?thesis
    using assms that by (auto simp: dec_ok_def data Let_def)
qed

lemma decode_loop_b64:
  "dec_ok ctx False \<Longrightarrow> \<exists>ctx'. decode_update_loop ctx (b64 bs) = (ctx', bs, True) \<and> dec_ok ctx' (length bs mod 3 \<noteq> 0)"
proof (induction bs arbitrary: ctx rule: b64.induct)
  case 1
  then show ?case
    by simp
next
  case (2 x)
  obtain p q r s where g: "b64 [x] = [p, q, r, s]" "base64_decode_quad p q r s = Some [x]" "\<not> is_space p" "\<not> is_space q"
    "\<not> is_space r" "\<not> is_space s"
    by (rule b64_group [of "[x]"]) simp_all
  obtain ctx' where "decode_update_loop ctx [p, q, r, s] = (ctx', [x], True)" "dec_ok ctx' (length [x] < 3)"
    by (rule decode_loop_quad [OF 2 g(3-6) g(2)])
  then show ?case
    unfolding g(1) by simp
next
  case (3 x y)
  obtain p q r s where g: "b64 [x, y] = [p, q, r, s]" "base64_decode_quad p q r s = Some [x, y]" "\<not> is_space p" "\<not> is_space q"
    "\<not> is_space r" "\<not> is_space s"
    by (rule b64_group [of "[x, y]"]) simp_all
  obtain ctx' where "decode_update_loop ctx [p, q, r, s] = (ctx', [x, y], True)" "dec_ok ctx' (length [x, y] < 3)"
    by (rule decode_loop_quad [OF 3 g(3-6) g(2)])
  then show ?case
    unfolding g(1) by simp
next
  case (4 x y z rest)
  obtain p q r s where g: "b64 [x, y, z] = [p, q, r, s]" "base64_decode_quad p q r s = Some [x, y, z]" "\<not> is_space p"
    "\<not> is_space q" "\<not> is_space r" "\<not> is_space s"
    by (rule b64_group [of "[x, y, z]"]) simp_all
  obtain ctx1 where ctx1: "decode_update_loop ctx [p, q, r, s] = (ctx1, [x, y, z], True)" "dec_ok ctx1 False"
    by (rule decode_loop_quad [OF 4(2) g(3-6) g(2)]) simp
  obtain ctx' where "decode_update_loop ctx1 (b64 rest) = (ctx', rest, True)" "dec_ok ctx' (length rest mod 3 \<noteq> 0)"
    using 4(1) [OF ctx1(2)] by blast
  moreover have "length (x # y # z # rest) mod 3 = length rest mod 3"
    using mod_add_self1 [of 3 "length rest"] by simp
  ultimately have "decode_update_loop ctx (b64 [x, y, z] @ b64 rest) = (ctx', x # y # z # rest, True)"
    "dec_ok ctx' (length (x # y # z # rest) mod 3 \<noteq> 0)"
    unfolding decode_loop_append g(1) ctx1(1) by simp_all
  then show ?case
    by (subst b64_Cons_group) blast
qed

text \<open>The encoder's output: lines of 48 bytes.\<close>

function b64_lines :: "bytes \<Rightarrow> bytes" where
  "b64_lines bs = (if bs = [] then [] else b64 (take 48 bs) @ [0x0a] @ b64_lines (drop 48 bs))"
  by pat_completeness auto
termination
  by (relation "measure length") auto

declare b64_lines.simps [simp del]

lemma decode_loop_newline: "decode_update_loop ctx [0x0a] = (ctx, [], True)"
  by (simp add: is_space_def)

lemma decode_loop_lines:
  "dec_ok ctx False \<Longrightarrow> \<exists>ctx'. decode_update_loop ctx (b64_lines bs) = (ctx', bs, True) \<and> dec_ok ctx' (length bs mod 3 \<noteq> 0)"
proof (induction bs arbitrary: ctx rule: b64_lines.induct)
  case (1 bs)
  show ?case
  proof (cases "bs = []")
    case True
    then show ?thesis
      using 1(2) by (simp add: b64_lines.simps)
  next
    case False
    obtain ctx1 where ctx1: "decode_update_loop ctx (b64 (take 48 bs)) = (ctx1, take 48 bs, True)"
      "dec_ok ctx1 (length (take 48 bs) mod 3 \<noteq> 0)"
      using decode_loop_b64 [OF 1(2)] by blast
    have lines: "b64_lines bs = b64 (take 48 bs) @ [0x0a] @ b64_lines (drop 48 bs)"
      using False by (subst b64_lines.simps) simp
    show ?thesis
    proof (cases "length bs \<le> 48")
      case True
      then have "b64_lines (drop 48 bs) = []"
        by (simp add: b64_lines.simps)
      then show ?thesis
        using ctx1 True unfolding lines decode_loop_append decode_loop_newline by simp
    next
      case long: False
      then have "dec_ok ctx1 False"
        using ctx1(2) by simp
      from 1(1) [OF False this] obtain ctx' where "decode_update_loop ctx1 (b64_lines (drop 48 bs)) = (ctx', drop 48 bs, True)"
        "dec_ok ctx' (length (drop 48 bs) mod 3 \<noteq> 0)"
        by blast
      moreover have "length (drop 48 bs) mod 3 = length bs mod 3"
        using long mod_mult_self2 [of "length bs - 48" 3 16] by simp
      ultimately show ?thesis
        using ctx1(1) unfolding lines decode_loop_append decode_loop_newline by simp
    qed
  qed
qed

subsection \<open>Streaming\<close>

text \<open>The full lines of an input and what is left over.\<close>

function split_lines :: "bytes \<Rightarrow> bytes \<times> bytes" where
  "split_lines bs =
     (if length bs \<ge> 48 then (case split_lines (drop 48 bs) of (out, r) \<Rightarrow> (b64 (take 48 bs) @ [0x0a] @ out, r))
      else ([], bs))"
  by pat_completeness auto
termination
  by (relation "measure length") auto

declare split_lines.simps [simp del]

lemma split_lines_short: "length bs < 48 \<Longrightarrow> split_lines bs = ([], bs)"
  by (simp add: split_lines.simps)

lemma split_lines_long:
  "48 \<le> length bs \<Longrightarrow> split_lines bs =
    (b64 (take 48 bs) @ [0x0a] @ fst (split_lines (drop 48 bs)), snd (split_lines (drop 48 bs)))"
  by (subst split_lines.simps) (simp split: prod.split)

lemma split_lines_append:
  "split_lines (bs @ inp) =
     (fst (split_lines bs) @ fst (split_lines (snd (split_lines bs) @ inp)), snd (split_lines (snd (split_lines bs) @ inp)))"
proof (induction bs rule: split_lines.induct)
  case (1 bs)
  show ?case
  proof (cases "48 \<le> length bs")
    case True
    then have "48 \<le> length (bs @ inp)"
      by simp
    note split_lines_long [OF this]
    moreover have "take 48 (bs @ inp) = take 48 bs" "drop 48 (bs @ inp) = drop 48 bs @ inp"
      using True by simp_all
    ultimately show ?thesis
      unfolding split_lines_long [OF True] by (simp only: 1 [OF True] fst_conv snd_conv append_assoc)
  next
    case False
    then have "split_lines bs = ([], bs)"
      by (intro split_lines_short) simp
    then show ?thesis
      by simp
  qed
qed

lemma split_lines_rest: "length (snd (split_lines bs)) < 48"
proof (induction bs rule: split_lines.induct)
  case (1 bs)
  show ?case
  proof (cases "48 \<le> length bs")
    case True
    then show ?thesis
      unfolding split_lines_long [OF True] using 1 [OF True] by simp
  qed (simp add: split_lines_short)
qed

lemma length_b64_48: "48 \<le> length bs \<Longrightarrow> length (b64 (take 48 bs)) = 64"
  by (simp add: length_b64)

lemma length_split_lines: "length (fst (split_lines bs)) = 65 * (length bs div 48)"
proof (induction bs rule: split_lines.induct)
  case (1 bs)
  show ?case
  proof (cases "48 \<le> length bs")
    case True
    then have "length bs div 48 = Suc ((length bs - 48) div 48)"
      by (simp add: le_div_geq)
    then show ?thesis
      unfolding split_lines_long [OF True] using 1 [OF True] by (simp add: length_b64_48 [OF True])
  qed (simp add: split_lines_short)
qed

lemma b64_lines_split:
  "b64_lines bs = fst (split_lines bs) @ (if snd (split_lines bs) = [] then [] else b64 (snd (split_lines bs)) @ [0x0a])"
proof (induction bs rule: split_lines.induct)
  case (1 bs)
  show ?case
  proof (cases "48 \<le> length bs")
    case True
    then have "b64_lines bs = b64 (take 48 bs) @ [0x0a] @ b64_lines (drop 48 bs)"
      by (subst b64_lines.simps) auto
    then show ?thesis
      unfolding split_lines_long [OF True] using 1 [OF True] by simp
  next
    case False
    then have "split_lines bs = ([], bs)" "drop 48 bs = []"
      by (auto intro: split_lines_short)
    moreover have "b64_lines [] = []"
      by (simp add: b64_lines.simps)
    ultimately show ?thesis
      using False by (subst b64_lines.simps) simp
  qed
qed

lemma encode_update_loop_eq:
  "unat tot + 65 * (length inp div 48) < 2 ^ 64 \<Longrightarrow>
    encode_update_loop inp tot = (fst (split_lines inp), snd (split_lines inp), Some (tot + word_of_nat (65 * (length inp div 48))))"
proof (induction inp tot rule: encode_update_loop.induct)
  case (1 inp tot)
  show ?case
  proof (cases "48 \<le> length inp")
    case True
    then have d: "length inp div 48 = Suc (length (drop 48 inp) div 48)"
      by (simp add: le_div_geq)
    then have small: "unat tot + 65 < 2 ^ 64" "unat tot + 65 + 65 * (length (drop 48 inp) div 48) < 2 ^ 64"
      using 1(2) by simp_all
    have u: "unat (tot + 65) = unat tot + 65"
      using small(1) by (simp add: unat_word_ariths)
    have len: "length (EVP_EncodeBlock (take 48 inp)) = 64"
      using length_b64_48 [OF True] by (simp add: EVP_EncodeBlock_eq)
    have no: "\<not> 65 + tot < tot"
      by (simp add: word_less_nat_alt u add.commute)
    have IH: "encode_update_loop (drop 48 inp) (tot + 65) = (fst (split_lines (drop 48 inp)), snd (split_lines (drop 48 inp)),
        Some (tot + 65 + word_of_nat (65 * (length (drop 48 inp) div 48))))"
      using 1(1) [OF True refl refl refl, unfolded len] no small(2) by (simp add: u)
    have "encode_update_loop inp tot = (case encode_update_loop (drop 48 inp) (tot + 65) of (out, inp', t) \<Rightarrow>
        (b64 (take 48 inp) @ [0x0a] @ out, inp', t))"
      using True no by (subst encode_update_loop.simps) (simp add: length_b64_48 [OF True] Let_def EVP_EncodeBlock_eq)
    then show ?thesis
      unfolding IH d split_lines_long [OF True] by simp
  next
    case False
    then show ?thesis
      by (subst encode_update_loop.simps) (simp add: split_lines_short)
  qed
qed

text \<open>\<open>p\<close> is the input that the encoder has buffered.\<close>

definition enc_ok :: "EVP_ENCODE_CTX \<Rightarrow> bytes \<Rightarrow> bool" where
  "enc_ok ctx p \<longleftrightarrow> data_used ctx = length p \<and> length p < 48 \<and> length (data ctx) = 48 \<and> take (length p) (data ctx) = p"

definition encode_rest :: "EVP_ENCODE_CTX \<Rightarrow> bytes \<Rightarrow> bytes \<Rightarrow> u64 \<Rightarrow> EVP_ENCODE_CTX \<times> bytes \<times> int" where
  "encode_rest ctx out inp tot =
     (let (lines, inp, tot) = encode_update_loop inp tot
      in case tot of
           None \<Rightarrow> (ctx, out @ lines, 0)
         | Some tot \<Rightarrow>
             let ctx = (if length inp \<noteq> 0 then ctx\<lparr>data := inp @ drop (length inp) (data ctx)\<rparr> else ctx);
                 ctx = ctx\<lparr>data_used := length inp\<rparr>;
                 tot = (if tot > INT_MAX_u64 then 0 else tot)
             in (ctx, out @ lines, uint tot))"

lemma encode_rest_ok:
  assumes "length (data ctx) = 48" "unat tot = length out" "length out \<le> 65" "length inp < 2 ^ 30"
  obtains ctx' where "encode_rest ctx out inp tot =
      (ctx', out @ fst (split_lines inp), int (length (out @ fst (split_lines inp))))" "enc_ok ctx' (snd (split_lines inp))"
proof -
  let ?k = "65 * (length inp div 48)"
  let ?r = "snd (split_lines inp)"
  have k: "?k \<le> 2 * length inp"
    using div_times_less_eq_dividend [of "length inp" 48] by linarith
  then have "unat tot + ?k < 2 ^ 31"
    using assms(2-4) by simp
  then have loop: "encode_update_loop inp tot = (fst (split_lines inp), ?r, Some (tot + word_of_nat ?k))"
    by (intro encode_update_loop_eq) simp
  have u: "unat (tot + word_of_nat ?k) = length out + ?k"
    using \<open>unat tot + ?k < 2 ^ 31\<close> assms(2) by (simp add: unat_word_ariths unat_of_nat)
  then have max: "\<not> tot + word_of_nat ?k > INT_MAX_u64"
    using \<open>unat tot + ?k < 2 ^ 31\<close> assms(2) by (simp add: INT_MAX_u64_def word_less_nat_alt)
  have "uint (tot + word_of_nat ?k) = int (length (out @ fst (split_lines inp)))"
    by (simp add: uint_nat u length_split_lines del: of_nat_mult)
  then show ?thesis
    using assms(1) split_lines_rest [of inp] max
    by (intro that [of "(if length ?r \<noteq> 0 then ctx\<lparr>data := ?r @ drop (length ?r) (data ctx)\<rparr> else ctx)\<lparr>data_used := length ?r\<rparr>"])
      (simp_all add: encode_rest_def loop enc_ok_def Let_def)
qed

lemma EVP_EncodeUpdate_ok:
  assumes ok: "enc_ok ctx p" and len: "length inp < 2 ^ 30"
  obtains ctx' where "EVP_EncodeUpdate ctx inp = (ctx', fst (split_lines (p @ inp)), int (length (fst (split_lines (p @ inp)))))"
    "enc_ok ctx' (snd (split_lines (p @ inp)))"
proof -
  have ctx: "data_used ctx = length p" "length p < 48" "length (data ctx) = 48" "take (length p) (data ctx) = p"
    using ok by (simp_all add: enc_ok_def)
  consider "length (p @ inp) < 48" | "48 \<le> length (p @ inp)" "p = []" | "48 \<le> length (p @ inp)" "p \<noteq> []"
    by linarith
  then show ?thesis
  proof cases
    case 1
    then have s: "split_lines (p @ inp) = ([], p @ inp)"
      by (rule split_lines_short)
    show ?thesis
    proof (cases "inp = []")
      case True
      then show ?thesis
        using s ok by (intro that [of ctx]) (simp_all add: EVP_EncodeUpdate_def)
    next
      case False
      moreover have "length inp < 48 - length p"
        using 1 by simp
      ultimately show ?thesis
        using 1 s ctx
        by (intro that [of "ctx\<lparr>data := p @ inp @ drop (length p + length inp) (data ctx), data_used := length p + length inp\<rparr>"])
          (simp_all add: EVP_EncodeUpdate_def enc_ok_def)
    qed
  next
    case 2
    then have "EVP_EncodeUpdate ctx inp = encode_rest ctx [] inp 0"
      using ctx by (auto simp: EVP_EncodeUpdate_def encode_rest_def)
    then show ?thesis
      using encode_rest_ok [OF ctx(3), of 0 "[]" inp] len that 2 by auto
  next
    case 3
    let ?todo = "48 - length p"
    let ?ctx = "ctx\<lparr>data := p @ take ?todo inp, data_used := 0\<rparr>"
    let ?enc = "b64 (p @ take ?todo inp)"
    have todo: "?todo \<le> length inp" "length (p @ take ?todo inp) = 48"
      using 3 ctx(2) by simp_all
    then have enc: "length ?enc = 64"
      by (simp add: length_b64)
    have "EVP_EncodeUpdate ctx inp = encode_rest ?ctx (?enc @ [0x0a]) (drop ?todo inp) 65"
      using 3 ctx enc by (auto simp: EVP_EncodeUpdate_def encode_rest_def EVP_EncodeBlock_eq Let_def)
    moreover have "split_lines (p @ inp) =
        (?enc @ [0x0a] @ fst (split_lines (drop ?todo inp)), snd (split_lines (drop ?todo inp)))"
      unfolding split_lines_long [OF 3(1)] using ctx(2) by simp
    moreover obtain ctx' where "encode_rest ?ctx (?enc @ [0x0a]) (drop ?todo inp) 65 =
        (ctx', (?enc @ [0x0a]) @ fst (split_lines (drop ?todo inp)),
         int (length ((?enc @ [0x0a]) @ fst (split_lines (drop ?todo inp)))))"
      "enc_ok ctx' (snd (split_lines (drop ?todo inp)))"
    proof (rule encode_rest_ok [of ?ctx 65 "?enc @ [0x0a]" "drop ?todo inp"])
      show "length (data ?ctx) = 48"
        using todo(2) by simp
      show "length (drop ?todo inp) < 2 ^ 30"
        using len by (simp add: less_imp_diff_less)
    qed (simp_all add: enc)
    ultimately show ?thesis
      by (intro that [of ctx']) simp_all
  qed
qed

text \<open>A sequence of calls: the bytes that the reported lengths cover.\<close>

fun encode_calls :: "EVP_ENCODE_CTX \<Rightarrow> bytes list \<Rightarrow> bytes" where
  "encode_calls ctx [] = (case EVP_EncodeFinal ctx of (_, out, out_len) \<Rightarrow> take (nat out_len) out)"
| "encode_calls ctx (inp # inps) =
     (case EVP_EncodeUpdate ctx inp of (ctx, out, out_len) \<Rightarrow> take (nat out_len) out @ encode_calls ctx inps)"

text \<open>\<open>None\<close> if a call fails.\<close>

fun decode_calls :: "EVP_ENCODE_CTX \<Rightarrow> bytes list \<Rightarrow> bytes option" where
  "decode_calls ctx [] = (if EVP_DecodeFinal ctx = 1 then Some [] else None)"
| "decode_calls ctx (inp # inps) =
     (case EVP_DecodeUpdate ctx inp of (ret, ctx, out, out_len) \<Rightarrow>
        if ret < 0 then None else map_option ((@) (take (nat out_len) out)) (decode_calls ctx inps))"

lemma encode_calls_ok:
  "enc_ok ctx p \<Longrightarrow> \<forall>inp\<in>set inps. length inp < 2 ^ 30 \<Longrightarrow>
    encode_calls ctx inps =
      fst (split_lines (p @ concat inps)) @
      (if snd (split_lines (p @ concat inps)) = [] then [] else b64 (snd (split_lines (p @ concat inps))) @ [0x0a])"
proof (induction inps arbitrary: ctx p)
  case Nil
  then have "split_lines p = ([], p)"
    by (intro split_lines_short) (simp add: enc_ok_def)
  then show ?case
    using Nil by (auto simp: EVP_EncodeFinal_def enc_ok_def EVP_EncodeBlock_eq Let_def)
next
  case (Cons inp inps)
  obtain ctx' where ctx': "EVP_EncodeUpdate ctx inp =
      (ctx', fst (split_lines (p @ inp)), int (length (fst (split_lines (p @ inp)))))" "enc_ok ctx' (snd (split_lines (p @ inp)))"
    by (rule EVP_EncodeUpdate_ok [OF Cons.prems(1), of inp]) (use Cons.prems(2) in auto)
  have "encode_calls ctx (inp # inps) = fst (split_lines (p @ inp)) @ encode_calls ctx' inps"
    by (simp add: ctx'(1))
  moreover have "split_lines (p @ concat (inp # inps)) = (fst (split_lines (p @ inp)) @
      fst (split_lines (snd (split_lines (p @ inp)) @ concat inps)), snd (split_lines (snd (split_lines (p @ inp)) @ concat inps)))"
    using split_lines_append [of "p @ inp" "concat inps"] by simp
  ultimately show ?case
    using Cons.IH [OF ctx'(2)] Cons.prems(2) by simp
qed

text \<open>The output is never longer than the input.\<close>

lemma length_decode_quad: "base64_decode_quad a b c d = Some quad \<Longrightarrow> length quad \<le> 3"
  by (auto simp: base64_decode_quad_def Let_def split: if_splits)

lemma length_decode_loop:
  "decode_update_loop ctx inp = (ctx', out, ok) \<Longrightarrow> data_used ctx < 4 \<Longrightarrow> length out \<le> data_used ctx + length inp"
proof (induction inp arbitrary: ctx out)
  case (Cons c inp)
  let ?ctx1 = "ctx\<lparr>data := (data ctx)[data_used ctx := c], data_used := data_used ctx + 1\<rparr>"
  consider "is_space c" | "\<not> is_space c" "eof_seen ctx" | "\<not> is_space c" "\<not> eof_seen ctx" "data_used ctx \<noteq> 3"
    | "\<not> is_space c" "\<not> eof_seen ctx" "data_used ctx = 3"
    by blast
  then show ?case
  proof cases
    case 1
    then show ?thesis
      using Cons.IH [of ctx out] Cons.prems by simp
  next
    case 3
    then show ?thesis
      using Cons.IH [of ?ctx1 out] Cons.prems by simp
  next
    case 4
    show ?thesis
    proof (cases "base64_decode_quad (data ?ctx1 ! 0) (data ?ctx1 ! 1) (data ?ctx1 ! 2) (data ?ctx1 ! 3)")
      case None
      then show ?thesis
        using Cons.prems 4 by (simp add: Let_def)
    next
      case (Some quad)
      let ?ctx2 = "if length quad < 3 then ?ctx1\<lparr>data_used := 0, eof_seen := True\<rparr> else ?ctx1\<lparr>data_used := 0\<rparr>"
      obtain out' where out': "decode_update_loop ?ctx2 inp = (ctx', out', ok)" "out = quad @ out'"
        using Cons.prems 4 Some by (auto simp: Let_def split: prod.splits if_splits)
      have "data_used ?ctx2 = 0"
        by simp
      then have "length out' \<le> length inp"
        using Cons.IH [OF out'(1)] by linarith
      then show ?thesis
        using out'(2) length_decode_quad [OF Some] 4(3) by simp
    qed
  qed (use Cons.prems in simp)
qed simp

lemma decode_loop_inv:
  "decode_update_loop ctx inp = (ctx', out, True) \<Longrightarrow> data_used ctx < 4 \<Longrightarrow> \<not> error_encountered ctx \<Longrightarrow>
    data_used ctx' < 4 \<and> \<not> error_encountered ctx'"
proof (induction inp arbitrary: ctx out)
  case (Cons c inp)
  then show ?case
    by (fastforce simp: Let_def split: if_splits option.splits prod.splits)
qed simp

lemma decode_calls_ok:
  "decode_update_loop ctx (concat inps) = (ctx', out, True) \<Longrightarrow> dec_ok ctx' eof \<Longrightarrow> data_used ctx < 4 \<Longrightarrow>
    \<not> error_encountered ctx \<Longrightarrow> \<forall>inp\<in>set inps. length inp < 2 ^ 30 \<Longrightarrow> decode_calls ctx inps = Some out"
proof (induction inps arbitrary: ctx out)
  case Nil
  then show ?case
    by (auto simp: EVP_DecodeFinal_def dec_ok_def)
next
  case (Cons inp inps)
  obtain ctx1 out1 ok1 where l1: "decode_update_loop ctx inp = (ctx1, out1, ok1)"
    by (cases "decode_update_loop ctx inp")
  then obtain out2 where l2: "ok1" "decode_update_loop ctx1 (concat inps) = (ctx', out2, True)" "out = out1 @ out2"
    using Cons.prems(1) by (auto simp: decode_loop_append split: if_splits prod.splits)
  have inv: "data_used ctx1 < 4" "\<not> error_encountered ctx1"
    using decode_loop_inv [of ctx inp ctx1 out1] l1 l2(1) Cons.prems(3,4) by simp_all
  have "length inp < 2 ^ 30"
    using Cons.prems(5) by auto
  then have "length out1 \<le> 0x7fffffff"
    using length_decode_loop [OF l1 Cons.prems(3)] Cons.prems(3) by simp
  then have "decode_calls ctx (inp # inps) = map_option ((@) out1) (decode_calls ctx1 inps)"
    using Cons.prems(4) l2(1) by (simp add: EVP_DecodeUpdate_def l1)
  then show ?case
    using Cons.IH [OF l2(2) Cons.prems(2) inv] Cons.prems(5) l2(3) by simp
qed

text \<open>C33: decoding what the one-shot encoder produces gives the input back, and the announced lengths are exact up to
  the padding.\<close>

theorem EVP_EncodeBlock_roundtrip:
  assumes len: "length bs < 2 ^ 61" and buf: "4 * ((length bs + 2) div 3) div 4 * 3 \<le> unat max_out"
  shows "EVP_DecodeBase64 max_out (EVP_EncodeBlock bs) = Some bs \<and> EVP_EncodeBlock bs = b64 bs \<and>
    EVP_EncodedLength (word_of_nat (length bs)) = Some (word_of_nat (length (EVP_EncodeBlock bs) + 1))"
proof -
  let ?n = "(length bs + 2) div 3"
  have n: "?n < 2 ^ 60"
    using len by (simp add: less_mult_imp_div_less)
  have u: "unat (word_of_nat k :: u64) = k" if "k < 2 ^ 64" for k
    using that by (intro unat_word_of_nat) simp
  have l: "length (b64 bs) = 4 * ?n"
    by (rule length_b64)
  have "unat (word_of_nat (4 * ?n) mod 4 :: u64) = 0" "unat (word_of_nat (4 * ?n) div 4 * 3 :: u64) = 3 * ?n"
    using n u [of "4 * ?n"] by (simp_all add: unat_mod unat_div unat_word_ariths)
  then have "EVP_DecodedLength (word_of_nat (length (b64 bs))) = Some (word_of_nat (4 * ?n) div 4 * 3)"
      "\<not> max_out < word_of_nat (4 * ?n) div 4 * 3"
    using buf by (simp_all add: EVP_DecodedLength_def l unat_eq_zero word_less_nat_alt)
  then have "EVP_DecodeBase64 max_out (b64 bs) = Some bs"
    using decode_base64_loop_b64 by (simp add: EVP_DecodeBase64_def l)
  moreover have "EVP_EncodedLength (word_of_nat (length bs)) = Some (word_of_nat (4 * ?n + 1))"
  proof -
    have w: "unat (word_of_nat (length bs) + 2 :: u64) = length bs + 2" "unat (word_of_nat (length bs) :: u64) = length bs"
      using u [of "length bs"] len by (simp_all add: unat_word_ariths)
    have d: "(word_of_nat (length bs) + 2) div 3 = (word_of_nat ?n :: u64)"
      using n u [of ?n] by (simp add: word_unat_eq_iff unat_div w)
    have p: "push_bit 2 (word_of_nat ?n) = (word_of_nat (4 * ?n) :: u64)"
      by (simp add: push_bit_eq_mult)
    have q: "drop_bit 2 (word_of_nat (4 * ?n)) = (word_of_nat ?n :: u64)"
      using n u [of ?n] u [of "4 * ?n"] by (simp add: word_unat_eq_iff unat_drop_bit)
    have r: "\<not> word_of_nat (length bs) + 2 < (word_of_nat (length bs) :: u64)"
      by (simp only: word_less_nat_alt w)
    have t: "\<not> word_of_nat (4 * ?n) + 1 < (word_of_nat (4 * ?n) :: u64)"
      using n u [of "4 * ?n"] by (simp add: word_less_nat_alt unat_word_ariths)
    show ?thesis
      unfolding EVP_EncodedLength_def Let_def d p q using r t by simp
  qed
  ultimately show ?thesis
    by (simp add: EVP_EncodeBlock_eq l)
qed

lemma enc_ok_init: "enc_ok EVP_EncodeInit []"
  by (simp add: enc_ok_def EVP_EncodeInit_def)

text \<open>C34: however the input is cut into calls of the streaming encoder, of less than \<open>2 ^ 30\<close> bytes each, the output is that of the whole input in lines
  of 48 bytes; and however that output is cut into such calls of the streaming decoder, every call succeeds
  and the decoder returns the input.\<close>

theorem EVP_streaming_roundtrip:
  assumes "\<forall>inp\<in>set inps. length inp < 2 ^ 30" "\<forall>inp\<in>set chunks. length inp < 2 ^ 30"
    and "concat chunks = encode_calls EVP_EncodeInit inps"
  shows "encode_calls EVP_EncodeInit inps = b64_lines (concat inps) \<and>
    decode_calls EVP_DecodeInit chunks = Some (concat inps)"
proof -
  have enc: "encode_calls EVP_EncodeInit inps = b64_lines (concat inps)"
    using encode_calls_ok [OF enc_ok_init assms(1)] b64_lines_split [of "concat inps"] by simp
  have init: "dec_ok EVP_DecodeInit False"
    by (simp add: dec_ok_def EVP_DecodeInit_def)
  then obtain ctx' where "decode_update_loop EVP_DecodeInit (concat chunks) = (ctx', concat inps, True)"
    "dec_ok ctx' (length (concat inps) mod 3 \<noteq> 0)"
    using decode_loop_lines [of EVP_DecodeInit "concat inps"] assms(3) enc by auto
  then have "decode_calls EVP_DecodeInit chunks = Some (concat inps)"
    using assms(2) by (intro decode_calls_ok) (simp_all add: EVP_DecodeInit_def)
  with enc show ?thesis
    by blast
qed

theorem EVP_streaming_roundtrip_witness:
  "encode_calls EVP_EncodeInit [[1], [2, 3]] = [0x41, 0x51, 0x49, 0x44, 0x0a] \<and>
   decode_calls EVP_DecodeInit [[0x41], [0x51, 0x49], [0x44, 0x0a]] = Some [1, 2, 3]"
proof -
  have "encode_calls EVP_EncodeInit [[1], [2, 3]] = [0x41, 0x51, 0x49, 0x44, 0x0a]"
    using encode_calls_ok [OF enc_ok_init, of "[[1], [2, 3]]"]
    by (simp add: split_lines_short b64_digits_def be_val_def b64_char_def)
  then show ?thesis
    using EVP_streaming_roundtrip [of "[[1], [2, 3]]" "[[0x41], [0x51, 0x49], [0x44, 0x0a]]"] by simp
qed

theorem EVP_EncodeBlock_roundtrip_witness:
  "EVP_EncodeBlock [1, 2] = [0x41, 0x51, 0x49, 0x3d] \<and> EVP_DecodeBase64 3 [0x41, 0x51, 0x49, 0x3d] = Some [1, 2]"
  using EVP_EncodeBlock_roundtrip [of "[1, 2]" 3]
  by (auto simp: b64_digits_def be_val_def b64_char_def simp del: EVP_EncodeBlock.simps)

end
