(* ===== verification/Aead.thy ===== *)
theory Aead
  imports Mem
begin

text \<open>
  The AEAD interface of \<open>crypto/fipsmodule/cipher/aead.cc.inc\<close>: \<open>EVP_AEAD\<close> is the table of function pointers
  that an algorithm provides, \<open>EVP_AEAD_CTX\<close> a context with the algorithm's state. A null function
  pointer is \<^const>\<open>None\<close>. Buffers are values, so the calls modelled are those whose buffers pass
  \<open>check_alias\<close>; on an error the code clears the output and returns 0, here \<^const>\<open>None\<close>.

  The locale \<open>aead_ctx\<close> is the contract the record layer relies on.
\<close>

datatype evp_aead_direction_t = evp_aead_open | evp_aead_seal

record 's EVP_AEAD =
  aead_key_len :: nat
  aead_nonce_len :: nat
  aead_overhead :: nat
  aead_max_tag_len :: nat
  aead_seal_scatter_supports_extra_in :: bool
  aead_init :: "(bytes \<Rightarrow> nat \<Rightarrow> ('s \<times> nat) option) option"
  aead_init_with_direction :: "(bytes \<Rightarrow> nat \<Rightarrow> evp_aead_direction_t \<Rightarrow> ('s \<times> nat) option) option"
  aead_open :: "('s \<Rightarrow> nat \<Rightarrow> nat \<Rightarrow> bytes \<Rightarrow> bytes \<Rightarrow> bytes \<Rightarrow> bytes option) option"
  aead_seal_scatter :: "'s \<Rightarrow> nat \<Rightarrow> nat \<Rightarrow> bytes \<Rightarrow> bytes \<Rightarrow> bytes \<Rightarrow> bytes \<Rightarrow> (bytes \<times> bytes) option"
  aead_open_gather :: "('s \<Rightarrow> nat \<Rightarrow> bytes \<Rightarrow> bytes \<Rightarrow> bytes \<Rightarrow> bytes \<Rightarrow> bytes option) option"
  aead_tag_len :: "('s \<Rightarrow> nat \<Rightarrow> nat \<Rightarrow> nat) option"

record 's EVP_AEAD_CTX =
  ctx_aead :: "'s EVP_AEAD"
  ctx_state :: 's
  ctx_tag_len :: nat

text \<open>The test \<open>a + b < a\<close> on \<open>size_t\<close> values.\<close>

definition size_add_overflows :: "nat \<Rightarrow> nat \<Rightarrow> bool" where
  "size_add_overflows a b \<longleftrightarrow> 2 ^ 64 \<le> a + b"

lemma size_add_overflows_word:
  assumes "a < 2 ^ 64" and "b < 2 ^ 64"
  shows "(word_of_nat a + word_of_nat b :: u64) < word_of_nat a \<longleftrightarrow> size_add_overflows a b"
proof -
  have u: "unat (word_of_nat a :: u64) = a" "unat (word_of_nat b :: u64) = b"
    using assms by (simp_all add: unat_word_of_nat)
  show ?thesis
  proof (cases "a + b < 2 ^ 64")
    case True
    then have "unat (word_of_nat a + word_of_nat b :: u64) = a + b"
      using u by (simp add: unat_word_ariths)
    then show ?thesis
      using True u by (simp add: word_less_nat_alt size_add_overflows_def)
  next
    case False
    then have "(a + b) mod 2 ^ 64 = a + b - 2 ^ 64"
      using assms by (simp add: le_mod_geq)
    then have "unat (word_of_nat a + word_of_nat b :: u64) = a + b - 2 ^ 64"
      using u by (simp add: unat_word_ariths)
    then show ?thesis
      using False u assms by (simp add: word_less_nat_alt size_add_overflows_def)
  qed
qed

subsection \<open>Operations\<close>

definition EVP_AEAD_CTX_init_with_direction ::
  "'s EVP_AEAD \<Rightarrow> bytes \<Rightarrow> nat \<Rightarrow> evp_aead_direction_t \<Rightarrow> 's EVP_AEAD_CTX option" where
  "EVP_AEAD_CTX_init_with_direction aead key tag_len dir =
     (if length key \<noteq> aead_key_len aead then None
      else do {
        (st, tl) \<leftarrow> (case aead_init aead of
                      Some f \<Rightarrow> f key tag_len
                    | None \<Rightarrow> (case aead_init_with_direction aead of Some f \<Rightarrow> f key tag_len dir | None \<Rightarrow> None));
        Some \<lparr>ctx_aead = aead, ctx_state = st, ctx_tag_len = tl\<rparr>
      })"

definition EVP_AEAD_CTX_init :: "'s EVP_AEAD \<Rightarrow> bytes \<Rightarrow> nat \<Rightarrow> 's EVP_AEAD_CTX option" where
  "EVP_AEAD_CTX_init aead key tag_len =
     (case aead_init aead of
        None \<Rightarrow> None
      | Some _ \<Rightarrow> EVP_AEAD_CTX_init_with_direction aead key tag_len evp_aead_open)"

definition EVP_AEAD_CTX_seal :: "'s EVP_AEAD_CTX \<Rightarrow> nat \<Rightarrow> bytes \<Rightarrow> bytes \<Rightarrow> bytes \<Rightarrow> bytes option" where
  "EVP_AEAD_CTX_seal ctx max_out_len nonce inp ad =
     (if size_add_overflows (length inp) (aead_overhead (ctx_aead ctx)) then None
      else if max_out_len < length inp then None
      else do {
        (out, out_tag) \<leftarrow> aead_seal_scatter (ctx_aead ctx) (ctx_state ctx) (ctx_tag_len ctx)
                            (max_out_len - length inp) nonce inp [] ad;
        Some (out @ out_tag)
      })"

definition EVP_AEAD_CTX_seal_scatter ::
  "'s EVP_AEAD_CTX \<Rightarrow> nat \<Rightarrow> bytes \<Rightarrow> bytes \<Rightarrow> bytes \<Rightarrow> bytes \<Rightarrow> (bytes \<times> bytes) option" where
  "EVP_AEAD_CTX_seal_scatter ctx max_out_tag_len nonce inp extra_in ad =
     (if \<not> aead_seal_scatter_supports_extra_in (ctx_aead ctx) \<and> length extra_in \<noteq> 0 then None
      else aead_seal_scatter (ctx_aead ctx) (ctx_state ctx) (ctx_tag_len ctx) max_out_tag_len nonce inp extra_in ad)"

definition EVP_AEAD_CTX_open_gather ::
  "'s EVP_AEAD_CTX \<Rightarrow> bytes \<Rightarrow> bytes \<Rightarrow> bytes \<Rightarrow> bytes \<Rightarrow> bytes option" where
  "EVP_AEAD_CTX_open_gather ctx nonce inp in_tag ad =
     (case aead_open_gather (ctx_aead ctx) of
        None \<Rightarrow> None
      | Some f \<Rightarrow> f (ctx_state ctx) (ctx_tag_len ctx) nonce inp in_tag ad)"

definition EVP_AEAD_CTX_open :: "'s EVP_AEAD_CTX \<Rightarrow> nat \<Rightarrow> bytes \<Rightarrow> bytes \<Rightarrow> bytes \<Rightarrow> bytes option" where
  "EVP_AEAD_CTX_open ctx max_out_len nonce inp ad =
     (case aead_open (ctx_aead ctx) of
        Some f \<Rightarrow> f (ctx_state ctx) (ctx_tag_len ctx) max_out_len nonce inp ad
      | None \<Rightarrow>
          if length inp < ctx_tag_len ctx then None
          else let plaintext_len = length inp - ctx_tag_len ctx
               in if max_out_len < plaintext_len then None
                  else EVP_AEAD_CTX_open_gather ctx nonce (take plaintext_len inp) (drop plaintext_len inp) ad)"

definition EVP_AEAD_CTX_tag_len :: "'s EVP_AEAD_CTX \<Rightarrow> nat \<Rightarrow> nat \<Rightarrow> nat option" where
  "EVP_AEAD_CTX_tag_len ctx in_len extra_in_len =
     (case aead_tag_len (ctx_aead ctx) of
        Some f \<Rightarrow> Some (f (ctx_state ctx) in_len extra_in_len)
      | None \<Rightarrow>
          if size_add_overflows extra_in_len (ctx_tag_len ctx) then None
          else Some (extra_in_len + ctx_tag_len ctx))"

subsection \<open>The contract\<close>

text \<open>
  An algorithm with a tag of fixed length: sealing succeeds on inputs of at most \<open>2^32\<close> bytes when the
  output fits, and opening accepts exactly what sealing produces. The extra input is authenticated and
  encrypted as if it followed the input.
\<close>

locale aead_ctx =
  fixes ctx :: "'s EVP_AEAD_CTX" and nonce_ok :: "bytes \<Rightarrow> bool"
  assumes fixed_tag: "aead_tag_len (ctx_aead ctx) = None"
    and overhead_is_tag: "aead_overhead (ctx_aead ctx) = ctx_tag_len ctx" and tag_small: "ctx_tag_len ctx \<le> 64"
    and extra_supported: "aead_seal_scatter_supports_extra_in (ctx_aead ctx)"
    and seal_succeeds: "nonce_ok nonce \<Longrightarrow> length inp + length extra < 2 ^ 32 \<Longrightarrow>
      length extra + ctx_tag_len ctx \<le> max_tag \<Longrightarrow>
      \<exists>out tag. EVP_AEAD_CTX_seal_scatter ctx max_tag nonce inp extra ad = Some (out, tag) \<and>
        length out = length inp \<and> length tag = length extra + ctx_tag_len ctx"
    and open_seal: "EVP_AEAD_CTX_seal_scatter ctx max_tag nonce inp extra ad = Some (out, tag) \<Longrightarrow>
      length inp + length extra < 2 ^ 32 \<Longrightarrow> length inp + length extra \<le> max_out \<Longrightarrow>
      EVP_AEAD_CTX_open ctx max_out nonce (out @ tag) ad = Some (inp @ extra)"
begin

lemma seal_then_open:
  assumes "nonce_ok nonce" and "length inp + length extra < 2 ^ 32"
  obtains out tag where
    "EVP_AEAD_CTX_seal_scatter ctx (length extra + ctx_tag_len ctx) nonce inp extra ad = Some (out, tag)"
    "length out = length inp" "length tag = length extra + ctx_tag_len ctx"
    "\<And>max_out. length inp + length extra \<le> max_out \<Longrightarrow>
      EVP_AEAD_CTX_open ctx max_out nonce (out @ tag) ad = Some (inp @ extra)"
  using seal_succeeds [OF assms order_refl, of ad] open_seal assms(2) by blast

lemma tag_len_eq: "extra_in_len \<le> 2 ^ 32 \<Longrightarrow> EVP_AEAD_CTX_tag_len ctx in_len extra_in_len = Some (extra_in_len + ctx_tag_len ctx)"
  using fixed_tag tag_small by (simp add: EVP_AEAD_CTX_tag_len_def size_add_overflows_def)

end

end
