(* ===== verification/ChaCha.thy ===== *)
theory ChaCha
  imports Internal
begin

text \<open>
  The ChaCha20 stream cipher, \<open>crypto/chacha/chacha.cc\<close>: the block function, HChaCha20, the portable
  \<open>CRYPTO_chacha_20\<close> and the one that calls assembly code. The array \<open>uint32_t x[16]\<close> is a list of
  16 words; a routine that writes as many bytes to \<open>out\<close> as it reads from \<open>in\<close> returns the bytes written.

  The assembly routine \<open>ChaCha20_ctr32\<close> is not part of the sources modelled here. The locale
  \<open>chacha_ctr32\<close> states what \<open>chacha/internal.h\<close> documents about it: it encrypts, with undefined output
  where the 32-bit block counter would overflow.
\<close>

unbundle bit_operations_syntax

subsection \<open>The block function\<close>

definition sigma :: bytes where
  "sigma = [0x65, 0x78, 0x70, 0x61, 0x6e, 0x64, 0x20, 0x33, 0x32, 0x2d, 0x62, 0x79, 0x74, 0x65, 0x20, 0x6b]"

definition QUARTERROUND :: "nat \<Rightarrow> nat \<Rightarrow> nat \<Rightarrow> nat \<Rightarrow> u32 list \<Rightarrow> u32 list" where
  "QUARTERROUND a b c d x =
     (let x = x[a := x ! a + x ! b];
          x = x[d := CRYPTO_rotl_u32 (x ! d XOR x ! a) 16];
          x = x[c := x ! c + x ! d];
          x = x[b := CRYPTO_rotl_u32 (x ! b XOR x ! c) 12];
          x = x[a := x ! a + x ! b];
          x = x[d := CRYPTO_rotl_u32 (x ! d XOR x ! a) 8];
          x = x[c := x ! c + x ! d]
      in x[b := CRYPTO_rotl_u32 (x ! b XOR x ! c) 7])"

text \<open>The body of the loops that run \<open>for (i = 20; i > 0; i -= 2)\<close>.\<close>

definition chacha_double_round :: "u32 list \<Rightarrow> u32 list" where
  "chacha_double_round x =
     (let x = QUARTERROUND 0 4 8 12 x;
          x = QUARTERROUND 1 5 9 13 x;
          x = QUARTERROUND 2 6 10 14 x;
          x = QUARTERROUND 3 7 11 15 x;
          x = QUARTERROUND 0 5 10 15 x;
          x = QUARTERROUND 1 6 11 12 x;
          x = QUARTERROUND 2 7 8 13 x
      in QUARTERROUND 3 4 9 14 x)"

fun chacha_rounds :: "nat \<Rightarrow> u32 list \<Rightarrow> u32 list" where
  "chacha_rounds 0 x = x"
| "chacha_rounds (Suc i) x = chacha_rounds i (chacha_double_round x)"

definition chacha_core :: "u32 list \<Rightarrow> bytes" where
  "chacha_core input = concat (map CRYPTO_store_u32_le (map2 (+) (chacha_rounds 10 input) input))"

text \<open>\<open>n\<close> little-endian words, as the \<open>memcpy\<close> into \<open>uint32_t\<close> arrays reads them.\<close>

fun load_words :: "nat \<Rightarrow> bytes \<Rightarrow> u32 list" where
  "load_words 0 bs = []"
| "load_words (Suc n) bs = CRYPTO_load_u32_le bs # load_words n (drop 4 bs)"

definition CRYPTO_hchacha20 :: "bytes \<Rightarrow> bytes \<Rightarrow> bytes" where
  "CRYPTO_hchacha20 key nonce =
     (let x = chacha_rounds 10 (load_words 4 sigma @ load_words 8 key @ load_words 4 nonce)
      in concat (map CRYPTO_store_u32_le (take 4 x @ drop 12 x)))"

subsection \<open>The stream cipher\<close>

function chacha_20_loop :: "u32 list \<Rightarrow> bytes \<Rightarrow> bytes" where
  "chacha_20_loop input inp =
     (if length inp > 0 then
        let todo = (if length inp < 64 then length inp else 64);
            buf = chacha_core input
        in map2 (XOR) (take todo inp) (take todo buf) @
           chacha_20_loop (input[12 := input ! 12 + 1]) (drop todo inp)
      else [])"
  by pat_completeness auto
termination
  by (relation "measure (\<lambda>(input, inp). length inp)") auto

declare chacha_20_loop.simps [simp del]

definition chacha_20_input :: "bytes \<Rightarrow> bytes \<Rightarrow> u32 \<Rightarrow> u32 list" where
  "chacha_20_input key nonce counter =
     [CRYPTO_load_u32_le (drop 0 sigma), CRYPTO_load_u32_le (drop 4 sigma),
      CRYPTO_load_u32_le (drop 8 sigma), CRYPTO_load_u32_le (drop 12 sigma),
      CRYPTO_load_u32_le (drop 0 key), CRYPTO_load_u32_le (drop 4 key),
      CRYPTO_load_u32_le (drop 8 key), CRYPTO_load_u32_le (drop 12 key),
      CRYPTO_load_u32_le (drop 16 key), CRYPTO_load_u32_le (drop 20 key),
      CRYPTO_load_u32_le (drop 24 key), CRYPTO_load_u32_le (drop 28 key),
      counter, CRYPTO_load_u32_le (drop 0 nonce),
      CRYPTO_load_u32_le (drop 4 nonce), CRYPTO_load_u32_le (drop 8 nonce)]"

definition CRYPTO_chacha_20 :: "bytes \<Rightarrow> bytes \<Rightarrow> bytes \<Rightarrow> u32 \<Rightarrow> bytes" where
  "CRYPTO_chacha_20 inp key nonce counter = chacha_20_loop (chacha_20_input key nonce counter) inp"

text \<open>
  The loop of the variant for builds with assembly, for an assembly routine \<open>ctr32\<close>. A call is given
  the bytes left before the block counter wraps around, and the counter then continues at 0.
\<close>

type_synonym ctr32_fun = "bytes \<Rightarrow> u32 list \<Rightarrow> u32 list \<Rightarrow> bytes"

definition chacha_todo :: "u32 \<Rightarrow> nat \<Rightarrow> nat" where
  "chacha_todo counter in_len =
     (let todo = 64 * (push_bit 32 1 - ucast counter :: u64) in if unat todo > in_len then in_len else unat todo)"

lemma chacha_todo_eq: "chacha_todo counter n = min n (64 * (2 ^ 32 - unat counter))"
proof -
  have c: "unat counter < 2 ^ 32"
    using unat_less [of counter] by simp
  have p: "unat (push_bit 32 1 :: u64) = 2 ^ 32"
    by (simp add: push_bit_eq_mult)
  have "unat (push_bit 32 1 - (ucast counter :: u64)) = 2 ^ 32 - unat counter"
    using c p by (subst unat_sub) (simp_all add: word_le_nat_alt unat_ucast_widen)
  moreover have "(4294967296 :: nat) - unat counter < 288230376151711744"
    by linarith
  ultimately have "unat (64 * (push_bit 32 1 - (ucast counter :: u64))) = 64 * (2 ^ 32 - unat counter)"
    using unat_mult_lem [of "64 :: u64" "push_bit 32 1 - ucast counter"]
    by (simp del: push_bit_of_1 right_diff_distrib_numeral)
  then show ?thesis
    by (auto simp: chacha_todo_def Let_def)
qed

function chacha_20_asm_loop :: "ctr32_fun \<Rightarrow> u32 list \<Rightarrow> u32 list \<Rightarrow> bytes \<Rightarrow> bytes" where
  "chacha_20_asm_loop ctr32 key_words counter_nonce inp =
     (if length inp > 0 then
        let todo = chacha_todo (counter_nonce ! 0) (length inp)
        in ctr32 (take todo inp) key_words counter_nonce @
           chacha_20_asm_loop ctr32 key_words (counter_nonce[0 := 0]) (drop todo inp)
      else [])"
  by pat_completeness auto
termination
proof (relation "measure (\<lambda>(ctr32, key_words, counter_nonce, inp). length inp)", simp, goal_cases)
  case (1 ctr32 key_words counter_nonce inp x)
  have "unat (counter_nonce ! 0) < 2 ^ 32"
    using unat_less [of "counter_nonce ! 0"] by simp
  then show ?case
    using 1 by (simp add: chacha_todo_eq)
qed

declare chacha_20_asm_loop.simps [simp del]

definition CRYPTO_chacha_20_asm :: "ctr32_fun \<Rightarrow> bytes \<Rightarrow> bytes \<Rightarrow> bytes \<Rightarrow> u32 \<Rightarrow> bytes" where
  "CRYPTO_chacha_20_asm ctr32 inp key nonce counter =
     (let counter_nonce =
            [counter, CRYPTO_load_u32_le (drop 0 nonce), CRYPTO_load_u32_le (drop 4 nonce),
             CRYPTO_load_u32_le (drop 8 nonce)];
          key_u32 =
            [CRYPTO_load_u32_le (drop 0 key), CRYPTO_load_u32_le (drop 4 key),
             CRYPTO_load_u32_le (drop 8 key), CRYPTO_load_u32_le (drop 12 key),
             CRYPTO_load_u32_le (drop 16 key), CRYPTO_load_u32_le (drop 20 key),
             CRYPTO_load_u32_le (drop 24 key), CRYPTO_load_u32_le (drop 28 key)]
      in chacha_20_asm_loop ctr32 key_u32 counter_nonce inp)"

subsection \<open>The key stream\<close>

lemma length_QUARTERROUND [simp]: "length (QUARTERROUND a b c d x) = length x"
  by (simp add: QUARTERROUND_def Let_def)

lemma length_chacha_rounds [simp]: "length (chacha_rounds n x) = length x"
  by (induction n arbitrary: x) (simp_all add: chacha_double_round_def)

lemma length_load_words [simp]: "length (load_words n bs) = n"
  by (induction n arbitrary: bs) simp_all

lemma length_concat_store_u32 [simp]: "length (concat (map CRYPTO_store_u32_le ws)) = 4 * length ws"
  by (induction ws) (simp_all add: CRYPTO_store_u32_le_def)

lemma length_chacha_core [simp]: "length (chacha_core input) = 4 * length input"
  by (simp add: chacha_core_def del: map_map)

lemma length_CRYPTO_hchacha20 [simp]: "length (CRYPTO_hchacha20 key nonce) = 32"
  by (simp add: CRYPTO_hchacha20_def Let_def)

lemma length_chacha_20_input [simp]: "length (chacha_20_input key nonce counter) = 16"
  by (simp add: chacha_20_input_def)

text \<open>Byte \<open>i\<close> of the key stream: byte \<open>i mod 64\<close> of the block with number \<open>counter + i div 64\<close>, modulo \<open>2^32\<close>.\<close>

definition chacha_stream :: "bytes \<Rightarrow> bytes \<Rightarrow> u32 \<Rightarrow> nat \<Rightarrow> u8" where
  "chacha_stream key nonce counter i =
     chacha_core (chacha_20_input key nonce (counter + word_of_nat (i div 64))) ! (i mod 64)"

lemma chacha_20_input_counter [simp]:
  "(chacha_20_input key nonce counter)[12 := c] = chacha_20_input key nonce c"
  "chacha_20_input key nonce counter ! 12 = counter"
  by (simp_all add: chacha_20_input_def)

lemma chacha_stream_shift:
  "chacha_stream key nonce counter (64 * k + i) = chacha_stream key nonce (counter + word_of_nat k) i"
  by (simp add: chacha_stream_def add.assoc)

lemma CRYPTO_chacha_20_nth:
  "length (CRYPTO_chacha_20 inp key nonce counter) = length inp \<and>
   (\<forall>i < length inp. CRYPTO_chacha_20 inp key nonce counter ! i = inp ! i XOR chacha_stream key nonce counter i)"
proof (induction "length inp" arbitrary: inp counter rule: less_induct)
  case less
  show ?case
  proof (cases "length inp > 0")
    case False
    then show ?thesis
      by (simp add: CRYPTO_chacha_20_def chacha_20_loop.simps)
  next
    case True
    define todo where "todo = (if length inp < 64 then length inp else 64)"
    let ?buf = "chacha_core (chacha_20_input key nonce counter)"
    have todo: "0 < todo" "todo \<le> length inp" "todo \<le> 64"
      using True by (auto simp: todo_def)
    have eq: "CRYPTO_chacha_20 inp key nonce counter =
      map2 (XOR) (take todo inp) (take todo ?buf) @ CRYPTO_chacha_20 (drop todo inp) key nonce (counter + 1)"
      unfolding CRYPTO_chacha_20_def
      by (subst chacha_20_loop.simps) (use True in \<open>simp add: todo_def [symmetric] Let_def\<close>)
    have tail: "length (CRYPTO_chacha_20 (drop todo inp) key nonce (counter + 1)) = length inp - todo"
      "\<And>i. i < length inp - todo \<Longrightarrow> CRYPTO_chacha_20 (drop todo inp) key nonce (counter + 1) ! i =
         drop todo inp ! i XOR chacha_stream key nonce (counter + 1) i"
      using less [of "drop todo inp" "counter + 1"] True todo by simp_all
    show ?thesis
    proof (intro conjI allI impI)
      show "length (CRYPTO_chacha_20 inp key nonce counter) = length inp"
        using todo by (simp add: eq tail)
      fix i
      assume i: "i < length inp"
      show "CRYPTO_chacha_20 inp key nonce counter ! i = inp ! i XOR chacha_stream key nonce counter i"
      proof (cases "i < todo")
        case True
        then show ?thesis
          using todo by (simp add: eq nth_append chacha_stream_def)
      next
        case False
        then have "todo = 64"
          using i by (auto simp: todo_def split: if_splits)
        then show ?thesis
          using False i todo chacha_stream_shift [of key nonce counter 1 "i - 64"] tail(2) [of "i - todo"]
          by (simp add: eq nth_append)
      qed
    qed
  qed
qed

lemma length_CRYPTO_chacha_20 [simp]: "length (CRYPTO_chacha_20 inp key nonce counter) = length inp"
  using CRYPTO_chacha_20_nth by blast

lemma nth_CRYPTO_chacha_20:
  "i < length inp \<Longrightarrow> CRYPTO_chacha_20 inp key nonce counter ! i = inp ! i XOR chacha_stream key nonce counter i"
  using CRYPTO_chacha_20_nth by blast

lemma CRYPTO_chacha_20_involution:
  "CRYPTO_chacha_20 (CRYPTO_chacha_20 inp key nonce counter) key nonce counter = inp"
  by (rule nth_equalityI) (simp_all add: nth_CRYPTO_chacha_20 xor.assoc)

lemma CRYPTO_chacha_20_append:
  assumes "length a = 64 * k"
  shows "CRYPTO_chacha_20 (a @ b) key nonce counter =
    CRYPTO_chacha_20 a key nonce counter @ CRYPTO_chacha_20 b key nonce (counter + word_of_nat k)"
  using assms
  by (intro nth_equalityI)
     (auto simp: nth_append nth_CRYPTO_chacha_20 chacha_stream_shift [symmetric])

subsection \<open>Builds with assembly\<close>

text \<open>
  What \<open>CRYPTO_chacha_20\<close> relies on: for a nonempty input that does not make the block counter
  overflow, \<open>ChaCha20_ctr32\<close> encrypts with the block function.
\<close>

locale chacha_ctr32 =
  fixes ctr32 :: ctr32_fun
  assumes ctr32_encrypts:
    "0 < length inp \<Longrightarrow> length inp \<le> 64 * (2 ^ 32 - unat (counter_nonce ! 0)) \<Longrightarrow>
     length key_words = 8 \<Longrightarrow> length counter_nonce = 4 \<Longrightarrow>
     ctr32 inp key_words counter_nonce = chacha_20_loop (load_words 4 sigma @ key_words @ counter_nonce) inp"
begin

lemma asm_portable_input:
  "chacha_20_input key nonce counter = load_words 4 sigma @
     [CRYPTO_load_u32_le (drop 0 key), CRYPTO_load_u32_le (drop 4 key),
      CRYPTO_load_u32_le (drop 8 key), CRYPTO_load_u32_le (drop 12 key),
      CRYPTO_load_u32_le (drop 16 key), CRYPTO_load_u32_le (drop 20 key),
      CRYPTO_load_u32_le (drop 24 key), CRYPTO_load_u32_le (drop 28 key)] @
     [counter, CRYPTO_load_u32_le (drop 0 nonce), CRYPTO_load_u32_le (drop 4 nonce),
      CRYPTO_load_u32_le (drop 8 nonce)]"
  by (simp add: chacha_20_input_def numeral_eq_Suc)

lemma asm_portable:
  "CRYPTO_chacha_20_asm ctr32 inp key nonce counter = CRYPTO_chacha_20 inp key nonce counter"
proof (induction "length inp" arbitrary: inp counter rule: less_induct)
  case less
  show ?case
  proof (cases "length inp > 0")
    case False
    then show ?thesis
      by (simp add: CRYPTO_chacha_20_asm_def CRYPTO_chacha_20_def chacha_20_asm_loop.simps chacha_20_loop.simps)
  next
    case True
    define todo where "todo = chacha_todo counter (length inp)"
    have c: "unat counter < 2 ^ 32"
      using unat_less [of counter] by simp
    have todo: "0 < todo" "todo \<le> length inp" "todo \<le> 64 * (2 ^ 32 - unat counter)"
      using True c by (simp_all add: todo_def chacha_todo_eq)
    have step: "CRYPTO_chacha_20_asm ctr32 inp key nonce counter =
        CRYPTO_chacha_20 (take todo inp) key nonce counter @ CRYPTO_chacha_20_asm ctr32 (drop todo inp) key nonce 0"
      unfolding CRYPTO_chacha_20_asm_def Let_def
      by (subst chacha_20_asm_loop.simps)
         (use True todo in \<open>simp add: Let_def ctr32_encrypts CRYPTO_chacha_20_def asm_portable_input
            flip: todo_def\<close>)
    show ?thesis
    proof (cases "todo = length inp")
      case True
      have "CRYPTO_chacha_20_asm ctr32 [] key nonce 0 = []"
        by (simp add: CRYPTO_chacha_20_asm_def chacha_20_asm_loop.simps)
      then show ?thesis
        using step by (simp add: True)
    next
      case False
      then have "todo = 64 * (2 ^ 32 - unat counter)"
        using todo by (simp add: todo_def chacha_todo_eq min_def split: if_splits)
      moreover have "counter + word_of_nat (2 ^ 32 - unat counter) = 0"
        using c by (simp add: of_nat_diff)
      ultimately have "CRYPTO_chacha_20 inp key nonce counter =
          CRYPTO_chacha_20 (take todo inp) key nonce counter @ CRYPTO_chacha_20 (drop todo inp) key nonce 0"
        using todo
          CRYPTO_chacha_20_append [of "take todo inp" "2 ^ 32 - unat counter" "drop todo inp" key nonce counter]
        by (simp del: of_nat_diff)
      then show ?thesis
        using step less [of "drop todo inp" 0] True todo by simp
    qed
  qed
qed

end

text \<open>The portable block loop is such a routine.\<close>

definition portable_ctr32 :: ctr32_fun where
  "portable_ctr32 inp key_words counter_nonce =
     chacha_20_loop (load_words 4 sigma @ key_words @ counter_nonce) inp"

interpretation portable: chacha_ctr32 portable_ctr32
  by unfold_locales (simp add: portable_ctr32_def)

end
