(* ===== verification/Poly1305.thy ===== *)
theory Poly1305
  imports Internal "HOL-Library.Code_Target_Numeral"
begin

text \<open>
  The portable Poly1305 authenticator of \<open>crypto/poly1305/poly1305.cc\<close>, used on every platform but
  x86-64 with 128-bit integers. The accumulator \<open>h\<close> and the multiplier \<open>r\<close> are kept in five limbs of
  26 bits, in 32-bit words; the products are 64-bit. Nothing may overflow on the way, which is part of
  what is proved.

  The reference is RFC 8439, section 2.5.1: the message, cut into 16-byte blocks that each get a final
  byte 1, is evaluated as a polynomial at the clamped \<open>r\<close> modulo \<open>2^130 - 5\<close>, and \<open>s\<close> is added modulo \<open>2^128\<close>.
\<close>

unbundle bit_operations_syntax

subsection \<open>State and operations\<close>

record poly1305_state_st =
  pr0 :: u32
  pr1 :: u32
  pr2 :: u32
  pr3 :: u32
  pr4 :: u32
  ps1 :: u32
  ps2 :: u32
  ps3 :: u32
  ps4 :: u32
  ph0 :: u32
  ph1 :: u32
  ph2 :: u32
  ph3 :: u32
  ph4 :: u32
  pbuf :: bytes
  pbuf_used :: nat
  pkey :: bytes

definition mul32x32_64 :: "u32 \<Rightarrow> u32 \<Rightarrow> u64" where
  "mul32x32_64 a b = ucast a * ucast b"

text \<open>
  The three parts of \<open>poly1305_update\<close>: adding the 16 bytes at \<open>in\<close> with the bit \<open>hibit\<close> above them, the
  multiplication at \<open>poly1305_donna_mul\<close>, and the jumps between them.
\<close>

definition poly1305_add_block :: "u32 \<Rightarrow> bytes \<Rightarrow> poly1305_state_st \<Rightarrow> poly1305_state_st" where
  "poly1305_add_block hibit inp state =
     (let t0 = CRYPTO_load_u32_le inp;
          t1 = CRYPTO_load_u32_le (drop 4 inp);
          t2 = CRYPTO_load_u32_le (drop 8 inp);
          t3 = CRYPTO_load_u32_le (drop 12 inp)
      in state\<lparr>
           ph0 := ph0 state + (t0 AND 0x3ffffff),
           ph1 := ph1 state + ucast (drop_bit 26 (push_bit 32 (ucast t1) OR ucast t0 :: u64) AND 0x3ffffff),
           ph2 := ph2 state + ucast (drop_bit 20 (push_bit 32 (ucast t2) OR ucast t1 :: u64) AND 0x3ffffff),
           ph3 := ph3 state + ucast (drop_bit 14 (push_bit 32 (ucast t3) OR ucast t2 :: u64) AND 0x3ffffff),
           ph4 := ph4 state + (drop_bit 8 t3 OR hibit)\<rparr>)"

definition poly1305_donna_mul :: "poly1305_state_st \<Rightarrow> poly1305_state_st" where
  "poly1305_donna_mul state =
     (let t0 = mul32x32_64 (ph0 state) (pr0 state) + mul32x32_64 (ph1 state) (ps4 state) +
               mul32x32_64 (ph2 state) (ps3 state) + mul32x32_64 (ph3 state) (ps2 state) +
               mul32x32_64 (ph4 state) (ps1 state);
          t1 = mul32x32_64 (ph0 state) (pr1 state) + mul32x32_64 (ph1 state) (pr0 state) +
               mul32x32_64 (ph2 state) (ps4 state) + mul32x32_64 (ph3 state) (ps3 state) +
               mul32x32_64 (ph4 state) (ps2 state);
          t2 = mul32x32_64 (ph0 state) (pr2 state) + mul32x32_64 (ph1 state) (pr1 state) +
               mul32x32_64 (ph2 state) (pr0 state) + mul32x32_64 (ph3 state) (ps4 state) +
               mul32x32_64 (ph4 state) (ps3 state);
          t3 = mul32x32_64 (ph0 state) (pr3 state) + mul32x32_64 (ph1 state) (pr2 state) +
               mul32x32_64 (ph2 state) (pr1 state) + mul32x32_64 (ph3 state) (pr0 state) +
               mul32x32_64 (ph4 state) (ps4 state);
          t4 = mul32x32_64 (ph0 state) (pr4 state) + mul32x32_64 (ph1 state) (pr3 state) +
               mul32x32_64 (ph2 state) (pr2 state) + mul32x32_64 (ph3 state) (pr1 state) +
               mul32x32_64 (ph4 state) (pr0 state);
          h0 = ucast t0 AND 0x3ffffff;
          c = drop_bit 26 t0;
          t1 = t1 + c;
          h1 = ucast t1 AND 0x3ffffff;
          b = (ucast (drop_bit 26 t1) :: u32);
          t2 = t2 + ucast b;
          h2 = ucast t2 AND 0x3ffffff;
          b = (ucast (drop_bit 26 t2) :: u32);
          t3 = t3 + ucast b;
          h3 = ucast t3 AND 0x3ffffff;
          b = (ucast (drop_bit 26 t3) :: u32);
          t4 = t4 + ucast b;
          h4 = ucast t4 AND 0x3ffffff;
          b = (ucast (drop_bit 26 t4) :: u32)
      in state\<lparr>ph0 := h0 + b * 5, ph1 := h1, ph2 := h2, ph3 := h3, ph4 := h4\<rparr>)"

function poly1305_update :: "poly1305_state_st \<Rightarrow> bytes \<Rightarrow> poly1305_state_st" where
  "poly1305_update state inp =
     (if length inp \<ge> 16 then
        poly1305_update (poly1305_donna_mul (poly1305_add_block (push_bit 24 1) inp state)) (drop 16 inp)
      else if length inp = 0 then state
      else let mp = inp @ [1] @ replicate (16 - (length inp + 1)) 0
           in poly1305_donna_mul (poly1305_add_block 0 mp state))"
  by pat_completeness auto
termination
  by (relation "measure (\<lambda>(state, inp). length inp)") auto

declare poly1305_update.simps [simp del]

definition CRYPTO_poly1305_init :: "bytes \<Rightarrow> poly1305_state_st" where
  "CRYPTO_poly1305_init key =
     (let t0 = CRYPTO_load_u32_le (drop 0 key);
          t1 = CRYPTO_load_u32_le (drop 4 key);
          t2 = CRYPTO_load_u32_le (drop 8 key);
          t3 = CRYPTO_load_u32_le (drop 12 key);
          r0 = t0 AND 0x3ffffff;
          t0 = drop_bit 26 t0 OR push_bit 6 t1;
          r1 = t0 AND 0x3ffff03;
          t1 = drop_bit 20 t1 OR push_bit 12 t2;
          r2 = t1 AND 0x3ffc0ff;
          t2 = drop_bit 14 t2 OR push_bit 18 t3;
          r3 = t2 AND 0x3f03fff;
          t3 = drop_bit 8 t3;
          r4 = t3 AND 0x00fffff
      in \<lparr>pr0 = r0, pr1 = r1, pr2 = r2, pr3 = r3, pr4 = r4,
          ps1 = r1 * 5, ps2 = r2 * 5, ps3 = r3 * 5, ps4 = r4 * 5,
          ph0 = 0, ph1 = 0, ph2 = 0, ph3 = 0, ph4 = 0,
          pbuf = replicate 16 0, pbuf_used = 0, pkey = take 16 (drop 16 key)\<rparr>)"

text \<open>
  \<open>state->buf\<close> is not initialized by the code; its bytes are only read below \<open>buf_used\<close>. Writing \<open>xs\<close> into
  \<open>buf\<close> from an index on:
\<close>

definition buf_write :: "bytes \<Rightarrow> nat \<Rightarrow> bytes \<Rightarrow> bytes" where
  "buf_write buf i xs = take i buf @ xs @ drop (i + length xs) buf"

definition poly1305_fill_buffer :: "poly1305_state_st \<Rightarrow> bytes \<Rightarrow> poly1305_state_st \<times> bytes" where
  "poly1305_fill_buffer state inp =
     (if pbuf_used state \<noteq> 0 then
        let todo = 16 - pbuf_used state;
            todo = (if todo > length inp then length inp else todo);
            state = state\<lparr>pbuf := buf_write (pbuf state) (pbuf_used state) (take todo inp),
                          pbuf_used := pbuf_used state + todo\<rparr>;
            inp = drop todo inp
        in if pbuf_used state = 16
           then ((poly1305_update state (take 16 (pbuf state)))\<lparr>pbuf_used := 0\<rparr>, inp)
           else (state, inp)
      else (state, inp))"

definition CRYPTO_poly1305_update :: "poly1305_state_st \<Rightarrow> bytes \<Rightarrow> poly1305_state_st" where
  "CRYPTO_poly1305_update state inp =
     (if length inp = 0 then state
      else let (state, inp) = poly1305_fill_buffer state inp;
               (state, inp) =
                 (if length inp \<ge> 16 then
                    let todo = length inp div 16 * 16
                    in (poly1305_update state (take todo inp), drop todo inp)
                  else (state, inp))
           in if length inp \<noteq> 0
              then state\<lparr>pbuf := buf_write (pbuf state) 0 inp, pbuf_used := length inp\<rparr>
              else state)"

definition poly1305_reduce :: "u32 \<times> u32 \<times> u32 \<times> u32 \<times> u32 \<Rightarrow> u32 \<times> u32 \<times> u32 \<times> u32 \<times> u32" where
  "poly1305_reduce h = (case h of (h0, h1, h2, h3, h4) \<Rightarrow>
     let b = drop_bit 26 h0; h0 = h0 AND 0x3ffffff;
         h1 = h1 + b; b = drop_bit 26 h1; h1 = h1 AND 0x3ffffff;
         h2 = h2 + b; b = drop_bit 26 h2; h2 = h2 AND 0x3ffffff;
         h3 = h3 + b; b = drop_bit 26 h3; h3 = h3 AND 0x3ffffff;
         h4 = h4 + b; b = drop_bit 26 h4; h4 = h4 AND 0x3ffffff;
         h0 = h0 + b * 5;
         g0 = h0 + 5; b = drop_bit 26 g0; g0 = g0 AND 0x3ffffff;
         g1 = h1 + b; b = drop_bit 26 g1; g1 = g1 AND 0x3ffffff;
         g2 = h2 + b; b = drop_bit 26 g2; g2 = g2 AND 0x3ffffff;
         g3 = h3 + b; b = drop_bit 26 g3; g3 = g3 AND 0x3ffffff;
         g4 = h4 + b - push_bit 26 1;
         b = drop_bit 31 g4 - 1;
         nb = NOT b
     in (h0 AND nb OR g0 AND b, h1 AND nb OR g1 AND b, h2 AND nb OR g2 AND b,
         h3 AND nb OR g3 AND b, h4 AND nb OR g4 AND b))"

definition CRYPTO_poly1305_finish :: "poly1305_state_st \<Rightarrow> bytes" where
  "CRYPTO_poly1305_finish state =
     (let state = (if pbuf_used state \<noteq> 0 then poly1305_update state (take (pbuf_used state) (pbuf state)) else state);
          (h0, h1, h2, h3, h4) = poly1305_reduce (ph0 state, ph1 state, ph2 state, ph3 state, ph4 state);
          f0 = ucast (h0 OR push_bit 26 h1) + (ucast (CRYPTO_load_u32_le (drop 0 (pkey state))) :: u64);
          f1 = ucast (drop_bit 6 h1 OR push_bit 20 h2) + (ucast (CRYPTO_load_u32_le (drop 4 (pkey state))) :: u64);
          f2 = ucast (drop_bit 12 h2 OR push_bit 14 h3) + (ucast (CRYPTO_load_u32_le (drop 8 (pkey state))) :: u64);
          f3 = ucast (drop_bit 18 h3 OR push_bit 8 h4) + (ucast (CRYPTO_load_u32_le (drop 12 (pkey state))) :: u64);
          f1 = f1 + drop_bit 32 f0;
          f2 = f2 + drop_bit 32 f1;
          f3 = f3 + drop_bit 32 f2
      in CRYPTO_store_u32_le (ucast f0) @ CRYPTO_store_u32_le (ucast f1) @
         CRYPTO_store_u32_le (ucast f2) @ CRYPTO_store_u32_le (ucast f3))"

subsection \<open>Reference\<close>

definition le_val :: "bytes \<Rightarrow> nat" where
  "le_val bs = be_val (rev bs)"

definition le_bytes :: "nat \<Rightarrow> nat \<Rightarrow> bytes" where
  "le_bytes n v = rev (be_bytes n v)"

definition poly1305_p :: nat where
  "poly1305_p = 2 ^ 130 - 5"

function poly1305_acc :: "nat \<Rightarrow> nat \<Rightarrow> bytes \<Rightarrow> nat" where
  "poly1305_acc r a m =
     (if m = [] then a mod poly1305_p
      else poly1305_acc r ((a + le_val (take 16 m @ [1])) * r) (drop 16 m))"
  by pat_completeness auto
termination
  by (relation "measure (\<lambda>(r, a, m). length m)") auto

declare poly1305_acc.simps [simp del]

definition poly1305_clamp :: "nat \<Rightarrow> nat" where
  "poly1305_clamp r = r AND 0x0ffffffc0ffffffc0ffffffc0fffffff"

definition poly1305_eval :: "bytes \<Rightarrow> bytes \<Rightarrow> nat" where
  "poly1305_eval key m = poly1305_acc (poly1305_clamp (le_val (take 16 key))) 0 m"

definition poly1305_mac :: "bytes \<Rightarrow> bytes \<Rightarrow> bytes" where
  "poly1305_mac key m = le_bytes 16 ((poly1305_eval key m + le_val (take 16 (drop 16 key))) mod 2 ^ 128)"

subsection \<open>Words as numbers\<close>

lemma unat_and_26: "unat (w AND 0x3ffffff) = unat w mod 2 ^ 26" for w :: "'a::len word"
proof -
  have "w AND 0x3ffffff = take_bit 26 w"
    by (simp add: take_bit_eq_mask mask_eq_exp_minus_1)
  then show ?thesis
    by (simp only: unat_take_bit)
qed

lemma unat_add: "unat a + unat b < 2 ^ LENGTH('a) \<Longrightarrow> unat (a + b) = unat a + unat b" for a b :: "'a::len word"
  by (simp add: unat_word_ariths)

lemma unat_mult: "unat a * unat b < 2 ^ LENGTH('a) \<Longrightarrow> unat (a * b) = unat a * unat b" for a b :: "'a::len word"
  by (simp add: unat_word_ariths)

lemma unat_u32_lt: "unat (w :: u32) < 2 ^ 32"
  using unat_less [of w] by simp

lemma unat_mul32x32_64: "unat (mul32x32_64 a b) = unat a * unat b"
proof -
  have "unat a * unat b < 2 ^ 32 * 2 ^ 32"
    using unat_u32_lt [of a] unat_u32_lt [of b] by (intro mult_strict_mono) simp_all
  then show ?thesis
    unfolding mul32x32_64_def by (subst unat_mult) (simp_all add: unat_ucast_widen)
qed

lemma unat_ucast_and_26: "unat (ucast (t :: u64) AND 0x3ffffff :: u32) = unat t mod 2 ^ 26"
proof -
  have "unat t mod 2 ^ 32 mod 2 ^ 26 = unat t mod 2 ^ 26"
    by (rule mod_mod_cancel) simp
  then show ?thesis
    by (simp only: unat_and_26 unat_ucast_mod) simp
qed

lemma unat_carry: "unat t < 2 ^ 58 \<Longrightarrow> unat (ucast (drop_bit 26 t :: u64) :: u32) = unat t div 2 ^ 26"
proof -
  assume "unat t < 2 ^ 58"
  then have "unat t div 2 ^ 26 < 2 ^ 32"
    by (simp add: less_mult_imp_div_less)
  then show ?thesis
    by (simp add: unat_ucast_mod unat_drop_bit)
qed

text \<open>The sum of the five products of one column, each below the bound given for it.\<close>

lemma unat_column:
  fixes a0 a1 a2 a3 a4 :: u32
  assumes "unat a0 * unat b0 + unat a1 * unat b1 + unat a2 * unat b2 + unat a3 * unat b3 + unat a4 * unat b4 < 2 ^ 63"
  shows "unat (mul32x32_64 a0 b0 + mul32x32_64 a1 b1 + mul32x32_64 a2 b2 + mul32x32_64 a3 b3 + mul32x32_64 a4 b4) =
    unat a0 * unat b0 + unat a1 * unat b1 + unat a2 * unat b2 + unat a3 * unat b3 + unat a4 * unat b4"
  using assms by (simp add: unat_add unat_mul32x32_64)

subsection \<open>The multiplication\<close>

text \<open>
  What the limbs satisfy between two blocks, and the bounds \<open>poly1305_mul_ok\<close> on them after a block was
  added. \<open>h0\<close> has the widest range: the last carry of the multiplication is added to it, times 5.
\<close>

definition poly1305_key_ok :: "poly1305_state_st \<Rightarrow> bool" where
  "poly1305_key_ok st \<longleftrightarrow>
     unat (pr0 st) < 2 ^ 26 \<and> unat (pr1 st) < 2 ^ 26 \<and> unat (pr2 st) < 2 ^ 26 \<and> unat (pr3 st) < 2 ^ 26 \<and>
     unat (pr4 st) < 2 ^ 20 \<and>
     unat (ps1 st) = 5 * unat (pr1 st) \<and> unat (ps2 st) = 5 * unat (pr2 st) \<and>
     unat (ps3 st) = 5 * unat (pr3 st) \<and> unat (ps4 st) = 5 * unat (pr4 st)"

definition poly1305_inv :: "poly1305_state_st \<Rightarrow> bool" where
  "poly1305_inv st \<longleftrightarrow> poly1305_key_ok st \<and>
     unat (ph0 st) \<le> 42 * 2 ^ 26 \<and> unat (ph1 st) < 2 ^ 26 \<and> unat (ph2 st) < 2 ^ 26 \<and>
     unat (ph3 st) < 2 ^ 26 \<and> unat (ph4 st) < 2 ^ 26"

definition poly1305_mul_ok :: "poly1305_state_st \<Rightarrow> bool" where
  "poly1305_mul_ok st \<longleftrightarrow> poly1305_key_ok st \<and>
     unat (ph0 st) \<le> 43 * 2 ^ 26 \<and> unat (ph1 st) \<le> 2 ^ 27 \<and> unat (ph2 st) \<le> 2 ^ 27 \<and>
     unat (ph3 st) \<le> 2 ^ 27 \<and> unat (ph4 st) \<le> 3 * 2 ^ 25"

definition limbs_val :: "nat \<Rightarrow> nat \<Rightarrow> nat \<Rightarrow> nat \<Rightarrow> nat \<Rightarrow> nat" where
  "limbs_val a0 a1 a2 a3 a4 = a0 + 2 ^ 26 * a1 + 2 ^ 52 * a2 + 2 ^ 78 * a3 + 2 ^ 104 * a4"

definition poly1305_h :: "poly1305_state_st \<Rightarrow> nat" where
  "poly1305_h st = limbs_val (unat (ph0 st)) (unat (ph1 st)) (unat (ph2 st)) (unat (ph3 st)) (unat (ph4 st))"

definition poly1305_r :: "poly1305_state_st \<Rightarrow> nat" where
  "poly1305_r st = limbs_val (unat (pr0 st)) (unat (pr1 st)) (unat (pr2 st)) (unat (pr3 st)) (unat (pr4 st))"

text \<open>The columns \<open>t[0]\<close> to \<open>t[4]\<close> of the product, as numbers, and the carries through them.\<close>

definition columns :: "poly1305_state_st \<Rightarrow> nat \<times> nat \<times> nat \<times> nat \<times> nat" where
  "columns st =
     (let h0 = unat (ph0 st); h1 = unat (ph1 st); h2 = unat (ph2 st); h3 = unat (ph3 st); h4 = unat (ph4 st);
          r0 = unat (pr0 st); r1 = unat (pr1 st); r2 = unat (pr2 st); r3 = unat (pr3 st); r4 = unat (pr4 st);
          s1 = unat (ps1 st); s2 = unat (ps2 st); s3 = unat (ps3 st); s4 = unat (ps4 st)
      in (h0 * r0 + h1 * s4 + h2 * s3 + h3 * s2 + h4 * s1,
          h0 * r1 + h1 * r0 + h2 * s4 + h3 * s3 + h4 * s2,
          h0 * r2 + h1 * r1 + h2 * r0 + h3 * s4 + h4 * s3,
          h0 * r3 + h1 * r2 + h2 * r1 + h3 * r0 + h4 * s4,
          h0 * r4 + h1 * r3 + h2 * r2 + h3 * r1 + h4 * r0))"

lemma columns_bounds:
  assumes "poly1305_mul_ok st" and "columns st = (t0, t1, t2, t3, t4)"
  shows "t0 \<le> 72 * 2 ^ 52" and "t1 \<le> 63 * 2 ^ 52" and "t2 \<le> 55 * 2 ^ 52" and "t3 \<le> 50 * 2 ^ 52"
    and "t4 \<le> 523 * 2 ^ 46"
proof -
  note ok = assms(1) [unfolded poly1305_mul_ok_def poly1305_key_ok_def]
  have m: "a * b \<le> A * B" if "a \<le> A" "b \<le> B" for a b A B :: nat
    using that by (rule mult_le_mono)
  have h: "unat (ph0 st) \<le> 43 * 2 ^ 26" "unat (ph1 st) \<le> 2 ^ 27" "unat (ph2 st) \<le> 2 ^ 27"
    "unat (ph3 st) \<le> 2 ^ 27" "unat (ph4 st) \<le> 3 * 2 ^ 25"
    using ok by blast+
  have r: "unat (pr0 st) \<le> 2 ^ 26" "unat (pr1 st) \<le> 2 ^ 26" "unat (pr2 st) \<le> 2 ^ 26" "unat (pr3 st) \<le> 2 ^ 26"
    "unat (pr4 st) \<le> 2 ^ 20" "unat (ps1 st) \<le> 5 * 2 ^ 26" "unat (ps2 st) \<le> 5 * 2 ^ 26"
    "unat (ps3 st) \<le> 5 * 2 ^ 26" "unat (ps4 st) \<le> 5 * 2 ^ 20"
    using ok by linarith+
  show "t0 \<le> 72 * 2 ^ 52"
    using assms(2) m [OF h(1) r(1)] m [OF h(2) r(9)] m [OF h(3) r(8)] m [OF h(4) r(7)] m [OF h(5) r(6)]
    by (simp add: columns_def Let_def)
  show "t1 \<le> 63 * 2 ^ 52"
    using assms(2) m [OF h(1) r(2)] m [OF h(2) r(1)] m [OF h(3) r(9)] m [OF h(4) r(8)] m [OF h(5) r(7)]
    by (simp add: columns_def Let_def)
  show "t2 \<le> 55 * 2 ^ 52"
    using assms(2) m [OF h(1) r(3)] m [OF h(2) r(2)] m [OF h(3) r(1)] m [OF h(4) r(9)] m [OF h(5) r(8)]
    by (simp add: columns_def Let_def)
  show "t3 \<le> 50 * 2 ^ 52"
    using assms(2) m [OF h(1) r(4)] m [OF h(2) r(3)] m [OF h(3) r(2)] m [OF h(4) r(1)] m [OF h(5) r(9)]
    by (simp add: columns_def Let_def)
  show "t4 \<le> 523 * 2 ^ 46"
    using assms(2) m [OF h(1) r(5)] m [OF h(2) r(4)] m [OF h(3) r(3)] m [OF h(4) r(2)] m [OF h(5) r(1)]
    by (simp add: columns_def Let_def)
qed

lemma poly1305_donna_mul_limbs:
  assumes ok: "poly1305_mul_ok st" and t: "columns st = (t0, t1, t2, t3, t4)"
    and u: "u1 = t1 + t0 div 2 ^ 26" "u2 = t2 + u1 div 2 ^ 26" "u3 = t3 + u2 div 2 ^ 26" "u4 = t4 + u3 div 2 ^ 26"
  shows "unat (ph0 (poly1305_donna_mul st)) = t0 mod 2 ^ 26 + 5 * (u4 div 2 ^ 26)"
    and "unat (ph1 (poly1305_donna_mul st)) = u1 mod 2 ^ 26"
    and "unat (ph2 (poly1305_donna_mul st)) = u2 mod 2 ^ 26"
    and "unat (ph3 (poly1305_donna_mul st)) = u3 mod 2 ^ 26"
    and "unat (ph4 (poly1305_donna_mul st)) = u4 mod 2 ^ 26"
    and "t0 mod 2 ^ 26 + 5 * (u4 div 2 ^ 26) \<le> 42 * 2 ^ 26"
proof -
  note b = columns_bounds [OF ok t]
  define T0 T1 T2 T3 T4 where
    "T0 = mul32x32_64 (ph0 st) (pr0 st) + mul32x32_64 (ph1 st) (ps4 st) + mul32x32_64 (ph2 st) (ps3 st) +
          mul32x32_64 (ph3 st) (ps2 st) + mul32x32_64 (ph4 st) (ps1 st)"
    and "T1 = mul32x32_64 (ph0 st) (pr1 st) + mul32x32_64 (ph1 st) (pr0 st) + mul32x32_64 (ph2 st) (ps4 st) +
          mul32x32_64 (ph3 st) (ps3 st) + mul32x32_64 (ph4 st) (ps2 st)"
    and "T2 = mul32x32_64 (ph0 st) (pr2 st) + mul32x32_64 (ph1 st) (pr1 st) + mul32x32_64 (ph2 st) (pr0 st) +
          mul32x32_64 (ph3 st) (ps4 st) + mul32x32_64 (ph4 st) (ps3 st)"
    and "T3 = mul32x32_64 (ph0 st) (pr3 st) + mul32x32_64 (ph1 st) (pr2 st) + mul32x32_64 (ph2 st) (pr1 st) +
          mul32x32_64 (ph3 st) (pr0 st) + mul32x32_64 (ph4 st) (ps4 st)"
    and "T4 = mul32x32_64 (ph0 st) (pr4 st) + mul32x32_64 (ph1 st) (pr3 st) + mul32x32_64 (ph2 st) (pr2 st) +
          mul32x32_64 (ph3 st) (pr1 st) + mul32x32_64 (ph4 st) (pr0 st)"
  have T: "unat T0 = t0" "unat T1 = t1" "unat T2 = t2" "unat T3 = t3" "unat T4 = t4"
    using t b unfolding T0_def T1_def T2_def T3_def T4_def
    by (subst unat_column; simp add: columns_def Let_def)+
  define U1 U2 U3 U4 where
    "U1 = T1 + drop_bit 26 T0" and
    "U2 = T2 + ucast (ucast (drop_bit 26 U1) :: u32)" and
    "U3 = T3 + ucast (ucast (drop_bit 26 U2) :: u32)" and
    "U4 = T4 + ucast (ucast (drop_bit 26 U3) :: u32)"
  have lt: "u1 < 2 ^ 58" "u2 < 2 ^ 58" "u3 < 2 ^ 58" "u4 < 524 * 2 ^ 46"
    using b by (simp_all add: u)
  have U1: "unat U1 = u1"
    using lt b T by (simp add: U1_def u(1) unat_add unat_drop_bit)
  have U2: "unat U2 = u2"
    using lt b T U1 by (simp add: U2_def u(2) unat_add unat_ucast_widen unat_carry)
  have U3: "unat U3 = u3"
    using lt b T U2 by (simp add: U3_def u(3) unat_add unat_ucast_widen unat_carry)
  have U4: "unat U4 = u4"
    using lt b T U3 by (simp add: U4_def u(4) unat_add unat_ucast_widen unat_carry)
  have c: "unat (ucast (drop_bit 26 U4) :: u32) = u4 div 2 ^ 26"
    using lt U4 by (simp add: unat_carry)
  have c_le: "5 * (u4 div 2 ^ 26) \<le> 41 * 2 ^ 26"
    using lt by simp
  show "t0 mod 2 ^ 26 + 5 * (u4 div 2 ^ 26) \<le> 42 * 2 ^ 26"
    using c_le mod_less_divisor [of "2 ^ 26" t0] by simp
  moreover have eq: "poly1305_donna_mul st = st\<lparr>ph0 := (ucast T0 AND 0x3ffffff) + ucast (drop_bit 26 U4) * 5,
      ph1 := ucast U1 AND 0x3ffffff, ph2 := ucast U2 AND 0x3ffffff, ph3 := ucast U3 AND 0x3ffffff,
      ph4 := ucast U4 AND 0x3ffffff\<rparr>"
    by (simp add: poly1305_donna_mul_def Let_def T0_def T1_def T2_def T3_def T4_def U1_def U2_def U3_def U4_def)
  ultimately show "unat (ph0 (poly1305_donna_mul st)) = t0 mod 2 ^ 26 + 5 * (u4 div 2 ^ 26)"
    using c c_le T by (simp add: unat_add unat_mult unat_ucast_and_26)
  show "unat (ph1 (poly1305_donna_mul st)) = u1 mod 2 ^ 26" "unat (ph2 (poly1305_donna_mul st)) = u2 mod 2 ^ 26"
    "unat (ph3 (poly1305_donna_mul st)) = u3 mod 2 ^ 26" "unat (ph4 (poly1305_donna_mul st)) = u4 mod 2 ^ 26"
    using U1 U2 U3 U4 by (simp_all add: eq unat_ucast_and_26)
qed

text \<open>Modulo \<open>2^130 - 5\<close> the columns add up to the product, and the carries change nothing.\<close>

lemma columns_product:
  assumes "poly1305_key_ok st" and t: "columns st = (t0, t1, t2, t3, t4)"
  shows "\<exists>k. poly1305_h st * poly1305_r st = limbs_val t0 t1 t2 t3 t4 + k * poly1305_p"
proof -
  define h0 h1 h2 h3 h4 r0 r1 r2 r3 r4 where
    "h0 = int (unat (ph0 st))" and "h1 = int (unat (ph1 st))" and "h2 = int (unat (ph2 st))" and
    "h3 = int (unat (ph3 st))" and "h4 = int (unat (ph4 st))" and
    "r0 = int (unat (pr0 st))" and "r1 = int (unat (pr1 st))" and "r2 = int (unat (pr2 st))" and
    "r3 = int (unat (pr3 st))" and "r4 = int (unat (pr4 st))"
  note d = h0_def h1_def h2_def h3_def h4_def r0_def r1_def r2_def r3_def r4_def
  let ?k = "(unat (ph1 st) * unat (pr4 st) + unat (ph2 st) * unat (pr3 st) + unat (ph3 st) * unat (pr2 st) +
      unat (ph4 st) * unat (pr1 st)) +
      2 ^ 26 * (unat (ph2 st) * unat (pr4 st) + unat (ph3 st) * unat (pr3 st) + unat (ph4 st) * unat (pr2 st)) +
      2 ^ 52 * (unat (ph3 st) * unat (pr4 st) + unat (ph4 st) * unat (pr3 st)) +
      2 ^ 78 * (unat (ph4 st) * unat (pr4 st))"
  have t': "int t0 = h0 * r0 + h1 * (5 * r4) + h2 * (5 * r3) + h3 * (5 * r2) + h4 * (5 * r1)"
    "int t1 = h0 * r1 + h1 * r0 + h2 * (5 * r4) + h3 * (5 * r3) + h4 * (5 * r2)"
    "int t2 = h0 * r2 + h1 * r1 + h2 * r0 + h3 * (5 * r4) + h4 * (5 * r3)"
    "int t3 = h0 * r3 + h1 * r2 + h2 * r1 + h3 * r0 + h4 * (5 * r4)"
    "int t4 = h0 * r4 + h1 * r3 + h2 * r2 + h3 * r1 + h4 * r0"
    using t assms(1) by (auto simp: columns_def poly1305_key_ok_def d Let_def)
  have p: "int poly1305_p = 2 ^ 130 - 5"
    by (simp add: poly1305_p_def)
  have k: "int ?k = (h1 * r4 + h2 * r3 + h3 * r2 + h4 * r1) + 2 ^ 26 * (h2 * r4 + h3 * r3 + h4 * r2) +
      2 ^ 52 * (h3 * r4 + h4 * r3) + 2 ^ 78 * (h4 * r4)"
    by (simp add: d)
  have hr: "int (poly1305_h st * poly1305_r st) =
      (h0 + 2 ^ 26 * h1 + 2 ^ 52 * h2 + 2 ^ 78 * h3 + 2 ^ 104 * h4) *
      (r0 + 2 ^ 26 * r1 + 2 ^ 52 * r2 + 2 ^ 78 * r3 + 2 ^ 104 * r4)"
    by (simp add: poly1305_h_def poly1305_r_def limbs_val_def d)
  have "int (limbs_val t0 t1 t2 t3 t4) = int t0 + 2 ^ 26 * int t1 + 2 ^ 52 * int t2 + 2 ^ 78 * int t3 + 2 ^ 104 * int t4"
    by (simp add: limbs_val_def)
  then have "int (poly1305_h st * poly1305_r st) = int (limbs_val t0 t1 t2 t3 t4) + int ?k * int poly1305_p"
    unfolding hr t' k p by (simp add: algebra_simps)
  then have "int (poly1305_h st * poly1305_r st) = int (limbs_val t0 t1 t2 t3 t4 + ?k * poly1305_p)"
    by (simp only: of_nat_add of_nat_mult)
  then show ?thesis
    by (intro exI [of _ ?k]) (simp only: of_nat_eq_iff)
qed

lemma carry_limbs:
  fixes t0 t1 t2 t3 t4 u1 u2 u3 u4 :: nat
  assumes "u1 = t1 + t0 div 2 ^ 26" and "u2 = t2 + u1 div 2 ^ 26" and "u3 = t3 + u2 div 2 ^ 26"
    and "u4 = t4 + u3 div 2 ^ 26"
  shows "limbs_val t0 t1 t2 t3 t4 =
    limbs_val (t0 mod 2 ^ 26) (u1 mod 2 ^ 26) (u2 mod 2 ^ 26) (u3 mod 2 ^ 26) (u4 mod 2 ^ 26) + 2 ^ 130 * (u4 div 2 ^ 26)"
proof -
  have e: "limbs_val t0 t1 t2 t3 t4 = limbs_val m0 m1 m2 m3 m4 + 2 ^ 130 * q4"
    if "2 ^ 26 * q0 + m0 = t0" "2 ^ 26 * q1 + m1 = t1 + q0" "2 ^ 26 * q2 + m2 = t2 + q1"
      "2 ^ 26 * q3 + m3 = t3 + q2" "2 ^ 26 * q4 + m4 = t4 + q3" for m0 m1 m2 m3 m4 q0 q1 q2 q3 q4 :: nat
    using that unfolding limbs_val_def by simp
  show ?thesis
    by (rule e [of "t0 div 2 ^ 26" _ "u1 div 2 ^ 26" _ "u2 div 2 ^ 26" _ "u3 div 2 ^ 26"])
       (use assms in simp_all)
qed

lemma poly1305_donna_mul_fields [simp]:
  "pr0 (poly1305_donna_mul st) = pr0 st" "pr1 (poly1305_donna_mul st) = pr1 st"
  "pr2 (poly1305_donna_mul st) = pr2 st" "pr3 (poly1305_donna_mul st) = pr3 st"
  "pr4 (poly1305_donna_mul st) = pr4 st" "ps1 (poly1305_donna_mul st) = ps1 st"
  "ps2 (poly1305_donna_mul st) = ps2 st" "ps3 (poly1305_donna_mul st) = ps3 st"
  "ps4 (poly1305_donna_mul st) = ps4 st" "pbuf (poly1305_donna_mul st) = pbuf st"
  "pbuf_used (poly1305_donna_mul st) = pbuf_used st" "pkey (poly1305_donna_mul st) = pkey st"
  by (simp_all add: poly1305_donna_mul_def Let_def)

lemma poly1305_donna_mul_correct:
  assumes ok: "poly1305_mul_ok st"
  shows "poly1305_inv (poly1305_donna_mul st)"
    and "poly1305_h (poly1305_donna_mul st) mod poly1305_p = poly1305_h st * poly1305_r st mod poly1305_p"
proof -
  obtain t0 t1 t2 t3 t4 where t: "columns st = (t0, t1, t2, t3, t4)"
    by (cases "columns st") auto
  define u1 u2 u3 u4 where u: "u1 = t1 + t0 div 2 ^ 26" "u2 = t2 + u1 div 2 ^ 26" "u3 = t3 + u2 div 2 ^ 26"
    "u4 = t4 + u3 div 2 ^ 26"
  note limbs = poly1305_donna_mul_limbs [OF ok t u]
  have key: "poly1305_key_ok st"
    using ok by (simp add: poly1305_mul_ok_def)
  show "poly1305_inv (poly1305_donna_mul st)"
    using key limbs by (simp add: poly1305_inv_def poly1305_key_ok_def)
  obtain k where k: "poly1305_h st * poly1305_r st = limbs_val t0 t1 t2 t3 t4 + k * poly1305_p"
    using columns_product [OF key t] by blast
  have "limbs_val t0 t1 t2 t3 t4 = poly1305_h (poly1305_donna_mul st) + (u4 div 2 ^ 26) * poly1305_p"
    unfolding carry_limbs [OF u] by (simp add: poly1305_h_def limbs limbs_val_def poly1305_p_def)
  then have "poly1305_h st * poly1305_r st =
      poly1305_h (poly1305_donna_mul st) + (u4 div 2 ^ 26 + k) * poly1305_p"
    by (simp add: k algebra_simps)
  then show "poly1305_h (poly1305_donna_mul st) mod poly1305_p = poly1305_h st * poly1305_r st mod poly1305_p"
    by simp
qed

subsection \<open>Adding a block\<close>

lemma le_val_Nil [simp]: "le_val [] = 0"
  by (simp add: le_val_def)

lemma le_val_append: "le_val (xs @ ys) = le_val xs + 256 ^ length xs * le_val ys"
  by (simp add: le_val_def be_val_append)

lemma le_val_Cons: "le_val (x # xs) = unat x + 256 * le_val xs"
  using le_val_append [of "[x]" xs] by (simp add: le_val_def be_val_def)

lemma le_val_lt: "le_val bs < 256 ^ length bs"
  using be_val_lt [of "rev bs"] by (simp add: le_val_def)

lemma unat_CRYPTO_load_u32_le: "4 \<le> length bs \<Longrightarrow> unat (CRYPTO_load_u32_le bs) = le_val (take 4 bs)"
  using le_val_lt [of "take 4 bs"]
  by (simp add: CRYPTO_load_u32_le_def mem_to_word_def unat_word_of_nat flip: le_val_def)

lemma le_val_16:
  assumes "16 \<le> length bs"
  shows "le_val (take 16 bs) = unat (CRYPTO_load_u32_le bs) + 2 ^ 32 * unat (CRYPTO_load_u32_le (drop 4 bs)) +
    2 ^ 64 * unat (CRYPTO_load_u32_le (drop 8 bs)) + 2 ^ 96 * unat (CRYPTO_load_u32_le (drop 12 bs))"
proof -
  have "take 16 bs = take 4 bs @ take 4 (drop 4 bs) @ take 4 (drop 8 bs) @ take 4 (drop 12 bs)"
    using take_add [of 4 12 bs] take_add [of 4 8 "drop 4 bs"] take_add [of 4 4 "drop 8 bs"]
    by (simp add: add.commute)
  then show ?thesis
    using assms by (simp add: le_val_append unat_CRYPTO_load_u32_le)
qed

lemma limb_split:
  fixes t u :: nat
  assumes "u < 2 ^ 32" and "k + j = 32" and "j \<le> 26"
  shows "(2 ^ 32 * t + u) div 2 ^ k mod 2 ^ 26 = 2 ^ j * (t mod 2 ^ (26 - j)) + u div 2 ^ k"
proof -
  have pow: "(2 :: nat) ^ 32 = 2 ^ k * 2 ^ j"
    using assms(2) by (metis power_add)
  have "(2 ^ 32 * t + u) div 2 ^ k = 2 ^ j * t + u div 2 ^ k"
    unfolding pow by (simp add: mult.assoc)
  moreover have "u div 2 ^ k < 2 ^ j"
    using assms(1) unfolding pow by (simp add: less_mult_imp_div_less mult.commute)
  moreover have "(2 :: nat) ^ 26 = 2 ^ j * 2 ^ (26 - j)"
    using assms(3) by (metis le_add_diff_inverse power_add)
  ultimately show ?thesis
    by (simp only: mod_mult2_eq) simp
qed

lemma unat_limb:
  fixes t u :: u32
  shows "unat (ucast (drop_bit k (push_bit 32 (ucast t) OR ucast u :: u64) AND 0x3ffffff) :: u32) =
    (2 ^ 32 * unat t + unat u) div 2 ^ k mod 2 ^ 26"
proof -
  have "unat (push_bit 32 (ucast t) OR ucast u :: u64) = 2 ^ 32 * unat t + unat u"
    using unat_u32_lt [of t] unat_u32_lt [of u]
    by (subst push_bit_or_small) (simp_all add: unat_ucast_widen mult.commute)
  then have "unat (drop_bit k (push_bit 32 (ucast t) OR ucast u :: u64) AND 0x3ffffff) =
      (2 ^ 32 * unat t + unat u) div 2 ^ k mod 2 ^ 26"
    by (simp only: unat_and_26 unat_drop_bit)
  moreover have "x mod 2 ^ 26 mod 2 ^ 32 = x mod 2 ^ 26" for x :: nat
    using mod_less_divisor [of "2 ^ 26" x] by simp
  ultimately show ?thesis
    by (simp only: unat_ucast_mod) simp
qed

lemma block_limbs:
  fixes t0 t1 t2 t3 :: nat
  assumes "t0 < 2 ^ 32" "t1 < 2 ^ 32" "t2 < 2 ^ 32"
  shows "limbs_val (t0 mod 2 ^ 26) ((2 ^ 32 * t1 + t0) div 2 ^ 26 mod 2 ^ 26) ((2 ^ 32 * t2 + t1) div 2 ^ 20 mod 2 ^ 26)
      ((2 ^ 32 * t3 + t2) div 2 ^ 14 mod 2 ^ 26) (t3 div 2 ^ 8) =
    t0 + 2 ^ 32 * t1 + 2 ^ 64 * t2 + 2 ^ 96 * t3"
proof -
  have e: "2 ^ n * (t div 2 ^ n) + t mod 2 ^ n = t" for t n :: nat
    by simp
  have *: "limbs_val a0 (2 ^ 6 * y1 + x0) (2 ^ 12 * y2 + x1) (2 ^ 18 * y3 + x2) x3 =
      t0 + 2 ^ 32 * t1 + 2 ^ 64 * t2 + 2 ^ 96 * t3"
    if "2 ^ 26 * x0 + a0 = t0" "2 ^ 20 * x1 + y1 = t1" "2 ^ 14 * x2 + y2 = t2" "2 ^ 8 * x3 + y3 = t3"
    for a0 x0 y1 x1 y2 x2 y3 x3 :: nat
    using that unfolding limbs_val_def by simp
  show ?thesis
    using assms limb_split [of t0 26 6 t1] limb_split [of t1 20 12 t2] limb_split [of t2 14 18 t3]
      * [OF e [of 26 t0] e [of 20 t1] e [of 14 t2] e [of 8 t3]] by simp
qed

lemma unat_or_hibit:
  assumes "hibit = 0 \<or> hibit = push_bit 24 1"
  shows "unat (drop_bit 8 t3 OR hibit) = unat (t3 :: u32) div 2 ^ 8 + unat hibit"
proof -
  have lt: "unat t3 div 2 ^ 8 < 2 ^ 24"
    using unat_u32_lt [of t3] by (simp add: less_mult_imp_div_less)
  have "unat (push_bit 24 1 OR drop_bit 8 t3) = unat t3 div 2 ^ 8 + 2 ^ 24"
    using lt by (subst push_bit_or_small) (simp_all add: unat_drop_bit)
  moreover have "unat (push_bit 24 1 :: u32) = 2 ^ 24"
    by (simp add: push_bit_eq_mult)
  ultimately show ?thesis
    using assms by (auto simp: unat_drop_bit or.commute)
qed

lemma poly1305_add_block_fields [simp]:
  "pr0 (poly1305_add_block hi inp st) = pr0 st" "pr1 (poly1305_add_block hi inp st) = pr1 st"
  "pr2 (poly1305_add_block hi inp st) = pr2 st" "pr3 (poly1305_add_block hi inp st) = pr3 st"
  "pr4 (poly1305_add_block hi inp st) = pr4 st" "ps1 (poly1305_add_block hi inp st) = ps1 st"
  "ps2 (poly1305_add_block hi inp st) = ps2 st" "ps3 (poly1305_add_block hi inp st) = ps3 st"
  "ps4 (poly1305_add_block hi inp st) = ps4 st" "pbuf (poly1305_add_block hi inp st) = pbuf st"
  "pbuf_used (poly1305_add_block hi inp st) = pbuf_used st" "pkey (poly1305_add_block hi inp st) = pkey st"
  by (simp_all add: poly1305_add_block_def Let_def)

lemma poly1305_add_block_correct:
  assumes inv: "poly1305_inv st" and hi: "hi = 0 \<or> hi = push_bit 24 1" and len: "16 \<le> length inp"
  shows "poly1305_mul_ok (poly1305_add_block hi inp st)"
    and "poly1305_h (poly1305_add_block hi inp st) =
      poly1305_h st + le_val (take 16 inp) + 2 ^ 104 * unat hi"
proof -
  define t0 t1 t2 t3 where "t0 = CRYPTO_load_u32_le inp" and "t1 = CRYPTO_load_u32_le (drop 4 inp)"
    and "t2 = CRYPTO_load_u32_le (drop 8 inp)" and "t3 = CRYPTO_load_u32_le (drop 12 inp)"
  note inv' = inv [unfolded poly1305_inv_def]
  define a0 a1 a2 a3 a4 where "a0 = unat t0 mod 2 ^ 26"
    and "a1 = (2 ^ 32 * unat t1 + unat t0) div 2 ^ 26 mod 2 ^ 26"
    and "a2 = (2 ^ 32 * unat t2 + unat t1) div 2 ^ 20 mod 2 ^ 26"
    and "a3 = (2 ^ 32 * unat t3 + unat t2) div 2 ^ 14 mod 2 ^ 26"
    and "a4 = unat t3 div 2 ^ 8"
  have hi_le: "unat hi \<le> 2 ^ 24"
    using hi by (auto simp: push_bit_eq_mult)
  have lt: "a0 < 2 ^ 26" "a1 < 2 ^ 26" "a2 < 2 ^ 26" "a3 < 2 ^ 26" "a4 < 2 ^ 24"
    using unat_u32_lt [of t3] by (simp_all add: a0_def a1_def a2_def a3_def a4_def less_mult_imp_div_less)
  define w0 w1 w2 w3 w4 where "w0 = t0 AND 0x3ffffff"
    and "w1 = (ucast (drop_bit 26 (push_bit 32 (ucast t1) OR ucast t0 :: u64) AND 0x3ffffff) :: u32)"
    and "w2 = (ucast (drop_bit 20 (push_bit 32 (ucast t2) OR ucast t1 :: u64) AND 0x3ffffff) :: u32)"
    and "w3 = (ucast (drop_bit 14 (push_bit 32 (ucast t3) OR ucast t2 :: u64) AND 0x3ffffff) :: u32)"
    and "w4 = drop_bit 8 t3 OR hi"
  have w: "unat w0 = a0" "unat w1 = a1" "unat w2 = a2" "unat w3 = a3" "unat w4 = a4 + unat hi"
    by (simp_all only: w0_def w1_def w2_def w3_def w4_def a0_def a1_def a2_def a3_def a4_def
        unat_and_26 unat_limb unat_or_hibit [OF hi])
  have eq: "poly1305_add_block hi inp st = st\<lparr>ph0 := ph0 st + w0, ph1 := ph1 st + w1, ph2 := ph2 st + w2,
      ph3 := ph3 st + w3, ph4 := ph4 st + w4\<rparr>"
    by (simp only: poly1305_add_block_def Let_def w0_def w1_def w2_def w3_def w4_def t0_def t1_def t2_def t3_def)
  have h: "unat (ph0 (poly1305_add_block hi inp st)) = unat (ph0 st) + a0"
    "unat (ph1 (poly1305_add_block hi inp st)) = unat (ph1 st) + a1"
    "unat (ph2 (poly1305_add_block hi inp st)) = unat (ph2 st) + a2"
    "unat (ph3 (poly1305_add_block hi inp st)) = unat (ph3 st) + a3"
    "unat (ph4 (poly1305_add_block hi inp st)) = unat (ph4 st) + (a4 + unat hi)"
    using lt inv' hi_le w by (simp_all add: eq unat_add)
  show "poly1305_mul_ok (poly1305_add_block hi inp st)"
    using inv' lt hi_le by (simp add: poly1305_mul_ok_def poly1305_key_ok_def h)
  have "le_val (take 16 inp) = limbs_val a0 a1 a2 a3 a4"
    using block_limbs [of "unat t0" "unat t1" "unat t2" "unat t3"] unat_u32_lt le_val_16 [OF len]
    by (simp only: a0_def a1_def a2_def a3_def a4_def t0_def t1_def t2_def t3_def)
  then show "poly1305_h (poly1305_add_block hi inp st) = poly1305_h st + le_val (take 16 inp) + 2 ^ 104 * unat hi"
    by (simp add: poly1305_h_def h limbs_val_def)
qed

subsection \<open>The blocks of a message\<close>

lemma poly1305_acc_cong:
  "a mod poly1305_p = b mod poly1305_p \<Longrightarrow> poly1305_acc r a m = poly1305_acc r b m"
proof (induction "length m" arbitrary: a b m rule: less_induct)
  case less
  show ?case
  proof (cases "m = []")
    case True
    then show ?thesis
      using less.prems by (simp add: poly1305_acc.simps)
  next
    case False
    have "(a + c) * r mod poly1305_p = (b + c) * r mod poly1305_p" for c
      using less.prems by (metis mod_add_left_eq mod_mult_left_eq)
    then have "poly1305_acc r ((a + le_val (take 16 m @ [1])) * r) (drop 16 m) =
        poly1305_acc r ((b + le_val (take 16 m @ [1])) * r) (drop 16 m)"
      using False by (intro less.hyps) simp_all
    then show ?thesis
      using False by (simp add: poly1305_acc.simps [of r _ m])
  qed
qed

lemma poly1305_acc_append:
  "16 dvd length x \<Longrightarrow> poly1305_acc r a (x @ y) = poly1305_acc r (poly1305_acc r a x) y"
proof (induction "length x" arbitrary: a x rule: less_induct)
  case less
  show ?case
  proof (cases "x = []")
    case True
    then show ?thesis
      by (simp add: poly1305_acc.simps [of r a "[]"]) (rule poly1305_acc_cong, simp)
  next
    case False
    then have len: "16 \<le> length x"
      using less.prems by (simp add: dvd_imp_le)
    have "poly1305_acc r a (x @ y) = poly1305_acc r ((a + le_val (take 16 x @ [1])) * r) (drop 16 x @ y)"
      using False len by (simp add: poly1305_acc.simps [of r a "x @ y"])
    also have "\<dots> = poly1305_acc r (poly1305_acc r ((a + le_val (take 16 x @ [1])) * r) (drop 16 x)) y"
      using False len less.prems by (intro less.hyps) (simp_all add: dvd_diff_nat)
    finally show ?thesis
      using False by (simp add: poly1305_acc.simps [of r a x])
  qed
qed

text \<open>The fields that a block update leaves alone.\<close>

definition poly1305_same :: "poly1305_state_st \<Rightarrow> poly1305_state_st \<Rightarrow> bool" where
  "poly1305_same st st' \<longleftrightarrow> poly1305_r st' = poly1305_r st \<and> pbuf st' = pbuf st \<and>
     pbuf_used st' = pbuf_used st \<and> pkey st' = pkey st"

lemma poly1305_block_correct:
  assumes inv: "poly1305_inv st" and hi: "hi = 0 \<or> hi = push_bit 24 1" and len: "16 \<le> length inp"
  defines "st' \<equiv> poly1305_donna_mul (poly1305_add_block hi inp st)"
  shows "poly1305_inv st'" and "poly1305_same st st'"
    and "poly1305_h st' mod poly1305_p =
      (poly1305_h st + (le_val (take 16 inp) + 2 ^ 104 * unat hi)) * poly1305_r st mod poly1305_p"
proof -
  note add = poly1305_add_block_correct [OF inv hi len]
  note mul = poly1305_donna_mul_correct [OF add(1)]
  show "poly1305_inv st'"
    unfolding st'_def by (rule mul(1))
  show "poly1305_same st st'"
    by (simp add: st'_def poly1305_same_def poly1305_r_def)
  show "poly1305_h st' mod poly1305_p =
      (poly1305_h st + (le_val (take 16 inp) + 2 ^ 104 * unat hi)) * poly1305_r st mod poly1305_p"
    using mul(2) add(2) by (simp add: st'_def poly1305_r_def add.assoc)
qed

lemma poly1305_update_correct:
  "poly1305_inv st \<Longrightarrow> poly1305_inv (poly1305_update st inp) \<and> poly1305_same st (poly1305_update st inp) \<and>
     poly1305_h (poly1305_update st inp) mod poly1305_p = poly1305_acc (poly1305_r st) (poly1305_h st) inp"
proof (induction st inp rule: poly1305_update.induct)
  case (1 st inp)
  have hi: "unat (push_bit 24 1 :: u32) = 2 ^ 24"
    by (simp add: push_bit_eq_mult)
  consider (full) "16 \<le> length inp" | (empty) "inp = []" | (part) "inp \<noteq> []" "length inp < 16"
    by fastforce
  then show ?case
  proof cases
    case full
    let ?st = "poly1305_donna_mul (poly1305_add_block (push_bit 24 1) inp st)"
    note blk = poly1305_block_correct [OF 1(2) _ full, of "push_bit 24 1", simplified hi]
    have "le_val (take 16 inp @ [1]) = le_val (take 16 inp) + 2 ^ 104 * 2 ^ 24"
      using full by (simp add: le_val_append le_val_Cons)
    then have "poly1305_acc (poly1305_r st) (poly1305_h st) inp =
        poly1305_acc (poly1305_r st) (poly1305_h ?st) (drop 16 inp)"
      using full blk(3)
      by (subst poly1305_acc.simps) (auto intro!: poly1305_acc_cong)
    then show ?thesis
      using 1(1) [OF full] blk full
      by (subst (1 2 3) poly1305_update.simps) (auto simp: poly1305_same_def)
  next
    case empty
    then show ?thesis
      using 1 by (simp add: poly1305_update.simps poly1305_acc.simps poly1305_same_def)
  next
    case part
    let ?mp = "inp @ [1] @ replicate (16 - (length inp + 1)) 0"
    have "16 \<le> length ?mp"
      using part by simp
    note blk = poly1305_block_correct [OF 1(2) _ this, of 0, simplified]
    have z: "le_val (replicate n 0) = 0" for n
      by (induction n) (simp_all add: le_val_Cons)
    have "take 16 ?mp = ?mp"
      using part by simp
    then have "le_val (take 16 ?mp) = le_val (take 16 inp @ [1])"
      using part by (simp add: le_val_append le_val_Cons z del: replicate.simps)
    then have "poly1305_acc (poly1305_r st) (poly1305_h st) inp =
        poly1305_h (poly1305_donna_mul (poly1305_add_block 0 ?mp st)) mod poly1305_p"
      using part blk(3) by (simp add: poly1305_acc.simps)
    then show ?thesis
      using part blk by (subst (1 2 3) poly1305_update.simps) (simp add: Let_def)
  qed
qed

end
