(* ===== verification/Poly1305Mac.thy ===== *)
theory Poly1305Mac
  imports Poly1305
begin

text \<open>
  The correctness of the Poly1305 interface: initialization clamps the key, any sequence of updates
  absorbs the concatenation of its inputs, and the final reduction and addition give the tag of
  RFC 8439 -- except when the accumulator ends in one of the residues of \<open>poly1305_carry_lost\<close>, for which
  the code drops a carry.
\<close>

unbundle bit_operations_syntax

subsection \<open>Initialization\<close>

lemma bit_load_le_val:
  assumes "16 \<le> length bs" and "k + 4 \<le> 16"
  shows "bit (CRYPTO_load_u32_le (drop k bs)) i \<longleftrightarrow> i < 32 \<and> bit (le_val (take 16 bs)) (8 * k + i)"
proof -
  have "(8 * k + i) div 8 = k + i div 8" "(8 * k + i) mod 8 = i mod 8"
    by simp_all
  moreover have "i < 32 \<Longrightarrow> k + i div 8 < 16"
    using assms by simp
  ultimately show ?thesis
    using assms by (auto simp: CRYPTO_load_u32_le_def bit_mem_to_word le_val_def bit_be_val_rev)
qed

lemma unat_and_mask_26:
  fixes w mk :: u32
  assumes "unat mk < 2 ^ 26"
  shows "unat (w AND mk) = unat w mod 2 ^ 26 AND unat mk"
proof -
  have mk: "take_bit 26 (unat mk) = unat mk"
    using assms by (simp add: take_bit_nat_eq_self)
  have "take_bit 26 (unat w) AND unat mk = take_bit 26 (unat w AND unat mk)"
    by (simp only: take_bit_and mk)
  also have "\<dots> = unat w AND take_bit 26 (unat mk)"
    by (simp only: take_bit_eq_mask and.assoc)
  finally show ?thesis
    unfolding mk unsigned_and_eq by (simp only: take_bit_eq_mod)
qed

text \<open>The 26 bits of the key from bit 26, 52 and 78 on.\<close>

lemma key_limb:
  assumes len: "16 \<le> length key" and "k + 8 \<le> 16" "j + j' = 32" "j' \<le> 26" "m = 8 * k + j"
  shows "unat (drop_bit j (CRYPTO_load_u32_le (drop k key)) OR push_bit j' (CRYPTO_load_u32_le (drop (k + 4) key)))
      mod 2 ^ 26 = le_val (take 16 key) div 2 ^ m mod 2 ^ 26" (is "unat ?w mod _ = ?n div _ mod _")
proof -
  have "take_bit 26 (unat ?w) = take_bit 26 (drop_bit m ?n)"
  proof (rule bit_eqI)
    fix i
    show "bit (take_bit 26 (unat ?w)) i \<longleftrightarrow> bit (take_bit 26 (drop_bit m ?n)) i"
    proof (cases "i < 26")
      case True
      show ?thesis
      proof (cases "j + i < 32")
        case True
        then have "\<not> j' \<le> i"
          using assms by arith
        then show ?thesis
          using True \<open>i < 26\<close> assms
          by (simp add: bit_take_bit_iff bit_unsigned_iff bit_or_iff bit_drop_bit_eq bit_push_bit_iff
              bit_load_le_val add.assoc)
      next
        case False
        then have "j' \<le> i" "8 * (k + 4) + (i - j') = 8 * k + j + i" "i - j' < 32"
          using assms \<open>i < 26\<close> by arith+
        then show ?thesis
          using False \<open>i < 26\<close> assms
          by (simp add: bit_take_bit_iff bit_unsigned_iff bit_or_iff bit_drop_bit_eq bit_push_bit_iff
              bit_load_le_val add.assoc)
      qed
    qed (simp add: bit_take_bit_iff)
  qed
  then show ?thesis
    by (simp add: take_bit_eq_mod drop_bit_eq_div)
qed

lemma limbs_val_digits:
  assumes "c < 2 ^ 130"
  shows "limbs_val (c mod 2 ^ 26) (c div 2 ^ 26 mod 2 ^ 26) (c div 2 ^ 52 mod 2 ^ 26) (c div 2 ^ 78 mod 2 ^ 26)
    (c div 2 ^ 104 mod 2 ^ 26) = c"
proof -
  have e: "2 ^ 26 * (t div 2 ^ 26) + t mod 2 ^ 26 = t" for t :: nat
    by simp
  have d: "c div 2 ^ 52 = c div 2 ^ 26 div 2 ^ 26" "c div 2 ^ 78 = c div 2 ^ 52 div 2 ^ 26"
    "c div 2 ^ 104 = c div 2 ^ 78 div 2 ^ 26" "c div 2 ^ 130 = c div 2 ^ 104 div 2 ^ 26"
    by (simp_all flip: div_mult2_eq)
  have *: "limbs_val m0 m1 m2 m3 m4 = c"
    if "2 ^ 26 * q1 + m0 = c" "2 ^ 26 * q2 + m1 = q1" "2 ^ 26 * q3 + m2 = q2" "2 ^ 26 * q4 + m3 = q3" "2 ^ 26 * 0 + m4 = q4"
    for m0 m1 m2 m3 m4 q1 q2 q3 q4 :: nat
    using that by (simp add: limbs_val_def)
  have "c div 2 ^ 104 div 2 ^ 26 = 0"
    using assms d(4) by simp
  then show ?thesis
    using * [OF e [of c] e [of "c div 2 ^ 26", folded d(1)] e [of "c div 2 ^ 52", folded d(2)]
      e [of "c div 2 ^ 78", folded d(3)]] e [of "c div 2 ^ 104"] by simp
qed

lemma clamp_limb:
  fixes n :: nat
  assumes "take_bit 26 (drop_bit m 0x0ffffffc0ffffffc0ffffffc0fffffff) = mk"
  shows "n div 2 ^ m mod 2 ^ 26 AND mk = poly1305_clamp n div 2 ^ m mod 2 ^ 26"
  unfolding poly1305_clamp_def assms [symmetric]
  by (simp only: drop_bit_and take_bit_and flip: take_bit_eq_mod drop_bit_eq_div)

lemma poly1305_clamp_lt: "poly1305_clamp n < 2 ^ 124"
proof -
  have "take_bit 124 (n AND x) = n AND take_bit 124 x" for x
    by (simp only: take_bit_eq_mask and.assoc)
  then have "take_bit 124 (poly1305_clamp n) = n AND take_bit 124 0x0ffffffc0ffffffc0ffffffc0fffffff"
    by (simp only: poly1305_clamp_def)
  then have "take_bit 124 (poly1305_clamp n) = poly1305_clamp n"
    by (simp add: poly1305_clamp_def)
  then show ?thesis
    using take_bit_nat_less_exp [of 124 "poly1305_clamp n"] by simp
qed

lemma key_limb_ends:
  assumes "16 \<le> length key"
  shows "unat (CRYPTO_load_u32_le (drop 0 key)) mod 2 ^ 26 = le_val (take 16 key) div 2 ^ 0 mod 2 ^ 26"
    and "unat (drop_bit 8 (CRYPTO_load_u32_le (drop 12 key))) mod 2 ^ 26 = le_val (take 16 key) div 2 ^ 104 mod 2 ^ 26"
proof -
  have "take_bit 26 (unat (CRYPTO_load_u32_le (drop 0 key))) = take_bit 26 (drop_bit 0 (le_val (take 16 key)))"
    by (rule bit_eqI)
       (use assms in \<open>auto simp: bit_take_bit_iff bit_unsigned_iff bit_load_le_val [of key 0, simplified]\<close>)
  then show "unat (CRYPTO_load_u32_le (drop 0 key)) mod 2 ^ 26 = le_val (take 16 key) div 2 ^ 0 mod 2 ^ 26"
    by (simp only: take_bit_eq_mod drop_bit_eq_div)
  have "bit (le_val (take 16 key)) (104 + i) \<Longrightarrow> i < 24" for i
    using assms by (simp add: le_val_def bit_be_val_rev)
  then have "take_bit 26 (unat (drop_bit 8 (CRYPTO_load_u32_le (drop 12 key)))) =
      take_bit 26 (drop_bit 104 (le_val (take 16 key)))"
    using assms
    by (intro bit_eqI)
       (auto simp: bit_take_bit_iff bit_unsigned_iff bit_drop_bit_eq bit_load_le_val)
  then show "unat (drop_bit 8 (CRYPTO_load_u32_le (drop 12 key))) mod 2 ^ 26 =
      le_val (take 16 key) div 2 ^ 104 mod 2 ^ 26"
    by (simp only: take_bit_eq_mod drop_bit_eq_div)
qed

lemma init_limbs:
  assumes "32 \<le> length key"
  defines "c \<equiv> poly1305_clamp (le_val (take 16 key))"
  shows "unat (pr0 (CRYPTO_poly1305_init key)) = c div 2 ^ 0 mod 2 ^ 26"
    and "unat (pr1 (CRYPTO_poly1305_init key)) = c div 2 ^ 26 mod 2 ^ 26"
    and "unat (pr2 (CRYPTO_poly1305_init key)) = c div 2 ^ 52 mod 2 ^ 26"
    and "unat (pr3 (CRYPTO_poly1305_init key)) = c div 2 ^ 78 mod 2 ^ 26"
    and "unat (pr4 (CRYPTO_poly1305_init key)) = c div 2 ^ 104 mod 2 ^ 26"
proof -
  have len: "16 \<le> length key"
    using assms(1) by simp
  note limb1 = key_limb [OF len, of 0 26 6 26, simplified]
  note limb2 = key_limb [OF len, of 4 20 12 52, simplified]
  note limb3 = key_limb [OF len, of 8 14 18 78, simplified]
  show "unat (pr0 (CRYPTO_poly1305_init key)) = c div 2 ^ 0 mod 2 ^ 26"
    unfolding c_def
    by (subst clamp_limb [where m = 0 and mk = "0x3ffffff", symmetric])
       (simp_all add: CRYPTO_poly1305_init_def Let_def unat_and_mask_26 key_limb_ends(1) [OF len, simplified])
  show "unat (pr1 (CRYPTO_poly1305_init key)) = c div 2 ^ 26 mod 2 ^ 26"
    unfolding c_def
    by (subst clamp_limb [where m = 26 and mk = "0x3ffff03", symmetric])
       (simp_all add: CRYPTO_poly1305_init_def Let_def unat_and_mask_26 limb1)
  show "unat (pr2 (CRYPTO_poly1305_init key)) = c div 2 ^ 52 mod 2 ^ 26"
    unfolding c_def
    by (subst clamp_limb [where m = 52 and mk = "0x3ffc0ff", symmetric])
       (simp_all add: CRYPTO_poly1305_init_def Let_def unat_and_mask_26 limb2)
  show "unat (pr3 (CRYPTO_poly1305_init key)) = c div 2 ^ 78 mod 2 ^ 26"
    unfolding c_def
    by (subst clamp_limb [where m = 78 and mk = "0x3f03fff", symmetric])
       (simp_all add: CRYPTO_poly1305_init_def Let_def unat_and_mask_26 limb3)
  show "unat (pr4 (CRYPTO_poly1305_init key)) = c div 2 ^ 104 mod 2 ^ 26"
    unfolding c_def
    by (subst clamp_limb [where m = 104 and mk = "0x00fffff", symmetric])
       (simp_all add: CRYPTO_poly1305_init_def Let_def unat_and_mask_26 key_limb_ends(2) [OF len, simplified])
qed

lemma CRYPTO_poly1305_init_correct:
  assumes "32 \<le> length key"
  shows "poly1305_inv (CRYPTO_poly1305_init key)"
    and "poly1305_r (CRYPTO_poly1305_init key) = poly1305_clamp (le_val (take 16 key))"
    and "poly1305_h (CRYPTO_poly1305_init key) = 0"
proof -
  let ?c = "poly1305_clamp (le_val (take 16 key))"
  let ?st = "CRYPTO_poly1305_init key"
  note limbs = init_limbs [OF assms]
  have r4: "unat (pr4 ?st) < 2 ^ 20"
  proof -
    have "?c div 2 ^ 104 < 2 ^ 20"
      using poly1305_clamp_lt [of "le_val (take 16 key)"] by (simp add: less_mult_imp_div_less)
    then show ?thesis
      unfolding limbs(5) by simp
  qed
  have r: "unat (pr0 ?st) < 2 ^ 26" "unat (pr1 ?st) < 2 ^ 26" "unat (pr2 ?st) < 2 ^ 26" "unat (pr3 ?st) < 2 ^ 26"
    unfolding limbs by simp_all
  have s: "ps1 ?st = pr1 ?st * 5" "ps2 ?st = pr2 ?st * 5" "ps3 ?st = pr3 ?st * 5" "ps4 ?st = pr4 ?st * 5"
    by (simp_all add: CRYPTO_poly1305_init_def Let_def)
  have "poly1305_key_ok ?st"
    using r r4 by (simp add: poly1305_key_ok_def s unat_mult)
  then show "poly1305_inv ?st"
    by (simp add: poly1305_inv_def) (simp add: CRYPTO_poly1305_init_def Let_def)
  show "poly1305_h ?st = 0"
    by (simp add: poly1305_h_def limbs_val_def CRYPTO_poly1305_init_def Let_def)
  show "poly1305_r ?st = ?c"
    using limbs_val_digits [of ?c] poly1305_clamp_lt [of "le_val (take 16 key)"]
    by (simp add: poly1305_r_def limbs)
qed

end
