(* ===== verification/Poly1305Tag.thy ===== *)
theory Poly1305Tag
  imports Poly1305Mac
begin

text \<open>
  The final reduction of Poly1305, the streaming interface, and the tag. The reduction leaves out one
  carry: where the first pass wraps around modulo \<open>2^130 - 5\<close>, the lowest limb can end with 27 bits, and
  the bit above the limb is then combined with the next limb by \<open>|\<close> instead of \<open>+\<close>.
\<close>

unbundle bit_operations_syntax

subsection \<open>The final reduction\<close>

lemma carry_bit:
  fixes a c :: nat
  assumes "a < 2 ^ 26" and "c \<le> 1"
  shows "(a + c) div 2 ^ 26 \<le> 1" and "(a + c) div 2 ^ 26 = 1 \<Longrightarrow> (a + c) mod 2 ^ 26 = 0 \<and> c = 1"
proof -
  have "a + c = 2 ^ 26 \<or> a + c < 2 ^ 26"
    using assms by (simp, linarith)
  then show "(a + c) div 2 ^ 26 \<le> 1" "(a + c) div 2 ^ 26 = 1 \<Longrightarrow> (a + c) mod 2 ^ 26 = 0 \<and> c = 1"
    using assms by auto
qed

text \<open>The first carry pass, as numbers.\<close>

lemma first_pass:
  fixes h0 h1 h2 h3 h4 :: nat
  assumes h: "h0 \<le> 42 * 2 ^ 26" "h1 < 2 ^ 26" "h2 < 2 ^ 26" "h3 < 2 ^ 26" "h4 < 2 ^ 26"
    and u: "u1 = h1 + h0 div 2 ^ 26" "u2 = h2 + u1 div 2 ^ 26" "u3 = h3 + u2 div 2 ^ 26" "u4 = h4 + u3 div 2 ^ 26"
  shows "u1 < 2 ^ 27" "u2 \<le> 2 ^ 26" "u3 \<le> 2 ^ 26" "u4 \<le> 2 ^ 26"
    and "u4 div 2 ^ 26 = 0 \<or>
      u4 div 2 ^ 26 = 1 \<and> u4 mod 2 ^ 26 = 0 \<and> u3 mod 2 ^ 26 = 0 \<and> u2 mod 2 ^ 26 = 0 \<and> u1 mod 2 ^ 26 < 42"
proof -
  have c0: "h0 div 2 ^ 26 \<le> 42"
    using h(1) by simp
  have c1: "u1 div 2 ^ 26 \<le> 1" "u1 div 2 ^ 26 = 1 \<Longrightarrow> u1 mod 2 ^ 26 < 42"
  proof -
    have "u1 < 2 ^ 26 \<or> 2 ^ 26 \<le> u1 \<and> u1 < 2 ^ 26 + 42"
      using h(2) c0 unfolding u(1) by linarith
    then show "u1 div 2 ^ 26 \<le> 1" "u1 div 2 ^ 26 = 1 \<Longrightarrow> u1 mod 2 ^ 26 < 42"
      by (auto simp: le_mod_geq)
  qed
  note c2 = carry_bit [OF h(3) c1(1), folded u(2)]
  note c3 = carry_bit [OF h(4) c2(1), folded u(3)]
  note c4 = carry_bit [OF h(5) c3(1), folded u(4)]
  show "u1 < 2 ^ 27"
    using h(2) c0 by (simp add: u(1))
  show "u2 \<le> 2 ^ 26" "u3 \<le> 2 ^ 26" "u4 \<le> 2 ^ 26"
    using h c1(1) c2(1) c3(1) unfolding u(2-4) by linarith+
  show "u4 div 2 ^ 26 = 0 \<or>
      u4 div 2 ^ 26 = 1 \<and> u4 mod 2 ^ 26 = 0 \<and> u3 mod 2 ^ 26 = 0 \<and> u2 mod 2 ^ 26 = 0 \<and> u1 mod 2 ^ 26 < 42"
    using c1 c2 c3 c4 by (metis le_less less_one)
qed

text \<open>Adding 5 carries into bit 130 exactly when the value is at least \<open>2^130 - 5\<close>.\<close>

lemma second_pass:
  fixes k0 k1 k2 k3 k4 :: nat
  assumes k: "k0 < 2 ^ 26 + 5" "k1 < 2 ^ 26" "k2 < 2 ^ 26" "k3 < 2 ^ 26" "k4 < 2 ^ 26"
    and g: "g1 = k1 + (k0 + 5) div 2 ^ 26" "g2 = k2 + g1 div 2 ^ 26" "g3 = k3 + g2 div 2 ^ 26" "g4 = k4 + g3 div 2 ^ 26"
  shows "g1 \<le> 2 ^ 26" "g2 \<le> 2 ^ 26" "g3 \<le> 2 ^ 26" "g4 \<le> 2 ^ 26"
    and "limbs_val k0 k1 k2 k3 k4 + 5 =
      limbs_val ((k0 + 5) mod 2 ^ 26) (g1 mod 2 ^ 26) (g2 mod 2 ^ 26) (g3 mod 2 ^ 26) g4"
proof -
  have b0: "(k0 + 5) div 2 ^ 26 \<le> 1"
    using k(1) by simp
  note b1 = carry_bit [OF k(2) b0, folded g(1)]
  note b2 = carry_bit [OF k(3) b1(1), folded g(2)]
  note b3 = carry_bit [OF k(4) b2(1), folded g(3)]
  show "g1 \<le> 2 ^ 26" "g2 \<le> 2 ^ 26" "g3 \<le> 2 ^ 26" "g4 \<le> 2 ^ 26"
    using k b0 b1(1) b2(1) b3(1) g by linarith+
  have "limbs_val (k0 + 5) k1 k2 k3 k4 =
      limbs_val ((k0 + 5) mod 2 ^ 26) (g1 mod 2 ^ 26) (g2 mod 2 ^ 26) (g3 mod 2 ^ 26) (g4 mod 2 ^ 26) +
      2 ^ 130 * (g4 div 2 ^ 26)"
    by (rule carry_limbs [OF g])
  moreover have "limbs_val a b c d m + 2 ^ 130 * q = limbs_val a b c d (2 ^ 26 * q + m)" for a b c d m q
    by (simp add: limbs_val_def)
  moreover have "limbs_val k0 k1 k2 k3 k4 + 5 = limbs_val (k0 + 5) k1 k2 k3 k4"
    by (simp add: limbs_val_def)
  ultimately show "limbs_val k0 k1 k2 k3 k4 + 5 =
      limbs_val ((k0 + 5) mod 2 ^ 26) (g1 mod 2 ^ 26) (g2 mod 2 ^ 26) (g3 mod 2 ^ 26) g4"
    by simp
qed

lemma unat_top_bit:
  fixes k b :: u32
  assumes "unat k + unat b \<le> 2 ^ 26"
  shows "drop_bit 31 (k + b - push_bit 26 1) - 1 = (if unat k + unat b = 2 ^ 26 then -1 else 0)"
    and "unat k + unat b = 2 ^ 26 \<Longrightarrow> k + b - push_bit 26 1 = 0"
proof -
  have kb: "unat (k + b) = unat k + unat b"
    using assms by (simp add: unat_add)
  have p: "(push_bit 26 1 :: u32) = 0x4000000"
    by (simp add: push_bit_eq_mult)
  have eq: "k + b - push_bit 26 1 = 0" if "unat k + unat b = 2 ^ 26"
  proof -
    have "k + b = 0x4000000"
      using that kb by (intro word_unat_eq_iff [THEN iffD2]) simp
    then show ?thesis
      by (simp add: p)
  qed
  then show "unat k + unat b = 2 ^ 26 \<Longrightarrow> k + b - push_bit 26 1 = 0" .
  have "unat (drop_bit 31 (k + b - push_bit 26 1)) = 1" if "unat k + unat b \<noteq> 2 ^ 26"
  proof -
    have lt: "unat (k + b) < 2 ^ 26"
      using that assms kb by simp
    then have "k + b < 0x4000000"
      by (simp add: word_less_nat_alt)
    then have "unat (k + b - 0x4000000) = 2 ^ 32 + unat (k + b) - 2 ^ 26"
      by (simp add: unat_sub_if' word_less_nat_alt)
    then show ?thesis
      using lt by (simp add: p unat_drop_bit)
  qed
  then have "drop_bit 31 (k + b - push_bit 26 1) = 1" if "unat k + unat b \<noteq> 2 ^ 26"
    using that by (intro word_unat_eq_iff [THEN iffD2]) simp
  then show "drop_bit 31 (k + b - push_bit 26 1) - 1 = (if unat k + unat b = 2 ^ 26 then -1 else 0)"
    using eq by simp
qed

text \<open>
  The limbs that are left. They represent the residue of the accumulator, and all have 26 bits, except
  that \<open>h0\<close> may exceed its limb by less than 5 when only \<open>h0\<close> and \<open>h1\<close> are not 0.
\<close>

definition reduced_limbs :: "nat \<Rightarrow> nat \<Rightarrow> nat \<Rightarrow> nat \<Rightarrow> nat \<Rightarrow> bool" where
  "reduced_limbs a0 a1 a2 a3 a4 \<longleftrightarrow>
     a0 < 2 ^ 26 + 5 \<and> a1 < 2 ^ 26 \<and> a2 < 2 ^ 26 \<and> a3 < 2 ^ 26 \<and> a4 < 2 ^ 26 \<and>
     (2 ^ 26 \<le> a0 \<longrightarrow> a1 < 42 \<and> a2 = 0 \<and> a3 = 0 \<and> a4 = 0)"

lemma limbs_lt:
  "a0 < 2 ^ 26 \<Longrightarrow> a1 < 2 ^ 26 \<Longrightarrow> a2 < 2 ^ 26 \<Longrightarrow> a3 < 2 ^ 26 \<Longrightarrow> a4 < 2 ^ 26 \<Longrightarrow> limbs_val a0 a1 a2 a3 a4 < 2 ^ 130"
  by (simp add: limbs_val_def)

lemma second_pass_selects:
  assumes k: "reduced_limbs k0 k1 k2 k3 k4"
    and g: "g1 = k1 + (k0 + 5) div 2 ^ 26" "g2 = k2 + g1 div 2 ^ 26" "g3 = k3 + g2 div 2 ^ 26" "g4 = k4 + g3 div 2 ^ 26"
  defines "v \<equiv> limbs_val k0 k1 k2 k3 k4"
  shows "g4 = 2 ^ 26 \<Longrightarrow> reduced_limbs ((k0 + 5) mod 2 ^ 26) (g1 mod 2 ^ 26) (g2 mod 2 ^ 26) (g3 mod 2 ^ 26) 0 \<and>
      limbs_val ((k0 + 5) mod 2 ^ 26) (g1 mod 2 ^ 26) (g2 mod 2 ^ 26) (g3 mod 2 ^ 26) 0 = v mod poly1305_p"
    and "g4 \<noteq> 2 ^ 26 \<Longrightarrow> v = v mod poly1305_p"
proof -
  have b: "k0 < 2 ^ 26 + 5" "k1 < 2 ^ 26" "k2 < 2 ^ 26" "k3 < 2 ^ 26" "k4 < 2 ^ 26"
    and small: "2 ^ 26 \<le> k0 \<longrightarrow> k1 < 42 \<and> k2 = 0 \<and> k3 = 0 \<and> k4 = 0"
    using k by (simp_all add: reduced_limbs_def)
  note sp = second_pass [OF b g]
  have m: "x mod 2 ^ 26 < 2 ^ 26" for x :: nat
    by simp
  have v: "v < 2 ^ 130"
  proof (cases "2 ^ 26 \<le> k0")
    case True
    then show ?thesis
      using small b(1) by (simp add: v_def limbs_val_def)
  next
    case False
    then show ?thesis
      unfolding v_def using b by (intro limbs_lt) simp_all
  qed
  show "g4 = 2 ^ 26 \<Longrightarrow> reduced_limbs ((k0 + 5) mod 2 ^ 26) (g1 mod 2 ^ 26) (g2 mod 2 ^ 26) (g3 mod 2 ^ 26) 0 \<and>
      limbs_val ((k0 + 5) mod 2 ^ 26) (g1 mod 2 ^ 26) (g2 mod 2 ^ 26) (g3 mod 2 ^ 26) 0 = v mod poly1305_p"
  proof -
    assume g4: "g4 = 2 ^ 26"
    let ?w = "limbs_val ((k0 + 5) mod 2 ^ 26) (g1 mod 2 ^ 26) (g2 mod 2 ^ 26) (g3 mod 2 ^ 26) 0"
    have "v + 5 = ?w + 2 ^ 130"
      using sp(5) by (simp add: v_def g4 limbs_val_def)
    then have "v = ?w + poly1305_p" "?w < poly1305_p"
      using v by (simp_all add: poly1305_p_def)
    then have "?w = v mod poly1305_p"
      by simp
    moreover have "reduced_limbs ((k0 + 5) mod 2 ^ 26) (g1 mod 2 ^ 26) (g2 mod 2 ^ 26) (g3 mod 2 ^ 26) 0"
      using m [of "k0 + 5"] m [of g1] m [of g2] m [of g3] unfolding reduced_limbs_def by linarith
    ultimately show ?thesis
      by simp
  qed
  show "g4 \<noteq> 2 ^ 26 \<Longrightarrow> v = v mod poly1305_p"
  proof -
    assume "g4 \<noteq> 2 ^ 26"
    then have "g4 < 2 ^ 26"
      using sp(4) by simp
    then have "v + 5 < 2 ^ 130"
      unfolding v_def sp(5) by (intro limbs_lt m)
    then have "v < poly1305_p"
      by (simp add: poly1305_p_def)
    then show ?thesis
      by simp
  qed
qed

lemma first_pass_reduced:
  assumes h: "h0 \<le> 42 * 2 ^ 26" "h1 < 2 ^ 26" "h2 < 2 ^ 26" "h3 < 2 ^ 26" "h4 < 2 ^ 26"
    and u: "u1 = h1 + h0 div 2 ^ 26" "u2 = h2 + u1 div 2 ^ 26" "u3 = h3 + u2 div 2 ^ 26" "u4 = h4 + u3 div 2 ^ 26"
  defines "k0 \<equiv> h0 mod 2 ^ 26 + 5 * (u4 div 2 ^ 26)"
  shows "reduced_limbs k0 (u1 mod 2 ^ 26) (u2 mod 2 ^ 26) (u3 mod 2 ^ 26) (u4 mod 2 ^ 26)"
    and "limbs_val k0 (u1 mod 2 ^ 26) (u2 mod 2 ^ 26) (u3 mod 2 ^ 26) (u4 mod 2 ^ 26) mod poly1305_p =
      limbs_val h0 h1 h2 h3 h4 mod poly1305_p"
proof -
  note fp = first_pass [OF h u]
  have m: "x mod 2 ^ 26 < 2 ^ 26" for x :: nat
    by simp
  show "reduced_limbs k0 (u1 mod 2 ^ 26) (u2 mod 2 ^ 26) (u3 mod 2 ^ 26) (u4 mod 2 ^ 26)"
    using fp(5) m [of h0] m [of u1] m [of u2] m [of u3] m [of u4] unfolding reduced_limbs_def k0_def by linarith
  have "limbs_val h0 h1 h2 h3 h4 =
      limbs_val k0 (u1 mod 2 ^ 26) (u2 mod 2 ^ 26) (u3 mod 2 ^ 26) (u4 mod 2 ^ 26) + u4 div 2 ^ 26 * poly1305_p"
    unfolding carry_limbs [OF u] by (simp add: k0_def limbs_val_def poly1305_p_def)
  then show "limbs_val k0 (u1 mod 2 ^ 26) (u2 mod 2 ^ 26) (u3 mod 2 ^ 26) (u4 mod 2 ^ 26) mod poly1305_p =
      limbs_val h0 h1 h2 h3 h4 mod poly1305_p"
    by simp
qed

lemma poly1305_reduce_correct:
  fixes h0 h1 h2 h3 h4 :: u32
  assumes h: "unat h0 \<le> 42 * 2 ^ 26" "unat h1 < 2 ^ 26" "unat h2 < 2 ^ 26" "unat h3 < 2 ^ 26" "unat h4 < 2 ^ 26"
    and eq: "poly1305_reduce (h0, h1, h2, h3, h4) = (a0, a1, a2, a3, a4)"
  shows "reduced_limbs (unat a0) (unat a1) (unat a2) (unat a3) (unat a4)"
    and "limbs_val (unat a0) (unat a1) (unat a2) (unat a3) (unat a4) =
      limbs_val (unat h0) (unat h1) (unat h2) (unat h3) (unat h4) mod poly1305_p"
proof -
  define u1 u2 u3 u4 where u: "u1 = unat h1 + unat h0 div 2 ^ 26" "u2 = unat h2 + u1 div 2 ^ 26"
    "u3 = unat h3 + u2 div 2 ^ 26" "u4 = unat h4 + u3 div 2 ^ 26"
  note fp = first_pass [OF h u] and fr = first_pass_reduced [OF h u]
  define U1 U2 U3 U4 where U: "U1 = h1 + drop_bit 26 h0" "U2 = h2 + drop_bit 26 U1"
    "U3 = h3 + drop_bit 26 U2" "U4 = h4 + drop_bit 26 U3"
  have U1: "unat U1 = u1"
    using fp(1) by (simp add: U(1) u(1) unat_add unat_drop_bit)
  have U2: "unat U2 = u2"
    using fp(2) U1 by (simp add: U(2) u(2) unat_add unat_drop_bit)
  have U3: "unat U3 = u3"
    using fp(3) U2 by (simp add: U(3) u(3) unat_add unat_drop_bit)
  have U4: "unat U4 = u4"
    using fp(4) U3 by (simp add: U(4) u(4) unat_add unat_drop_bit)
  define k0 k1 k2 k3 k4 where k: "k0 = unat h0 mod 2 ^ 26 + 5 * (u4 div 2 ^ 26)" "k1 = u1 mod 2 ^ 26"
    "k2 = u2 mod 2 ^ 26" "k3 = u3 mod 2 ^ 26" "k4 = u4 mod 2 ^ 26"
  define K0 K1 K2 K3 K4 where K: "K0 = (h0 AND 0x3ffffff) + drop_bit 26 U4 * 5" "K1 = U1 AND 0x3ffffff"
    "K2 = U2 AND 0x3ffffff" "K3 = U3 AND 0x3ffffff" "K4 = U4 AND 0x3ffffff"
  have red: "reduced_limbs k0 k1 k2 k3 k4"
    using fr(1) by (simp only: k)
  then have kb: "k0 < 2 ^ 26 + 5" "k1 < 2 ^ 26" "k2 < 2 ^ 26" "k3 < 2 ^ 26" "k4 < 2 ^ 26"
    by (simp_all add: reduced_limbs_def)
  have K': "unat K1 = k1" "unat K2 = k2" "unat K3 = k3" "unat K4 = k4"
    by (simp_all only: K k unat_and_26 U1 U2 U3 U4)
  have c5: "unat (drop_bit 26 U4 * 5) = 5 * (u4 div 2 ^ 26)"
    using fp(4) U4 by (subst unat_mult) (simp_all add: unat_drop_bit mult.commute)
  have K0: "unat K0 = k0"
    unfolding K(1) k(1) by (subst unat_add) (use kb(1) c5 in \<open>simp_all add: k(1) unat_and_26\<close>)
  define g1 g2 g3 g4 where g: "g1 = k1 + (k0 + 5) div 2 ^ 26" "g2 = k2 + g1 div 2 ^ 26"
    "g3 = k3 + g2 div 2 ^ 26" "g4 = k4 + g3 div 2 ^ 26"
  note sp = second_pass [OF kb g] and sel = second_pass_selects [OF red g]
  define G0 G1 G2 G3 where G: "G0 = K0 + 5" "G1 = K1 + drop_bit 26 G0" "G2 = K2 + drop_bit 26 G1"
    "G3 = K3 + drop_bit 26 G2"
  have G0: "unat G0 = k0 + 5"
    using kb(1) K0 by (simp add: G(1) unat_add)
  have G1: "unat G1 = g1"
    using sp(1) G0 K' by (simp add: G(2) g(1) unat_add unat_drop_bit)
  have G2: "unat G2 = g2"
    using sp(2) G1 K' by (simp add: G(3) g(2) unat_add unat_drop_bit)
  have G3: "unat G3 = g3"
    using sp(3) G2 K' by (simp add: G(4) g(3) unat_add unat_drop_bit)
  have g4: "unat K4 + unat (drop_bit 26 G3) = g4"
    by (simp only: K' unat_drop_bit G3 g(4))
  define G4 where G4: "G4 = K4 + drop_bit 26 G3 - push_bit 26 1"
  have top: "drop_bit 31 G4 - 1 = (if g4 = 2 ^ 26 then -1 else 0)" "g4 = 2 ^ 26 \<Longrightarrow> G4 = 0"
    using unat_top_bit [of K4 "drop_bit 26 G3", unfolded g4] sp(4) unfolding G4 by blast+
  have res: "poly1305_reduce (h0, h1, h2, h3, h4) =
      (if g4 = 2 ^ 26 then (G0 AND 0x3ffffff, G1 AND 0x3ffffff, G2 AND 0x3ffffff, G3 AND 0x3ffffff, 0)
       else (K0, K1, K2, K3, K4))"
    unfolding poly1305_reduce_def Let_def prod.case K [symmetric] U [symmetric] G [symmetric]
      G4 [symmetric] top(1)
    by (cases "g4 = 2 ^ 26") (simp_all add: top(2))
  have "reduced_limbs (unat a0) (unat a1) (unat a2) (unat a3) (unat a4) \<and>
      limbs_val (unat a0) (unat a1) (unat a2) (unat a3) (unat a4) = limbs_val k0 k1 k2 k3 k4 mod poly1305_p"
  proof (cases "g4 = 2 ^ 26")
    case True
    then have a: "a0 = G0 AND 0x3ffffff" "a1 = G1 AND 0x3ffffff" "a2 = G2 AND 0x3ffffff" "a3 = G3 AND 0x3ffffff" "a4 = 0"
      using eq res by auto
    show ?thesis
      using sel(1) [OF True] unfolding a unat_and_26 G0 G1 G2 G3 unsigned_0 .
  next
    case False
    then have a: "a0 = K0" "a1 = K1" "a2 = K2" "a3 = K3" "a4 = K4"
      using eq res by auto
    show ?thesis
      using sel(2) [OF False] red unfolding a K0 K' by simp
  qed
  then show "reduced_limbs (unat a0) (unat a1) (unat a2) (unat a3) (unat a4)"
    and "limbs_val (unat a0) (unat a1) (unat a2) (unat a3) (unat a4) =
      limbs_val (unat h0) (unat h1) (unat h2) (unat h3) (unat h4) mod poly1305_p"
    using fr(2) by (simp_all only: k)
qed

subsection \<open>Adding the second half of the key\<close>

lemma push_bit_or:
  fixes x y :: u32
  assumes "unat x < 2 ^ n" and "n \<le> 32"
  shows "unat (x OR push_bit n y) = unat x + 2 ^ n * (unat y mod 2 ^ (32 - n))"
proof -
  have "push_bit n y = push_bit n (take_bit (32 - n) y)"
    by (rule bit_word_eqI) (auto simp: bit_push_bit_iff bit_take_bit_iff)
  moreover have "unat (take_bit (32 - n) y) * 2 ^ n + unat x < 2 ^ 32"
  proof -
    have "unat y mod 2 ^ (32 - n) + 1 \<le> 2 ^ (32 - n)"
      by (simp add: Suc_le_eq)
    then have "(unat y mod 2 ^ (32 - n) + 1) * 2 ^ n \<le> 2 ^ (32 - n) * 2 ^ n"
      by (rule mult_le_mono1)
    also have "\<dots> = 2 ^ 32"
      using assms(2) by (simp flip: power_add)
    finally show ?thesis
      using assms(1) by (simp add: unat_take_bit)
  qed
  ultimately show ?thesis
    using assms(1) push_bit_or_small [of x n "take_bit (32 - n) y"]
    by (simp add: or.commute unat_take_bit mult.commute)
qed

lemma push_bit_26_even:
  fixes a0 a1 :: u32
  assumes "unat a0 < 2 ^ 26 + 5" and "unat a0 < 2 ^ 26 \<or> even (unat a1)"
  shows "unat (a0 OR push_bit 26 a1) = unat a0 + 2 ^ 26 * (unat a1 mod 2 ^ 6)"
proof (cases "unat a0 < 2 ^ 26")
  case True
  then show ?thesis
    by (subst push_bit_or) simp_all
next
  case False
  then obtain q where q: "unat a1 = 2 * q"
    using assms(2) by auto
  have a1: "push_bit 1 (drop_bit 1 a1) = a1"
    by (rule word_unat_eq_iff [THEN iffD2])
       (use q unat_u32_lt [of a1] in \<open>simp add: push_bit_eq_mult unat_word_ariths drop_bit_eq_div unat_div\<close>)
  have "push_bit 26 a1 = push_bit 27 (drop_bit 1 a1)"
    using push_bit_push_bit [of 26 1 "drop_bit 1 a1"] unfolding a1 by simp
  moreover have "unat (a0 OR push_bit 27 (drop_bit 1 a1)) = unat a0 + 2 ^ 27 * (unat (drop_bit 1 a1) mod 2 ^ 5)"
    using assms(1) by (subst push_bit_or) simp_all
  moreover have "2 ^ 27 * (q mod 2 ^ 5) = 2 ^ 26 * (2 * q mod 2 ^ 6)"
    using mult_mod_right [of 2 q 32] by simp
  ultimately show ?thesis
    by (simp add: unat_drop_bit q)
qed

text \<open>The four 32-bit words of the reduced accumulator.\<close>

lemma limbs_words:
  fixes a0 a1 a2 a3 a4 :: u32
  assumes red: "reduced_limbs (unat a0) (unat a1) (unat a2) (unat a3) (unat a4)"
    and even: "unat a0 < 2 ^ 26 \<or> even (unat a1)"
  shows "(unat (a0 OR push_bit 26 a1) + 2 ^ 32 * unat (drop_bit 6 a1 OR push_bit 20 a2) +
      2 ^ 64 * unat (drop_bit 12 a2 OR push_bit 14 a3) + 2 ^ 96 * unat (drop_bit 18 a3 OR push_bit 8 a4)) mod 2 ^ 128 =
    limbs_val (unat a0) (unat a1) (unat a2) (unat a3) (unat a4) mod 2 ^ 128"
proof -
  have b: "unat a0 < 2 ^ 26 + 5" "unat a1 < 2 ^ 26" "unat a2 < 2 ^ 26" "unat a3 < 2 ^ 26" "unat a4 < 2 ^ 26"
    using red by (simp_all add: reduced_limbs_def)
  have w0: "unat (a0 OR push_bit 26 a1) = unat a0 + 2 ^ 26 * (unat a1 mod 2 ^ 6)"
    using push_bit_26_even [OF b(1) even] .
  have w1: "unat (drop_bit 6 a1 OR push_bit 20 a2) = unat a1 div 2 ^ 6 + 2 ^ 20 * (unat a2 mod 2 ^ 12)"
    using b(2) push_bit_or [of "drop_bit 6 a1" 20 a2] by (simp add: unat_drop_bit less_mult_imp_div_less)
  have w2: "unat (drop_bit 12 a2 OR push_bit 14 a3) = unat a2 div 2 ^ 12 + 2 ^ 14 * (unat a3 mod 2 ^ 18)"
    using b(3) push_bit_or [of "drop_bit 12 a2" 14 a3] by (simp add: unat_drop_bit less_mult_imp_div_less)
  have w3: "unat (drop_bit 18 a3 OR push_bit 8 a4) = unat a3 div 2 ^ 18 + 2 ^ 8 * (unat a4 mod 2 ^ 24)"
    using b(4) push_bit_or [of "drop_bit 18 a3" 8 a4] by (simp add: unat_drop_bit less_mult_imp_div_less)
  have *: "limbs_val a0' (2 ^ 6 * q1 + m1) (2 ^ 12 * q2 + m2) (2 ^ 18 * q3 + m3) (2 ^ 24 * q4 + m4) =
      (a0' + 2 ^ 26 * m1) + 2 ^ 32 * (q1 + 2 ^ 20 * m2) + 2 ^ 64 * (q2 + 2 ^ 14 * m3) + 2 ^ 96 * (q3 + 2 ^ 8 * m4) +
      2 ^ 128 * q4" for a0' m1 m2 m3 m4 q1 q2 q3 q4 :: nat
    by (simp add: limbs_val_def)
  have e: "2 ^ n * (t div 2 ^ n) + t mod 2 ^ n = t" for t n :: nat
    by simp
  show ?thesis
    unfolding w0 w1 w2 w3
    using * [of "unat a0" "unat a1 div 2 ^ 6" "unat a1 mod 2 ^ 6" "unat a2 div 2 ^ 12" "unat a2 mod 2 ^ 12"
        "unat a3 div 2 ^ 18" "unat a3 mod 2 ^ 18" "unat a4 div 2 ^ 24" "unat a4 mod 2 ^ 24", unfolded e]
    by (metis mod_mult_self2)
qed

lemma le_bytes_append: "le_bytes (m + n) v = le_bytes m v @ le_bytes n (v div 256 ^ m)"
proof -
  have "be_bytes (m + n) v = be_bytes n (v div 256 ^ m) @ be_bytes m v"
    by (induction m arbitrary: v) (simp_all add: div_mult2_eq)
  then show ?thesis
    by (simp add: le_bytes_def)
qed

lemma le_bytes_mod: "le_bytes n (v mod 256 ^ n) = le_bytes n v"
  unfolding le_bytes_def by (metis be_bytes_be_val be_val_be_bytes length_be_bytes)

lemma CRYPTO_store_u32_le_ucast: "CRYPTO_store_u32_le (ucast (f :: u64)) = le_bytes 4 (unat f)"
  using le_bytes_mod [of 4 "unat f"] 
  by (simp add: CRYPTO_store_u32_le_def word_to_mem_def unat_ucast_mod flip: le_bytes_def)

text \<open>A sum of four words with the carries of the code is the sum modulo \<open>2^128\<close>.\<close>

lemma add_words:
  fixes w0 w1 w2 w3 s0 s1 s2 s3 :: u32
  assumes f: "f0 = ucast w0 + (ucast s0 :: u64)" "f1 = ucast w1 + ucast s1 + drop_bit 32 f0"
    "f2 = ucast w2 + ucast s2 + drop_bit 32 f1" "f3 = ucast w3 + ucast s3 + drop_bit 32 f2"
  shows "CRYPTO_store_u32_le (ucast f0) @ CRYPTO_store_u32_le (ucast f1) @ CRYPTO_store_u32_le (ucast f2) @
      CRYPTO_store_u32_le (ucast f3) =
    le_bytes 16 ((unat w0 + 2 ^ 32 * unat w1 + 2 ^ 64 * unat w2 + 2 ^ 96 * unat w3) +
      (unat s0 + 2 ^ 32 * unat s1 + 2 ^ 64 * unat s2 + 2 ^ 96 * unat s3))"
proof -
  have lt: "unat w < 2 ^ 32" for w :: u32
    by (rule unat_u32_lt)
  have s: "unat (ucast w + ucast s :: u64) = unat w + unat s" for w s :: u32
    using lt [of w] lt [of s] by (subst unat_add) (simp_all add: unat_ucast_widen)
  have f0: "unat f0 = unat w0 + unat s0"
    by (simp add: f(1) s)
  have b0: "unat f0 < 2 ^ 33"
    using lt [of w0] lt [of s0] by (simp add: f0)
  have f1: "unat f1 = unat w1 + unat s1 + unat f0 div 2 ^ 32"
    unfolding f(2) using lt [of w1] lt [of s1] b0 by (subst unat_add) (simp_all add: s unat_drop_bit)
  have b1: "unat f1 \<le> 2 ^ 33"
    using lt [of w1] lt [of s1] b0 by (simp add: f1)
  have f2: "unat f2 = unat w2 + unat s2 + unat f1 div 2 ^ 32"
    unfolding f(3) using lt [of w2] lt [of s2] b1 by (subst unat_add) (simp_all add: s unat_drop_bit)
  have b2: "unat f2 \<le> 2 ^ 33"
    using lt [of w2] lt [of s2] b1 by (simp add: f2)
  have f3: "unat f3 = unat w3 + unat s3 + unat f2 div 2 ^ 32"
    unfolding f(4) using lt [of w3] lt [of s3] b2 by (subst unat_add) (simp_all add: s unat_drop_bit)
  let ?v = "(unat w0 + 2 ^ 32 * unat w1 + 2 ^ 64 * unat w2 + 2 ^ 96 * unat w3) +
      (unat s0 + 2 ^ 32 * unat s1 + 2 ^ 64 * unat s2 + 2 ^ 96 * unat s3)"
  define v1 v2 v3 where "v1 = (unat w1 + unat s1) + 2 ^ 32 * (unat w2 + unat s2) + 2 ^ 64 * (unat w3 + unat s3)"
    and "v2 = (unat w2 + unat s2) + 2 ^ 32 * (unat w3 + unat s3)" and "v3 = unat w3 + unat s3"
  have "?v = unat f0 + 2 ^ 32 * v1"
    by (simp add: v1_def f0)
  then have "le_bytes 16 ?v = le_bytes 4 (unat f0 + 2 ^ 32 * v1) @ le_bytes 12 (unat f0 div 2 ^ 32 + v1)"
    using le_bytes_append [of 4 12 ?v] by (simp add: add.commute [of _ v1])
  also have "unat f0 div 2 ^ 32 + v1 = unat f1 + 2 ^ 32 * v2"
    by (simp add: v1_def v2_def f1)
  also have "le_bytes 12 (unat f1 + 2 ^ 32 * v2) =
      le_bytes 4 (unat f1 + 2 ^ 32 * v2) @ le_bytes 8 (unat f1 div 2 ^ 32 + v2)"
    using le_bytes_append [of 4 8 "unat f1 + 2 ^ 32 * v2"] by (simp add: add.commute [of _ v2])
  also have "unat f1 div 2 ^ 32 + v2 = unat f2 + 2 ^ 32 * v3"
    by (simp add: v2_def v3_def f2)
  also have "le_bytes 8 (unat f2 + 2 ^ 32 * v3) =
      le_bytes 4 (unat f2 + 2 ^ 32 * v3) @ le_bytes 4 (unat f2 div 2 ^ 32 + v3)"
    using le_bytes_append [of 4 4 "unat f2 + 2 ^ 32 * v3"] by (simp add: add.commute [of _ v3])
  also have "unat f2 div 2 ^ 32 + v3 = unat f3"
    by (simp add: v3_def f3)
  moreover have "le_bytes 4 (x + 2 ^ 32 * y) = le_bytes 4 x" for x y
    using le_bytes_mod [of 4 "x + 2 ^ 32 * y"] le_bytes_mod [of 4 x] by simp
  ultimately show ?thesis
    by (simp only: CRYPTO_store_u32_le_ucast)
qed

subsection \<open>The tag\<close>

text \<open>The residues for which the carry out of \<open>h0\<close> is lost.\<close>

definition poly1305_carry_lost :: "nat \<Rightarrow> bool" where
  "poly1305_carry_lost a \<longleftrightarrow> 2 ^ 27 \<le> a \<and> a < 2 ^ 32 \<and> a mod 2 ^ 27 < 5"

lemma not_carry_lost:
  assumes "reduced_limbs a0 a1 a2 a3 a4" and "\<not> poly1305_carry_lost (limbs_val a0 a1 a2 a3 a4)"
  shows "a0 < 2 ^ 26 \<or> even a1"
proof (rule ccontr)
  assume "\<not> (a0 < 2 ^ 26 \<or> even a1)"
  then have a0: "2 ^ 26 \<le> a0" and "odd a1"
    by simp_all
  then obtain q where q: "a1 = 2 * q + 1"
    by (auto elim: oddE)
  obtain j where j: "a0 = 2 ^ 26 + j"
    using a0 le_Suc_ex by blast
  have lims: "j < 5" "q < 21" "a2 = 0" "a3 = 0" "a4 = 0"
    using assms(1) a0 by (simp_all add: reduced_limbs_def q j)
  have "limbs_val a0 a1 a2 a3 a4 = 2 ^ 27 * (q + 1) + j"
    by (simp add: limbs_val_def q j lims)
  moreover have "(2 ^ 27 * (q + 1) + j) mod 2 ^ 27 = j"
    using lims(1) by (simp only: mod_mult_self4) simp
  then have "poly1305_carry_lost (2 ^ 27 * (q + 1) + j)"
    using lims by (simp add: poly1305_carry_lost_def)
  ultimately show False
    using assms(2) by simp
qed

text \<open>What \<open>CRYPTO_poly1305_finish\<close> does after the last block.\<close>

lemma finish_words:
  assumes "pbuf_used st = 0" and key: "length (pkey st) = 16"
    and a: "poly1305_reduce (ph0 st, ph1 st, ph2 st, ph3 st, ph4 st) = (a0, a1, a2, a3, a4)"
  shows "CRYPTO_poly1305_finish st =
    le_bytes 16 ((unat (a0 OR push_bit 26 a1) + 2 ^ 32 * unat (drop_bit 6 a1 OR push_bit 20 a2) +
      2 ^ 64 * unat (drop_bit 12 a2 OR push_bit 14 a3) + 2 ^ 96 * unat (drop_bit 18 a3 OR push_bit 8 a4)) +
      le_val (pkey st))"
proof -
  define s0 s1 s2 s3 where s: "s0 = CRYPTO_load_u32_le (drop 0 (pkey st))" "s1 = CRYPTO_load_u32_le (drop 4 (pkey st))"
    "s2 = CRYPTO_load_u32_le (drop 8 (pkey st))" "s3 = CRYPTO_load_u32_le (drop 12 (pkey st))"
  have S: "le_val (pkey st) = unat s0 + 2 ^ 32 * unat s1 + 2 ^ 64 * unat s2 + 2 ^ 96 * unat s3"
    using le_val_16 [of "pkey st"] key by (simp add: s)
  show ?thesis
    unfolding S CRYPTO_poly1305_finish_def Let_def a prod.case
    by (simp only: assms(1) simp_thms if_False a prod.case flip: s) (rule add_words [OF refl refl refl refl])
qed

lemma finish_last_block:
  assumes "pbuf_used st = 0" and inv: "poly1305_inv st" and key: "length (pkey st) = 16"
    and ok: "\<not> poly1305_carry_lost (poly1305_h st mod poly1305_p)"
  shows "CRYPTO_poly1305_finish st = le_bytes 16 ((poly1305_h st mod poly1305_p + le_val (pkey st)) mod 2 ^ 128)"
proof -
  obtain a0 a1 a2 a3 a4 where a: "poly1305_reduce (ph0 st, ph1 st, ph2 st, ph3 st, ph4 st) = (a0, a1, a2, a3, a4)"
    by (metis prod_cases5)
  have red: "reduced_limbs (unat a0) (unat a1) (unat a2) (unat a3) (unat a4)"
    "limbs_val (unat a0) (unat a1) (unat a2) (unat a3) (unat a4) = poly1305_h st mod poly1305_p"
    using poly1305_reduce_correct [OF _ _ _ _ _ a] inv by (simp_all add: poly1305_inv_def poly1305_h_def)
  have even: "unat a0 < 2 ^ 26 \<or> even (unat a1)"
    using not_carry_lost [OF red(1)] ok red(2) by simp
  define W where "W = unat (a0 OR push_bit 26 a1) + 2 ^ 32 * unat (drop_bit 6 a1 OR push_bit 20 a2) +
    2 ^ 64 * unat (drop_bit 12 a2 OR push_bit 14 a3) + 2 ^ 96 * unat (drop_bit 18 a3 OR push_bit 8 a4)"
  have W: "W mod 2 ^ 128 = poly1305_h st mod poly1305_p mod 2 ^ 128"
    using limbs_words [OF red(1) even] unfolding W_def red(2) .
  have "CRYPTO_poly1305_finish st = le_bytes 16 (W + le_val (pkey st))"
    unfolding W_def by (rule finish_words [OF assms(1) key a])
  also have "\<dots> = le_bytes 16 ((W + le_val (pkey st)) mod 2 ^ 128)"
    using le_bytes_mod [of 16 "W + le_val (pkey st)"] by simp
  also have "(W + le_val (pkey st)) mod 2 ^ 128 = (poly1305_h st mod poly1305_p + le_val (pkey st)) mod 2 ^ 128"
    by (rule mod_add_cong [OF W refl])
  finally show ?thesis .
qed

subsection \<open>The streaming interface\<close>

text \<open>
  The buffering is exact: whatever the calls, the limbs are those of one \<open>poly1305_update\<close> over the
  concatenation of the inputs. \<open>poly1305_core\<close> forgets the buffer.
\<close>

definition poly1305_core :: "poly1305_state_st \<Rightarrow> poly1305_state_st" where
  "poly1305_core st = st\<lparr>pbuf := [], pbuf_used := 0\<rparr>"

lemma poly1305_core_buffer [simp]:
  "poly1305_core (st\<lparr>pbuf := b\<rparr>) = poly1305_core st" "poly1305_core (st\<lparr>pbuf_used := n\<rparr>) = poly1305_core st"
  "poly1305_core (poly1305_core st) = poly1305_core st" "pbuf_used (poly1305_core st) = 0"
  by (simp_all add: poly1305_core_def)

lemma poly1305_core_fields [simp]:
  "ph0 (poly1305_core st) = ph0 st" "ph1 (poly1305_core st) = ph1 st" "ph2 (poly1305_core st) = ph2 st"
  "ph3 (poly1305_core st) = ph3 st" "ph4 (poly1305_core st) = ph4 st" "pkey (poly1305_core st) = pkey st"
  "poly1305_h (poly1305_core st) = poly1305_h st" "poly1305_r (poly1305_core st) = poly1305_r st"
  "poly1305_inv (poly1305_core st) = poly1305_inv st"
  by (simp_all add: poly1305_core_def poly1305_inv_def poly1305_key_ok_def poly1305_r_def poly1305_h_def)

lemma poly1305_update_core: "poly1305_core (poly1305_update st inp) = poly1305_update (poly1305_core st) inp"
proof (induction st inp rule: poly1305_update.induct)
  case (1 st inp)
  have block: "poly1305_core (poly1305_donna_mul (poly1305_add_block hi x st)) =
      poly1305_donna_mul (poly1305_add_block hi x (poly1305_core st))" for hi x
    by (simp add: poly1305_donna_mul_def poly1305_add_block_def poly1305_core_def Let_def)
  show ?case
    using 1 by (subst (1 2) poly1305_update.simps) (simp add: block Let_def)
qed

lemma poly1305_update_buffer:
  "pbuf (poly1305_update st inp) = pbuf st \<and> pbuf_used (poly1305_update st inp) = pbuf_used st"
  by (induction st inp rule: poly1305_update.induct) (subst (1 2) poly1305_update.simps, simp add: Let_def)

lemmas poly1305_update_buffer_simps [simp] =
  poly1305_update_buffer [THEN conjunct1] poly1305_update_buffer [THEN conjunct2]

lemma poly1305_update_append:
  "16 dvd length x \<Longrightarrow> poly1305_update st (x @ y) = poly1305_update (poly1305_update st x) y"
proof (induction "length x" arbitrary: st x rule: less_induct)
  case less
  show ?case
  proof (cases "x = []")
    case True
    then show ?thesis
      by (simp add: poly1305_update.simps [of st "[]"])
  next
    case False
    then have len: "16 \<le> length x"
      using less.prems by (simp add: dvd_imp_le)
    have cong: "poly1305_add_block hi (x @ y) st = poly1305_add_block hi x st" for hi
      using len by (simp add: poly1305_add_block_def CRYPTO_load_u32_le_def)
    have "poly1305_update st (x @ y) =
        poly1305_update (poly1305_donna_mul (poly1305_add_block (push_bit 24 1) x st)) (drop 16 x @ y)"
      using len by (subst poly1305_update.simps) (simp add: cong)
    also have "\<dots> = poly1305_update (poly1305_update (poly1305_donna_mul (poly1305_add_block (push_bit 24 1) x st)) (drop 16 x)) y"
      using False less.prems len by (intro less.hyps) (simp_all add: dvd_diff_nat)
    finally show ?thesis
      using len by (simp add: poly1305_update.simps [of st x])
  qed
qed

text \<open>
  \<open>poly1305_rep st0 full part st\<close>: from \<open>st0\<close>, the state has absorbed \<open>full @ part\<close>, of which the whole
  blocks \<open>full\<close> are in the accumulator and the bytes \<open>part\<close> in the buffer.
\<close>

definition poly1305_rep :: "poly1305_state_st \<Rightarrow> bytes \<Rightarrow> bytes \<Rightarrow> poly1305_state_st \<Rightarrow> bool" where
  "poly1305_rep st0 full part st \<longleftrightarrow>
     poly1305_core st = poly1305_update (poly1305_core st0) full \<and> 16 dvd length full \<and>
     length (pbuf st) = 16 \<and> pbuf_used st = length part \<and> length part < 16 \<and> take (length part) (pbuf st) = part"

lemma poly1305_rep_start:
  "pbuf_used st = 0 \<Longrightarrow> length (pbuf st) = 16 \<Longrightarrow> poly1305_rep st [] [] st"
  by (simp add: poly1305_rep_def poly1305_update.simps)

lemma poly1305_rep_blocks:
  assumes "poly1305_rep st0 full [] st" and "16 dvd length y"
  shows "poly1305_rep st0 (full @ y) [] (poly1305_update st y)"
  using assms by (simp add: poly1305_rep_def poly1305_update_core poly1305_update_append)

lemma poly1305_rep_fill:
  assumes "poly1305_rep st0 full [] st" and "length z < 16"
  shows "poly1305_rep st0 full z (st\<lparr>pbuf := buf_write (pbuf st) 0 z, pbuf_used := length z\<rparr>)"
  using assms by (simp add: poly1305_rep_def buf_write_def)

text \<open>The three ways through \<open>CRYPTO_poly1305_update\<close>.\<close>

lemma update_empty_buffer:
  assumes "pbuf_used st = 0" and "inp \<noteq> []"
  shows "CRYPTO_poly1305_update st inp =
    (let n = length inp div 16 * 16; st' = poly1305_update st (take n inp); z = drop n inp
     in if z \<noteq> [] then st'\<lparr>pbuf := buf_write (pbuf st') 0 z, pbuf_used := length z\<rparr> else st')"
proof (cases "length inp \<ge> 16")
  case True
  then show ?thesis
    using assms by (simp add: CRYPTO_poly1305_update_def poly1305_fill_buffer_def Let_def)
next
  case False
  then show ?thesis
    using assms
    by (simp add: CRYPTO_poly1305_update_def poly1305_fill_buffer_def Let_def poly1305_update.simps [of st "[]"])
qed

lemma update_buffer_fits:
  assumes "pbuf_used st \<noteq> 0" and "length inp < 16 - pbuf_used st"
  shows "CRYPTO_poly1305_update st inp =
    (if inp = [] then st
     else st\<lparr>pbuf := buf_write (pbuf st) (pbuf_used st) inp, pbuf_used := pbuf_used st + length inp\<rparr>)"
  using assms by (simp add: CRYPTO_poly1305_update_def poly1305_fill_buffer_def Let_def)

lemma update_buffer_full:
  assumes "pbuf_used st \<noteq> 0" and "pbuf_used st < 16" and "16 - pbuf_used st \<le> length inp"
  defines "t \<equiv> 16 - pbuf_used st"
  defines "buf \<equiv> buf_write (pbuf st) (pbuf_used st) (take t inp)"
  defines "st1 \<equiv> (poly1305_update (st\<lparr>pbuf := buf, pbuf_used := 16\<rparr>) (take 16 buf))\<lparr>pbuf_used := 0\<rparr>"
  shows "CRYPTO_poly1305_update st inp =
    (if drop t inp = [] then st1 else CRYPTO_poly1305_update st1 (drop t inp))"
proof -
  have fill: "poly1305_fill_buffer st inp = (st1, drop t inp)"
    using assms(1-3) by (simp add: poly1305_fill_buffer_def Let_def st1_def buf_def t_def)
  moreover have "poly1305_fill_buffer st1 (drop t inp) = (st1, drop t inp)"
    by (simp add: poly1305_fill_buffer_def st1_def)
  moreover have "length inp \<noteq> 0"
    using assms by auto
  ultimately show ?thesis
    by (simp add: CRYPTO_poly1305_update_def [of st inp] CRYPTO_poly1305_update_def [of st1 "drop t inp"]
        del: length_drop)
qed

lemma poly1305_rep_update:
  assumes "poly1305_rep st0 full [] st" and "inp \<noteq> []"
  shows "\<exists>full' part. full' @ part = full @ inp \<and> poly1305_rep st0 full' part (CRYPTO_poly1305_update st inp)"
proof -
  let ?n = "length inp div 16 * 16"
  let ?st = "poly1305_update st (take ?n inp)"
  have rep: "poly1305_rep st0 (full @ take ?n inp) [] ?st"
    by (rule poly1305_rep_blocks [OF assms(1)]) simp
  have z: "length (drop ?n inp) < 16"
    by (simp add: minus_div_mult_eq_mod)
  have eq: "CRYPTO_poly1305_update st inp =
      (if drop ?n inp \<noteq> [] then ?st\<lparr>pbuf := buf_write (pbuf ?st) 0 (drop ?n inp), pbuf_used := length (drop ?n inp)\<rparr>
       else ?st)"
    using assms update_empty_buffer [of st inp] unfolding poly1305_rep_def Let_def by simp
  show ?thesis
  proof (cases "drop ?n inp = []")
    case True
    then show ?thesis
      using rep eq by (intro exI [of _ "full @ take ?n inp"] exI [of _ "[]"]) (simp add: append_take_drop_id)
  next
    case False
    then show ?thesis
      using poly1305_rep_fill [OF rep z] eq
      by (intro exI [of _ "full @ take ?n inp"] exI [of _ "drop ?n inp"]) (simp only: if_True append_assoc append_take_drop_id simp_thms)
  qed
qed

lemma poly1305_rep_update_fits:
  assumes "poly1305_rep st0 full part st" and "part \<noteq> []" and "length part + length inp < 16"
  shows "poly1305_rep st0 full (part @ inp) (CRYPTO_poly1305_update st inp)"
  using assms by (auto simp: poly1305_rep_def update_buffer_fits buf_write_def)

lemma poly1305_rep_update_full:
  assumes rep: "poly1305_rep st0 full part st" and "part \<noteq> []" and len: "16 \<le> length part + length inp"
  defines "t \<equiv> 16 - length part"
  shows "\<exists>st1. poly1305_rep st0 (full @ part @ take t inp) [] st1 \<and>
    CRYPTO_poly1305_update st inp = (if drop t inp = [] then st1 else CRYPTO_poly1305_update st1 (drop t inp))"
proof -
  have st: "pbuf_used st = length part" "length part < 16" "length (pbuf st) = 16" "take (length part) (pbuf st) = part"
    "16 dvd length full"
    using rep by (simp_all add: poly1305_rep_def)
  let ?buf = "buf_write (pbuf st) (length part) (take t inp)"
  have buf: "?buf = part @ take t inp" "length (part @ take t inp) = 16"
    using st len by (simp_all add: buf_write_def t_def)
  let ?st1 = "(poly1305_update (st\<lparr>pbuf := part @ take t inp, pbuf_used := 16\<rparr>) (part @ take t inp))\<lparr>pbuf_used := 0\<rparr>"
  have "poly1305_core ?st1 = poly1305_update (poly1305_core st0) (full @ part @ take t inp)"
    using rep by (simp add: poly1305_rep_def poly1305_update_core poly1305_update_append)
  moreover have "16 dvd length (full @ part @ take t inp)"
    using st(5) buf(2) by (simp only: length_append [of full] dvd_add_right_iff dvd_refl)
  ultimately have "poly1305_rep st0 (full @ part @ take t inp) [] ?st1"
    using buf(2) by (simp add: poly1305_rep_def)
  moreover have "CRYPTO_poly1305_update st inp = (if drop t inp = [] then ?st1 else CRYPTO_poly1305_update ?st1 (drop t inp))"
  proof -
    have "take 16 (part @ take t inp) = part @ take t inp"
      using buf(2) by (intro take_all) (simp only: order_refl)
    moreover note update_buffer_full [of st inp, unfolded st(1), folded t_def, unfolded buf(1)]
    ultimately show ?thesis
      using st(2) assms(2) len by (simp add: t_def)
  qed
  ultimately show ?thesis
    by blast
qed

lemma CRYPTO_poly1305_update_rep:
  assumes rep: "poly1305_rep st0 full part st"
  shows "\<exists>full' part'. full' @ part' = full @ part @ inp \<and> poly1305_rep st0 full' part' (CRYPTO_poly1305_update st inp)"
proof -
  consider "inp = []" | "inp \<noteq> []" "part = []" | "part \<noteq> []" "length part + length inp < 16"
    | "part \<noteq> []" "16 \<le> length part + length inp"
    by fastforce
  then show ?thesis
  proof cases
    case 1
    then have "poly1305_rep st0 full part (CRYPTO_poly1305_update st inp)"
      using rep by (simp add: CRYPTO_poly1305_update_def)
    with 1 show ?thesis
      by auto
  next
    case 2
    then show ?thesis
      using poly1305_rep_update rep by simp
  next
    case 3
    then show ?thesis
      using poly1305_rep_update_fits [OF rep] by fastforce
  next
    case 4
    let ?t = "16 - length part"
    obtain st1 where st1: "poly1305_rep st0 (full @ part @ take ?t inp) [] st1"
      "CRYPTO_poly1305_update st inp = (if drop ?t inp = [] then st1 else CRYPTO_poly1305_update st1 (drop ?t inp))"
      using poly1305_rep_update_full [OF rep 4] by blast
    show ?thesis
    proof (cases "drop ?t inp = []")
      case True
      then have "full @ part @ take ?t inp = full @ part @ inp"
        by simp
      then show ?thesis
        using st1 True by (metis append_Nil2)
    next
      case False
      then obtain f p where "f @ p = (full @ part @ take ?t inp) @ drop ?t inp"
        "poly1305_rep st0 f p (CRYPTO_poly1305_update st1 (drop ?t inp))"
        using poly1305_rep_update [OF st1(1) False] by blast
      then show ?thesis
        using st1(2) False by (metis append_assoc append_take_drop_id)
    qed
  qed
qed

lemma poly1305_rep_fold:
  assumes "poly1305_rep st0 full part st"
  shows "\<exists>full' part'. full' @ part' = full @ part @ concat chunks \<and>
    poly1305_rep st0 full' part' (fold (\<lambda>c st. CRYPTO_poly1305_update st c) chunks st)"
  using assms
proof (induction chunks arbitrary: full part st)
  case Nil
  then show ?case
    by auto
next
  case (Cons c chunks)
  obtain f p where "f @ p = full @ part @ c" "poly1305_rep st0 f p (CRYPTO_poly1305_update st c)"
    using CRYPTO_poly1305_update_rep [OF Cons.prems] by blast
  then show ?case
    using Cons.IH [of f p "CRYPTO_poly1305_update st c"] by (metis append_assoc concat.simps(2) fold_simps(2))
qed

text \<open>The tag depends on the concatenation of the inputs only, and on the state before them.\<close>

lemma poly1305_finish_core:
  "poly1305_rep st0 full part st \<Longrightarrow>
   CRYPTO_poly1305_finish st = CRYPTO_poly1305_finish (poly1305_update (poly1305_core st0) (full @ part))"
proof -
  assume rep: "poly1305_rep st0 full part st"
  then have "poly1305_core (poly1305_update st part) = poly1305_update (poly1305_core st0) (full @ part)"
    by (simp add: poly1305_rep_def poly1305_update_core poly1305_update_append)
  moreover have "CRYPTO_poly1305_finish st = CRYPTO_poly1305_finish (poly1305_core (poly1305_update st part))"
    using rep by (simp add: CRYPTO_poly1305_finish_def Let_def poly1305_rep_def poly1305_update.simps [of _ "[]"])
  ultimately show ?thesis
    by simp
qed

lemma CRYPTO_poly1305_stream:
  assumes "length key = 32"
  shows "CRYPTO_poly1305_finish (fold (\<lambda>c st. CRYPTO_poly1305_update st c) chunks (CRYPTO_poly1305_init key)) =
    CRYPTO_poly1305_finish (poly1305_update (poly1305_core (CRYPTO_poly1305_init key)) (concat chunks))"
proof -
  have "pbuf_used (CRYPTO_poly1305_init key) = 0" "length (pbuf (CRYPTO_poly1305_init key)) = 16"
    by (simp_all add: CRYPTO_poly1305_init_def Let_def)
  then obtain full part where "full @ part = concat chunks"
    "poly1305_rep (CRYPTO_poly1305_init key) full part
       (fold (\<lambda>c st. CRYPTO_poly1305_update st c) chunks (CRYPTO_poly1305_init key))"
    using poly1305_rep_fold [OF poly1305_rep_start, of "CRYPTO_poly1305_init key" chunks] by auto
  then show ?thesis
    using poly1305_finish_core by metis
qed

lemma poly1305_one_update:
  assumes "length key = 32" and ok: "\<not> poly1305_carry_lost (poly1305_eval key m)"
  shows "CRYPTO_poly1305_finish (poly1305_update (poly1305_core (CRYPTO_poly1305_init key)) m) = poly1305_mac key m"
proof -
  let ?st = "poly1305_update (poly1305_core (CRYPTO_poly1305_init key)) m"
  note init = CRYPTO_poly1305_init_correct [of key]
  have key: "pkey (CRYPTO_poly1305_init key) = take 16 (drop 16 key)"
    by (simp add: CRYPTO_poly1305_init_def Let_def)
  have upd: "poly1305_inv ?st" "pkey ?st = take 16 (drop 16 key)" "poly1305_h ?st mod poly1305_p = poly1305_eval key m"
    using poly1305_update_correct [of "poly1305_core (CRYPTO_poly1305_init key)" m] init assms(1) key
    by (simp_all add: poly1305_same_def poly1305_eval_def)
  then show ?thesis
    using finish_last_block [of ?st] assms by (simp add: poly1305_mac_def)
qed

subsection \<open>A key and a message with a wrong tag\<close>

text \<open>Evaluation of a \<open>let\<close> whose bound expression is a constant.\<close>

lemma let_eval: "x = c \<Longrightarrow> f c = r \<Longrightarrow> Let x f = r" by simp

definition carry_key :: bytes where
  "carry_key = [0xff, 0xff, 0xff, 0x03, 0, 0, 0, 0, 0, 0, 0, 0, 0, 0, 0, 0, 0, 0, 0, 0, 0, 0, 0, 0, 0, 0, 0, 0, 0, 0, 0, 0]"

definition carry_msg :: bytes where
  "carry_msg = [0x6f, 0x07, 0x4c, 0x2d, 0x65, 0x5d, 0xa5, 0x92, 0xe3, 0x05, 0x2d, 0x8a, 0x86, 0x5a, 0xfe, 0x58,
                0xad, 0x0f, 0x8f, 0x6c, 0x47, 0x2d, 0xf8, 0xfd, 0x6d, 0x90, 0xe2, 0xfb, 0xee, 0xa6, 0xd5, 0x3e]"

definition carry_state :: "u32 \<Rightarrow> u32 \<Rightarrow> u32 \<Rightarrow> u32 \<Rightarrow> u32 \<Rightarrow> poly1305_state_st" where
  "carry_state h0 h1 h2 h3 h4 =
     \<lparr>pr0 = 67108863, pr1 = 0, pr2 = 0, pr3 = 0, pr4 = 0, ps1 = 0, ps2 = 0, ps3 = 0, ps4 = 0,
      ph0 = h0, ph1 = h1, ph2 = h2, ph3 = h3, ph4 = h4, pbuf = replicate 16 0, pbuf_used = 0, pkey = [0, 0, 0, 0, 0, 0, 0, 0, 0, 0, 0, 0, 0, 0, 0, 0]\<rparr>"

lemmas load_eval = CRYPTO_load_u32_le_def mem_to_word_def be_val_def

lemma carry_init: "CRYPTO_poly1305_init carry_key = carry_state 0 0 0 0 0"
  unfolding CRYPTO_poly1305_init_def carry_key_def carry_state_def
  by ((rule let_eval, simp add: load_eval)+, simp)

lemma carry_add_1: "poly1305_add_block (push_bit 24 1) carry_msg (carry_state 0 0 0 0 0) = carry_state 21759855 22501707 6175018 35268788 22609498"
  unfolding poly1305_add_block_def carry_msg_def
  by ((rule let_eval, simp add: load_eval)+, simp add: carry_state_def)

lemma carry_mul_1: "poly1305_donna_mul (carry_state 21759855 22501707 6175018 35268788 22609498) = carry_state 158396499 66367011 16326688 38015094 12659289"
  unfolding poly1305_donna_mul_def carry_state_def mul32x32_64_def
  by ((rule let_eval, simp)+, simp)

lemma carry_add_2: "poly1305_add_block (push_bit 24 1) (drop 16 carry_msg) (carry_state 158396499 66367011 16326688 38015094 12659289) =
    carry_state 167772160 100663294 33554431 100663296 33554431"
  unfolding poly1305_add_block_def carry_msg_def
  by ((rule let_eval, simp add: load_eval)+, simp add: carry_state_def)

lemma carry_mul_2: "poly1305_donna_mul (carry_state 167772160 100663294 33554431 100663296 33554431) = carry_state 201326587 67108863 67108863 67108863 67108863"
  unfolding poly1305_donna_mul_def carry_state_def mul32x32_64_def
  by ((rule let_eval, simp)+, simp)

lemma carry_reduce: "poly1305_reduce (201326587, 67108863, 67108863, 67108863, 67108863) = (67108864, 1, 0, 0, 0)"
  unfolding poly1305_reduce_def prod.case
  by ((rule let_eval, simp)+, simp)

lemma carry_finish: "CRYPTO_poly1305_finish (carry_state 201326587 67108863 67108863 67108863 67108863) = le_bytes 16 (2 ^ 26)"
proof -
  let ?st = "carry_state 201326587 67108863 67108863 67108863 67108863"
  have f: "pbuf_used ?st = 0" "pkey ?st = [0, 0, 0, 0, 0, 0, 0, 0, 0, 0, 0, 0, 0, 0, 0, 0]"
    "(ph0 ?st, ph1 ?st, ph2 ?st, ph3 ?st, ph4 ?st) = (201326587, 67108863, 67108863, 67108863, 67108863)"
    by (simp_all add: carry_state_def)
  have key: "length (pkey ?st) = 16" "le_val (pkey ?st) = 0"
    by (simp_all add: f le_val_def be_val_def)
  show ?thesis
    using finish_words [OF f(1) key(1) carry_reduce [folded f(3)]] by (simp add: key(2))
qed

lemma carry_update: "CRYPTO_poly1305_update (carry_state 0 0 0 0 0) carry_msg = carry_state 201326587 67108863 67108863 67108863 67108863"
proof -
  have len: "length carry_msg = 32"
    by (simp add: carry_msg_def)
  have "poly1305_update (carry_state 0 0 0 0 0) carry_msg =
      poly1305_update (carry_state 158396499 66367011 16326688 38015094 12659289) (drop 16 carry_msg)"
    by (subst poly1305_update.simps) (simp only: len carry_add_1 carry_mul_1, simp)
  also have "\<dots> = poly1305_update (carry_state 201326587 67108863 67108863 67108863 67108863) []"
    by (subst poly1305_update.simps) (simp only: length_drop len carry_add_2 carry_mul_2 drop_drop, simp add: len)
  also have "\<dots> = carry_state 201326587 67108863 67108863 67108863 67108863"
    by (simp add: poly1305_update.simps)
  finally have "poly1305_update (carry_state 0 0 0 0 0) carry_msg = carry_state 201326587 67108863 67108863 67108863 67108863" .
  moreover have "pbuf_used (carry_state 0 0 0 0 0) = 0"
    by (simp add: carry_state_def)
  ultimately show ?thesis
    by (simp add: CRYPTO_poly1305_update_def poly1305_fill_buffer_def Let_def len)
qed

lemma carry_mac: "poly1305_mac carry_key carry_msg = le_bytes 16 (2 ^ 27)"
proof -
  have key: "poly1305_clamp (le_val (take 16 carry_key)) = 67108863" "le_val (take 16 (drop 16 carry_key)) = 0"
    by (simp_all add: carry_key_def le_val_def be_val_def poly1305_clamp_def)
  have m: "take 16 carry_msg @ [1] \<noteq> [1]" "le_val (take 16 carry_msg @ [1]) = 458575110028280372885354319258569148271"
    "drop 16 carry_msg \<noteq> []" "le_val (take 16 (drop 16 carry_msg) @ [1]) = 423803847704722687190649945971709906861"
    "drop 16 (drop 16 carry_msg) = []" "carry_msg \<noteq> []"
    by (simp_all add: carry_msg_def le_val_def be_val_def)
  have "poly1305_acc 67108863 0 carry_msg = ((458575110028280372885354319258569148271 * 67108863) + 423803847704722687190649945971709906861) * 67108863 mod poly1305_p"
    by (simp only: poly1305_acc.simps [of _ _ carry_msg] poly1305_acc.simps [of _ _ "drop 16 carry_msg"]
        poly1305_acc.simps [of _ _ "[]"] m if_False if_True simp_thms add_0)
  also have "\<dots> = 2 ^ 27"
    by (simp add: poly1305_p_def)
  finally show ?thesis
    by (simp add: poly1305_mac_def poly1305_eval_def key)
qed

subsection \<open>Properties\<close>

text \<open>
  C35: For every 32-byte key and every way of cutting a message into calls of \<open>CRYPTO_poly1305_update\<close>, the
  tag that \<open>CRYPTO_poly1305_finish\<close> writes is the Poly1305 of RFC 8439, no intermediate value of the limb
  arithmetic overflows its word, and the buffering loses nothing -- unless the polynomial evaluates to
  one of the residues \<open>2^27 * k + j\<close> with \<open>0 < k < 32\<close> and \<open>j < 5\<close>.
\<close>

theorem CRYPTO_poly1305_computes_mac:
  assumes "length key = 32" and "\<not> poly1305_carry_lost (poly1305_eval key (concat chunks))"
  shows "CRYPTO_poly1305_finish (fold (\<lambda>c st. CRYPTO_poly1305_update st c) chunks (CRYPTO_poly1305_init key)) =
    poly1305_mac key (concat chunks)"
  by (simp only: CRYPTO_poly1305_stream [OF assms(1)] poly1305_one_update [OF assms])

theorem CRYPTO_poly1305_computes_mac_witness:
  "\<not> poly1305_carry_lost (poly1305_eval carry_key [1, 2, 3]) \<and>
   CRYPTO_poly1305_finish (CRYPTO_poly1305_update (CRYPTO_poly1305_update (CRYPTO_poly1305_init carry_key) [1]) [2, 3]) =
     poly1305_mac carry_key [1, 2, 3]"
proof -
  have "poly1305_eval carry_key [1, 2, 3] = 1139128456248831"
    by (simp add: poly1305_eval_def poly1305_acc.simps carry_key_def le_val_def be_val_def poly1305_clamp_def poly1305_p_def)
  then have "\<not> poly1305_carry_lost (poly1305_eval carry_key (concat [[1], [2, 3]]))"
    by (simp add: poly1305_carry_lost_def)
  moreover have "length carry_key = 32"
    by (simp add: carry_key_def)
  ultimately show ?thesis
    using CRYPTO_poly1305_computes_mac [of carry_key "[[1], [2, 3]]"] by simp
qed

text \<open>
  C36: The exception is real. For this key and this message of two blocks the code drops a carry of the
  final reduction: it returns the tag \<open>2^26\<close> where the Poly1305 of RFC 8439 is \<open>2^27\<close>.
\<close>

theorem CRYPTO_poly1305_drops_carry:
  "CRYPTO_poly1305_finish (CRYPTO_poly1305_update (CRYPTO_poly1305_init carry_key) carry_msg) = le_bytes 16 (2 ^ 26) \<and>
   poly1305_mac carry_key carry_msg = le_bytes 16 (2 ^ 27) \<and> le_bytes 16 (2 ^ 26) \<noteq> le_bytes 16 (2 ^ 27)"
proof -
  have "be_val (be_bytes 16 (2 ^ 26)) \<noteq> be_val (be_bytes 16 (2 ^ 27))"
    by (simp only: be_val_be_bytes) simp
  then have "le_bytes 16 (2 ^ 26) \<noteq> le_bytes 16 (2 ^ 27)"
    unfolding le_bytes_def by (metis rev_rev_ident)
  then show ?thesis
    using carry_finish carry_mac by (simp only: carry_init carry_update simp_thms)
qed

end
