(* ===== verification/AeadChaCha.thy ===== *)
theory AeadChaCha
  imports Aead ChaCha Poly1305Tag
begin

text \<open>
  ChaCha20-Poly1305 and XChaCha20-Poly1305, \<open>crypto/cipher/e_chacha20poly1305.cc\<close>, in a build without
  assembly (\<open>chacha20_poly1305_asm_capable\<close> returns 0). Sealing and opening are inverse to each other: this
  holds for the code's own tag, so it does not depend on the residues for which the portable Poly1305 is wrong.
\<close>

unbundle bit_operations_syntax

subsection \<open>Operations\<close>

definition POLY1305_TAG_LEN :: nat where
  "POLY1305_TAG_LEN = 16"

record aead_chacha20_poly1305_ctx =
  c20_key :: bytes

definition aead_chacha20_poly1305_init :: "bytes \<Rightarrow> nat \<Rightarrow> (aead_chacha20_poly1305_ctx \<times> nat) option" where
  "aead_chacha20_poly1305_init key tag_len =
     (let tag_len = (if tag_len = 0 then POLY1305_TAG_LEN else tag_len)
      in if tag_len > POLY1305_TAG_LEN then None
         else if length key \<noteq> 32 then None
         else Some (\<lparr>c20_key = key\<rparr>, tag_len))"

fun length_bytes :: "nat \<Rightarrow> nat \<Rightarrow> bytes" where
  "length_bytes 0 data_len = []"
| "length_bytes (Suc i) data_len = word_of_nat data_len # length_bytes i (data_len div 256)"

definition poly1305_update_length :: "poly1305_state_st \<Rightarrow> nat \<Rightarrow> poly1305_state_st" where
  "poly1305_update_length poly1305 data_len = CRYPTO_poly1305_update poly1305 (length_bytes 8 data_len)"

definition calc_tag :: "bytes \<Rightarrow> bytes \<Rightarrow> bytes \<Rightarrow> bytes \<Rightarrow> bytes \<Rightarrow> bytes" where
  "calc_tag key nonce ad ciphertext ciphertext_extra =
     (let poly1305_key = CRYPTO_chacha_20 (replicate 32 0) key nonce 0;
          padding = replicate 16 0;
          ctx = CRYPTO_poly1305_init poly1305_key;
          ctx = CRYPTO_poly1305_update ctx ad;
          ctx = (if length ad mod 16 \<noteq> 0 then CRYPTO_poly1305_update ctx (take (16 - length ad mod 16) padding) else ctx);
          ctx = CRYPTO_poly1305_update ctx ciphertext;
          ctx = CRYPTO_poly1305_update ctx ciphertext_extra;
          ciphertext_total = length ciphertext + length ciphertext_extra;
          ctx = (if ciphertext_total mod 16 \<noteq> 0
                 then CRYPTO_poly1305_update ctx (take (16 - ciphertext_total mod 16) padding) else ctx);
          ctx = poly1305_update_length ctx (length ad);
          ctx = poly1305_update_length ctx ciphertext_total
      in CRYPTO_poly1305_finish ctx)"

text \<open>
  The loop over the extra input: \<open>block_counter\<close> and \<open>offset\<close> locate the next byte of the key stream, and
  \<open>extra_in\<close> is what is left.
\<close>

function seal_extra_loop :: "bytes \<Rightarrow> bytes \<Rightarrow> u32 \<Rightarrow> nat \<Rightarrow> bytes \<Rightarrow> bytes" where
  "seal_extra_loop key nonce block_counter offset extra_in =
     (if extra_in = [] then []
      else let block = CRYPTO_chacha_20 (replicate 64 0) key nonce block_counter;
               n = min (64 - offset) (length extra_in)
           in map2 (XOR) (take n extra_in) (take n (drop offset block)) @
              seal_extra_loop key nonce (block_counter + 1) 0 (drop n extra_in))"
  by pat_completeness auto
termination
  by (relation "measure (\<lambda>(key, nonce, block_counter, offset, extra_in).
                 2 * length extra_in + (if offset < 64 then 0 else 1))") auto

declare seal_extra_loop.simps [simp del]

definition chacha20_poly1305_seal_scatter ::
  "bytes \<Rightarrow> nat \<Rightarrow> bytes \<Rightarrow> bytes \<Rightarrow> bytes \<Rightarrow> bytes \<Rightarrow> nat \<Rightarrow> (bytes \<times> bytes) option" where
  "chacha20_poly1305_seal_scatter key max_out_tag_len nonce inp extra_in ad tag_len =
     (if size_add_overflows tag_len (length extra_in) then None
      else if max_out_tag_len < tag_len + length extra_in then None
      else if length nonce \<noteq> 12 then None
      else if length inp \<ge> 2 ^ 32 * 64 - 64 then None
      else if max_out_tag_len < tag_len then None
      else let extra_out =
                 (if length extra_in \<noteq> 0
                  then seal_extra_loop key nonce (word_of_nat (1 + length inp div 64)) (length inp mod 64) extra_in
                  else []);
               out = CRYPTO_chacha_20 inp key nonce 1;
               tag = calc_tag key nonce ad out extra_out
           in Some (out, extra_out @ take tag_len tag))"

definition aead_chacha20_poly1305_seal_scatter ::
  "aead_chacha20_poly1305_ctx \<Rightarrow> nat \<Rightarrow> nat \<Rightarrow> bytes \<Rightarrow> bytes \<Rightarrow> bytes \<Rightarrow> bytes \<Rightarrow> (bytes \<times> bytes) option" where
  "aead_chacha20_poly1305_seal_scatter c20_ctx tag_len max_out_tag_len nonce inp extra_in ad =
     chacha20_poly1305_seal_scatter (c20_key c20_ctx) max_out_tag_len nonce inp extra_in ad tag_len"

definition aead_xchacha20_poly1305_seal_scatter ::
  "aead_chacha20_poly1305_ctx \<Rightarrow> nat \<Rightarrow> nat \<Rightarrow> bytes \<Rightarrow> bytes \<Rightarrow> bytes \<Rightarrow> bytes \<Rightarrow> (bytes \<times> bytes) option" where
  "aead_xchacha20_poly1305_seal_scatter c20_ctx tag_len max_out_tag_len nonce inp extra_in ad =
     (if length nonce \<noteq> 24 then None
      else let derived_key = CRYPTO_hchacha20 (c20_key c20_ctx) nonce;
               derived_nonce = replicate 4 0 @ take 8 (drop 16 nonce)
           in chacha20_poly1305_seal_scatter derived_key max_out_tag_len derived_nonce inp extra_in ad tag_len)"

definition chacha20_poly1305_open_gather ::
  "bytes \<Rightarrow> bytes \<Rightarrow> bytes \<Rightarrow> bytes \<Rightarrow> bytes \<Rightarrow> nat \<Rightarrow> bytes option" where
  "chacha20_poly1305_open_gather key nonce inp in_tag ad tag_len =
     (if length nonce \<noteq> 12 then None
      else if length in_tag \<noteq> tag_len then None
      else if length inp \<ge> 2 ^ 32 * 64 - 64 then None
      else let tag = calc_tag key nonce ad inp [];
               out = CRYPTO_chacha_20 inp key nonce 1
           in if CRYPTO_memcmp tag in_tag tag_len \<noteq> 0 then None else Some out)"

definition aead_chacha20_poly1305_open_gather ::
  "aead_chacha20_poly1305_ctx \<Rightarrow> nat \<Rightarrow> bytes \<Rightarrow> bytes \<Rightarrow> bytes \<Rightarrow> bytes \<Rightarrow> bytes option" where
  "aead_chacha20_poly1305_open_gather c20_ctx tag_len nonce inp in_tag ad =
     chacha20_poly1305_open_gather (c20_key c20_ctx) nonce inp in_tag ad tag_len"

definition aead_xchacha20_poly1305_open_gather ::
  "aead_chacha20_poly1305_ctx \<Rightarrow> nat \<Rightarrow> bytes \<Rightarrow> bytes \<Rightarrow> bytes \<Rightarrow> bytes \<Rightarrow> bytes option" where
  "aead_xchacha20_poly1305_open_gather c20_ctx tag_len nonce inp in_tag ad =
     (if length nonce \<noteq> 24 then None
      else let derived_key = CRYPTO_hchacha20 (c20_key c20_ctx) nonce;
               derived_nonce = replicate 4 0 @ take 8 (drop 16 nonce)
           in chacha20_poly1305_open_gather derived_key derived_nonce inp in_tag ad tag_len)"

definition EVP_aead_chacha20_poly1305 :: "aead_chacha20_poly1305_ctx EVP_AEAD" where
  "EVP_aead_chacha20_poly1305 =
     \<lparr>aead_key_len = 32, aead_nonce_len = 12, aead_overhead = POLY1305_TAG_LEN, aead_max_tag_len = POLY1305_TAG_LEN,
      aead_seal_scatter_supports_extra_in = True, aead_init = Some aead_chacha20_poly1305_init,
      aead_init_with_direction = None, aead_open = None,
      aead_seal_scatter = aead_chacha20_poly1305_seal_scatter,
      aead_open_gather = Some aead_chacha20_poly1305_open_gather, aead_tag_len = None\<rparr>"

definition EVP_aead_xchacha20_poly1305 :: "aead_chacha20_poly1305_ctx EVP_AEAD" where
  "EVP_aead_xchacha20_poly1305 =
     \<lparr>aead_key_len = 32, aead_nonce_len = 24, aead_overhead = POLY1305_TAG_LEN, aead_max_tag_len = POLY1305_TAG_LEN,
      aead_seal_scatter_supports_extra_in = True, aead_init = Some aead_chacha20_poly1305_init,
      aead_init_with_direction = None, aead_open = None,
      aead_seal_scatter = aead_xchacha20_poly1305_seal_scatter,
      aead_open_gather = Some aead_xchacha20_poly1305_open_gather, aead_tag_len = None\<rparr>"

subsection \<open>The extra input\<close>

lemma seal_extra_loop_stream:
  "offset < 64 \<Longrightarrow> length (seal_extra_loop key nonce (word_of_nat (1 + k)) offset extra) = length extra \<and>
   (\<forall>i < length extra. seal_extra_loop key nonce (word_of_nat (1 + k)) offset extra ! i =
      extra ! i XOR chacha_stream key nonce 1 (64 * k + offset + i))"
proof (induction "length extra" arbitrary: extra offset k rule: less_induct)
  case less
  show ?case
  proof (cases "extra = []")
    case True
    then show ?thesis
      by (simp add: seal_extra_loop.simps)
  next
    case False
    define n where "n = min (64 - offset) (length extra)"
    let ?c = "word_of_nat (1 + k) :: u32"
    let ?block = "CRYPTO_chacha_20 (replicate 64 0) key nonce ?c"
    have n: "0 < n" "n \<le> length extra" "offset + n \<le> 64"
      using False less.prems by (auto simp: n_def)
    have c: "?c + 1 = word_of_nat (1 + (k + 1))"
      by simp
    have eq: "seal_extra_loop key nonce ?c offset extra =
        map2 (XOR) (take n extra) (take n (drop offset ?block)) @ seal_extra_loop key nonce (word_of_nat (1 + (k + 1))) 0 (drop n extra)"
      unfolding c [symmetric]
      by (subst seal_extra_loop.simps) (use False less.prems in \<open>simp add: Let_def n_def [symmetric]\<close>)
    have IH: "length (seal_extra_loop key nonce (word_of_nat (1 + (k + 1))) 0 (drop n extra)) = length extra - n"
      "\<And>i. i < length extra - n \<Longrightarrow> seal_extra_loop key nonce (word_of_nat (1 + (k + 1))) 0 (drop n extra) ! i =
        drop n extra ! i XOR chacha_stream key nonce 1 (64 * (k + 1) + 0 + i)"
      using less.hyps [of "drop n extra" 0 "k + 1"] n by (simp_all del: of_nat_add of_nat_Suc)
    have block: "?block ! j = chacha_stream key nonce 1 (64 * k + j)" if "j < 64" for j
      using that by (simp add: nth_CRYPTO_chacha_20 chacha_stream_shift)
    show ?thesis
    proof (intro conjI allI impI)
      show "length (seal_extra_loop key nonce ?c offset extra) = length extra"
        unfolding eq using n IH(1) by (simp del: of_nat_add of_nat_Suc)
      fix i
      assume i: "i < length extra"
      show "seal_extra_loop key nonce ?c offset extra ! i = extra ! i XOR chacha_stream key nonce 1 (64 * k + offset + i)"
      proof (cases "i < n")
        case True
        then show ?thesis
          unfolding eq using n block [of "offset + i"] by (simp add: nth_append add.assoc del: of_nat_add of_nat_Suc)
      next
        case False
        then have "n = 64 - offset"
          using i by (auto simp: n_def)
        then have "64 * (k + 1) + 0 + (i - n) = 64 * k + offset + i"
          using False less.prems by simp
        then show ?thesis
          unfolding eq using False i n IH(2) [of "i - n"] by (simp add: nth_append del: of_nat_add of_nat_Suc)
      qed
    qed
  qed
qed

lemma seal_extra:
  assumes "extra \<noteq> []"
  shows "CRYPTO_chacha_20 inp key nonce 1 @
      seal_extra_loop key nonce (word_of_nat (1 + length inp div 64)) (length inp mod 64) extra =
    CRYPTO_chacha_20 (inp @ extra) key nonce 1"
proof -
  note loop = seal_extra_loop_stream [of "length inp mod 64" key nonce "length inp div 64" extra, simplified mod_less_divisor]
  show ?thesis
  proof (rule nth_equalityI)
    show "length (CRYPTO_chacha_20 inp key nonce 1 @
        seal_extra_loop key nonce (word_of_nat (1 + length inp div 64)) (length inp mod 64) extra) =
      length (CRYPTO_chacha_20 (inp @ extra) key nonce 1)"
      using loop by simp
  next
    fix i
    assume "i < length (CRYPTO_chacha_20 inp key nonce 1 @
        seal_extra_loop key nonce (word_of_nat (1 + length inp div 64)) (length inp mod 64) extra)"
    then have i: "i < length inp + length extra"
      using loop by simp
    have "64 * (length inp div 64) + length inp mod 64 + (i - length inp) = i" if "\<not> i < length inp"
      using that by simp
    then show "(CRYPTO_chacha_20 inp key nonce 1 @
        seal_extra_loop key nonce (word_of_nat (1 + length inp div 64)) (length inp mod 64) extra) ! i =
      CRYPTO_chacha_20 (inp @ extra) key nonce 1 ! i"
      using i loop by (auto simp: nth_append nth_CRYPTO_chacha_20 simp del: of_nat_add of_nat_Suc mult_div_mod_eq)
  qed
qed

subsection \<open>The tag\<close>

text \<open>The padding of \<open>n\<close> bytes to a multiple of 16, and the message that is authenticated.\<close>

definition pad16 :: "nat \<Rightarrow> bytes" where
  "pad16 n = (if n mod 16 \<noteq> 0 then replicate (16 - n mod 16) 0 else [])"

definition aead_mac_data :: "bytes \<Rightarrow> bytes \<Rightarrow> bytes" where
  "aead_mac_data ad c =
     ad @ pad16 (length ad) @ c @ pad16 (length c) @ le_bytes 8 (length ad) @ le_bytes 8 (length c)"

lemma length_bytes_eq: "length_bytes n v = le_bytes n v"
proof (induction n arbitrary: v)
  case (Suc n)
  then show ?case
    using le_bytes_append [of 1 n v] by (simp add: le_bytes_def)
qed (simp add: le_bytes_def)

lemma calc_tag_eq:
  "calc_tag key nonce ad c e =
     CRYPTO_poly1305_finish
       (poly1305_update (poly1305_core (CRYPTO_poly1305_init (CRYPTO_chacha_20 (replicate 32 0) key nonce 0)))
         (aead_mac_data ad (c @ e)))"
proof -
  let ?key = "CRYPTO_chacha_20 (replicate 32 0) key nonce 0"
  have nil: "CRYPTO_poly1305_update st [] = st" for st
    by (simp add: CRYPTO_poly1305_update_def)
  have pad: "(if n mod 16 \<noteq> 0 then CRYPTO_poly1305_update st (take (16 - n mod 16) (replicate 16 0)) else st) =
      CRYPTO_poly1305_update st (pad16 n)" for n st
    by (simp add: pad16_def nil min_def)
  have "calc_tag key nonce ad c e = CRYPTO_poly1305_finish
      (fold (\<lambda>c st. CRYPTO_poly1305_update st c)
        [ad, pad16 (length ad), c, e, pad16 (length (c @ e)), le_bytes 8 (length ad), le_bytes 8 (length (c @ e))]
        (CRYPTO_poly1305_init ?key))"
    unfolding calc_tag_def Let_def pad poly1305_update_length_def length_bytes_eq by simp
  also have "\<dots> = CRYPTO_poly1305_finish (poly1305_update (poly1305_core (CRYPTO_poly1305_init ?key))
      (concat [ad, pad16 (length ad), c, e, pad16 (length (c @ e)), le_bytes 8 (length ad), le_bytes 8 (length (c @ e))]))"
    by (rule CRYPTO_poly1305_stream) simp
  finally show ?thesis
    by (simp add: aead_mac_data_def)
qed

lemma calc_tag_extra: "calc_tag key nonce ad c e = calc_tag key nonce ad (c @ e) []"
  by (simp add: calc_tag_eq)

text \<open>The tag is the one of RFC 8439, section 2.8, outside of the residues where the carry is lost.\<close>

lemma calc_tag_mac:
  assumes "\<not> poly1305_carry_lost (poly1305_eval (CRYPTO_chacha_20 (replicate 32 0) key nonce 0) (aead_mac_data ad (c @ e)))"
  shows "calc_tag key nonce ad c e = poly1305_mac (CRYPTO_chacha_20 (replicate 32 0) key nonce 0) (aead_mac_data ad (c @ e))"
  unfolding calc_tag_eq by (rule poly1305_one_update [OF _ assms]) simp

lemma length_calc_tag [simp]: "length (calc_tag key nonce ad c e) = 16"
  by (simp add: calc_tag_eq CRYPTO_poly1305_finish_def Let_def CRYPTO_store_u32_le_ucast le_bytes_def
      split: prod.splits)

subsection \<open>Sealing and opening\<close>

lemma CRYPTO_memcmp_tag:
  "n \<le> 16 \<Longrightarrow> length in_tag = n \<Longrightarrow> CRYPTO_memcmp (calc_tag key nonce ad c e) in_tag n = 0 \<longleftrightarrow>
     in_tag = take n (calc_tag key nonce ad c e)"
proof -
  assume n: "n \<le> 16" "length in_tag = n"
  have "CRYPTO_memcmp (calc_tag key nonce ad c e) in_tag n = CRYPTO_memcmp (take n (calc_tag key nonce ad c e)) in_tag n"
    unfolding CRYPTO_memcmp_def by (rule fold_cong) (use n in auto)
  also have "\<dots> = 0 \<longleftrightarrow> take n (calc_tag key nonce ad c e) = in_tag"
    by (rule CRYPTO_memcmp_eq_0) (use n in auto)
  finally show ?thesis
    by auto
qed

lemma chacha20_poly1305_seal_eq:
  fixes key :: bytes
  assumes "length nonce = 12" and "length inp < 2 ^ 32 * 64 - 64" and "tag_len + length extra \<le> max_tag" and "tag_len + length extra < 2 ^ 64"
  defines "c \<equiv> CRYPTO_chacha_20 (inp @ extra) key nonce 1"
  shows "chacha20_poly1305_seal_scatter key max_tag nonce inp extra ad tag_len =
    Some (take (length inp) c, drop (length inp) c @ take tag_len (calc_tag key nonce ad c []))"
proof -
  let ?out = "CRYPTO_chacha_20 inp key nonce 1"
  define e where "e = (if length extra \<noteq> 0
    then seal_extra_loop key nonce (word_of_nat (1 + length inp div 64)) (length inp mod 64) extra else [])"
  have c: "c = ?out @ e"
    using seal_extra [of extra inp key nonce] by (auto simp: c_def e_def)
  have "chacha20_poly1305_seal_scatter key max_tag nonce inp extra ad tag_len =
      Some (?out, e @ take tag_len (calc_tag key nonce ad ?out e))"
    using assms(1-4) unfolding chacha20_poly1305_seal_scatter_def e_def [symmetric] size_add_overflows_def
    by (simp add: Let_def)
  then show ?thesis
    using calc_tag_extra [of key nonce ad ?out e] by (simp add: c)
qed

lemma chacha20_poly1305_open_eq:
  assumes "tag_len \<le> 16"
  shows "chacha20_poly1305_open_gather key nonce c t ad tag_len = Some p \<longleftrightarrow>
    length nonce = 12 \<and> length c < 2 ^ 32 * 64 - 64 \<and> t = take tag_len (calc_tag key nonce ad c []) \<and>
    c = CRYPTO_chacha_20 p key nonce 1"
proof -
  have inv: "CRYPTO_chacha_20 c key nonce 1 = p \<longleftrightarrow> c = CRYPTO_chacha_20 p key nonce 1"
    using CRYPTO_chacha_20_involution by metis
  show ?thesis
    using assms CRYPTO_memcmp_tag [OF assms, of t key nonce ad c "[]"]
    by (auto simp: chacha20_poly1305_open_gather_def Let_def inv CRYPTO_chacha_20_involution min_def split: if_splits)
qed

text \<open>One message, sealed with or without extra input, and opened.\<close>

lemma chacha20_poly1305_open_seal:
  assumes "chacha20_poly1305_seal_scatter key max_tag nonce inp extra ad tag_len = Some (out, tag)"
    and "tag_len \<le> 16" and "length inp + length extra < 2 ^ 32 * 64 - 64"
  shows "length out = length inp" and "length tag = length extra + tag_len"
    and "chacha20_poly1305_open_gather key nonce (out @ take (length extra) tag) (drop (length extra) tag) ad tag_len =
      Some (inp @ extra)"
proof -
  define c where "c = CRYPTO_chacha_20 (inp @ extra) key nonce 1"
  have pre: "length nonce = 12" "length inp < 2 ^ 32 * 64 - 64" "tag_len + length extra \<le> max_tag"
    "tag_len + length extra < 2 ^ 64"
    using assms(1) by (auto simp: chacha20_poly1305_seal_scatter_def size_add_overflows_def split: if_splits)
  then have eq: "out = take (length inp) c" "tag = drop (length inp) c @ take tag_len (calc_tag key nonce ad c [])"
    using chacha20_poly1305_seal_eq [OF pre] assms(1) unfolding c_def by auto
  have len: "length c = length inp + length extra"
    by (simp add: c_def)
  show "length out = length inp" "length tag = length extra + tag_len"
    using assms(2) by (simp_all add: eq len min_def)
  have "out @ take (length extra) tag = c" "drop (length extra) tag = take tag_len (calc_tag key nonce ad c [])"
    by (simp_all add: eq len)
  then show "chacha20_poly1305_open_gather key nonce (out @ take (length extra) tag) (drop (length extra) tag) ad tag_len =
      Some (inp @ extra)"
    using assms(2,3) pre(1) by (simp add: chacha20_poly1305_open_eq len) (simp add: c_def)
qed

text \<open>Both algorithms: the key and the nonce of the underlying cipher for a context and its nonce.\<close>

definition chacha_ctx_key :: "aead_chacha20_poly1305_ctx EVP_AEAD_CTX \<Rightarrow> bytes \<Rightarrow> bytes" where
  "chacha_ctx_key ctx nonce =
     (if aead_nonce_len (ctx_aead ctx) = 24 then CRYPTO_hchacha20 (c20_key (ctx_state ctx)) nonce
      else c20_key (ctx_state ctx))"

definition chacha_ctx_nonce :: "aead_chacha20_poly1305_ctx EVP_AEAD_CTX \<Rightarrow> bytes \<Rightarrow> bytes" where
  "chacha_ctx_nonce ctx nonce =
     (if aead_nonce_len (ctx_aead ctx) = 24 then replicate 4 0 @ take 8 (drop 16 nonce) else nonce)"

definition chacha_ctx :: "aead_chacha20_poly1305_ctx EVP_AEAD_CTX \<Rightarrow> bool" where
  "chacha_ctx ctx \<longleftrightarrow> ctx_aead ctx \<in> {EVP_aead_chacha20_poly1305, EVP_aead_xchacha20_poly1305} \<and>
     0 < ctx_tag_len ctx \<and> ctx_tag_len ctx \<le> 16"

lemma chacha_ctx_init:
  "EVP_AEAD_CTX_init aead key tag_len = Some ctx \<Longrightarrow>
   aead = EVP_aead_chacha20_poly1305 \<or> aead = EVP_aead_xchacha20_poly1305 \<Longrightarrow> chacha_ctx ctx"
  by (auto simp: EVP_AEAD_CTX_init_def EVP_AEAD_CTX_init_with_direction_def chacha_ctx_def
      aead_chacha20_poly1305_init_def EVP_aead_chacha20_poly1305_def EVP_aead_xchacha20_poly1305_def
      POLY1305_TAG_LEN_def Let_def split: if_splits)

lemmas chacha_aead_defs = EVP_aead_chacha20_poly1305_def EVP_aead_xchacha20_poly1305_def chacha_ctx_key_def
  chacha_ctx_nonce_def aead_chacha20_poly1305_seal_scatter_def aead_xchacha20_poly1305_seal_scatter_def
  aead_chacha20_poly1305_open_gather_def aead_xchacha20_poly1305_open_gather_def

lemma chacha_ctx_ops:
  assumes "chacha_ctx ctx"
  shows "aead_seal_scatter (ctx_aead ctx) (ctx_state ctx) tn max_tag nonce inp extra ad =
      (if length nonce \<noteq> aead_nonce_len (ctx_aead ctx) then None
       else chacha20_poly1305_seal_scatter (chacha_ctx_key ctx nonce) max_tag (chacha_ctx_nonce ctx nonce) inp extra ad tn)"
    and "EVP_AEAD_CTX_open_gather ctx nonce c t ad =
      (if length nonce \<noteq> aead_nonce_len (ctx_aead ctx) then None
       else chacha20_poly1305_open_gather (chacha_ctx_key ctx nonce) (chacha_ctx_nonce ctx nonce) c t ad (ctx_tag_len ctx))"
    and "aead_open (ctx_aead ctx) = None" and "aead_tag_len (ctx_aead ctx) = None"
    and "aead_seal_scatter_supports_extra_in (ctx_aead ctx)" and "aead_overhead (ctx_aead ctx) = 16"
  using assms
  by (auto simp: chacha_ctx_def chacha_aead_defs EVP_AEAD_CTX_open_gather_def Let_def POLY1305_TAG_LEN_def
      chacha20_poly1305_seal_scatter_def chacha20_poly1305_open_gather_def)

lemma chacha_ctx_nonce_len:
  "chacha_ctx ctx \<Longrightarrow> length nonce = aead_nonce_len (ctx_aead ctx) \<Longrightarrow> length (chacha_ctx_nonce ctx nonce) = 12"
  by (auto simp: chacha_ctx_def chacha_aead_defs)

lemma chacha_open_seal_scatter:
  assumes ctx: "chacha_ctx ctx"
    and seal: "EVP_AEAD_CTX_seal_scatter ctx max_tag nonce inp extra ad = Some (out, tag)"
    and "length inp + length extra < 2 ^ 32 * 64 - 64" and "length inp + length extra \<le> max_out"
  shows "length out = length inp" and "length tag = length extra + ctx_tag_len ctx"
    and "EVP_AEAD_CTX_open ctx max_out nonce (out @ tag) ad = Some (inp @ extra)"
proof -
  let ?k = "chacha_ctx_key ctx nonce" and ?n = "chacha_ctx_nonce ctx nonce"
  have tl: "ctx_tag_len ctx \<le> 16"
    using ctx by (simp add: chacha_ctx_def)
  have len: "length nonce = aead_nonce_len (ctx_aead ctx)"
    and s: "chacha20_poly1305_seal_scatter ?k max_tag ?n inp extra ad (ctx_tag_len ctx) = Some (out, tag)"
    using seal by (auto simp: EVP_AEAD_CTX_seal_scatter_def chacha_ctx_ops [OF ctx] split: if_splits)
  note os = chacha20_poly1305_open_seal [OF s tl assms(3)]
  show lens: "length out = length inp" "length tag = length extra + ctx_tag_len ctx"
    using os by simp_all
  have "length (out @ tag) - ctx_tag_len ctx = length out + length extra"
    using lens by simp
  moreover have "take (length out + length extra) (out @ tag) = out @ take (length extra) tag"
    "drop (length out + length extra) (out @ tag) = drop (length extra) tag"
    by simp_all
  ultimately show "EVP_AEAD_CTX_open ctx max_out nonce (out @ tag) ad = Some (inp @ extra)"
    using lens len os(3) assms(4)
    by (simp add: EVP_AEAD_CTX_open_def chacha_ctx_ops [OF ctx] Let_def del: take_append drop_append)
qed

lemma chacha_open_iff_seal:
  assumes ctx: "chacha_ctx ctx" and "length c \<le> max_out" and "length p + 16 \<le> max_seal" and "max_seal < 2 ^ 64"
  shows "EVP_AEAD_CTX_open ctx max_out nonce c ad = Some p \<longleftrightarrow> EVP_AEAD_CTX_seal ctx max_seal nonce p ad = Some c"
proof (cases "length nonce = aead_nonce_len (ctx_aead ctx)")
  case True
  let ?k = "chacha_ctx_key ctx nonce" and ?n = "chacha_ctx_nonce ctx nonce" and ?t = "ctx_tag_len ctx"
  let ?c = "CRYPTO_chacha_20 p ?k ?n 1"
  let ?tag = "take ?t (calc_tag ?k ?n ad ?c [])"
  have tl: "?t \<le> 16"
    using ctx by (simp add: chacha_ctx_def)
  have n: "length ?n = 12"
    using chacha_ctx_nonce_len [OF ctx True] .
  have seal: "EVP_AEAD_CTX_seal ctx max_seal nonce p ad = (if length p < 2 ^ 32 * 64 - 64 then Some (?c @ ?tag) else None)"
  proof (cases "length p < 2 ^ 32 * 64 - 64")
    case True
    then show ?thesis
      using chacha20_poly1305_seal_eq [OF n True, of ?t "[]" "max_seal - length p" ?k ad] assms(3,4) tl \<open>length nonce = _\<close>
      by (simp add: EVP_AEAD_CTX_seal_def chacha_ctx_ops [OF ctx] size_add_overflows_def)
  next
    case False
    then show ?thesis
      by (auto simp: EVP_AEAD_CTX_seal_def chacha_ctx_ops [OF ctx] chacha20_poly1305_seal_scatter_def)
  qed
  have len_tag: "length ?tag = ?t"
    using tl by simp
  show ?thesis
  proof (cases "length c < ?t")
    case True
    then have "EVP_AEAD_CTX_open ctx max_out nonce c ad = None"
      by (simp add: EVP_AEAD_CTX_open_def chacha_ctx_ops [OF ctx])
    moreover have "c \<noteq> ?c @ ?tag"
      using True len_tag by (metis le_add2 length_append not_less)
    ultimately show ?thesis
      by (simp add: seal)
  next
    case False
    define b t where "b = take (length c - ?t) c" and "t = drop (length c - ?t) c"
    have bt: "c = b @ t" "length t = ?t"
      using False by (simp_all add: b_def t_def)
    have "\<not> max_out < length c - ?t"
      using assms(2) by simp
    then have "EVP_AEAD_CTX_open ctx max_out nonce c ad = chacha20_poly1305_open_gather ?k ?n b t ad ?t"
      using False True by (simp add: EVP_AEAD_CTX_open_def chacha_ctx_ops [OF ctx] Let_def b_def t_def)
    moreover have "c = ?c @ ?tag \<longleftrightarrow> b = ?c \<and> t = ?tag"
      unfolding bt(1) by (rule append_eq_append_conv) (use bt(2) len_tag in auto)
    ultimately show ?thesis
      using n by (auto simp: seal chacha20_poly1305_open_eq [OF tl])
  qed
next
  case False
  then show ?thesis
    by (auto simp: EVP_AEAD_CTX_open_def EVP_AEAD_CTX_seal_def chacha_ctx_ops [OF ctx] Let_def split: if_splits)
qed

subsection \<open>The contract of the record layer\<close>

definition chacha20_poly1305_ctx :: "bytes \<Rightarrow> aead_chacha20_poly1305_ctx EVP_AEAD_CTX" where
  "chacha20_poly1305_ctx key =
     \<lparr>ctx_aead = EVP_aead_chacha20_poly1305, ctx_state = \<lparr>c20_key = key\<rparr>, ctx_tag_len = 16\<rparr>"

lemma chacha20_poly1305_ctx_init:
  "length key = 32 \<Longrightarrow> EVP_AEAD_CTX_init EVP_aead_chacha20_poly1305 key 0 = Some (chacha20_poly1305_ctx key)"
  by (simp add: EVP_AEAD_CTX_init_def EVP_AEAD_CTX_init_with_direction_def EVP_aead_chacha20_poly1305_def
      aead_chacha20_poly1305_init_def chacha20_poly1305_ctx_def POLY1305_TAG_LEN_def)

lemma chacha_ctx_chacha20 [simp]: "chacha_ctx (chacha20_poly1305_ctx key)"
  by (simp add: chacha_ctx_def chacha20_poly1305_ctx_def)

lemma chacha20_poly1305_ctx_fields:
  "ctx_tag_len (chacha20_poly1305_ctx key) = 16" "aead_nonce_len (ctx_aead (chacha20_poly1305_ctx key)) = 12"
  by (simp_all add: chacha20_poly1305_ctx_def EVP_aead_chacha20_poly1305_def)

lemma chacha_seal_succeeds:
  assumes ctx: "chacha_ctx ctx" and "length nonce = aead_nonce_len (ctx_aead ctx)"
    and "length inp + length extra < 2 ^ 32" and "length extra + ctx_tag_len ctx \<le> max_tag"
  shows "\<exists>out tag. EVP_AEAD_CTX_seal_scatter ctx max_tag nonce inp extra ad = Some (out, tag) \<and>
    length out = length inp \<and> length tag = length extra + ctx_tag_len ctx"
proof -
  have tl: "ctx_tag_len ctx \<le> 16"
    using ctx by (simp add: chacha_ctx_def)
  have "length inp < 2 ^ 32 * 64 - 64" "ctx_tag_len ctx + length extra \<le> max_tag" "ctx_tag_len ctx + length extra < 2 ^ 64"
    using assms tl by simp_all
  note eq = chacha20_poly1305_seal_eq [OF chacha_ctx_nonce_len [OF ctx assms(2)] this, of "chacha_ctx_key ctx nonce" ad]
  show ?thesis
    using assms(2) eq tl by (simp add: EVP_AEAD_CTX_seal_scatter_def chacha_ctx_ops [OF ctx])
qed

interpretation chacha20: aead_ctx "chacha20_poly1305_ctx key" "\<lambda>nonce. length nonce = 12" for key
proof unfold_locales
  let ?ctx = "chacha20_poly1305_ctx key"
  note ctx = chacha_ctx_chacha20 [of key] and fields = chacha20_poly1305_ctx_fields [of key]
  show "aead_tag_len (ctx_aead ?ctx) = None" "aead_overhead (ctx_aead ?ctx) = ctx_tag_len ?ctx" "ctx_tag_len ?ctx \<le> 64"
    "aead_seal_scatter_supports_extra_in (ctx_aead ?ctx)"
    by (simp_all add: chacha_ctx_ops [OF ctx] fields)
  fix nonce inp extra ad :: bytes and max_tag max_out :: nat and out tag :: bytes
  show "\<exists>out tag. EVP_AEAD_CTX_seal_scatter ?ctx max_tag nonce inp extra ad = Some (out, tag) \<and>
      length out = length inp \<and> length tag = length extra + ctx_tag_len ?ctx"
    if "length nonce = 12" "length inp + length extra < 2 ^ 32" "length extra + ctx_tag_len ?ctx \<le> max_tag"
    using that by (intro chacha_seal_succeeds [OF ctx]) (simp_all add: fields)
  show "EVP_AEAD_CTX_open ?ctx max_out nonce (out @ tag) ad = Some (inp @ extra)"
    if "EVP_AEAD_CTX_seal_scatter ?ctx max_tag nonce inp extra ad = Some (out, tag)"
      "length inp + length extra < 2 ^ 32" "length inp + length extra \<le> max_out"
    using that by (intro chacha_open_seal_scatter(3) [OF ctx that(1)]) simp_all
qed

subsection \<open>Properties\<close>

text \<open>
  C37: For ChaCha20-Poly1305 and XChaCha20-Poly1305 with every key and tag length, \<open>EVP_AEAD_CTX_open\<close> returns
  a plaintext for exactly one ciphertext, the one that \<open>EVP_AEAD_CTX_seal\<close> returns for it under the same
  nonce and additional data: every other ciphertext or tag is rejected. Extra input given to
  \<open>EVP_AEAD_CTX_seal_scatter\<close>, which the code encrypts block by block before the input, opens as the end of the plaintext.
\<close>

theorem chacha20_poly1305_open_inverts_seal:
  assumes "EVP_AEAD_CTX_init aead key tag_len = Some ctx"
    and "aead = EVP_aead_chacha20_poly1305 \<or> aead = EVP_aead_xchacha20_poly1305"
    and "length c \<le> max_out" and "length p + 16 \<le> max_seal" and "max_seal < 2 ^ 64"
    and "length inp + length extra < 2 ^ 38 - 64"
  shows "(EVP_AEAD_CTX_open ctx max_out nonce c ad = Some p \<longleftrightarrow> EVP_AEAD_CTX_seal ctx max_seal nonce p ad = Some c) \<and>
    (\<forall>max_tag out tag. EVP_AEAD_CTX_seal_scatter ctx max_tag nonce inp extra ad = Some (out, tag) \<longrightarrow>
      EVP_AEAD_CTX_open ctx (length inp + length extra) nonce (out @ tag) ad = Some (inp @ extra))"
  using chacha_open_iff_seal [OF chacha_ctx_init [OF assms(1,2)] assms(3-5)]
    chacha_open_seal_scatter(3) [OF chacha_ctx_init [OF assms(1,2)] _ _ order_refl] assms(6) by simp

theorem chacha20_poly1305_open_inverts_seal_witness:
  "\<exists>out tag. EVP_AEAD_CTX_seal_scatter (chacha20_poly1305_ctx (replicate 32 7)) 17 (replicate 12 9) [1, 2] [3] [4] = Some (out, tag) \<and>
     EVP_AEAD_CTX_open (chacha20_poly1305_ctx (replicate 32 7)) 3 (replicate 12 9) (out @ tag) [4] = Some [1, 2, 3]"
proof -
  let ?ctx = "chacha20_poly1305_ctx (replicate 32 7)"
  have init: "EVP_AEAD_CTX_init EVP_aead_chacha20_poly1305 (replicate 32 7) 0 = Some ?ctx"
    by (rule chacha20_poly1305_ctx_init) simp
  obtain out tag where seal: "EVP_AEAD_CTX_seal_scatter ?ctx 17 (replicate 12 9) [1, 2] [3] [4] = Some (out, tag)"
    using chacha20.seal_succeeds [of "replicate 12 9" "[1, 2]" "[3]" "replicate 32 7" 17 "[4]"]
    by (auto simp: chacha20_poly1305_ctx_fields)
  have "EVP_AEAD_CTX_open ?ctx 3 (replicate 12 9) (out @ tag) [4] = Some [1, 2, 3]"
    using chacha20_poly1305_open_inverts_seal [OF init, of "[]" 0 "[]" 16 "[1, 2]" "[3]" "replicate 12 9" "[4]"] seal
    by (simp add: numeral_3_eq_3)
  with seal show ?thesis
    by blast
qed

end
