(* ===== verification/SslAead.thy ===== *)
theory SslAead
  imports AeadChaCha
begin

text \<open>
  Record protection, \<open>ssl/ssl_aead_ctx.cc\<close>: \<open>SSLAEADContext\<close> wraps an \<open>EVP_AEAD_CTX\<close> and assembles the nonce and
  the additional data of a record. Also the version and cipher tables it uses (\<open>ssl/ssl_versions.cc\<close>,
  \<open>ssl/ssl_cipher.cc\<close>). The build is the ordinary one, without \<open>FUZZER_MODE\<close>.

  The algorithms are the parameter \<open>aeads\<close>, a table of \<open>EVP_AEAD\<close>s by the name of the function that returns them;
  \<open>rand\<close> is \<open>RAND_bytes\<close>. A placeholder for QUIC has no \<open>EVP_AEAD_CTX\<close>: no records may be
  protected with it, and the lengths it would compute fail. Output buffers do not overlap the inputs except in the
  ways the code allows, so that the checks of \<open>buffers_alias\<close> pass.
\<close>

unbundle bit_operations_syntax

subsection \<open>Aborts\<close>

text \<open>A function returns, or ends the process: an assertion or \<open>BSSL_CHECK\<close> fails, or it calls \<open>abort\<close>.\<close>

datatype 'a outcome = Returns 'a | Aborts

definition check :: "bool \<Rightarrow> 'a outcome \<Rightarrow> 'a outcome" where
  "check p r = (if p then r else Aborts)"

lemma check_eq_Returns [simp]: "check p r = Returns x \<longleftrightarrow> p \<and> r = Returns x"
  by (simp add: check_def)

lemma check_True [simp]: "check True r = r"
  by (simp add: check_def)

subsection \<open>Versions and ciphers\<close>

definition TLS1_VERSION :: u16 where "TLS1_VERSION = 0x0301"
definition TLS1_1_VERSION :: u16 where "TLS1_1_VERSION = 0x0302"
definition TLS1_2_VERSION :: u16 where "TLS1_2_VERSION = 0x0303"
definition TLS1_3_VERSION :: u16 where "TLS1_3_VERSION = 0x0304"
definition DTLS1_VERSION :: u16 where "DTLS1_VERSION = 0xfeff"
definition DTLS1_2_VERSION :: u16 where "DTLS1_2_VERSION = 0xfefd"
definition DTLS1_3_VERSION :: u16 where "DTLS1_3_VERSION = 0xfefc"

lemmas version_defs = TLS1_VERSION_def TLS1_1_VERSION_def TLS1_2_VERSION_def TLS1_3_VERSION_def
  DTLS1_VERSION_def DTLS1_2_VERSION_def DTLS1_3_VERSION_def

definition ssl_protocol_version_from_wire :: "u16 \<Rightarrow> u16 option" where
  "ssl_protocol_version_from_wire version =
     (if version \<in> {TLS1_VERSION, TLS1_1_VERSION, TLS1_2_VERSION, TLS1_3_VERSION} then Some version
      else if version = DTLS1_VERSION then Some TLS1_1_VERSION
      else if version = DTLS1_2_VERSION then Some TLS1_2_VERSION
      else if version = DTLS1_3_VERSION then Some TLS1_3_VERSION
      else None)"

record SSL_CIPHER =
  algorithm_enc :: u32
  algorithm_mac :: u32

definition SSL_3DES :: u32 where "SSL_3DES = 0x1"
definition SSL_AES128 :: u32 where "SSL_AES128 = 0x2"
definition SSL_AES256 :: u32 where "SSL_AES256 = 0x4"
definition SSL_AES128GCM :: u32 where "SSL_AES128GCM = 0x8"
definition SSL_AES256GCM :: u32 where "SSL_AES256GCM = 0x10"
definition SSL_CHACHA20POLY1305 :: u32 where "SSL_CHACHA20POLY1305 = 0x20"
definition SSL_SHA1 :: u32 where "SSL_SHA1 = 0x1"
definition SSL_SHA256 :: u32 where "SSL_SHA256 = 0x2"
definition SSL_AEAD :: u32 where "SSL_AEAD = 0x4"

lemmas cipher_defs = SSL_3DES_def SSL_AES128_def SSL_AES256_def SSL_AES128GCM_def SSL_AES256GCM_def
  SSL_CHACHA20POLY1305_def SSL_SHA1_def SSL_SHA256_def SSL_AEAD_def

datatype EVP_aead_name =
    aes_128_gcm_tls12 | aes_128_gcm_tls13 | aes_256_gcm_tls12 | aes_256_gcm_tls13 | chacha20_poly1305
  | des_ede3_cbc_sha1_tls_implicit_iv | des_ede3_cbc_sha1_tls
  | aes_128_cbc_sha1_tls_implicit_iv | aes_128_cbc_sha1_tls
  | aes_256_cbc_sha1_tls_implicit_iv | aes_256_cbc_sha1_tls | aes_128_cbc_sha256_tls

definition ssl_cipher_get_evp_aead ::
  "(EVP_aead_name \<Rightarrow> 's EVP_AEAD) \<Rightarrow> SSL_CIPHER \<Rightarrow> u16 \<Rightarrow> ('s EVP_AEAD \<times> nat \<times> nat) option" where
  "ssl_cipher_get_evp_aead aeads cipher version =
     (if algorithm_mac cipher = SSL_AEAD then do {
        (aead, fixed_iv_len) \<leftarrow>
          (if algorithm_enc cipher = SSL_AES128GCM then
             Some (aeads (if version < TLS1_3_VERSION then aes_128_gcm_tls12 else aes_128_gcm_tls13), 4)
           else if algorithm_enc cipher = SSL_AES256GCM then
             Some (aeads (if version < TLS1_3_VERSION then aes_256_gcm_tls12 else aes_256_gcm_tls13), 4)
           else if algorithm_enc cipher = SSL_CHACHA20POLY1305 then Some (aeads chacha20_poly1305, 12)
           else None);
        Some (aead, 0, if version \<ge> TLS1_3_VERSION then aead_nonce_len aead else fixed_iv_len)
      }
      else if algorithm_mac cipher = SSL_SHA1 then
        (if algorithm_enc cipher = SSL_3DES then
           if version = TLS1_VERSION then Some (aeads des_ede3_cbc_sha1_tls_implicit_iv, 20, 8)
           else Some (aeads des_ede3_cbc_sha1_tls, 20, 0)
         else if algorithm_enc cipher = SSL_AES128 then
           if version = TLS1_VERSION then Some (aeads aes_128_cbc_sha1_tls_implicit_iv, 20, 16)
           else Some (aeads aes_128_cbc_sha1_tls, 20, 0)
         else if algorithm_enc cipher = SSL_AES256 then
           if version = TLS1_VERSION then Some (aeads aes_256_cbc_sha1_tls_implicit_iv, 20, 16)
           else Some (aeads aes_256_cbc_sha1_tls, 20, 0)
         else None)
      else if algorithm_mac cipher = SSL_SHA256 then
        (if algorithm_enc cipher = SSL_AES128 then Some (aeads aes_128_cbc_sha256_tls, 32, 0) else None)
      else None)"

definition SSL_CIPHER_is_block_cipher :: "SSL_CIPHER \<Rightarrow> bool" where
  "SSL_CIPHER_is_block_cipher cipher \<longleftrightarrow> algorithm_mac cipher \<noteq> SSL_AEAD"

subsection \<open>Contexts\<close>

record 's SSLAEADContext =
  cipher_ptr :: "SSL_CIPHER option"
  evp_ctx :: "'s EVP_AEAD_CTX option"
  fixed_nonce :: bytes
  variable_nonce_len :: u8
  variable_nonce_included_in_record :: bool
  random_variable_nonce :: bool
  xor_fixed_nonce :: bool
  omit_length_in_ad :: bool
  ad_is_header :: bool

definition new_SSLAEADContext :: "SSL_CIPHER option \<Rightarrow> 's SSLAEADContext" where
  "new_SSLAEADContext cipher =
     \<lparr>cipher_ptr = cipher, evp_ctx = None, fixed_nonce = [], variable_nonce_len = 0,
      variable_nonce_included_in_record = False, random_variable_nonce = False, xor_fixed_nonce = False,
      omit_length_in_ad = False, ad_is_header = False\<rparr>"

text \<open>\<open>alloc_ok\<close>: \<open>MakeUnique\<close> finds memory.\<close>

definition CreateNullCipher :: "bool \<Rightarrow> 's SSLAEADContext option" where
  "CreateNullCipher alloc_ok = (if alloc_ok then Some (new_SSLAEADContext None) else None)"

definition CreatePlaceholderForQUIC :: "bool \<Rightarrow> SSL_CIPHER \<Rightarrow> 's SSLAEADContext option" where
  "CreatePlaceholderForQUIC alloc_ok cipher = (if alloc_ok then Some (new_SSLAEADContext (Some cipher)) else None)"

definition EVP_AEAD_MAX_KEY_LENGTH :: nat where "EVP_AEAD_MAX_KEY_LENGTH = 80"
definition EVP_AEAD_MAX_NONCE_LENGTH :: nat where "EVP_AEAD_MAX_NONCE_LENGTH = 24"
definition EVP_AEAD_DEFAULT_TAG_LENGTH :: nat where "EVP_AEAD_DEFAULT_TAG_LENGTH = 0"

text \<open>The two branches of \<open>Create\<close> that set up the nonce: an actual AEAD, and a CBC cipher suite.\<close>

definition setup_aead :: "u16 \<Rightarrow> SSL_CIPHER \<Rightarrow> bytes \<Rightarrow> 's SSLAEADContext \<Rightarrow> 's SSLAEADContext outcome" where
  "setup_aead protocol_version cipher fixed_iv c =
     check (length fixed_iv \<le> 12)
       (let c = c\<lparr>fixed_nonce := fixed_iv\<rparr>;
            set_header = (\<lambda>c. if protocol_version \<ge> TLS1_3_VERSION then c\<lparr>ad_is_header := True\<rparr> else c)
        in if protocol_version \<ge> TLS1_3_VERSION \<or> algorithm_enc cipher AND SSL_CHACHA20POLY1305 \<noteq> 0
           then check (length fixed_iv \<ge> 8)
                  (Returns (set_header (c\<lparr>xor_fixed_nonce := True, variable_nonce_len := 8\<rparr>)))
           else check (length fixed_iv \<le> unat (variable_nonce_len c))
                  (check (algorithm_enc cipher AND (SSL_AES128GCM OR SSL_AES256GCM) \<noteq> 0)
                     (Returns (set_header
                       (c\<lparr>variable_nonce_len := variable_nonce_len c - word_of_nat (length fixed_iv),
                          variable_nonce_included_in_record := True\<rparr>)))))"

definition setup_cbc ::
  "u16 \<Rightarrow> bytes \<Rightarrow> bytes \<Rightarrow> bytes \<Rightarrow> 's SSLAEADContext \<Rightarrow> (bytes \<times> 's SSLAEADContext) outcome" where
  "setup_cbc protocol_version enc_key mac_key fixed_iv c =
     check (protocol_version < TLS1_3_VERSION)
       (check (length mac_key + length enc_key + length fixed_iv \<le> EVP_AEAD_MAX_KEY_LENGTH)
          (Returns (mac_key @ enc_key @ fixed_iv,
             c\<lparr>variable_nonce_included_in_record := True, random_variable_nonce := True, omit_length_in_ad := True\<rparr>)))"

definition Create ::
  "(EVP_aead_name \<Rightarrow> 's EVP_AEAD) \<Rightarrow> bool \<Rightarrow> evp_aead_direction_t \<Rightarrow> u16 \<Rightarrow> SSL_CIPHER \<Rightarrow> bytes \<Rightarrow> bytes \<Rightarrow> bytes \<Rightarrow>
   's SSLAEADContext option outcome" where
  "Create aeads alloc_ok direction version cipher enc_key mac_key fixed_iv =
     (case ssl_protocol_version_from_wire version of
        None \<Rightarrow> Returns None
      | Some protocol_version \<Rightarrow>
          (case ssl_cipher_get_evp_aead aeads cipher protocol_version of
             None \<Rightarrow> Returns None
           | Some (aead, expected_mac_key_len, expected_fixed_iv_len) \<Rightarrow>
               if expected_fixed_iv_len \<noteq> length fixed_iv \<or> expected_mac_key_len \<noteq> length mac_key then Returns None
               else if \<not> alloc_ok then Returns None
               else check (aead_nonce_len aead \<le> EVP_AEAD_MAX_NONCE_LENGTH)
                 (let c = (new_SSLAEADContext (Some cipher))\<lparr>variable_nonce_len := word_of_nat (aead_nonce_len aead)\<rparr>;
                      finish = (\<lambda>(key, c).
                        case EVP_AEAD_CTX_init_with_direction aead key EVP_AEAD_DEFAULT_TAG_LENGTH direction of
                          None \<Rightarrow> Returns None
                        | Some ctx \<Rightarrow> Returns (Some (c\<lparr>evp_ctx := Some ctx\<rparr>)))
                  in if mac_key = [] then
                       (case setup_aead protocol_version cipher fixed_iv c of
                          Aborts \<Rightarrow> Aborts | Returns c \<Rightarrow> finish (enc_key, c))
                     else
                       (case setup_cbc protocol_version enc_key mac_key fixed_iv c of
                          Aborts \<Rightarrow> Aborts | Returns kc \<Rightarrow> finish kc))))"

subsection \<open>Lengths\<close>

definition is_null_cipher :: "'s SSLAEADContext \<Rightarrow> bool" where
  "is_null_cipher c \<longleftrightarrow> cipher_ptr c = None"

definition ExplicitNonceLen :: "'s SSLAEADContext \<Rightarrow> nat" where
  "ExplicitNonceLen c = (if variable_nonce_included_in_record c then unat (variable_nonce_len c) else 0)"

definition SuffixLen :: "'s SSLAEADContext \<Rightarrow> nat \<Rightarrow> nat \<Rightarrow> nat option" where
  "SuffixLen c in_len extra_in_len =
     (if is_null_cipher c then Some extra_in_len
      else case evp_ctx c of None \<Rightarrow> None | Some ctx \<Rightarrow> EVP_AEAD_CTX_tag_len ctx in_len extra_in_len)"

definition CiphertextLen :: "'s SSLAEADContext \<Rightarrow> nat \<Rightarrow> nat \<Rightarrow> nat option" where
  "CiphertextLen c in_len extra_in_len = do {
     len \<leftarrow> SuffixLen c in_len extra_in_len;
     let len = (len + ExplicitNonceLen c) mod 2 ^ 64;
     let len = (len + in_len) mod 2 ^ 64;
     if len < in_len \<or> len \<ge> 0xffff then None else Some len
   }"

definition evp_overhead :: "'s SSLAEADContext \<Rightarrow> nat" where
  "evp_overhead c = (case evp_ctx c of None \<Rightarrow> 0 | Some ctx \<Rightarrow> aead_overhead (ctx_aead ctx))"

definition MaxOverhead :: "'s SSLAEADContext \<Rightarrow> nat" where
  "MaxOverhead c = ExplicitNonceLen c + (if is_null_cipher c then 0 else evp_overhead c)"

definition MaxSealInputLen :: "'s SSLAEADContext \<Rightarrow> nat \<Rightarrow> nat outcome" where
  "MaxSealInputLen c max_out =
     (if max_out \<le> ExplicitNonceLen c then Returns 0
      else let max_out = max_out - ExplicitNonceLen c
           in case cipher_ptr c of
                None \<Rightarrow> Returns max_out
              | Some cipher \<Rightarrow>
                  let overhead = evp_overhead c;
                      result = (\<lambda>max_out overhead. if max_out \<le> overhead then 0 else max_out - overhead)
                  in if SSL_CIPHER_is_block_cipher cipher then
                       (let block_size = (if algorithm_enc cipher = SSL_AES128 \<or> algorithm_enc cipher = SSL_AES256 then 16
                                          else if algorithm_enc cipher = SSL_3DES then 8 else 0)
                        in if block_size = 0 then Aborts
                           else check (overhead > block_size)
                             (Returns (result (max_out - max_out mod block_size) (overhead - (block_size - 1)))))
                     else Returns (result max_out overhead))"

subsection \<open>Protecting records\<close>

definition GetAdditionalData :: "'s SSLAEADContext \<Rightarrow> u8 \<Rightarrow> u16 \<Rightarrow> u64 \<Rightarrow> nat \<Rightarrow> bytes \<Rightarrow> bytes" where
  "GetAdditionalData c type record_version seqnum plaintext_len header =
     (if ad_is_header c then header
      else CRYPTO_store_u64_be seqnum @ [type, ucast (drop_bit 8 record_version), ucast record_version] @
           (if omit_length_in_ad c then [] else [word_of_nat (plaintext_len div 256), word_of_nat plaintext_len]))"

text \<open>The fixed part of the nonce, or zeros to be overwritten by it; and the final XOR.\<close>

definition nonce_start :: "'s SSLAEADContext \<Rightarrow> bytes" where
  "nonce_start c =
     (if xor_fixed_nonce c then replicate (length (fixed_nonce c) - unat (variable_nonce_len c)) 0 else fixed_nonce c)"

definition nonce_finish :: "'s SSLAEADContext \<Rightarrow> bytes \<Rightarrow> bytes outcome" where
  "nonce_finish c nonce =
     (if xor_fixed_nonce c
      then check (length nonce = length (fixed_nonce c)) (Returns (map2 (XOR) nonce (fixed_nonce c)))
      else Returns nonce)"

definition Open ::
  "'s SSLAEADContext \<Rightarrow> u8 \<Rightarrow> u16 \<Rightarrow> u64 \<Rightarrow> bytes \<Rightarrow> bytes \<Rightarrow> bytes option outcome" where
  "Open c type record_version seqnum header inp =
     (case evp_ctx c of
        None \<Rightarrow> if is_null_cipher c then Returns (Some inp) else Aborts
      | Some ctx \<Rightarrow>
          if is_null_cipher c then Returns (Some inp)
          else if \<not> omit_length_in_ad c \<and> length inp < MaxOverhead c then Returns None
          else let plaintext_len = (if omit_length_in_ad c then 0 else length inp - MaxOverhead c);
                   ad = GetAdditionalData c type record_version seqnum plaintext_len header;
                   open_with = (\<lambda>variable_nonce inp.
                     case nonce_finish c (nonce_start c @ variable_nonce) of
                       Aborts \<Rightarrow> Aborts
                     | Returns nonce \<Rightarrow> Returns (EVP_AEAD_CTX_open ctx (length inp) nonce inp ad));
                   n = unat (variable_nonce_len c)
               in if variable_nonce_included_in_record c then
                    if length inp < n then Returns None else open_with (take n inp) (drop n inp)
                  else check (n = 8) (open_with (CRYPTO_store_u64_be seqnum) inp))"

definition SealScatter ::
  "(nat \<Rightarrow> bytes option) \<Rightarrow> 's SSLAEADContext \<Rightarrow> u8 \<Rightarrow> u16 \<Rightarrow> u64 \<Rightarrow> bytes \<Rightarrow> bytes \<Rightarrow> bytes \<Rightarrow>
   (bytes \<times> bytes \<times> bytes) option outcome" where
  "SealScatter rand c type record_version seqnum header inp extra_in =
     (case SuffixLen c (length inp) (length extra_in) of
        None \<Rightarrow> Returns None
      | Some suffix_len \<Rightarrow>
          (case evp_ctx c of
             None \<Rightarrow> if is_null_cipher c then Returns (Some ([], inp, extra_in)) else Aborts
           | Some ctx \<Rightarrow>
               if is_null_cipher c then Returns (Some ([], inp, extra_in))
               else let ad = GetAdditionalData c type record_version seqnum (length inp) header;
                        n = unat (variable_nonce_len c);
                        seal_with = (\<lambda>variable_nonce.
                          let nonce = nonce_start c @ variable_nonce
                          in check (variable_nonce_included_in_record c \<longrightarrow> \<not> xor_fixed_nonce c)
                            (let out_prefix = (if variable_nonce_included_in_record c
                                               then take n (drop (length (fixed_nonce c)) nonce) else [])
                             in case nonce_finish c nonce of
                                  Aborts \<Rightarrow> Aborts
                                | Returns nonce \<Rightarrow>
                                    (case EVP_AEAD_CTX_seal_scatter ctx suffix_len nonce inp extra_in ad of
                                       None \<Rightarrow> Returns None
                                     | Some (out, suffix) \<Rightarrow>
                                         check (length suffix = suffix_len) (Returns (Some (out_prefix, out, suffix))))))
                    in if random_variable_nonce c then
                         check (variable_nonce_included_in_record c)
                           (case rand n of None \<Rightarrow> Returns None | Some r \<Rightarrow> seal_with r)
                       else check (n = 8) (seal_with (CRYPTO_store_u64_be seqnum))))"

definition Seal ::
  "(nat \<Rightarrow> bytes option) \<Rightarrow> 's SSLAEADContext \<Rightarrow> nat \<Rightarrow> u8 \<Rightarrow> u16 \<Rightarrow> u64 \<Rightarrow> bytes \<Rightarrow> bytes \<Rightarrow> bytes option outcome" where
  "Seal rand c max_out_len type record_version seqnum header inp =
     (let prefix_len = ExplicitNonceLen c
      in case SuffixLen c (length inp) 0 of
           None \<Rightarrow> Returns None
         | Some suffix_len \<Rightarrow>
             if size_add_overflows (length inp) prefix_len \<or> size_add_overflows (length inp + prefix_len) suffix_len
             then Returns None
             else if length inp + prefix_len + suffix_len > max_out_len then Returns None
             else (case SealScatter rand c type record_version seqnum header inp [] of
                     Aborts \<Rightarrow> Aborts
                   | Returns None \<Rightarrow> Returns None
                   | Returns (Some (out_prefix, out, suffix)) \<Rightarrow> Returns (Some (out_prefix @ out @ suffix))))"

subsection \<open>Well-formed contexts\<close>

text \<open>The contexts of actual AEADs: what the assertions of \<open>Open\<close> and \<open>SealScatter\<close> require.\<close>

definition record_aead_wf :: "'s SSLAEADContext \<Rightarrow> bool" where
  "record_aead_wf c \<longleftrightarrow> cipher_ptr c \<noteq> None \<and> evp_ctx c \<noteq> None \<and> variable_nonce_len c = 8 \<and>
     \<not> random_variable_nonce c \<and> \<not> omit_length_in_ad c \<and>
     (if xor_fixed_nonce c then \<not> variable_nonce_included_in_record c \<and> 8 \<le> length (fixed_nonce c)
      else variable_nonce_included_in_record c)"

definition record_nonce_len :: "'s SSLAEADContext \<Rightarrow> nat" where
  "record_nonce_len c = (if xor_fixed_nonce c then length (fixed_nonce c) else length (fixed_nonce c) + 8)"

definition record_nonce :: "'s SSLAEADContext \<Rightarrow> u64 \<Rightarrow> bytes" where
  "record_nonce c seqnum =
     (if xor_fixed_nonce c
      then map2 (XOR) (nonce_start c @ CRYPTO_store_u64_be seqnum) (fixed_nonce c)
      else fixed_nonce c @ CRYPTO_store_u64_be seqnum)"

lemma length_store_u64 [simp]: "length (CRYPTO_store_u64_be v) = 8"
  by (simp add: CRYPTO_store_u64_be_def word_to_mem_def)

lemma length_record_nonce [simp]: "record_aead_wf c \<Longrightarrow> length (record_nonce c seqnum) = record_nonce_len c"
  by (simp add: record_aead_wf_def record_nonce_def record_nonce_len_def nonce_start_def split: if_splits)

lemma nonce_finish_eq:
  "record_aead_wf c \<Longrightarrow> nonce_finish c (nonce_start c @ CRYPTO_store_u64_be seqnum) = Returns (record_nonce c seqnum)"
  by (auto simp: record_aead_wf_def record_nonce_def nonce_finish_def nonce_start_def check_def split: if_splits)

lemma SealScatter_aead:
  assumes wf: "record_aead_wf c" and ctx: "evp_ctx c = Some ctx"
    and len: "SuffixLen c (length inp) (length extra_in) = Some suffix_len"
  shows "SealScatter rand c type version seqnum header inp extra_in =
    (case EVP_AEAD_CTX_seal_scatter ctx suffix_len (record_nonce c seqnum) inp extra_in
            (GetAdditionalData c type version seqnum (length inp) header) of
       None \<Rightarrow> Returns None
     | Some (out, suffix) \<Rightarrow> check (length suffix = suffix_len)
         (Returns (Some (if variable_nonce_included_in_record c then CRYPTO_store_u64_be seqnum else [], out, suffix))))"
proof -
  have "take (unat (8 :: u8)) (drop (length (fixed_nonce c)) (nonce_start c @ CRYPTO_store_u64_be seqnum)) =
      CRYPTO_store_u64_be seqnum" if "\<not> xor_fixed_nonce c"
    using that by (simp add: nonce_start_def)
  then show ?thesis
    using wf unfolding SealScatter_def len option.case ctx Let_def nonce_finish_eq [OF wf]
    by (auto simp: record_aead_wf_def is_null_cipher_def check_def split: if_splits option.splits)
qed

lemma Open_aead:
  assumes wf: "record_aead_wf c" and ctx: "evp_ctx c = Some ctx" and len: "MaxOverhead c \<le> length inp"
    and nonce: "variable_nonce_included_in_record c \<Longrightarrow> take 8 inp = CRYPTO_store_u64_be seqnum"
  shows "Open c type version seqnum header inp =
    (let body = drop (ExplicitNonceLen c) inp
     in Returns (EVP_AEAD_CTX_open ctx (length body) (record_nonce c seqnum) body
         (GetAdditionalData c type version seqnum (length inp - MaxOverhead c) header)))"
proof -
  have "8 \<le> length inp" if "variable_nonce_included_in_record c"
    using nonce [OF that] by (metis length_store_u64 length_take min.cobounded1)
  then show ?thesis
    using wf nonce len unfolding Open_def ctx option.case Let_def
    by (auto simp: record_aead_wf_def is_null_cipher_def ExplicitNonceLen_def nonce_finish_eq [OF wf] split: if_splits)
qed

context aead_ctx
begin

text \<open>What the record layer relies on: a protected record opens to the data it protects.\<close>

lemma Open_SealScatter:
  assumes wf: "record_aead_wf c" and c: "evp_ctx c = Some ctx"
    and nonce: "\<And>n. length n = record_nonce_len c \<Longrightarrow> nonce_ok n"
    and len: "length inp + length extra < 2 ^ 32" and extra: "extra = [] \<or> ad_is_header c"
  obtains out_prefix out suffix where
    "SealScatter rand c type version seqnum header inp extra = Returns (Some (out_prefix, out, suffix))"
    "length out_prefix = ExplicitNonceLen c" "length out = length inp" "length suffix = length extra + ctx_tag_len ctx"
    "SuffixLen c (length inp) (length extra) = Some (length suffix)"
    "Open c type version seqnum header (out_prefix @ out @ suffix) = Returns (Some (inp @ extra))"
proof -
  define out_prefix where
    "out_prefix = (if variable_nonce_included_in_record c then CRYPTO_store_u64_be seqnum else [])"
  define ad where "ad = GetAdditionalData c type version seqnum (length inp) header"
  have "nonce_ok (record_nonce c seqnum)"
    using nonce wf by simp
  then obtain out tag where seal:
    "EVP_AEAD_CTX_seal_scatter ctx (length extra + ctx_tag_len ctx) (record_nonce c seqnum) inp extra ad = Some (out, tag)"
    "length out = length inp" "length tag = length extra + ctx_tag_len ctx"
    "\<And>max_out. length inp + length extra \<le> max_out \<Longrightarrow>
       EVP_AEAD_CTX_open ctx max_out (record_nonce c seqnum) (out @ tag) ad = Some (inp @ extra)"
    using seal_then_open len by blast
  have suffix: "SuffixLen c (length inp) (length extra) = Some (length tag)"
    using wf c len seal(3) tag_len_eq [of "length extra" "length inp"]
    by (auto simp: SuffixLen_def record_aead_wf_def is_null_cipher_def)
  have pre: "length out_prefix = ExplicitNonceLen c"
    using wf by (simp add: out_prefix_def ExplicitNonceLen_def record_aead_wf_def)
  have over: "MaxOverhead c = ExplicitNonceLen c + ctx_tag_len ctx"
    using wf c overhead_is_tag by (auto simp: MaxOverhead_def evp_overhead_def record_aead_wf_def is_null_cipher_def)
  have ad': "GetAdditionalData c type version seqnum (length (out_prefix @ out @ tag) - MaxOverhead c) header = ad"
    using extra pre seal(2,3) over by (auto simp: ad_def GetAdditionalData_def)
  have "take 8 (out_prefix @ out @ tag) = CRYPTO_store_u64_be seqnum" if "variable_nonce_included_in_record c"
    using that by (simp add: out_prefix_def)
  then have "Open c type version seqnum header (out_prefix @ out @ tag) = Returns (Some (inp @ extra))"
    using Open_aead [OF wf c, of "out_prefix @ out @ tag" seqnum type version header] pre seal over ad' by simp
  moreover have "SealScatter rand c type version seqnum header inp extra = Returns (Some (out_prefix, out, tag))"
    using SealScatter_aead [OF wf c suffix, of rand type version seqnum header] seal(1,3)
    by (simp add: out_prefix_def ad_def)
  ultimately show ?thesis
    using that pre seal(2,3) suffix by blast
qed

end

subsection \<open>Creating contexts\<close>

text \<open>The AEAD cipher suites use the algorithms with 12-byte nonces.\<close>

definition record_aeads :: "EVP_aead_name set" where
  "record_aeads = {aes_128_gcm_tls12, aes_128_gcm_tls13, aes_256_gcm_tls12, aes_256_gcm_tls13, chacha20_poly1305}"

lemma get_evp_aead_aead:
  assumes "algorithm_mac cipher = SSL_AEAD" and "ssl_cipher_get_evp_aead aeads cipher version = Some (aead, mac_len, iv_len)"
  shows "aead \<in> aeads ` record_aeads \<and> mac_len = 0 \<and>
    (if version \<ge> TLS1_3_VERSION then iv_len = aead_nonce_len aead
     else if algorithm_enc cipher = SSL_CHACHA20POLY1305 then iv_len = 12
     else algorithm_enc cipher \<in> {SSL_AES128GCM, SSL_AES256GCM} \<and> iv_len = 4)"
  using assms by (auto simp: ssl_cipher_get_evp_aead_def record_aeads_def cipher_defs not_less split: if_splits)

definition aead_context :: "u16 \<Rightarrow> SSL_CIPHER \<Rightarrow> bytes \<Rightarrow> 's SSLAEADContext" where
  "aead_context version cipher iv =
     (let x = (version \<ge> TLS1_3_VERSION \<or> algorithm_enc cipher = SSL_CHACHA20POLY1305)
      in \<lparr>cipher_ptr = Some cipher, evp_ctx = None, fixed_nonce = iv, variable_nonce_len = 8,
          variable_nonce_included_in_record = (\<not> x), random_variable_nonce = False, xor_fixed_nonce = x,
          omit_length_in_ad = False, ad_is_header = (version \<ge> TLS1_3_VERSION)\<rparr>)"

definition aead_iv_ok :: "u16 \<Rightarrow> SSL_CIPHER \<Rightarrow> bytes \<Rightarrow> bool" where
  "aead_iv_ok version cipher iv \<longleftrightarrow>
     (if version \<ge> TLS1_3_VERSION \<or> algorithm_enc cipher = SSL_CHACHA20POLY1305 then length iv = 12
      else algorithm_enc cipher \<in> {SSL_AES128GCM, SSL_AES256GCM} \<and> length iv = 4)"

lemma setup_aead_eq:
  assumes "aead_iv_ok version cipher iv"
  shows "setup_aead version cipher iv ((new_SSLAEADContext (Some cipher))\<lparr>variable_nonce_len := 12\<rparr>) =
    Returns (aead_context version cipher iv)"
proof (cases "version \<ge> TLS1_3_VERSION \<or> algorithm_enc cipher = SSL_CHACHA20POLY1305")
  case True
  then have "version \<ge> TLS1_3_VERSION \<or> algorithm_enc cipher AND SSL_CHACHA20POLY1305 \<noteq> 0"
    by (auto simp: SSL_CHACHA20POLY1305_def)
  then show ?thesis
    using assms True by (auto simp: aead_iv_ok_def setup_aead_def aead_context_def new_SSLAEADContext_def Let_def)
next
  case False
  then have "length iv = 4" "algorithm_enc cipher \<in> {SSL_AES128GCM, SSL_AES256GCM}"
    using assms by (auto simp: aead_iv_ok_def)
  moreover from this have "algorithm_enc cipher AND SSL_CHACHA20POLY1305 = 0"
    "algorithm_enc cipher AND (SSL_AES128GCM OR SSL_AES256GCM) \<noteq> 0"
    by (auto simp: cipher_defs)
  ultimately show ?thesis
    using False by (simp add: setup_aead_def aead_context_def new_SSLAEADContext_def Let_def)
qed

lemma aead_context_wf:
  assumes "aead_iv_ok version cipher iv"
  shows "record_aead_wf ((aead_context version cipher iv)\<lparr>evp_ctx := Some ctx\<rparr>)"
    "record_nonce_len ((aead_context version cipher iv)\<lparr>evp_ctx := Some ctx\<rparr>) = 12"
  using assms by (auto simp: aead_iv_ok_def aead_context_def record_aead_wf_def record_nonce_len_def Let_def split: if_splits)

lemma Create_aead_eq:
  assumes mac: "algorithm_mac cipher = SSL_AEAD" and nonce: "\<forall>n \<in> record_aeads. aead_nonce_len (aeads n) = 12"
    and v: "ssl_protocol_version_from_wire version = Some v"
    and get: "ssl_cipher_get_evp_aead aeads cipher v = Some (aead, mac_len, iv_len)"
  shows "Create aeads alloc_ok direction version cipher enc_key mac_key iv =
    (if iv_len \<noteq> length iv \<or> mac_key \<noteq> [] \<or> \<not> alloc_ok then Returns None
     else Returns (map_option (\<lambda>ctx. (aead_context v cipher iv)\<lparr>evp_ctx := Some ctx\<rparr>)
       (EVP_AEAD_CTX_init_with_direction aead enc_key EVP_AEAD_DEFAULT_TAG_LENGTH direction)))"
    and "iv_len = length iv \<Longrightarrow> aead_iv_ok v cipher iv" "aead \<in> aeads ` record_aeads"
proof -
  note a = get_evp_aead_aead [OF mac get]
  show "aead \<in> aeads ` record_aeads"
    using a by simp
  then have n: "aead_nonce_len aead = 12"
    using nonce by auto
  show iv: "aead_iv_ok v cipher iv" if "iv_len = length iv"
    using a n that by (auto simp: aead_iv_ok_def split: if_splits)
  show "Create aeads alloc_ok direction version cipher enc_key mac_key iv =
    (if iv_len \<noteq> length iv \<or> mac_key \<noteq> [] \<or> \<not> alloc_ok then Returns None
     else Returns (map_option (\<lambda>ctx. (aead_context v cipher iv)\<lparr>evp_ctx := Some ctx\<rparr>)
       (EVP_AEAD_CTX_init_with_direction aead enc_key EVP_AEAD_DEFAULT_TAG_LENGTH direction)))"
  proof (cases "iv_len \<noteq> length iv \<or> mac_key \<noteq> [] \<or> \<not> alloc_ok")
    case True
    then show ?thesis
      using a by (auto simp: Create_def v get)
  next
    case False
    then have "iv_len = length iv" "mac_key = []" "alloc_ok" "mac_len = 0"
      using a by auto
    then show ?thesis
      using n
      by (simp add: Create_def v get EVP_AEAD_MAX_NONCE_LENGTH_def Let_def setup_aead_eq [OF iv] split: option.splits)
  qed
qed

lemma Create_aead:
  assumes mac: "algorithm_mac cipher = SSL_AEAD" and nonce: "\<forall>n \<in> record_aeads. aead_nonce_len (aeads n) = 12"
  shows "Create aeads alloc_ok direction version cipher enc_key mac_key iv \<noteq> Aborts"
    and "Create aeads alloc_ok direction version cipher enc_key mac_key iv = Returns (Some c) \<Longrightarrow>
      record_aead_wf c \<and> record_nonce_len c = 12 \<and>
      (\<exists>aead \<in> aeads ` record_aeads. \<exists>ctx. evp_ctx c = Some ctx \<and>
         EVP_AEAD_CTX_init_with_direction aead enc_key EVP_AEAD_DEFAULT_TAG_LENGTH direction = Some ctx)"
proof -
  have none: "Create aeads alloc_ok direction version cipher enc_key mac_key iv = Returns None"
    if "\<not> (\<exists>v aead ml il. ssl_protocol_version_from_wire version = Some v \<and>
              ssl_cipher_get_evp_aead aeads cipher v = Some (aead, ml, il))"
    using that by (auto simp: Create_def split: option.splits)
  show "Create aeads alloc_ok direction version cipher enc_key mac_key iv \<noteq> Aborts"
  proof (cases "\<exists>v aead ml il. ssl_protocol_version_from_wire version = Some v \<and>
              ssl_cipher_get_evp_aead aeads cipher v = Some (aead, ml, il)")
    case True
    then obtain v aead ml il where get: "ssl_protocol_version_from_wire version = Some v"
        "ssl_cipher_get_evp_aead aeads cipher v = Some (aead, ml, il)"
      by blast
    show ?thesis
      unfolding Create_aead_eq(1) [OF mac nonce get] by simp
  next
    case False
    then show ?thesis
      using none by simp
  qed
  show "record_aead_wf c \<and> record_nonce_len c = 12 \<and>
      (\<exists>aead \<in> aeads ` record_aeads. \<exists>ctx. evp_ctx c = Some ctx \<and>
         EVP_AEAD_CTX_init_with_direction aead enc_key EVP_AEAD_DEFAULT_TAG_LENGTH direction = Some ctx)"
    if create: "Create aeads alloc_ok direction version cipher enc_key mac_key iv = Returns (Some c)"
  proof -
    obtain v aead ml il where get: "ssl_protocol_version_from_wire version = Some v"
        "ssl_cipher_get_evp_aead aeads cipher v = Some (aead, ml, il)"
      using none create by fastforce
    note eq = Create_aead_eq [OF mac nonce get]
    show ?thesis
      using create aead_context_wf [OF eq(2)] eq(3) by (auto simp: eq(1) split: if_splits)
  qed
qed

lemma Open_not_aborts: "record_aead_wf c \<Longrightarrow> Open c type version seqnum header inp \<noteq> Aborts"
proof -
  assume wf: "record_aead_wf c"
  obtain ctx where ctx: "evp_ctx c = Some ctx"
    using wf by (auto simp: record_aead_wf_def)
  have "nonce_finish c (nonce_start c @ n) \<noteq> Aborts" if "variable_nonce_included_in_record c" for n
    using wf that by (auto simp: record_aead_wf_def nonce_finish_def split: if_splits)
  then show ?thesis
    using wf unfolding Open_def ctx option.case Let_def
    by (auto simp: record_aead_wf_def nonce_finish_eq [OF wf] is_null_cipher_def split: outcome.splits if_splits)
qed

lemma SealScatter_not_aborts:
  assumes wf: "record_aead_wf c" and ctx: "evp_ctx c = Some ctx"
    and tag: "\<And>max_tag nonce inp extra ad out tag.
      EVP_AEAD_CTX_seal_scatter ctx max_tag nonce inp extra ad = Some (out, tag) \<Longrightarrow>
      EVP_AEAD_CTX_tag_len ctx (length inp) (length extra) = Some (length tag)"
  shows "SealScatter rand c type version seqnum header inp extra \<noteq> Aborts"
proof (cases "SuffixLen c (length inp) (length extra)")
  case None
  then show ?thesis
    by (simp add: SealScatter_def)
next
  case (Some n)
  have "SuffixLen c (length inp) (length extra) = EVP_AEAD_CTX_tag_len ctx (length inp) (length extra)"
    using wf ctx by (auto simp: SuffixLen_def is_null_cipher_def record_aead_wf_def)
  then show ?thesis
    using Some tag by (auto simp: SealScatter_aead [OF wf ctx Some] split: option.splits)
qed

subsection \<open>The assertions hold\<close>

text \<open>
  The assertions of the record protection hold. For every AEAD cipher suite, \<open>Create\<close> returns, and the contexts
  it makes can be used without an assertion failing in \<open>Open\<close> or \<open>SealScatter\<close>, for every record, whatever its
  contents. Assumed of the algorithms: a nonce of 12 bytes, and that sealing writes as many bytes after the
  ciphertext as \<open>EVP_AEAD_CTX_tag_len\<close> says.
\<close>

lemma SSLAEADContext_never_aborts:
  assumes mac: "algorithm_mac cipher = SSL_AEAD"
    and nonce: "\<forall>n \<in> record_aeads. aead_nonce_len (aeads n) = 12"
    and tag: "\<forall>n \<in> record_aeads. \<forall>key direction ctx max_tag nonce inp extra ad out tag.
      EVP_AEAD_CTX_init_with_direction (aeads n) key EVP_AEAD_DEFAULT_TAG_LENGTH direction = Some ctx \<longrightarrow>
      EVP_AEAD_CTX_seal_scatter ctx max_tag nonce inp extra ad = Some (out, tag) \<longrightarrow>
      EVP_AEAD_CTX_tag_len ctx (length inp) (length extra) = Some (length tag)"
  shows "\<exists>r. Create aeads alloc_ok direction version cipher enc_key mac_key iv = Returns r \<and>
    (\<forall>c. r = Some c \<longrightarrow> (\<exists>r. Open c type record_version seqnum header inp = Returns r) \<and>
           (\<exists>r. SealScatter rand c type record_version seqnum header inp extra = Returns r))"
proof -
  note create = Create_aead [OF mac nonce, of alloc_ok direction version enc_key mac_key iv]
  obtain r where r: "Create aeads alloc_ok direction version cipher enc_key mac_key iv = Returns r"
    using create(1) by (cases "Create aeads alloc_ok direction version cipher enc_key mac_key iv") auto
  have "Open c type record_version seqnum header inp \<noteq> Aborts \<and>
      SealScatter rand c type record_version seqnum header inp extra \<noteq> Aborts" if rc: "r = Some c" for c
  proof -
    obtain n ctx where c: "record_aead_wf c" "n \<in> record_aeads" "evp_ctx c = Some ctx"
        "EVP_AEAD_CTX_init_with_direction (aeads n) enc_key EVP_AEAD_DEFAULT_TAG_LENGTH direction = Some ctx"
      using create(2) [of c] r rc by auto
    have "SealScatter rand c type record_version seqnum header inp extra \<noteq> Aborts"
      by (rule SealScatter_not_aborts [OF c(1,3)]) (use tag c(2,4) in blast)
    then show ?thesis
      using Open_not_aborts [OF c(1)] by blast
  qed
  then show ?thesis
    using r by (metis outcome.exhaust)
qed

lemma length_seal_extra_loop: "length (seal_extra_loop key nonce counter offset extra) = length extra"
proof (induction key nonce counter offset extra rule: seal_extra_loop.induct)
  case (1 key nonce counter offset extra)
  then show ?case
    by (subst seal_extra_loop.simps) (auto simp: Let_def min_def)
qed

lemma chacha20_tag_law:
  assumes init: "EVP_AEAD_CTX_init_with_direction EVP_aead_chacha20_poly1305 key EVP_AEAD_DEFAULT_TAG_LENGTH direction = Some ctx"
  shows "ctx = chacha20_poly1305_ctx key" "length key = 32"
    and "EVP_AEAD_CTX_seal_scatter ctx max_tag nonce inp extra ad = Some (out, tag) \<Longrightarrow>
      EVP_AEAD_CTX_tag_len ctx (length inp) (length extra) = Some (length tag)"
proof -
  show ctx: "ctx = chacha20_poly1305_ctx key" "length key = 32"
    using init by (auto simp: EVP_AEAD_CTX_init_with_direction_def EVP_aead_chacha20_poly1305_def
        aead_chacha20_poly1305_init_def EVP_AEAD_DEFAULT_TAG_LENGTH_def POLY1305_TAG_LEN_def chacha20_poly1305_ctx_def
        split: if_splits)
  show "EVP_AEAD_CTX_tag_len ctx (length inp) (length extra) = Some (length tag)"
    if "EVP_AEAD_CTX_seal_scatter ctx max_tag nonce inp extra ad = Some (out, tag)"
    using that unfolding ctx
    by (auto simp: EVP_AEAD_CTX_seal_scatter_def EVP_AEAD_CTX_tag_len_def chacha20_poly1305_ctx_def
        EVP_aead_chacha20_poly1305_def aead_chacha20_poly1305_seal_scatter_def chacha20_poly1305_seal_scatter_def
        size_add_overflows_def Let_def add.commute length_seal_extra_loop split: if_splits)
qed

lemma SSLAEADContext_chacha20_returns:
  "(\<forall>n \<in> record_aeads. aead_nonce_len EVP_aead_chacha20_poly1305 = 12) \<and>
   (\<exists>c. Create (\<lambda>_. EVP_aead_chacha20_poly1305) True evp_aead_seal DTLS1_3_VERSION
          \<lparr>algorithm_enc = SSL_CHACHA20POLY1305, algorithm_mac = SSL_AEAD\<rparr> (replicate 32 0) [] (replicate 12 0) =
        Returns (Some c) \<and>
      (\<exists>r. Open c 23 DTLS1_2_VERSION 5 [] [1, 2, 3] = Returns r) \<and>
      (\<exists>r. SealScatter (\<lambda>_. None) c 23 DTLS1_2_VERSION 5 [] [1, 2, 3] [22] = Returns r))"
proof -
  let ?a = "\<lambda>_. EVP_aead_chacha20_poly1305"
    and ?cipher = "\<lparr>algorithm_enc = SSL_CHACHA20POLY1305, algorithm_mac = SSL_AEAD\<rparr>"
  have n: "\<forall>n \<in> record_aeads. aead_nonce_len EVP_aead_chacha20_poly1305 = 12"
    by (simp add: EVP_aead_chacha20_poly1305_def)
  obtain c where "Create ?a True evp_aead_seal DTLS1_3_VERSION ?cipher (replicate 32 0) [] (replicate 12 0) = Returns (Some c)"
    by (simp add: Create_def ssl_protocol_version_from_wire_def version_defs ssl_cipher_get_evp_aead_def cipher_defs
        EVP_AEAD_MAX_NONCE_LENGTH_def EVP_aead_chacha20_poly1305_def setup_aead_def new_SSLAEADContext_def Let_def
        EVP_AEAD_CTX_init_with_direction_def aead_chacha20_poly1305_init_def EVP_AEAD_DEFAULT_TAG_LENGTH_def POLY1305_TAG_LEN_def)
  then show ?thesis
    using n chacha20_tag_law(3)
      SSLAEADContext_never_aborts [of ?cipher ?a True evp_aead_seal DTLS1_3_VERSION "replicate 32 0" "[]" "replicate 12 0"
        23 DTLS1_2_VERSION 5 "[]" "[1, 2, 3]" "\<lambda>_. None" "[22]"]
    by auto
qed

end
