(* ===== verification/DtlsBitmap.thy ===== *)
theory DtlsBitmap
  imports Aead
begin

text \<open>
  \<open>DTLSMessageBitmap\<close> of \<open>ssl/internal.h\<close> and \<open>ssl/d1_both.cc\<close>: the bits of a handshake message that have
  been received or acknowledged. The bitmap keeps the index of the first byte that is not all ones and gives up its
  memory when every bit is marked. Its meaning is the set of unmarked bits.

  Bit positions and sizes are natural numbers: they are at most the size of the array times 8, which fits in
  \<open>size_t\<close>. Whether a non-empty array can be allocated is the parameter \<open>alloc\<close> of \<open>Init\<close>. The assertion
  \<open>start <= end\<close> of \<open>MarkRange\<close> is left to the callers: the model, like a build without assertions, marks nothing for
  other arguments.
\<close>

unbundle bit_operations_syntax

subsection \<open>Operations\<close>

record DTLSMessageBitmap =
  bm_bytes :: bytes
  first_unmarked_byte :: nat

record Range =
  range_start :: nat
  range_end :: nat

definition BitRange :: "nat \<Rightarrow> nat \<Rightarrow> u8" where
  "BitRange start end = ucast (NOT (push_bit start 1 - 1) AND (push_bit end 1 - 1) :: u32)"

text \<open>\<open>for (start = 0; start < 8; start++)\<close> up to the first clear bit, and the loop up to the first set bit.\<close>

function first_clear_bit :: "u8 \<Rightarrow> nat \<Rightarrow> nat" where
  "first_clear_bit b i =
     (if i < 8 then if ucast b AND push_bit i (1 :: u32) = 0 then i else first_clear_bit b (i + 1) else i)"
  by pat_completeness auto
termination
  by (relation "measure (\<lambda>(b, i). 8 - i)") auto

function first_set_bit :: "u8 \<Rightarrow> nat \<Rightarrow> nat" where
  "first_set_bit b i =
     (if i < 8 then if ucast b AND push_bit i (1 :: u32) \<noteq> 0 then i else first_set_bit b (i + 1) else i)"
  by pat_completeness auto
termination
  by (relation "measure (\<lambda>(b, i). 8 - i)") auto

declare first_clear_bit.simps [simp del] first_set_bit.simps [simp del]

definition FirstUnmarkedRangeInByte :: "u8 \<Rightarrow> Range" where
  "FirstUnmarkedRangeInByte b =
     (let start = first_clear_bit b 0 in \<lparr>range_start = start, range_end = first_set_bit b start\<rparr>)"

text \<open>\<open>while (first_unmarked_byte < bm_bytes.size() && bm_bytes[first_unmarked_byte] == 0xff)\<close>.\<close>

function skip_marked :: "bytes \<Rightarrow> nat \<Rightarrow> nat" where
  "skip_marked bs i = (if i < length bs \<and> bs ! i = 0xff then skip_marked bs (i + 1) else i)"
  by pat_completeness auto
termination
  by (relation "measure (\<lambda>(bs, i). length bs - i)") auto

text \<open>\<open>for (i = lo; i < hi; i++) bm_bytes[i] = 0xff\<close>.\<close>

function fill_marked :: "nat \<Rightarrow> nat \<Rightarrow> bytes \<Rightarrow> bytes" where
  "fill_marked lo hi bs = (if lo < hi then fill_marked (lo + 1) hi (bs[lo := 0xff]) else bs)"
  by pat_completeness auto
termination
  by (relation "measure (\<lambda>(lo, hi, bs). hi - lo)") auto

declare skip_marked.simps [simp del] fill_marked.simps [simp del]

definition mark_bytes :: "nat \<Rightarrow> nat \<Rightarrow> bytes \<Rightarrow> bytes" where
  "mark_bytes start end bs =
     (if start div 8 = end div 8
      then bs[start div 8 := bs ! (start div 8) OR BitRange (start mod 8) (end mod 8)]
      else let bs = bs[start div 8 := bs ! (start div 8) OR BitRange (start mod 8) 8];
               bs = fill_marked (start div 8 + 1) (end div 8) bs
           in if end mod 8 \<noteq> 0 then bs[end div 8 := bs ! (end div 8) OR BitRange 0 (end mod 8)] else bs)"

definition MarkRange :: "nat \<Rightarrow> nat \<Rightarrow> DTLSMessageBitmap \<Rightarrow> DTLSMessageBitmap" where
  "MarkRange start end bm =
     (let start = max start (8 * first_unmarked_byte bm);
          start = min start (8 * length (bm_bytes bm));
          end = min end (8 * length (bm_bytes bm))
      in if start \<ge> end then bm
         else let bs = mark_bytes start end (bm_bytes bm);
                  i = skip_marked bs (first_unmarked_byte bm)
              in if i \<ge> length bs then \<lparr>bm_bytes = [], first_unmarked_byte = 0\<rparr>
                 else \<lparr>bm_bytes = bs, first_unmarked_byte = i\<rparr>)"

definition Init :: "(nat \<Rightarrow> bool) \<Rightarrow> nat \<Rightarrow> DTLSMessageBitmap \<Rightarrow> DTLSMessageBitmap option" where
  "Init alloc num_bits bm =
     (if size_add_overflows num_bits 7 then None
      else let num_bytes = (num_bits + 7) div 8;
               bits_rounded = num_bytes * 8
           in if num_bytes \<noteq> 0 \<and> \<not> alloc num_bytes then None
              else Some ((MarkRange num_bits bits_rounded
                     (bm\<lparr>bm_bytes := replicate num_bytes 0\<rparr>))\<lparr>first_unmarked_byte := 0\<rparr>))"

definition IsComplete :: "DTLSMessageBitmap \<Rightarrow> bool" where
  "IsComplete bm \<longleftrightarrow> bm_bytes bm = []"

text \<open>The loops of \<open>NextUnmarkedRange\<close>: to the next byte that is not all ones, and to the next that is not 0.\<close>

function skip_zero :: "bytes \<Rightarrow> nat \<Rightarrow> nat" where
  "skip_zero bs i = (if i < length bs \<and> bs ! i = 0 then skip_zero bs (i + 1) else i)"
  by pat_completeness auto
termination
  by (relation "measure (\<lambda>(bs, i). length bs - i)") auto

declare skip_zero.simps [simp del]

definition extend_range :: "bytes \<Rightarrow> nat \<Rightarrow> u8 \<Rightarrow> Range" where
  "extend_range bs idx b =
     (let range = FirstUnmarkedRangeInByte b;
          should_extend = (range_end range = 8);
          range = \<lparr>range_start = range_start range + 8 * idx, range_end = range_end range + 8 * idx\<rparr>
      in if \<not> should_extend then range
         else let idx = skip_zero bs (idx + 1);
                  range = range\<lparr>range_end := 8 * idx\<rparr>
              in if idx < length bs then
                   let extra = FirstUnmarkedRangeInByte (bs ! idx)
                   in if range_start extra = 0 then range\<lparr>range_end := range_end range + range_end extra\<rparr> else range
                 else range)"

definition NextUnmarkedRange :: "nat \<Rightarrow> DTLSMessageBitmap \<Rightarrow> Range" where
  "NextUnmarkedRange start bm =
     (let bs = bm_bytes bm;
          start = max start (8 * first_unmarked_byte bm);
          idx = start div 8
      in if idx \<ge> length bs then \<lparr>range_start = 0, range_end = 0\<rparr>
         else let b = bs ! idx OR BitRange 0 (start mod 8)
              in if b = 0xff then
                   let idx = skip_marked bs (idx + 1)
                   in if idx \<ge> length bs then \<lparr>range_start = 0, range_end = 0\<rparr>
                      else extend_range bs idx (bs ! idx)
                 else extend_range bs idx b)"

subsection \<open>Bits\<close>

definition marked :: "bytes \<Rightarrow> nat \<Rightarrow> bool" where
  "marked bs i \<longleftrightarrow> bit (bs ! (i div 8)) (i mod 8)"

definition unmarked :: "DTLSMessageBitmap \<Rightarrow> nat set" where
  "unmarked bm = {i. i < 8 * length (bm_bytes bm) \<and> \<not> marked (bm_bytes bm) i}"

text \<open>The invariant that the comments on the fields state.\<close>

definition bitmap_inv :: "DTLSMessageBitmap \<Rightarrow> bool" where
  "bitmap_inv bm \<longleftrightarrow>
     (if bm_bytes bm = [] then first_unmarked_byte bm = 0
      else first_unmarked_byte bm < length (bm_bytes bm) \<and>
           (\<forall>j < first_unmarked_byte bm. bm_bytes bm ! j = 0xff) \<and> bm_bytes bm ! first_unmarked_byte bm \<noteq> 0xff)"

lemma bit_and_push_bit: "ucast (b :: u8) AND push_bit i (1 :: u32) = 0 \<longleftrightarrow> \<not> bit b i" if "i < 8"
proof -
  have "bit (ucast b AND push_bit i (1 :: u32)) n \<longleftrightarrow> n = i \<and> bit b i" for n
    using that by (auto simp: bit_and_iff bit_exp_iff bit_ucast_iff)
  moreover from this have "ucast b AND push_bit i (1 :: u32) = 0" if "\<not> bit b i"
    by (intro bit_word_eqI) (use that in simp)
  ultimately show ?thesis
    by (metis bit_0_eq bot_apply bot_bool_def)
qed

lemma bit_BitRange: "end \<le> 8 \<Longrightarrow> bit (BitRange start end) i \<longleftrightarrow> start \<le> i \<and> i < end"
proof -
  assume "end \<le> 8"
  have m: "(push_bit n 1 - 1 :: u32) = mask n" for n
    by (simp add: mask_eq_exp_minus_1)
  show ?thesis
    unfolding BitRange_def m using \<open>end \<le> 8\<close>
    by (auto simp: bit_ucast_iff bit_and_iff bit_not_iff bit_mask_iff)
qed

lemma bit_0xff: "bit (0xff :: u8) i \<longleftrightarrow> i < 8"
proof -
  have "(0xff :: u8) = mask 8"
    by (simp add: mask_eq_exp_minus_1)
  then show ?thesis
    by (simp only: bit_mask_iff) simp
qed

lemma bit_255_int: "bit (255 :: int) i \<longleftrightarrow> i < 8"
proof -
  have "(255 :: int) = mask 8"
    by (simp add: mask_eq_exp_minus_1)
  then show ?thesis
    by (simp only: bit_mask_iff) simp
qed

lemma byte_eq_0xff: "b = 0xff \<longleftrightarrow> (\<forall>i < 8. bit (b :: u8) i)"
proof
  assume "\<forall>i < 8. bit b i"
  then show "b = 0xff"
    by (intro bit_word_eqI) (simp only: bit_0xff, simp)
qed (simp add: bit_255_int)

lemma less_div_mod_8: "(i :: nat) < j \<longleftrightarrow> i div 8 < j div 8 \<or> i div 8 = j div 8 \<and> i mod 8 < j mod 8"
proof -
  have "i = 8 * (i div 8) + i mod 8" "j = 8 * (j div 8) + j mod 8" "i mod 8 < 8" "j mod 8 < 8"
    by simp_all
  then show ?thesis
    by linarith
qed

lemma le_div_mod_8: "(i :: nat) \<le> j \<longleftrightarrow> i div 8 < j div 8 \<or> i div 8 = j div 8 \<and> i mod 8 \<le> j mod 8"
  using less_div_mod_8 [of j i] by auto

lemma div_8_less: "i < 8 * n \<Longrightarrow> i div 8 < (n :: nat)"
  by (simp add: less_mult_imp_div_less mult.commute)

subsection \<open>Marking\<close>

lemma length_fill_marked [simp]: "length (fill_marked lo hi bs) = length bs"
  by (induction lo hi bs rule: fill_marked.induct) (subst fill_marked.simps, simp)

lemma nth_fill_marked:
  "hi \<le> length bs \<Longrightarrow> fill_marked lo hi bs ! j = (if lo \<le> j \<and> j < hi then 0xff else bs ! j)"
proof (induction lo hi bs rule: fill_marked.induct)
  case (1 lo hi bs)
  show ?case
  proof (cases "lo < hi")
    case True
    then have "fill_marked lo hi bs ! j = (if lo + 1 \<le> j \<and> j < hi then 0xff else bs[lo := 0xff] ! j)"
      using 1 by (subst fill_marked.simps) simp
    then show ?thesis
      using True "1.prems" by (auto simp: nth_list_update)
  qed (subst fill_marked.simps, auto)
qed

lemma length_mark_bytes [simp]: "length (mark_bytes start end bs) = length bs"
  by (simp add: mark_bytes_def Let_def)

lemma marked_mark_bytes:
  assumes "start < end" "end \<le> 8 * length bs" "i < 8 * length bs"
  shows "marked (mark_bytes start end bs) i \<longleftrightarrow> marked bs i \<or> start \<le> i \<and> i < end"
proof -
  have len: "start div 8 < length bs" "i div 8 < length bs" "end div 8 \<le> length bs"
    using assms div_8_less [of start "length bs"] div_8_less [of i "length bs"] by auto
  have e: "end mod 8 \<noteq> 0 \<Longrightarrow> end div 8 < length bs"
    using assms(2) by (cases "end = 8 * length bs") (auto intro: div_8_less)
  have or: "bit (b OR BitRange s t) (i mod 8) \<longleftrightarrow> bit b (i mod 8) \<or> s \<le> i mod 8 \<and> i mod 8 < t" if "t \<le> 8" for b s t
    using that by (simp add: bit_or_iff bit_BitRange)
  have m: "i mod 8 < 8" "end mod 8 \<le> 8"
    by (simp_all add: less_imp_le)
  show ?thesis
  proof (cases "start div 8 = end div 8")
    case True
    then show ?thesis
      using len or [OF m(2)]
      by (auto simp: mark_bytes_def marked_def nth_list_update less_div_mod_8 [of _ "end"] le_div_mod_8 [of start])
  next
    case False
    then have "start div 8 < end div 8"
      using assms(1) by (simp add: div_le_mono le_neq_implies_less)
    then show ?thesis
      using len e or [OF m(2), of _ 0] or [OF order_refl] m(1) False
      by (auto simp: mark_bytes_def Let_def marked_def nth_list_update nth_fill_marked bit_255_int
          less_div_mod_8 [of _ "end"] le_div_mod_8 [of start])
  qed
qed

text \<open>A loop that advances an index while it is below \<open>n\<close> and satisfies \<open>P\<close>.\<close>

lemma scan_spec:
  fixes f :: "nat \<Rightarrow> nat"
  assumes f: "\<And>i. f i = (if i < n \<and> P i then f (i + 1) else i)"
  shows "i \<le> n \<Longrightarrow> i \<le> f i \<and> f i \<le> n \<and> (\<forall>j. i \<le> j \<and> j < f i \<longrightarrow> P j) \<and> (f i < n \<longrightarrow> \<not> P (f i))"
proof (induction "n - i" arbitrary: i)
  case 0
  then show ?case
    using f [of n] by auto
next
  case (Suc k)
  show ?case
  proof (cases "P i")
    case True
    moreover have "i < n"
      using Suc.hyps(2) by simp
    ultimately have fi: "f i = f (i + 1)"
      using f [of i] by simp
    have ih: "i + 1 \<le> f (i + 1)" "f (i + 1) \<le> n" "\<forall>j. i + 1 \<le> j \<and> j < f (i + 1) \<longrightarrow> P j"
      "f (i + 1) < n \<longrightarrow> \<not> P (f (i + 1))"
      using Suc.hyps(1) [of "i + 1"] Suc.hyps(2) by auto
    have "P j" if "i \<le> j" "j < f (i + 1)" for j
      using that True ih(3) by (cases "j = i") auto
    then show ?thesis
      unfolding fi using ih by simp
  next
    case False
    then have "f i = i"
      using f [of i] by simp
    then show ?thesis
      using False Suc.prems by auto
  qed
qed

lemma skip_marked_spec:
  assumes "i \<le> length bs"
  shows "i \<le> skip_marked bs i \<and> skip_marked bs i \<le> length bs \<and>
    (\<forall>j. i \<le> j \<and> j < skip_marked bs i \<longrightarrow> bs ! j = 0xff) \<and>
    (skip_marked bs i < length bs \<longrightarrow> bs ! skip_marked bs i \<noteq> 0xff)"
  by (rule scan_spec [OF skip_marked.simps assms])

lemma unmarked_Nil [simp]: "unmarked \<lparr>bm_bytes = [], first_unmarked_byte = n\<rparr> = {}"
  by (simp add: unmarked_def)

lemma all_marked_iff: "{i. i < 8 * length bs \<and> \<not> marked bs i} = {} \<longleftrightarrow> (\<forall>j < length bs. bs ! j = 0xff)"
proof
  assume *: "{i. i < 8 * length bs \<and> \<not> marked bs i} = {}"
  show "\<forall>j < length bs. bs ! j = 0xff"
  proof (intro allI impI)
    fix j assume "j < length bs"
    then have "marked bs (8 * j + k)" if "k < 8" for k
      using * that by auto
    then show "bs ! j = 0xff"
      by (auto simp: byte_eq_0xff marked_def)
  qed
qed (auto simp: marked_def bit_255_int dest: div_8_less)

lemma unmarked_empty_iff: "bitmap_inv bm \<Longrightarrow> unmarked bm = {} \<longleftrightarrow> IsComplete bm"
  unfolding unmarked_def all_marked_iff by (auto simp: IsComplete_def bitmap_inv_def split: if_splits)

lemma less_first_unmarked_byte:
  assumes "bitmap_inv bm" "i < 8 * first_unmarked_byte bm"
  shows "i \<notin> unmarked bm"
proof -
  have "bm_bytes bm ! (i div 8) = 0xff"
    using assms div_8_less [of i "first_unmarked_byte bm"] by (auto simp: bitmap_inv_def split: if_splits)
  then show ?thesis
    by (simp add: unmarked_def marked_def bit_255_int)
qed

lemma MarkRange_spec:
  assumes inv: "bitmap_inv bm"
  shows "bitmap_inv (MarkRange start end bm) \<and> unmarked (MarkRange start end bm) = unmarked bm - {start..<end}"
proof -
  let ?n = "8 * length (bm_bytes bm)"
  define s where "s = min (max start (8 * first_unmarked_byte bm)) ?n"
  define e where "e = min end ?n"
  have cut: "unmarked bm - {start..<end} = unmarked bm - {s..<e}"
  proof -
    have "x < ?n \<and> 8 * first_unmarked_byte bm \<le> x" if "x \<in> unmarked bm" for x
      using less_first_unmarked_byte [OF inv, of x] that by (fastforce simp: unmarked_def)
    then have "start \<le> x \<and> x < end \<longleftrightarrow> s \<le> x \<and> x < e" if "x \<in> unmarked bm" for x
      using that by (fastforce simp: s_def e_def)
    then show ?thesis
      by auto
  qed
  have elen: "e \<le> 8 * length (bm_bytes bm)"
    by (simp add: e_def)
  have mr: "MarkRange start end bm =
    (if s \<ge> e then bm
     else let bs = mark_bytes s e (bm_bytes bm); i = skip_marked bs (first_unmarked_byte bm)
          in if i \<ge> length bs then \<lparr>bm_bytes = [], first_unmarked_byte = 0\<rparr>
             else \<lparr>bm_bytes = bs, first_unmarked_byte = i\<rparr>)"
    by (simp only: MarkRange_def Let_def s_def e_def)
  show ?thesis
  proof (cases "e \<le> s")
    case True
    then show ?thesis
      using inv cut by (simp add: mr)
  next
    case False
    define bs where "bs = mark_bytes s e (bm_bytes bm)"
    define i where "i = skip_marked bs (first_unmarked_byte bm)"
    have len: "length bs = length (bm_bytes bm)"
      by (simp add: bs_def)
    have eq: "MarkRange start end bm = (if i \<ge> length bs then \<lparr>bm_bytes = [], first_unmarked_byte = 0\<rparr>
        else \<lparr>bm_bytes = bs, first_unmarked_byte = i\<rparr>)"
      using False by (simp add: mr Let_def i_def bs_def)
    have un: "{i. i < 8 * length bs \<and> \<not> marked bs i} = unmarked bm - {s..<e}"
      using False marked_mark_bytes [of s e "bm_bytes bm"] elen by (auto simp: unmarked_def bs_def)
    have fu: "first_unmarked_byte bm \<le> length bs"
      using inv len by (auto simp: bitmap_inv_def split: if_splits)
    have "bs ! j = 0xff" if "j < first_unmarked_byte bm" for j
    proof -
      have "marked bs (8 * j + k)" if "k < 8" for k
      proof -
        have "8 * j + k < 8 * first_unmarked_byte bm" "8 * j + k < 8 * length bs"
          using \<open>j < _\<close> that fu by linarith+
        then show ?thesis
          using less_first_unmarked_byte [OF inv, of "8 * j + k"] un by blast
      qed
      then show ?thesis
        by (auto simp: byte_eq_0xff marked_def)
    qed
    then have ff: "bs ! j = 0xff" if "j < i" for j
      using skip_marked_spec [OF fu] that by (cases "j < first_unmarked_byte bm") (auto simp: i_def)
    show ?thesis
    proof (cases "i \<ge> length bs")
      case True
      then show ?thesis
        using ff un cut all_marked_iff [of bs] by (simp add: eq bitmap_inv_def)
    next
      case False
      moreover have "unmarked \<lparr>bm_bytes = bs, first_unmarked_byte = i\<rparr> = unmarked bm - {start..<end}"
        unfolding cut un [symmetric] by (simp add: unmarked_def)
      ultimately show ?thesis
        using ff skip_marked_spec [OF fu] by (auto simp: eq bitmap_inv_def i_def [symmetric])
    qed
  qed
qed

lemmas bitmap_inv_MarkRange = MarkRange_spec [THEN conjunct1]
lemmas unmarked_MarkRange = MarkRange_spec [THEN conjunct2]

lemma Init_spec:
  assumes "Init alloc num_bits bm = Some bm'" "first_unmarked_byte bm = 0"
  shows "bitmap_inv bm' \<and> unmarked bm' = {..<num_bits}"
proof -
  define n where "n = (num_bits + 7) div 8"
  define z where "z = bm\<lparr>bm_bytes := replicate n 0\<rparr>"
  define m where "m = MarkRange num_bits (n * 8) z"
  have le: "num_bits \<le> n * 8"
    by (simp add: n_def)
  have inv: "bitmap_inv z"
    using assms(2) by (auto simp: bitmap_inv_def z_def)
  have "\<not> marked (replicate n 0) x" if "x < 8 * n" for x
    unfolding marked_def nth_replicate [OF div_8_less [OF that]] by simp
  then have "unmarked z = {..<n * 8}"
    by (auto simp: unmarked_def z_def)
  moreover have "unmarked m = unmarked z - {num_bits..<n * 8}"
    unfolding m_def by (rule unmarked_MarkRange [OF inv])
  moreover have "{..<n * 8} - {num_bits..<n * 8} = {..<num_bits}"
    using le by (intro set_eqI) (simp, linarith)
  ultimately have un: "unmarked m = {..<num_bits}"
    by simp
  have "bitmap_inv m"
    by (simp add: m_def bitmap_inv_MarkRange [OF inv])
  have "first_unmarked_byte m = 0"
  proof (rule ccontr)
    assume *: "first_unmarked_byte m \<noteq> 0"
    then have "bm_bytes m \<noteq> []"
      using \<open>bitmap_inv m\<close> by (auto simp: bitmap_inv_def)
    then have "unmarked m \<noteq> {}"
      using unmarked_empty_iff [OF \<open>bitmap_inv m\<close>] by (simp add: IsComplete_def)
    then show False
      using less_first_unmarked_byte [OF \<open>bitmap_inv m\<close>, of 0] un * by auto
  qed
  moreover have "bm' = m\<lparr>first_unmarked_byte := 0\<rparr>"
    using assms(1) unfolding Init_def Let_def m_def z_def n_def by (simp split: if_splits)
  ultimately have "bm' = m"
    by (intro DTLSMessageBitmap.equality) simp_all
  then show ?thesis
    using un \<open>bitmap_inv m\<close> by simp
qed

subsection \<open>The next unmarked range\<close>

lemma first_clear_bit_eq:
  "first_clear_bit b i = (if i < 8 \<and> bit b i then first_clear_bit b (i + 1) else i)"
  by (subst first_clear_bit.simps) (use bit_and_push_bit [of i b] in argo)

lemma first_set_bit_eq:
  "first_set_bit b i = (if i < 8 \<and> \<not> bit b i then first_set_bit b (i + 1) else i)"
  by (subst first_set_bit.simps) (use bit_and_push_bit [of i b] in argo)

lemma first_clear_bit_spec:
  assumes "i \<le> 8"
  shows "i \<le> first_clear_bit b i \<and> first_clear_bit b i \<le> 8 \<and>
    (\<forall>j. i \<le> j \<and> j < first_clear_bit b i \<longrightarrow> bit b j) \<and>
    (first_clear_bit b i < 8 \<longrightarrow> \<not> bit b (first_clear_bit b i))"
  by (rule scan_spec [OF first_clear_bit_eq assms])

lemma first_set_bit_spec:
  assumes "i \<le> 8"
  shows "i \<le> first_set_bit b i \<and> first_set_bit b i \<le> 8 \<and>
    (\<forall>j. i \<le> j \<and> j < first_set_bit b i \<longrightarrow> \<not> bit b j) \<and>
    (first_set_bit b i < 8 \<longrightarrow> \<not> \<not> bit b (first_set_bit b i))"
  by (rule scan_spec [OF first_set_bit_eq assms])

lemma skip_zero_spec:
  assumes "i \<le> length bs"
  shows "i \<le> skip_zero bs i \<and> skip_zero bs i \<le> length bs \<and>
    (\<forall>j. i \<le> j \<and> j < skip_zero bs i \<longrightarrow> bs ! j = 0) \<and>
    (skip_zero bs i < length bs \<longrightarrow> bs ! skip_zero bs i \<noteq> 0)"
  by (rule scan_spec [OF skip_zero.simps assms])

lemma FirstUnmarkedRangeInByte_spec:
  fixes b defines "r \<equiv> FirstUnmarkedRangeInByte b"
  shows "range_start r \<le> range_end r \<and> range_end r \<le> 8 \<and> (\<forall>j < range_start r. bit b j) \<and>
    (\<forall>j. range_start r \<le> j \<and> j < range_end r \<longrightarrow> \<not> bit b j) \<and> (range_end r < 8 \<longrightarrow> bit b (range_end r)) \<and>
    (b \<noteq> 0xff \<longrightarrow> range_start r < range_end r)"
proof -
  define s where "s = first_clear_bit b 0"
  note sp = first_clear_bit_spec [of 0 b, folded s_def, simplified]
  have ss: "range_start r = s" "range_end r = first_set_bit b s"
    by (simp_all add: r_def FirstUnmarkedRangeInByte_def s_def Let_def)
  have "s < first_set_bit b s" if "b \<noteq> 0xff"
  proof -
    have "s < 8"
      using that sp by (metis byte_eq_0xff le_neq_implies_less)
    then have "\<not> bit b s"
      using sp by blast
    with \<open>s < 8\<close> show ?thesis
      using first_set_bit_spec [of s b] by (metis le_less less_imp_le)
  qed
  then show ?thesis
    unfolding ss using sp first_set_bit_spec [of s b] by simp
qed

text \<open>The range that \<open>extend_range\<close> returns is a maximal run of unmarked bits and starts at the first of them.\<close>

definition is_run :: "bytes \<Rightarrow> nat \<Rightarrow> Range \<Rightarrow> bool" where
  "is_run bs lo r \<longleftrightarrow> lo \<le> range_start r \<and> range_start r < range_end r \<and> range_end r \<le> 8 * length bs \<and>
     (\<forall>i. lo \<le> i \<and> i < range_start r \<longrightarrow> marked bs i) \<and>
     (\<forall>i. range_start r \<le> i \<and> i < range_end r \<longrightarrow> \<not> marked bs i) \<and>
     (range_end r < 8 * length bs \<longrightarrow> marked bs (range_end r))"

lemma marked_byte: "j < 8 \<Longrightarrow> marked bs (8 * idx + j) \<longleftrightarrow> bit (bs ! idx) j"
  by (simp add: marked_def)

lemma byte_nonzero: "b \<noteq> 0 \<Longrightarrow> \<exists>j < 8. bit (b :: u8) j"
  by (rule ccontr) (use bit_word_eqI [of b 0] in auto)

lemma zero_run:
  assumes "\<forall>j. lo \<le> j \<and> j < hi \<longrightarrow> bs ! j = 0" "8 * lo \<le> i" "i < 8 * hi"
  shows "\<not> marked bs i"
proof -
  have "lo \<le> i div 8"
    using assms(2) by linarith
  moreover have "i div 8 < hi"
    using assms(3) by (rule div_8_less)
  ultimately show ?thesis
    using assms(1) by (simp add: marked_def)
qed

lemma ones_run:
  assumes "\<forall>j. lo \<le> j \<and> j < hi \<longrightarrow> bs ! j = 0xff" "8 * lo \<le> i" "i < 8 * hi"
  shows "marked bs i"
proof -
  have "lo \<le> i div 8"
    using assms(2) by linarith
  moreover have "i div 8 < hi"
    using assms(3) by (rule div_8_less)
  ultimately show ?thesis
    using assms(1) by (simp add: marked_def bit_255_int)
qed

text \<open>The unmarked bits that follow a run of zero bytes up to index \<open>z\<close>: those at the start of byte \<open>z\<close>.\<close>

definition extra_bits :: "bytes \<Rightarrow> nat \<Rightarrow> nat" where
  "extra_bits bs z =
     (if z < length bs \<and> range_start (FirstUnmarkedRangeInByte (bs ! z)) = 0
      then range_end (FirstUnmarkedRangeInByte (bs ! z)) else 0)"

lemma extra_bits_spec:
  assumes z: "z \<le> length bs" "z < length bs \<longrightarrow> bs ! z \<noteq> 0"
  shows "8 * z + extra_bits bs z \<le> 8 * length bs"
    and "8 * z \<le> i \<Longrightarrow> i < 8 * z + extra_bits bs z \<Longrightarrow> \<not> marked bs i"
    and "8 * z + extra_bits bs z < 8 * length bs \<Longrightarrow> marked bs (8 * z + extra_bits bs z)"
proof -
  define e where "e = FirstUnmarkedRangeInByte (bs ! z)"
  define n where "n = extra_bits bs z"
  note es = FirstUnmarkedRangeInByte_spec [of "bs ! z", folded e_def]
  have n: "n = (if z < length bs \<and> range_start e = 0 then range_end e else 0)"
    by (simp add: n_def extra_bits_def e_def)
  show "8 * z + n \<le> 8 * length bs"
    using es z(1) unfolding n by (auto; linarith)
  show "\<not> marked bs i" if "8 * z \<le> i" "i < 8 * z + n"
  proof -
    have e: "n = range_end e" "range_start e = 0" "n \<le> 8"
      using that es by (auto simp: n split: if_splits)
    define j where "j = i - 8 * z"
    have "j < 8" "i = 8 * z + j"
      using that e(3) unfolding j_def by linarith+
    then show ?thesis
      using es that e by (simp add: marked_byte)
  qed
  show "marked bs (8 * z + n)" if "8 * z + n < 8 * length bs"
  proof -
    have "z < length bs"
      using that by linarith
    moreover obtain j where "j < 8" "bit (bs ! z) j"
      using z(2) \<open>z < _\<close> byte_nonzero by blast
    then have "range_end e \<noteq> 8" if "range_start e = 0"
      using es that by auto
    ultimately have "n < 8 \<and> bit (bs ! z) n"
      using es by (auto simp: n)
    then show ?thesis
      by (simp add: marked_byte)
  qed
qed

lemma extend_range_run:
  assumes idx: "idx < length bs" and b: "b \<noteq> 0xff" and k: "k < 8"
    and bits: "\<And>j. j < 8 \<Longrightarrow> bit b j \<longleftrightarrow> j < k \<or> bit (bs ! idx) j"
  shows "is_run bs (8 * idx + k) (extend_range bs idx b)"
proof -
  define r where "r = FirstUnmarkedRangeInByte b"
  note rs = FirstUnmarkedRangeInByte_spec [of b, folded r_def]
  have lt: "range_start r < range_end r" "range_end r \<le> 8"
    using rs b by blast+
  have "\<not> bit b (range_start r)"
    using rs lt(1) by blast
  then have ks: "k \<le> range_start r"
    using bits [of "range_start r"] k by (cases "k \<le> range_start r") auto
  have bm: "marked bs i \<longleftrightarrow> bit b (i - 8 * idx)" if "8 * idx + k \<le> i" "i < 8 * idx + 8" for i
    using that bits [of "i - 8 * idx"] marked_byte [of "i - 8 * idx" bs idx] by auto
  have pre: "marked bs i" if "8 * idx + k \<le> i" "i < 8 * idx + range_start r" for i
    using that bm [of i] rs lt by auto
  have run: "\<not> marked bs i" if "8 * idx + range_start r \<le> i" "i < 8 * idx + range_end r" for i
  proof -
    have "range_start r \<le> i - 8 * idx" "i - 8 * idx < range_end r"
      using that by linarith+
    then show ?thesis
      using that bm [of i] rs lt ks by auto
  qed
  show ?thesis
  proof (cases "range_end r = 8")
    case False
    then have "marked bs (8 * idx + range_end r)"
      using bm [of "8 * idx + range_end r"] rs ks lt by auto
    moreover have "8 * idx + 8 \<le> 8 * length bs"
      using idx by linarith
    ultimately show ?thesis
      using False ks lt pre run
      by (simp add: extend_range_def Let_def is_run_def flip: r_def) (simp add: add.commute)
  next
    case True
    define z where "z = skip_zero bs (idx + 1)"
    have zs: "idx + 1 \<le> z" "z \<le> length bs" "\<forall>j. idx + 1 \<le> j \<and> j < z \<longrightarrow> bs ! j = 0"
      "z < length bs \<longrightarrow> bs ! z \<noteq> 0"
      using skip_zero_spec [of "idx + 1" bs] idx by (auto simp: z_def)
    have zrun: "\<not> marked bs i" if "8 * idx + range_start r \<le> i" "i < 8 * z" for i
      using that run [of i] True zero_run [OF zs(3), of i] by (cases "i < 8 * idx + 8") auto
    have "\<not> marked bs i" if "8 * idx + range_start r \<le> i" "i < 8 * z + extra_bits bs z" for i
      using that zrun [of i] extra_bits_spec(2) [OF zs(2,4), of i] by (cases "i < 8 * z") auto
    moreover have "extend_range bs idx b = \<lparr>range_start = range_start r + 8 * idx, range_end = 8 * z + extra_bits bs z\<rparr>"
      unfolding extend_range_def Let_def r_def [symmetric] z_def [symmetric] extra_bits_def using True by simp
    ultimately show ?thesis
      using extra_bits_spec(1,3) [OF zs(2,4)] ks lt pre zs(1) by (simp add: is_run_def add.commute)
  qed
qed

lemma NextUnmarkedRange_run:
  fixes bm start
  assumes inv: "bitmap_inv bm"
  defines "r \<equiv> NextUnmarkedRange start bm"
  shows "if unmarked bm \<inter> {start..} = {} then range_start r = 0 \<and> range_end r = 0
    else is_run (bm_bytes bm) (max start (8 * first_unmarked_byte bm)) r"
proof -
  define bs where "bs = bm_bytes bm"
  define s where "s = max start (8 * first_unmarked_byte bm)"
  define b where "b = bs ! (s div 8) OR BitRange 0 (s mod 8)"
  define idx where "idx = skip_marked bs (s div 8 + 1)"
  have un: "unmarked bm \<inter> {start..} = {i. s \<le> i \<and> i < 8 * length bs \<and> \<not> marked bs i}"
    using less_first_unmarked_byte [OF inv]
    by (intro set_eqI) (simp add: s_def unmarked_def bs_def, metis not_le)
  have r: "r = (if s div 8 \<ge> length bs then \<lparr>range_start = 0, range_end = 0\<rparr>
      else if b = 0xff then if idx \<ge> length bs then \<lparr>range_start = 0, range_end = 0\<rparr> else extend_range bs idx (bs ! idx)
      else extend_range bs (s div 8) b)"
    by (simp only: r_def NextUnmarkedRange_def Let_def bs_def s_def b_def idx_def)
  have ne: "unmarked bm \<inter> {start..} \<noteq> {}" if "is_run bs s r"
    unfolding un using that by (auto simp: is_run_def intro!: exI [of _ "range_start r"])
  have bits: "bit b j \<longleftrightarrow> j < s mod 8 \<or> bit (bs ! (s div 8)) j" if "j < 8" for j
    by (auto simp: b_def bit_or_iff bit_BitRange)
  consider "s div 8 \<ge> length bs" | "s div 8 < length bs" "b \<noteq> 0xff" | "s div 8 < length bs" "b = 0xff"
    by linarith
  then show ?thesis
  proof cases
    case 1
    then have "unmarked bm \<inter> {start..} = {}"
      unfolding un using div_8_less by force
    with 1 show ?thesis
      by (simp add: r)
  next
    case 2
    then have "is_run bs s r"
      using extend_range_run [OF 2 _ bits] by (simp add: r)
    then show ?thesis
      using ne by (simp add: bs_def s_def)
  next
    case 3
    have ones: "marked bs i" if "s \<le> i" "i < 8 * (s div 8 + 1)" for i
    proof -
      define j q m where "j = i - 8 * (s div 8)" and "q = s div 8" and "m = s mod 8"
      have "8 * q + m = s"
        by (simp add: q_def m_def)
      then have "i = 8 * q + j" "j < 8" "\<not> j < m"
        using that unfolding j_def q_def [symmetric] by simp_all
      then have j: "i = 8 * (s div 8) + j" "j < 8" "\<not> j < s mod 8"
        by (simp_all add: q_def m_def)
      moreover have "bit b j"
        using j(2) 3 by (simp add: bit_255_int)
      ultimately show ?thesis
        using bits [of j] marked_byte [of j bs "s div 8"] by simp
    qed
    have ix: "s div 8 + 1 \<le> idx" "idx \<le> length bs" "\<forall>j. s div 8 + 1 \<le> j \<and> j < idx \<longrightarrow> bs ! j = 0xff"
      "idx < length bs \<longrightarrow> bs ! idx \<noteq> 0xff"
      using skip_marked_spec [of "s div 8 + 1" bs] 3 by (auto simp: idx_def)
    have pre: "marked bs i" if "s \<le> i" "i < 8 * idx" for i
      using that ones [of i] ones_run [OF ix(3), of i] by (cases "i < 8 * (s div 8 + 1)") auto
    show ?thesis
    proof (cases "idx < length bs")
      case True
      then have "is_run bs (8 * idx) r"
        using extend_range_run [of idx bs "bs ! idx" 0] ix(4) 3 by (simp add: r)
      moreover have "s \<le> 8 * idx"
        using ix(1) by linarith
      ultimately have "is_run bs s r"
        using pre unfolding is_run_def by (meson le_trans not_le)
      then show ?thesis
        using ne by (simp add: bs_def s_def)
    next
      case False
      then have "unmarked bm \<inter> {start..} = {}"
        unfolding un using pre ix(2) by auto
      with False 3 show ?thesis
        by (simp add: r)
    qed
  qed
qed

lemma NextUnmarkedRange_spec:
  fixes bm start
  assumes inv: "bitmap_inv bm"
  defines "r \<equiv> NextUnmarkedRange start bm"
  shows "if unmarked bm \<inter> {start..} = {} then r = \<lparr>range_start = 0, range_end = 0\<rparr>
    else start \<le> range_start r \<and> range_start r < range_end r \<and> unmarked bm \<inter> {start..<range_start r} = {} \<and>
         {range_start r..<range_end r} \<subseteq> unmarked bm \<and> range_end r \<notin> unmarked bm"
proof (cases "unmarked bm \<inter> {start..} = {}")
  case True
  then show ?thesis
    using NextUnmarkedRange_run [OF inv, of start] by (simp add: r_def)
next
  case False
  then have run: "is_run (bm_bytes bm) (max start (8 * first_unmarked_byte bm)) r"
    using NextUnmarkedRange_run [OF inv, of start] by (simp add: r_def)
  have "i \<notin> unmarked bm" if "start \<le> i" "i < range_start r" for i
    using that run less_first_unmarked_byte [OF inv, of i]
    by (cases "i < 8 * first_unmarked_byte bm") (auto simp: is_run_def unmarked_def)
  then have "unmarked bm \<inter> {start..<range_start r} = {}"
    by auto
  moreover have "{range_start r..<range_end r} \<subseteq> unmarked bm" "range_end r \<notin> unmarked bm"
    using run by (auto simp: is_run_def unmarked_def)
  ultimately show ?thesis
    using False run by (auto simp: is_run_def)
qed

subsection \<open>The contract of the bitmap\<close>

text \<open>
  What the users of a bitmap rely on: it stands for a set of positions, marking removes a range from the set and
  completeness is emptiness.
\<close>

locale position_set =
  fixes inv :: "'b \<Rightarrow> bool"
    and positions :: "'b \<Rightarrow> nat set"
    and mark :: "nat \<Rightarrow> nat \<Rightarrow> 'b \<Rightarrow> 'b"
    and complete :: "'b \<Rightarrow> bool"
  assumes inv_mark: "inv b \<Longrightarrow> inv (mark s e b)"
    and positions_mark: "inv b \<Longrightarrow> positions (mark s e b) = positions b - {s..<e}"
    and complete_iff: "inv b \<Longrightarrow> complete b \<longleftrightarrow> positions b = {}"
begin

definition marks :: "(nat \<times> nat) list \<Rightarrow> 'b \<Rightarrow> 'b" where
  "marks rs b = fold (\<lambda>(s, e). mark s e) rs b"

lemma marks_spec:
  "inv b \<Longrightarrow> inv (marks rs b) \<and> positions (marks rs b) = positions b - (\<Union>(s, e) \<in> set rs. {s..<e})"
proof (induction rs arbitrary: b)
  case (Cons r rs)
  then show ?case
    by (cases r) (simp add: marks_def inv_mark positions_mark Diff_eq Int_assoc)
qed (simp add: marks_def)

lemma complete_marks:
  "inv b \<Longrightarrow> complete (marks rs b) \<longleftrightarrow> positions b \<subseteq> (\<Union>(s, e) \<in> set rs. {s..<e})"
  using marks_spec [of b rs] by (simp add: complete_iff)

end

interpretation bitmap: position_set bitmap_inv unmarked MarkRange IsComplete
  by unfold_locales (simp_all add: bitmap_inv_MarkRange unmarked_MarkRange unmarked_empty_iff)

text \<open>
  C38: A bitmap that \<open>Init\<close> sets up for \<open>n\<close> bits keeps track of exactly the bits that no call of \<open>MarkRange\<close>
  covers, for every sequence of calls: it is complete when none is left, and \<open>NextUnmarkedRange\<close> returns the first
  maximal range of them from its starting point on, or the empty range.
\<close>

theorem DTLSMessageBitmap_tracks_ranges:
  fixes rs n start
  assumes init: "Init alloc n \<lparr>bm_bytes = [], first_unmarked_byte = 0\<rparr> = Some bm"
  defines "bm' \<equiv> fold (\<lambda>(s, e). MarkRange s e) rs bm"
    and "left \<equiv> {..<n} - (\<Union>(s, e) \<in> set rs. {s..<e})"
    and "r \<equiv> NextUnmarkedRange start (fold (\<lambda>(s, e). MarkRange s e) rs bm)"
  shows "(IsComplete bm' \<longleftrightarrow> left = {}) \<and>
    (if left \<inter> {start..} = {} then r = \<lparr>range_start = 0, range_end = 0\<rparr>
     else start \<le> range_start r \<and> range_start r < range_end r \<and> left \<inter> {start..<range_start r} = {} \<and>
          {range_start r..<range_end r} \<subseteq> left \<and> range_end r \<notin> left)"
proof -
  have bm: "bitmap_inv bm" "unmarked bm = {..<n}"
    using Init_spec [OF init] by simp_all
  have "bitmap_inv bm'" "unmarked bm' = left"
    using bitmap.marks_spec [OF bm(1), of rs] bm(2) by (simp_all add: bm'_def left_def bitmap.marks_def)
  then show ?thesis
    using NextUnmarkedRange_spec [of bm' start] unmarked_empty_iff [of bm']
    unfolding r_def bm'_def [symmetric] by (cases "left \<inter> {start..} = {}") simp_all
qed

theorem DTLSMessageBitmap_tracks_ranges_witness:
  "Init (\<lambda>_. True) 3 \<lparr>bm_bytes = [], first_unmarked_byte = 0\<rparr> =
     Some \<lparr>bm_bytes = [0xf8], first_unmarked_byte = 0\<rparr> \<and>
   IsComplete (fold (\<lambda>(s, e). MarkRange s e) [(1, 3), (0, 2)] \<lparr>bm_bytes = [0xf8], first_unmarked_byte = 0\<rparr>)"
proof -
  have i: "Init (\<lambda>_. True) 3 \<lparr>bm_bytes = [], first_unmarked_byte = 0\<rparr> =
      Some \<lparr>bm_bytes = [0xf8], first_unmarked_byte = 0\<rparr>"
    by (simp add: Init_def size_add_overflows_def MarkRange_def mark_bytes_def BitRange_def skip_marked.simps Let_def
        fill_marked.simps)
  have "{..<3} - (\<Union>(s, e) \<in> set [(1, 3), (0, 2)]. {s..<e}) = ({} :: nat set)"
    by auto
  then show ?thesis
    using DTLSMessageBitmap_tracks_ranges [OF i, of "[(1, 3), (0, 2)]"] i by blast
qed

end
