(* ===== verification/DtlsState.thy ===== *)
theory DtlsState
  imports SslAead DtlsBitmap
begin

text \<open>
  The small parts of a DTLS connection (\<open>ssl/internal.h\<close>): record numbers, the replay window and the
  reconstruction of truncated numbers (\<open>ssl/dtls_record.cc\<close>), timers (\<open>ssl/d1_lib.cc\<close>), the queue that keeps the
  most recent elements, and the encryption of record numbers (\<open>ssl/tls13_enc.cc\<close>).

  \<open>std::bitset<256>\<close> is a word of 256 bits. \<open>now\<close> is the value of \<open>ssl_ctx_get_current_time\<close>. Counts and offsets
  that are bounded by the size of an array are natural numbers.
\<close>

unbundle bit_operations_syntax

subsection \<open>Record numbers\<close>

type_synonym DTLSRecordNumber = u64

definition kMaxSequence :: u64 where
  "kMaxSequence = push_bit 48 1 - 1"

definition make_record_number :: "u16 \<Rightarrow> u64 \<Rightarrow> DTLSRecordNumber outcome" where
  "make_record_number epoch sequence =
     check (sequence \<le> kMaxSequence) (Returns (push_bit 48 (ucast epoch) OR sequence))"

definition rn_epoch :: "DTLSRecordNumber \<Rightarrow> u16" where
  "rn_epoch n = ucast (drop_bit 48 n)"

definition rn_sequence :: "DTLSRecordNumber \<Rightarrow> u64" where
  "rn_sequence n = n AND kMaxSequence"

definition HasNext :: "DTLSRecordNumber \<Rightarrow> bool" where
  "HasNext n \<longleftrightarrow> rn_sequence n < kMaxSequence"

definition Next :: "DTLSRecordNumber \<Rightarrow> DTLSRecordNumber outcome" where
  "Next n = check (HasNext n) (Returns (n + 1))"

subsection \<open>The replay window\<close>

record DTLSReplayBitmap =
  window :: "256 word"
  max_seq_num :: u64

definition empty_replay :: DTLSReplayBitmap where
  "empty_replay = \<lparr>window = 0, max_seq_num = 0\<rparr>"

definition ShouldDiscard :: "u64 \<Rightarrow> DTLSReplayBitmap \<Rightarrow> bool" where
  "ShouldDiscard seq_num b =
     (if seq_num > max_seq_num b then False
      else let idx = unat (max_seq_num b - seq_num) in idx \<ge> 256 \<or> bit (window b) idx)"

definition Record :: "u64 \<Rightarrow> DTLSReplayBitmap \<Rightarrow> DTLSReplayBitmap" where
  "Record seq_num b =
     (let b = (if seq_num > max_seq_num b then
                 let shift = unat (seq_num - max_seq_num b)
                 in \<lparr>window = (if shift \<ge> 256 then 0 else push_bit shift (window b)), max_seq_num = seq_num\<rparr>
               else b);
          idx = unat (max_seq_num b - seq_num)
      in if idx < 256 then b\<lparr>window := set_bit idx (window b)\<rparr> else b)"

subsection \<open>Truncated epochs and sequence numbers\<close>

definition reconstruct_epoch :: "u8 \<Rightarrow> u16 \<Rightarrow> u16" where
  "reconstruct_epoch wire_epoch current_epoch =
     (let current_epoch_high = current_epoch AND 0xfffc;
          epoch = (ucast wire_epoch AND 0x3) OR current_epoch_high
      in if epoch > current_epoch \<and> current_epoch_high > 0 then epoch - 4 else epoch)"

definition reconstruct_seqnum :: "u16 \<Rightarrow> u64 \<Rightarrow> u64 \<Rightarrow> u64 outcome" where
  "reconstruct_seqnum wire_seq seq_mask max_valid_seqnum =
     check (max_valid_seqnum \<le> kMaxSequence) (check (seq_mask = 0xff \<or> seq_mask = 0xffff)
       (let max_seqnum_plus_one = max_valid_seqnum + 1;
            diff = (ucast wire_seq - max_seqnum_plus_one) AND seq_mask;
            step = seq_mask + 1;
            seqnum = max_seqnum_plus_one + diff;
            too_large = (seqnum > kMaxSequence);
            closer_is_less = (diff > step div 2);
            would_underflow = (seqnum < step);
            seqnum = (if too_large \<or> closer_is_less \<and> \<not> would_underflow then seqnum - step else seqnum)
        in check (seqnum \<le> kMaxSequence) (Returns seqnum)))"

subsection \<open>Timers\<close>

record OPENSSL_timeval =
  tv_sec :: u64
  tv_usec :: u32

record DTLSTimer =
  expire_time :: OPENSSL_timeval

definition kNever :: u64 where
  "kNever = - 1"

definition Stop :: DTLSTimer where
  "Stop = \<lparr>expire_time = \<lparr>tv_sec = 0, tv_usec = 0\<rparr>\<rparr>"

definition StartMicroseconds :: "OPENSSL_timeval \<Rightarrow> u64 \<Rightarrow> DTLSTimer" where
  "StartMicroseconds now microseconds =
     (let seconds = microseconds div 1000000;
          microseconds = microseconds mod 1000000;
          usec = tv_usec now + ucast microseconds;
          (usec, seconds) = (if usec \<ge> 1000000 then (usec - 1000000, seconds + 1) else (usec, seconds))
      in if tv_sec now > - 1 - seconds then Stop
         else \<lparr>expire_time = \<lparr>tv_sec = tv_sec now + seconds, tv_usec = usec\<rparr>\<rparr>)"

definition IsSet :: "DTLSTimer \<Rightarrow> bool" where
  "IsSet t \<longleftrightarrow> tv_sec (expire_time t) \<noteq> 0 \<or> tv_usec (expire_time t) \<noteq> 0"

definition MicrosecondsRemaining :: "OPENSSL_timeval \<Rightarrow> DTLSTimer \<Rightarrow> u64" where
  "MicrosecondsRemaining now t =
     (let e = expire_time t
      in if \<not> IsSet t then kNever
         else if tv_sec now > tv_sec e \<or> tv_sec now = tv_sec e \<and> tv_usec now \<ge> tv_usec e then 0
         else let sec = tv_sec e - tv_sec now;
                  (sec, usec) = (if tv_usec e \<ge> tv_usec now then (sec, tv_usec e - tv_usec now)
                                 else (sec - 1, tv_usec e + 1000000 - tv_usec now))
              in if sec = 0 \<and> usec < 15000 then 0
                 else if sec > - 1 div 1000000 then kNever
                 else let sec = sec * 1000000
                      in if sec > - 1 - ucast usec then kNever else sec + ucast usec)"

definition IsExpired :: "OPENSSL_timeval \<Rightarrow> DTLSTimer \<Rightarrow> bool" where
  "IsExpired now t \<longleftrightarrow> MicrosecondsRemaining now t = 0"

subsection \<open>The queue of recent elements\<close>

record 'a MRUQueue =
  storage :: "'a list"
  mru_start :: nat

definition mru_empty :: "'a MRUQueue" where
  "mru_empty = \<lparr>storage = [], mru_start = 0\<rparr>"

definition mru_size :: "'a MRUQueue \<Rightarrow> nat" where
  "mru_size q = length (storage q)"

definition mru_nth :: "nat \<Rightarrow> nat \<Rightarrow> 'a MRUQueue \<Rightarrow> 'a outcome" where
  "mru_nth n i q = check (i < mru_size q) (Returns (storage q ! ((mru_start q + i) mod n)))"

definition PushBack :: "nat \<Rightarrow> 'a \<Rightarrow> 'a MRUQueue \<Rightarrow> 'a MRUQueue outcome" where
  "PushBack n x q =
     (if length (storage q) < n then check (mru_start q = 0) (Returns (q\<lparr>storage := storage q @ [x]\<rparr>))
      else check (0 < mru_size q)
        (Returns (q\<lparr>storage := (storage q)[mru_start q mod n := x], mru_start := (mru_start q + 1) mod n\<rparr>)))"

subsection \<open>Encryption of record numbers\<close>

text \<open>An AES encrypter holds the block function of its key.\<close>

datatype RecordNumberEncrypter =
    AESRecordNumberEncrypter "bytes \<Rightarrow> bytes"
  | ChaChaRecordNumberEncrypter bytes

fun GenerateMask :: "RecordNumberEncrypter \<Rightarrow> nat \<Rightarrow> bytes \<Rightarrow> bytes option" where
  "GenerateMask (AESRecordNumberEncrypter AES_encrypt) out_len sample =
     (if length sample < 16 \<or> out_len > 16 then None else Some (take out_len (AES_encrypt (take 16 sample))))"
| "GenerateMask (ChaChaRecordNumberEncrypter key) out_len sample =
     (if length sample < 16 then None
      else let counter = CRYPTO_load_u32_le (take 4 sample);
               nonce = take 12 (drop 4 sample)
           in Some (CRYPTO_chacha_20 (replicate out_len 0) key nonce counter))"

subsection \<open>Lemmas on record numbers\<close>

lemma unat_kMaxSequence: "unat kMaxSequence = 2 ^ 48 - 1"
  by (simp add: kMaxSequence_def)

lemma kMaxSequence_mask: "kMaxSequence = mask 48"
  by (simp add: kMaxSequence_def mask_eq_exp_minus_1)

lemma unat_rn_sequence: "unat (rn_sequence n) = unat n mod 2 ^ 48"
  by (simp add: rn_sequence_def kMaxSequence_mask unat_take_bit flip: take_bit_eq_mask)

lemma unat_rn_epoch: "unat (rn_epoch n) = unat n div 2 ^ 48"
proof -
  have "unat n div 2 ^ 48 < 2 ^ 16"
    using unat_less [of n] by (simp add: less_mult_imp_div_less)
  then show ?thesis
    by (simp add: rn_epoch_def unat_ucast_mod unat_drop_bit)
qed

lemma rn_sequence_le [simp]: "rn_sequence n \<le> kMaxSequence"
  unfolding word_le_nat_alt unat_rn_sequence unat_kMaxSequence by simp

lemma unat_record_number:
  assumes "s \<le> kMaxSequence"
  shows "unat (push_bit 48 (ucast (e :: u16)) OR s :: u64) = unat e * 2 ^ 48 + unat s"
proof -
  have s: "unat s < 2 ^ 48"
    using assms unfolding word_le_nat_alt unat_kMaxSequence by simp
  have "unat (ucast e :: u64) = unat e"
    by (simp add: unat_ucast_widen)
  moreover have "unat e < 2 ^ 16"
    using unat_less [of e] by simp
  ultimately show ?thesis
    using push_bit_or_small [where n = 48 and v = "ucast e :: u64" and x = s] s by simp
qed

lemma make_record_number_ok:
  assumes "s \<le> kMaxSequence"
  obtains n where "make_record_number e s = Returns n" "rn_epoch n = e" "rn_sequence n = s"
proof -
  define n :: u64 where "n = push_bit 48 (ucast e) OR s"
  have s: "unat s < 2 ^ 48"
    using assms unfolding word_le_nat_alt unat_kMaxSequence by simp
  have n: "unat n = unat e * 2 ^ 48 + unat s"
    unfolding n_def by (rule unat_record_number [OF assms])
  have "rn_epoch n = e" "rn_sequence n = s"
    using s by (simp_all add: word_unat_eq_iff unat_rn_epoch unat_rn_sequence n)
  then show ?thesis
    using that [of n] assms by (simp add: make_record_number_def n_def)
qed

lemma record_number_eqI: "rn_epoch m = rn_epoch n \<Longrightarrow> rn_sequence m = rn_sequence n \<Longrightarrow> m = n"
  by (metis unat_rn_epoch unat_rn_sequence div_mult_mod_eq word_unat_eq_iff)

lemma Next_ok:
  assumes "HasNext n"
  shows "Next n = Returns (n + 1)" "rn_epoch (n + 1) = rn_epoch n" "unat (rn_sequence (n + 1)) = unat (rn_sequence n) + 1"
proof -
  show "Next n = Returns (n + 1)"
    using assms by (simp add: Next_def)
  define q r where "q = unat n div 2 ^ 48" and "r = unat n mod 2 ^ 48"
  have r: "r + 1 < 2 ^ 48"
    using assms unfolding HasNext_def word_less_nat_alt unat_rn_sequence unat_kMaxSequence r_def by linarith
  have q: "q < 2 ^ 16"
    using unat_less [of n] by (simp add: less_mult_imp_div_less q_def)
  have n: "unat n = q * 2 ^ 48 + r"
    unfolding q_def r_def by (simp only: div_mult_mod_eq)
  have "unat n + 1 < 2 ^ 64"
    using r q n by simp
  then have u: "unat (n + 1) = q * 2 ^ 48 + (r + 1)"
    using n by (simp add: unat_word_ariths)
  have "unat (n + 1) div 2 ^ 48 = q" "unat (n + 1) mod 2 ^ 48 = r + 1"
    unfolding u using r by simp_all
  then show "rn_epoch (n + 1) = rn_epoch n" "unat (rn_sequence (n + 1)) = unat (rn_sequence n) + 1"
    by (simp_all add: word_unat_eq_iff unat_rn_epoch unat_rn_sequence q_def r_def)
qed

subsection \<open>Lemmas on the replay window\<close>

text \<open>The window stands for a set \<open>acc\<close> of accepted sequence numbers.\<close>

definition replay_rel :: "DTLSReplayBitmap \<Rightarrow> nat set \<Rightarrow> bool" where
  "replay_rel b acc \<longleftrightarrow> (\<forall>s \<in> acc. s \<le> unat (max_seq_num b)) \<and>
     (unat (max_seq_num b) = 0 \<or> unat (max_seq_num b) \<in> acc) \<and>
     (\<forall>i < 256. bit (window b) i \<longleftrightarrow> i \<le> unat (max_seq_num b) \<and> unat (max_seq_num b) - i \<in> acc)"

lemma replay_rel_empty: "replay_rel empty_replay {}"
  by (simp add: replay_rel_def empty_replay_def)

lemma ShouldDiscard_iff:
  assumes "replay_rel b acc"
  shows "ShouldDiscard s b \<longleftrightarrow> unat s \<in> acc \<or> unat s + 256 \<le> unat (max_seq_num b)"
proof (cases "max_seq_num b < s")
  case True
  then show ?thesis
    using assms by (auto simp: ShouldDiscard_def replay_rel_def word_less_nat_alt)
next
  case False
  then have "unat (max_seq_num b - s) = unat (max_seq_num b) - unat s" "unat s \<le> unat (max_seq_num b)"
    by (simp_all add: unat_sub word_le_nat_alt not_less)
  moreover from this have "bit (window b) (unat (max_seq_num b) - unat s) \<longleftrightarrow> unat s \<in> acc"
    if "unat (max_seq_num b) - unat s < 256"
    using assms that by (simp add: replay_rel_def)
  ultimately show ?thesis
    using False by (cases "unat (max_seq_num b) - unat s < 256") (auto simp: ShouldDiscard_def Let_def)
qed

lemma bit_set_bit_window: "bit (set_bit n (w :: 256 word)) i \<longleftrightarrow> bit w i \<or> i = n \<and> n < 256"
  by (auto simp: set_bit_eq_or bit_or_iff bit_exp_iff)

lemma Record_rel:
  assumes rel: "replay_rel b acc" and fresh: "\<not> ShouldDiscard s b"
  shows "replay_rel (Record s b) (insert (unat s) acc)"
proof -
  define m where "m = unat (max_seq_num b)"
  have acc: "\<And>s. s \<in> acc \<Longrightarrow> s \<le> m" and w: "\<And>i. i < 256 \<Longrightarrow> bit (window b) i \<longleftrightarrow> i \<le> m \<and> m - i \<in> acc"
    using rel by (auto simp: replay_rel_def m_def)
  show ?thesis
  proof (cases "max_seq_num b < s")
    case True
    define d where "d = unat s - m"
    have d: "unat (s - max_seq_num b) = d" "unat s = m + d" "0 < d"
      using True by (simp_all add: d_def m_def unat_sub word_le_nat_alt word_less_nat_alt)
    define w' :: "256 word" where "w' = (if d \<ge> 256 then 0 else push_bit d (window b))"
    have r: "Record s b = \<lparr>window = set_bit 0 w', max_seq_num = s\<rparr>"
      using True d by (simp add: Record_def Let_def w'_def)
    have "bit (set_bit 0 w') i \<longleftrightarrow> i \<le> m + d \<and> m + d - i \<in> insert (m + d) acc" if "i < 256" for i
    proof (cases "i = 0")
      case False
      have "bit w' i \<longleftrightarrow> d \<le> i \<and> bit (window b) (i - d)"
        using that d by (auto simp: w'_def bit_push_bit_iff)
      moreover have "m + d - i \<in> acc \<longleftrightarrow> d \<le> i \<and> m - (i - d) \<in> acc" if "i \<le> m + d"
        using acc [of "m + d - i"] that by (cases "d \<le> i") auto
      ultimately show ?thesis
        using False that w [of "i - d"] by (auto simp: bit_set_bit_window)
    qed (simp add: bit_set_bit_window)
    then show ?thesis
      using acc d by (fastforce simp: r replay_rel_def)
  next
    case False
    define k where "k = m - unat s"
    have k: "unat (max_seq_num b - s) = k" "unat s = m - k" "k \<le> m"
      using False by (simp_all add: k_def m_def unat_sub word_le_nat_alt not_less)
    have "k < 256"
      using fresh rel k by (auto simp: ShouldDiscard_iff m_def)
    then have "Record s b = b\<lparr>window := set_bit k (window b)\<rparr>"
      using False k by (simp add: Record_def Let_def)
    moreover have "bit (set_bit k (window b)) i \<longleftrightarrow> i \<le> m \<and> m - i \<in> insert (unat s) acc" if "i < 256" for i
      using w [OF that] k that by (auto simp: bit_set_bit_window)
    moreover have "m = 0 \<or> m \<in> insert (unat s) acc"
      using rel by (auto simp: replay_rel_def m_def)
    ultimately show ?thesis
      using acc k by (auto simp: replay_rel_def m_def [symmetric])
  qed
qed

text \<open>The receiver accepts the numbers that are not to be discarded and records them.\<close>

fun replay_run :: "DTLSReplayBitmap \<Rightarrow> u64 list \<Rightarrow> DTLSReplayBitmap \<times> u64 list" where
  "replay_run b [] = (b, [])"
| "replay_run b (s # ss) =
     (if ShouldDiscard s b then replay_run b ss
      else let (b', acc) = replay_run (Record s b) ss in (b', s # acc))"

lemma replay_run_rel:
  "replay_rel b acc \<Longrightarrow> replay_run b ss = (b', new) \<Longrightarrow>
   replay_rel b' (acc \<union> unat ` set new) \<and> distinct new \<and> acc \<inter> unat ` set new = {}"
proof (induction ss arbitrary: b acc new)
  case (Cons s ss)
  show ?case
  proof (cases "ShouldDiscard s b")
    case True
    then show ?thesis
      using Cons by simp
  next
    case False
    then obtain new' where new: "replay_run (Record s b) ss = (b', new')" "new = s # new'"
      using Cons.prems(2) by (auto split: prod.splits)
    have "unat s \<notin> acc"
      using False Cons.prems(1) by (simp add: ShouldDiscard_iff)
    then show ?thesis
      using Cons.IH [OF Record_rel [OF Cons.prems(1) False] new(1)] new(2) by (auto simp: word_unat_eq_iff)
  qed
qed simp

text \<open>
  C39: Replay protection. Whatever sequence numbers arrive from the start of an epoch, no number is accepted twice, and
  the next one is discarded in exactly two cases: it was accepted before, or it lies 256 or more below the largest
  number accepted.
\<close>

theorem DTLSReplayBitmap_rejects_replays:
  "case replay_run empty_replay ss of (b, acc) \<Rightarrow>
     distinct acc \<and>
     (ShouldDiscard s b \<longleftrightarrow> s \<in> set acc \<or> (\<exists>m \<in> set acc. unat s + 256 \<le> unat m))"
proof -
  obtain b acc where run: "replay_run empty_replay ss = (b, acc)"
    by fastforce
  have rel: "replay_rel b (unat ` set acc)" and "distinct acc"
    using replay_run_rel [OF replay_rel_empty run] by simp_all
  moreover have "unat s + 256 \<le> unat (max_seq_num b) \<longleftrightarrow> (\<exists>m \<in> set acc. unat s + 256 \<le> unat m)"
    using rel by (force simp: replay_rel_def)
  moreover have "unat s \<in> unat ` set acc \<longleftrightarrow> s \<in> set acc"
    by (auto simp: image_iff dest: word_unat_eq_iff [THEN iffD2])
  ultimately show ?thesis
    using ShouldDiscard_iff [OF rel, of s] by (simp add: run)
qed

subsection \<open>Lemmas on truncated numbers\<close>

lemma unat_and_mask: "unat (w AND mask n :: u64) = unat w mod 2 ^ n"
  by (simp add: unat_take_bit flip: take_bit_eq_mask)

lemma reconstruct_seqnum_nat:
  fixes wire :: u16 and max_valid :: u64 and k :: nat
  assumes max: "max_valid \<le> kMaxSequence" and k: "k = 8 \<or> k = 16"
  defines "m \<equiv> unat max_valid + 1" and "d \<equiv> (unat wire + (2 ^ 64 - (unat max_valid + 1))) mod 2 ^ k"
  shows "reconstruct_seqnum wire (mask k) max_valid =
     (let r = (if m + d > 2 ^ 48 - 1 \<or> d > 2 ^ k div 2 \<and> 2 ^ k \<le> m + d then m + d - 2 ^ k else m + d)
      in Returns (word_of_nat r))"
    and "(m + d) mod 2 ^ k = unat wire mod 2 ^ k"
proof -
  have "unat max_valid \<le> 2 ^ 48 - 1"
    using max unfolding word_le_nat_alt unat_kMaxSequence .
  then have m: "m \<le> 2 ^ 48"
    unfolding m_def by simp
  have d: "d < 2 ^ k"
    by (simp add: d_def)
  have k2: "(2 :: nat) ^ k dvd 2 ^ 64" "(2 :: nat) ^ k \<le> 2 ^ 16"
    using k by (auto simp: le_imp_power_dvd)
  have md: "m + d < 2 ^ 64"
    using m d k2(2) by simp
  have "(m + d) mod 2 ^ k = (m + (unat wire + (2 ^ 64 - m))) mod 2 ^ k"
    unfolding d_def m_def by (rule mod_add_right_eq)
  also have "m + (unat wire + (2 ^ 64 - m)) = unat wire + 2 ^ 64"
    using m by simp
  finally show "(m + d) mod 2 ^ k = unat wire mod 2 ^ k"
    by (metis add_0_right dvd_imp_mod_0 k2(1) mod_add_right_eq)
  have u1: "unat (max_valid + 1) = m"
    using m by (simp add: unat_word_ariths m_def)
  have u2: "unat ((ucast wire - (max_valid + 1)) AND mask k) = d"
  proof -
    have "word_of_nat m = max_valid + 1"
      by (simp add: m_def)
    then have "ucast wire - (max_valid + 1) = (word_of_nat (unat wire + (2 ^ 64 - m)) :: u64)"
      using m by (simp add: of_nat_diff)
    then have "unat (ucast wire - (max_valid + 1)) = (unat wire + (2 ^ 64 - m)) mod 2 ^ 64"
      by (simp only: unat_of_nat) simp
    then show ?thesis
      by (simp only: unat_and_mask mod_mod_cancel [OF k2(1)]) (simp only: d_def m_def)
  qed
  have u3: "unat (max_valid + 1 + ((ucast wire - (max_valid + 1)) AND mask k)) = m + d"
  proof -
    have "unat (a + b) = unat a + unat b" if "unat a + unat b < 2 ^ 64" for a b :: u64
      using that by (simp add: unat_word_ariths)
    then show ?thesis
      using md u1 u2 by metis
  qed
  have u4: "unat (mask k + 1 :: u64) = 2 ^ k"
    using k by (auto simp: mask_eq_exp_minus_1)
  show "reconstruct_seqnum wire (mask k) max_valid =
     (let r = (if m + d > 2 ^ 48 - 1 \<or> d > 2 ^ k div 2 \<and> 2 ^ k \<le> m + d then m + d - 2 ^ k else m + d)
      in Returns (word_of_nat r))"
  proof -
    have cmp: "mask k = (0xff :: u64) \<or> mask k = (0xffff :: u64)"
      using k by (auto simp: mask_eq_exp_minus_1)
    have half: "unat ((mask k + 1) div 2 :: u64) = 2 ^ k div 2"
      using u4 by (simp add: unat_div)
    define x where "x = max_valid + 1 + ((ucast wire - (max_valid + 1)) AND mask k)"
    have xu: "unat x = m + d"
      unfolding x_def by (rule u3)
    have c: "x > kMaxSequence \<longleftrightarrow> m + d > 2 ^ 48 - 1" "x < mask k + 1 \<longleftrightarrow> \<not> 2 ^ k \<le> m + d"
      "(ucast wire - (max_valid + 1)) AND mask k > (mask k + 1) div 2 \<longleftrightarrow> d > 2 ^ k div 2"
      unfolding word_less_nat_alt unat_kMaxSequence xu u4 u2 half by (simp_all add: not_le)
    define big where "big \<longleftrightarrow> m + d > 2 ^ 48 - 1 \<or> d > 2 ^ k div 2 \<and> 2 ^ k \<le> m + d"
    have le: "2 ^ k \<le> m + d" if big
      using that k2(2) by (auto simp: big_def)
    have y: "(if big then x - (mask k + 1) else x) = word_of_nat (if big then m + d - 2 ^ k else m + d)"
    proof (cases big)
      case True
      have e: "unat (x - (mask k + 1)) = m + d - 2 ^ k"
        using le [OF True] by (subst unat_sub) (simp_all add: word_le_nat_alt xu u4)
      show ?thesis
        using True unfolding e [symmetric] by simp
    next
      case False
      then show ?thesis
        unfolding xu [symmetric] by simp
    qed
    have "(if big then m + d - 2 ^ k else m + d) \<le> 2 ^ 48 - 1"
      using m d by (auto simp: big_def)
    then have "word_of_nat (if big then m + d - 2 ^ k else m + d) \<le> kMaxSequence"
      unfolding word_le_nat_alt unat_kMaxSequence using md by (subst unat_word_of_nat) (auto split: if_splits)
    then show ?thesis
      unfolding reconstruct_seqnum_def Let_def x_def [symmetric] c not_not big_def [symmetric] y
      using max cmp by simp
  qed
qed

text \<open>The candidates for a reconstruction differ by multiples of \<open>M\<close>; the code considers the two around \<open>m\<close>.\<close>

lemma closest_candidate:
  fixes m d M s top :: nat
  assumes d: "d < M" and s: "s mod M = (m + d) mod M" "s < top"
  defines "r \<equiv> if m + d \<ge> top \<or> d > M div 2 \<and> M \<le> m + d then m + d - M else m + d"
  assumes M: "M \<le> m + d \<or> m + d < top"
  shows "\<bar>int r - int m\<bar> \<le> \<bar>int s - int m\<bar>"
proof -
  obtain q :: int where q: "int s = int (m + d) + q * int M"
    using s(1) by (metis add_diff_cancel_left' diff_add_cancel dvd_def mod_eq_dvd_iff mult.commute of_nat_mod)
  define t where "t = q * int M"
  have "0 \<le> t \<or> t \<le> - int M"
    using mult_right_mono [of q "- 1" "int M"] by (cases "0 \<le> q") (auto simp: t_def)
  then show ?thesis
    using q s(2) d M unfolding t_def [symmetric] by (auto simp: r_def)
qed

lemma reconstruct_seqnum_closest:
  fixes wire :: u16 and max_valid :: u64 and k :: nat
  assumes max: "max_valid \<le> kMaxSequence" and k: "k = 8 \<or> k = 16"
  obtains r where "reconstruct_seqnum wire (mask k) max_valid = Returns r" "r \<le> kMaxSequence"
    "unat r mod 2 ^ k = unat wire mod 2 ^ k"
    "\<And>s. s < 2 ^ 48 \<Longrightarrow> s mod 2 ^ k = unat wire mod 2 ^ k \<Longrightarrow>
       \<bar>int (unat r) - (int (unat max_valid) + 1)\<bar> \<le> \<bar>int s - (int (unat max_valid) + 1)\<bar>"
proof -
  define m where "m = unat max_valid + 1"
  define d where "d = (unat wire + (2 ^ 64 - (unat max_valid + 1))) mod 2 ^ k"
  define n where "n = (if m + d \<ge> 2 ^ 48 \<or> d > 2 ^ k div 2 \<and> 2 ^ k \<le> m + d then m + d - 2 ^ k else m + d)"
  note rec = reconstruct_seqnum_nat [OF max k, of wire, folded m_def d_def]
  have d: "d < 2 ^ k" and M: "(2 :: nat) ^ k \<le> 2 ^ 16"
    using k by (auto simp: d_def)
  have m: "m \<le> 2 ^ 48"
    using max unfolding word_le_nat_alt unat_kMaxSequence m_def by simp
  have n: "n < 2 ^ 48"
    using m d by (auto simp: n_def)
  have big: "2 ^ k \<le> m + d \<or> m + d < 2 ^ 48"
    using M by auto
  have nm: "n mod 2 ^ k = unat wire mod 2 ^ k"
    using rec(2) big by (auto simp: n_def le_mod_geq [symmetric])
  have u: "unat (word_of_nat n :: u64) = n"
    using n by (simp add: unat_word_of_nat)
  have "reconstruct_seqnum wire (mask k) max_valid = Returns (word_of_nat n)"
    unfolding rec(1) n_def Let_def by (simp add: Suc_le_eq [symmetric])
  moreover have "(word_of_nat n :: u64) \<le> kMaxSequence"
    unfolding word_le_nat_alt u unat_kMaxSequence using n by simp
  moreover have "\<bar>int n - (int (unat max_valid) + 1)\<bar> \<le> \<bar>int s - (int (unat max_valid) + 1)\<bar>"
    if "s < 2 ^ 48" "s mod 2 ^ k = unat wire mod 2 ^ k" for s
    using closest_candidate [OF d, of s m "2 ^ 48"] that rec(2) big by (simp add: n_def m_def)
  ultimately show ?thesis
    using that [of "word_of_nat n"] u nm by simp
qed

text \<open>
  C40: \<open>reconstruct_seqnum\<close> returns the valid sequence number that is numerically closest to one plus the largest
  number received so far, among all those that end in the 8 or 16 bits on the wire.
\<close>

theorem reconstruct_seqnum_is_closest:
  assumes "max_valid \<le> kMaxSequence" and "seq_mask = 0xff \<or> seq_mask = 0xffff"
  shows "\<exists>r. reconstruct_seqnum wire seq_mask max_valid = Returns r \<and> r \<le> kMaxSequence \<and>
    r AND seq_mask = ucast wire AND seq_mask \<and>
    (\<forall>s. s \<le> kMaxSequence \<and> s AND seq_mask = ucast wire AND seq_mask \<longrightarrow>
       \<bar>int (unat r) - (int (unat max_valid) + 1)\<bar> \<le> \<bar>int (unat s) - (int (unat max_valid) + 1)\<bar>)"
proof -
  obtain k :: nat where k: "k = 8 \<or> k = 16" "seq_mask = mask k"
    using assms(2) that [of 8] that [of 16] by (auto simp: mask_eq_exp_minus_1)
  have eq: "s AND mask k = ucast wire AND mask k \<longleftrightarrow> unat s mod 2 ^ k = unat wire mod 2 ^ k" for s :: u64
    unfolding word_unat_eq_iff unat_and_mask by (simp add: unat_ucast_widen)
  have le: "unat s < 2 ^ 48" if "s \<le> kMaxSequence" for s
    using that unfolding word_le_nat_alt unat_kMaxSequence by simp
  obtain r where "reconstruct_seqnum wire (mask k) max_valid = Returns r" "r \<le> kMaxSequence"
    "unat r mod 2 ^ k = unat wire mod 2 ^ k"
    "\<And>s. s < 2 ^ 48 \<Longrightarrow> s mod 2 ^ k = unat wire mod 2 ^ k \<Longrightarrow>
       \<bar>int (unat r) - (int (unat max_valid) + 1)\<bar> \<le> \<bar>int s - (int (unat max_valid) + 1)\<bar>"
    using reconstruct_seqnum_closest [OF assms(1) k(1)] by metis
  then show ?thesis
    unfolding k(2) eq using le by blast
qed

theorem reconstruct_seqnum_is_closest_witness:
  "\<exists>r. reconstruct_seqnum 3 0xff 0x1fe = Returns r \<and>
     \<bar>int (unat r) - (int (unat (0x1fe :: u64)) + 1)\<bar> \<le> \<bar>int (unat (0x203 :: u64)) - (int (unat (0x1fe :: u64)) + 1)\<bar>"
proof -
  have "(0x1fe :: u64) \<le> kMaxSequence" "(0x203 :: u64) \<le> kMaxSequence"
    by (simp_all add: kMaxSequence_def)
  moreover have "(0x203 :: u64) AND 0xff = ucast (3 :: u16) AND 0xff"
    by simp
  ultimately show ?thesis
    using reconstruct_seqnum_is_closest [of "0x1fe" "0xff" 3] by blast
qed

lemma reconstruct_seqnum_near:
  assumes max: "max_valid \<le> kMaxSequence" and s: "s \<le> kMaxSequence" and k: "k = 8 \<or> k = 16"
    and wire: "unat wire mod 2 ^ k = unat s mod 2 ^ k"
    and near: "\<bar>int (unat s) - (int (unat max_valid) + 1)\<bar> < 2 ^ k div 2"
  shows "reconstruct_seqnum wire (mask k) max_valid = Returns s"
proof -
  have "unat s < 2 ^ 48"
    using s unfolding word_le_nat_alt unat_kMaxSequence by simp
  then obtain r where r: "reconstruct_seqnum wire (mask k) max_valid = Returns r"
    "unat r mod 2 ^ k = unat s mod 2 ^ k"
    "\<bar>int (unat r) - (int (unat max_valid) + 1)\<bar> \<le> \<bar>int (unat s) - (int (unat max_valid) + 1)\<bar>"
    using reconstruct_seqnum_closest [OF max k, of wire] wire by metis
  have two: "(2 :: int) ^ k div 2 + 2 ^ k div 2 = 2 ^ k"
    using k by auto
  then have "\<bar>int (unat r) - int (unat s)\<bar> < 2 ^ k"
    using r(3) near by linarith
  moreover have "(2 :: int) ^ k dvd int (unat r) - int (unat s)"
    using r(2) by (metis mod_eq_dvd_iff of_nat_mod of_nat_numeral of_nat_power)
  ultimately have "int (unat r) - int (unat s) = 0"
    using dvd_imp_le_int [of "int (unat r) - int (unat s)" "2 ^ k"] by fastforce
  then have "unat r = unat s"
    by linarith
  then show ?thesis
    using r(1) by (simp add: word_unat_eq_iff [symmetric])
qed

lemma reconstruct_epoch_spec:
  assumes "unat wire mod 4 = e mod 4" "e \<le> unat current" "unat current < e + 4"
  shows "unat (reconstruct_epoch wire current) = e"
proof -
  define h where "h = unat current div 4"
  define w where "w = unat wire mod 4"
  have hm: "(0xfffc :: u16) = NOT (mask 2)" "(3 :: u16) = mask 2"
    by (simp_all add: mask_eq_exp_minus_1)
  have hi: "current AND NOT (mask 2) = push_bit 2 (drop_bit 2 current)"
  proof (rule bit_word_eqI)
    fix n
    show "bit (current AND NOT (mask 2)) n = bit (push_bit 2 (drop_bit 2 current)) n"
      using le_add_diff_inverse [of 2 n]
      by (auto simp: bit_and_iff bit_not_iff bit_mask_iff bit_push_bit_iff bit_drop_bit_eq not_less
          simp del: add_2_eq_Suc dest: bit_imp_le_length)
  qed
  have h: "unat (drop_bit 2 current) = h" "h * 4 \<le> unat current" "unat current < h * 4 + 4" "unat current < 2 ^ 16"
    using unat_less [of current] unfolding h_def by (simp_all add: unat_drop_bit)
  have wl: "unat (ucast wire AND mask 2 :: u16) = w"
    by (simp add: w_def unat_take_bit unat_ucast_widen flip: take_bit_eq_mask)
  have "w < 4"
    by (simp add: w_def)
  moreover have "h < 2 ^ 14"
    using h(2,4) by simp
  ultimately have hw: "unat ((ucast wire AND mask 2) OR push_bit 2 (drop_bit 2 current)) = h * 4 + w"
    using push_bit_or_small [where n = 2 and v = "drop_bit 2 current" and x = "ucast wire AND mask 2"] h wl
    by (simp add: or.commute)
  have hp: "unat (push_bit 2 (drop_bit 2 current)) = h * 4"
    using push_bit_or_small [where n = 2 and v = "drop_bit 2 current" and x = 0] h by simp
  define a where "a = e div 4"
  have ea: "e = 4 * a + w"
    using assms(1) div_mult_mod_eq [of e 4] unfolding a_def w_def by simp
  have bounds: "4 * a + w \<le> unat current" "unat current < 4 * a + w + 4"
    using assms(2,3) by (simp_all add: ea)
  have e: "e = (if h * 4 + w \<le> unat current then h * 4 + w else h * 4 + w - 4) \<and> (h * 4 + w \<le> unat current \<or> 0 < h)"
  proof (cases "h * 4 + w \<le> unat current")
    case True
    then have "a = h" using bounds h \<open>w < 4\<close> by arith
    then show ?thesis using True by (simp add: ea)
  next
    case False
    then have "h = Suc a" using bounds h \<open>w < 4\<close> by arith
    then show ?thesis using False by (simp add: ea)
  qed
  show ?thesis
    unfolding reconstruct_epoch_def hm hi Let_def word_less_nat_alt hw hp
    using e hw by (auto simp: unat_sub word_le_nat_alt)
qed

subsection \<open>Lemmas on the queue\<close>

text \<open>The elements in the order of their insertion, and the invariant that the assertion in \<open>PushBack\<close> needs.\<close>

definition mru_list :: "'a MRUQueue \<Rightarrow> 'a list" where
  "mru_list q = rotate (mru_start q) (storage q)"

definition mru_inv :: "nat \<Rightarrow> 'a MRUQueue \<Rightarrow> bool" where
  "mru_inv n q \<longleftrightarrow> 0 < n \<and> length (storage q) \<le> n \<and> mru_start q < n \<and> (length (storage q) < n \<longrightarrow> mru_start q = 0)"

lemma mru_inv_empty: "0 < n \<Longrightarrow> mru_inv n mru_empty"
  by (simp add: mru_inv_def mru_empty_def)

lemma mru_nth_list:
  assumes "mru_inv n q"
  shows "mru_nth n i q = (if i < length (mru_list q) then Returns (mru_list q ! i) else Aborts)"
proof (cases "length (storage q) = n")
  case True
  then show ?thesis
    by (simp add: mru_nth_def mru_size_def mru_list_def check_def nth_rotate)
next
  case False
  then show ?thesis
    using assms by (auto simp: mru_nth_def mru_size_def mru_list_def check_def mru_inv_def)
qed

lemma PushBack_spec:
  assumes inv: "mru_inv n q"
  obtains q' where "PushBack n x q = Returns q'" "mru_inv n q'"
    "mru_list q' = (if length (mru_list q) < n then mru_list q @ [x] else tl (mru_list q) @ [x])"
proof (cases "length (storage q) < n")
  case True
  then show ?thesis
    using that inv by (simp add: PushBack_def mru_inv_def mru_list_def)
next
  case False
  then have len: "length (storage q) = n" "mru_start q < n" "0 < n"
    using inv by (auto simp: mru_inv_def)
  define q' where "q' = q\<lparr>storage := (storage q)[mru_start q := x], mru_start := (mru_start q + 1) mod n\<rparr>"
  have "mru_list q' = tl (mru_list q) @ [x]"
  proof (rule nth_equalityI)
    fix i assume "i < length (mru_list q')"
    then have i: "i < n"
      using len by (simp add: q'_def mru_list_def)
    have "mru_list q' ! i = (storage q)[mru_start q := x] ! (((mru_start q + 1) mod n + i) mod n)"
      using len i by (simp add: q'_def mru_list_def nth_rotate)
    also have "((mru_start q + 1) mod n + i) mod n = (mru_start q + 1 + i) mod n"
      by (rule mod_add_left_eq)
    finally have lhs: "mru_list q' ! i = (storage q)[mru_start q := x] ! ((mru_start q + 1 + i) mod n)" .
    show "mru_list q' ! i = (tl (mru_list q) @ [x]) ! i"
    proof (cases "i = n - 1")
      case True
      then have "(mru_start q + 1 + i) mod n = mru_start q"
        using len by simp
      then show ?thesis
        unfolding lhs using len True i by (simp add: mru_list_def nth_append)
    next
      case False
      then have "(mru_start q + 1 + i) mod n \<noteq> mru_start q"
        using len i by (cases "mru_start q + 1 + i < n") (simp_all add: le_mod_geq)
      moreover have "i < n - 1"
        using False i by simp
      ultimately show ?thesis
        unfolding lhs using len by (simp add: mru_list_def nth_rotate nth_append nth_tl)
    qed
  qed (use len in \<open>simp add: q'_def mru_list_def\<close>)
  moreover have "PushBack n x q = Returns q'" "mru_inv n q'"
    using len by (simp_all add: PushBack_def mru_size_def q'_def mru_inv_def)
  ultimately show ?thesis
    using that len by (simp add: mru_list_def)
qed

end
