(* ===== verification/Spec2Isabelle.thy ===== *)
theory Spec2Isabelle
  imports Oid StackSort CbsTime Pool Unicode Base64 DtlsState
begin

text \<open>
  A verification development for BoringSSL. Paths are relative to \<open>src/\<close>.

  \<^bold>\<open>The program.\<close> BoringSSL is a library in layers. At the bottom are helpers used everywhere: branch-free
  comparisons, carries and byte order (\<open>crypto/internal.h\<close>), allocation (\<open>crypto/mem.cc\<close>) and reference counts
  (\<open>crypto/refcount.cc\<close>). On these stand the containers: the pointer stack (\<open>crypto/stack\<close>), the hash table
  (\<open>crypto/lhash\<close>), and the pool that shares equal buffers (\<open>crypto/pool\<close>), which keeps reference-counted
  buffers in a hash table keyed by SipHash (\<open>crypto/siphash\<close>). Parsing and serializing use the byte-string
  reader \<open>CBS\<close> and the builder \<open>CBB\<close> (\<open>crypto/bytestring\<close>), with DER, object identifiers, times and Unicode on
  top, and base64 (\<open>crypto/base64\<close>) for text. The ciphers modelled are ChaCha20 and Poly1305 and the AEADs
  made of them, behind the table of function pointers \<open>EVP_AEAD\<close>. Of the TLS library (\<open>ssl\<close>) the parts below its
  state machines are modelled: the protection of records, which calls the AEADs, and the bookkeeping of DTLS.

  \<^bold>\<open>The theories and the code.\<close>
  \<^item> \<open>Prelude\<close>: names of the integer types, big-endian numbers, lemmas on words and options.
  \<^item> \<open>Internal\<close>: the inline functions of \<open>crypto/internal.h\<close>. Masks, selection, carries and byte order, each
    with its meaning as a number (\<open>constant_time_masks\<close>, \<open>CRYPTO_addc_subc_exact\<close>).
  \<^item> \<open>Mem\<close>: \<open>crypto/mem.cc\<close>. The C library's \<open>malloc\<close> is a parameter with the contract \<open>libc_malloc\<close>; an
    allocation carries the size prefix of the code.
  \<^item> \<open>Cbs\<close>: the readers of \<open>crypto/bytestring/cbs.cc\<close>, one definition per function. \<open>Der\<close> and \<open>DerValues\<close>
    relate them to a grammar of tags, lengths, integers and object identifiers; \<open>CbsTime\<close> to calendar times.
  \<^item> \<open>Cbb\<close>: the builder of \<open>crypto/bytestring/cbb.cc\<close>. A builder is a base buffer and a stack of open
    children. \<open>CbbSpec\<close> gives writers an abstract meaning as bytes appended to a tree of frames, \<open>CbbDer\<close>
    shows that flushing and finishing implement it and that what was written reads back.
  \<^item> \<open>Oid\<close>: the text form of object identifiers and the sorting of a DER SET OF.
  \<^item> \<open>Unicode\<close>, \<open>Base64\<close>: \<open>crypto/bytestring/unicode.cc\<close> and \<open>crypto/base64/base64.cc\<close>.
  \<^item> \<open>Stack\<close>, \<open>StackSort\<close>: \<open>crypto/stack/stack.cc\<close>. Every operation refines one on lists; heap sort sorts.
  \<^item> \<open>PosixTime\<close>: \<open>crypto/asn1/posix_time.cc\<close> against the count of days of the Gregorian calendar.
  \<^item> \<open>Lhash\<close>, \<open>SipHash\<close>, \<open>Refcount\<close>, \<open>Pool\<close>: the hash table refines a map for every hash function that respects
    the comparison; the reference count is a step relation in which threads interleave between the load and
    the compare-and-exchange; the pool is a step relation over its critical sections.
  \<^item> \<open>ChaCha\<close>: \<open>crypto/chacha/chacha.cc\<close>. \<open>Poly1305\<close>, \<open>Poly1305Mac\<close>, \<open>Poly1305Tag\<close>: the portable
    \<open>crypto/poly1305/poly1305.cc\<close> with its limb arithmetic, against RFC 8439.
  \<^item> \<open>Aead\<close>, \<open>AeadChaCha\<close>: the AEAD interface and \<open>crypto/cipher/e_chacha20poly1305.cc\<close>.
  \<^item> \<open>SslAead\<close>: \<open>ssl/ssl_aead_ctx.cc\<close> and the tables it reads. Its lemmas show that the assertions of \<open>Create\<close>, \<open>Open\<close> and
    \<open>SealScatter\<close> hold and that a protected record opens to its contents.
  \<^item> \<open>DtlsBitmap\<close>: \<open>DTLSMessageBitmap\<close> of \<open>ssl/d1_both.cc\<close> tracks the set of bits not yet marked. \<open>DtlsState\<close>: record
    numbers, the replay window, the reconstruction of truncated numbers, timers and the queue of recent elements
    (\<open>ssl/internal.h\<close>, \<open>ssl/dtls_record.cc\<close>, \<open>ssl/d1_lib.cc\<close>, \<open>ssl/tls13_enc.cc\<close>).

  \<^bold>\<open>State, errors and loops.\<close> A struct is a record or, where it only spans bytes, a list. A function that returns 0
  for an error returns \<^const>\<open>None\<close>; the outputs of a failed call, which callers may not read, are not part of the
  model. Integers are words of their width wherever a computation can wrap around; where a signed
  computation on unchecked operands could overflow, the overflow is an outcome of its own (\<open>c_int\<close> in \<open>PosixTime\<close>),
  and a failed assertion of the TLS code is the outcome \<open>Aborts\<close>; lengths of buffers that
  exist in memory are natural numbers. Loops are recursive functions with a termination proof. The loops of the reference
  count can retry for ever under contention; their termination is proved for a bound on the spurious failures and on the
  steps of other threads.

  \<^bold>\<open>Parameters.\<close> The C library's allocator (locale \<open>libc_malloc\<close>, instance \<open>bounded_malloc\<close>), the callbacks of stacks and
  hash tables (\<open>lhash_callbacks\<close>, instance: the pool's own callbacks) and the assembly routine \<open>ChaCha20_ctr32\<close>
  (\<open>chacha_ctr32\<close>, instance: the portable block loop). The table of algorithms that \<open>SslAead\<close> reads is an argument of
  its functions.

  \<^bold>\<open>Findings.\<close> \<open>OPENSSL_sk_set\<close> keeps the flag \<open>sorted\<close> of a stack although it can unsort it. The portable Poly1305
  drops a carry in its final reduction and returns a wrong tag for some inputs. The parser of
  times adds a zone offset where it has to be subtracted, and leaves three fields of the result unset.

  \<^bold>\<open>Not modelled.\<close> The FIPS module (big numbers, curves, RSA, AES, the SHA family) and the other ciphers and signatures
  built on it, because the fast paths are assembly and the rest is field arithmetic of its own;
  X.509, the ASN.1 templates and the certificate verifier \<open>pki\<close>, which are built on the template interpreter;
  the TLS state machines and the parsing of whole records, which work on the connection object; files, sockets and threads, which are
  the operating system's; tables and code generated by scripts; tests, tools and bindings.
\<close>

end
